(* ===== verification/Prelude.thy ===== *)
theory Prelude
  imports Main "HOL-Library.Word" "HOL-Library.Monad_Syntax"
begin

unbundle bit_operations_syntax

text \<open>
  Shared vocabulary of the development: the machine integer types of the target (a 32-bit
  Cortex-M4), byte memory with little-endian 32-bit accesses, linked lists as chains of
  pointers, and the lemmas on words, memory and chains that every component uses.

  A function that may dereference a null pointer or loop for ever returns an option;
  \<open>None\<close> stands for a run that does not return.  The collections
  \<open>mem_simps\<close> (reads after writes) and \<open>word_nat\<close> (words read as natural numbers) are
  extended by the theories below.
\<close>

named_theorems mem_simps "reads after writes in byte memory"
named_theorems word_nat "machine arithmetic read as natural numbers"

type_synonym u8 = "8 word"
type_synonym u16 = "16 word"
type_synonym u32 = "32 word"
type_synonym memory = "u32 \<Rightarrow> u8"

section \<open>Words and natural numbers\<close>

lemma unat_u32_lt [simp]: "unat (x :: u32) < 4294967296"
  using unsigned_less [of x] by simp

lemma unat_u32_le [simp]: "unat (x :: u32) \<le> 4294967295" "unat x \<le> 4294967296"
  using unat_u32_lt [of x] by linarith+

lemma unat_of_nat32 [word_nat]: "n < 4294967296 \<Longrightarrow> unat (of_nat n :: u32) = n"
  by (simp add: unat_of_nat take_bit_nat_eq_self)

lemma of_nat32_eq_iff [word_nat]:
  "m < 4294967296 \<Longrightarrow> n < 4294967296 \<Longrightarrow> (of_nat m :: u32) = of_nat n \<longleftrightarrow> m = n"
  by (metis unat_of_nat32)

lemma of_nat32_le_iff [word_nat]:
  "m < 4294967296 \<Longrightarrow> n < 4294967296 \<Longrightarrow> (of_nat m :: u32) \<le> of_nat n \<longleftrightarrow> m \<le> n"
  by (simp add: word_le_nat_alt unat_of_nat32)

lemma of_nat32_less_iff [word_nat]:
  "m < 4294967296 \<Longrightarrow> n < 4294967296 \<Longrightarrow> (of_nat m :: u32) < of_nat n \<longleftrightarrow> m < n"
  by (simp add: word_less_nat_alt unat_of_nat32)

lemma of_nat32_eq_0_iff [word_nat]:
  "n < 4294967296 \<Longrightarrow> (of_nat n :: u32) = 0 \<longleftrightarrow> n = 0"
  using of_nat32_eq_iff [of n 0] by simp

lemma unat_add_small [word_nat]:
  "unat (x :: u32) + unat y < 4294967296 \<Longrightarrow> unat (x + y) = unat x + unat y"
  by (simp add: unat_word_ariths)

lemma unat_sub_le [word_nat]: "y \<le> (x :: u32) \<Longrightarrow> unat (x - y) = unat x - unat y"
  by (simp add: unat_sub)

lemma unat_and_not_mask:
  "unat ((x :: u32) AND NOT (mask n)) = unat x - unat x mod 2 ^ n"
proof -
  have "unat (x AND NOT (mask n)) + unat (x AND mask n) = unat x"
  proof -
    have disj: "(x AND NOT (mask n)) AND (x AND mask n) = 0"
      by (rule bit_word_eqI) (simp add: bit_simps)
    have "(x AND NOT (mask n)) + (x AND mask n) = (x AND NOT (mask n)) OR (x AND mask n)"
      using disj by (rule disjunctive_add_eq_or)
    also have "\<dots> = x"
      by (rule bit_word_eqI) (auto simp: bit_simps)
    finally have sum: "(x AND NOT (mask n)) + (x AND mask n) = x" .
    have "x AND NOT (mask n) \<le> x"
      by (rule word_and_le2)
    then show ?thesis
      using sum by (metis add_diff_cancel_left' le_add_diff_inverse unat_sub word_le_nat_alt)
  qed
  moreover have "unat (x AND mask n) = take_bit n (unat x)"
    by (simp add: unsigned_take_bit_eq flip: take_bit_eq_mask)
  ultimately show ?thesis by (simp add: take_bit_nat_def)
qed

lemma unat_and_not_7 [word_nat]: "unat ((x :: u32) AND - 8) = unat x - unat x mod 8"
  using unat_and_not_mask [of x 3] by (simp add: mask_eq_exp_minus_1)

lemma unat_and_not_1 [word_nat]: "unat ((x :: u32) AND - 2) = unat x - unat x mod 2"
  using unat_and_not_mask [of x 1] by (simp add: mask_eq_exp_minus_1)

lemma and_not_1_of_even:
  "even n \<Longrightarrow> n < 4294967296 \<Longrightarrow> (of_nat n :: u32) AND - 2 = of_nat n"
  by (simp add: word_unat_eq_iff word_nat)

lemma or_1_of_even:
  "even n \<Longrightarrow> n < 4294967296 \<Longrightarrow> (of_nat n :: u32) OR 1 = of_nat (n + 1)"
proof -
  assume ev: "even n" and lt: "n < 4294967296"
  have "(of_nat n :: u32) AND 1 = 0"
    using ev lt by (simp add: word_unat_eq_iff unsigned_and_eq word_nat)
  then show ?thesis
    by (simp add: disjunctive_add_eq_or [symmetric])
qed

section \<open>Byte memory\<close>

definition load32 :: "memory \<Rightarrow> u32 \<Rightarrow> u32" where
  "load32 m a = ucast (m a) OR push_bit 8 (ucast (m (a + 1)))
     OR push_bit 16 (ucast (m (a + 2))) OR push_bit 24 (ucast (m (a + 3)))"

definition store32 :: "memory \<Rightarrow> u32 \<Rightarrow> u32 \<Rightarrow> memory" where
  "store32 m a v = m(a := ucast v, a + 1 := ucast (drop_bit 8 v),
     a + 2 := ucast (drop_bit 16 v), a + 3 := ucast (drop_bit 24 v))"

lemma load32_store32_same [simp, mem_simps]: "load32 (store32 m a v) a = v"
proof (rule bit_word_eqI)
  fix n assume "n < LENGTH(32)"
  then consider "n < 8" | "8 \<le> n" "n < 16" | "16 \<le> n" "n < 24" | "24 \<le> n" "n < 32"
    by fastforce
  then show "bit (load32 (store32 m a v) a) n = bit v n"
    by cases (auto simp: load32_def store32_def bit_simps)
qed

text \<open>The \<open>n\<close> bytes from address \<open>a\<close> on (addresses wrap at the top of memory).\<close>

definition region :: "u32 \<Rightarrow> nat \<Rightarrow> u32 set" where
  "region a n = {b. unat (b - a) < n}"

lemma region_0 [simp]: "region a 0 = {}"
  by (simp add: region_def)

lemma start_in_region [simp]: "a \<in> region a n \<longleftrightarrow> 0 < n"
  by (simp add: region_def)

lemma region_Suc: "n < 4294967296 \<Longrightarrow> region a (Suc n) = insert a (region (a + 1) n)"
proof (intro set_eqI)
  fix b assume n: "n < 4294967296"
  show "b \<in> region a (Suc n) \<longleftrightarrow> b \<in> insert a (region (a + 1) n)"
  proof (cases "b = a")
    case False
    then have "b - a \<noteq> 0" by simp
    then have "unat (b - (a + 1)) = unat (b - a) - 1"
      by (metis diff_diff_eq unat_minus_one)
    moreover have "0 < unat (b - a)"
      using \<open>b - a \<noteq> 0\<close> by (simp add: unat_gt_0)
    ultimately show ?thesis
      using False by (auto simp: region_def)
  qed simp
qed

lemma region_mono: "n \<le> n' \<Longrightarrow> region a n \<subseteq> region a n'"
  by (auto simp: region_def)

lemma region_4: "region a 4 = {a, a + 1, a + 2, a + 3}"
proof -
  have "region a 4 = region a (Suc (Suc (Suc (Suc 0))))"
    by (simp add: eval_nat_numeral)
  also have "\<dots> = {a, a + 1, a + 1 + 1, a + 1 + 1 + 1}"
    by (simp add: region_Suc)
  finally show ?thesis by (simp add: add.assoc)
qed

lemma region_append:
  "n + k \<le> 4294967296 \<Longrightarrow> region a (n + k) = region a n \<union> region (a + of_nat n) k"
proof (induction n arbitrary: a)
  case (Suc n)
  then have "region (a + 1) (n + k) = region (a + 1) n \<union> region (a + 1 + of_nat n) k"
    by simp
  with Suc.prems show ?case by (simp add: region_Suc add.assoc)
qed simp

lemma in_region_offset:
  "i < n \<Longrightarrow> n \<le> 4294967296 \<Longrightarrow> a + of_nat i \<in> region a n"
  by (simp add: region_def word_nat)

lemma region_of_nat:
  assumes "x + n \<le> 4294967296" "x < 4294967296"
  shows "b \<in> region (of_nat x) n \<longleftrightarrow> x \<le> unat b \<and> unat b < x + n"
proof (cases "x \<le> unat b")
  case True
  then have "of_nat x \<le> b" using assms by (simp add: word_le_nat_alt word_nat)
  then show ?thesis using True assms by (auto simp: region_def word_nat)
next
  case False
  have "unat (b - of_nat x) = 4294967296 + unat b - x"
    using False assms by (simp add: unat_sub_if' word_nat)
  then show ?thesis using False assms by (auto simp: region_def)
qed

lemma region_disjoint:
  assumes "x + n \<le> y" "y + m \<le> 4294967296" "y < 4294967296"
  shows "region (of_nat x) n \<inter> region (of_nat y) m = {}"
proof (intro equals0I)
  fix b assume "b \<in> region (of_nat x) n \<inter> region (of_nat y) m"
  then have "b \<in> region (of_nat x) n" and "b \<in> region (of_nat y) m" by simp_all
  then show False using assms region_of_nat [of x n b] region_of_nat [of y m b] by simp
qed

lemma store32_other [mem_simps]: "b \<notin> region a 4 \<Longrightarrow> store32 m a v b = m b"
  by (auto simp: store32_def region_4)

lemma load32_cong: "(\<And>b. b \<in> region a 4 \<Longrightarrow> m b = m' b) \<Longrightarrow> load32 m a = load32 m' a"
  by (simp add: load32_def region_4)

lemma load32_store32_other:
  "region a 4 \<inter> region b 4 = {} \<Longrightarrow> load32 (store32 m b v) a = load32 m a"
  by (rule load32_cong) (auto intro!: store32_other)

text \<open>The form the component proofs use: both addresses are numbers below the top of memory.\<close>

lemma load32_store32_nat [mem_simps]:
  assumes "x + 4 \<le> y \<or> y + 4 \<le> x" "x + 4 \<le> 4294967296" "y + 4 \<le> 4294967296"
  shows "load32 (store32 m (of_nat y) v) (of_nat x) = load32 m (of_nat x)"
proof (rule load32_store32_other)
  show "region (of_nat x) 4 \<inter> region (of_nat y) 4 = {}"
    using assms region_disjoint [of x 4 y 4] region_disjoint [of y 4 x 4] by auto
qed

section \<open>Linked lists\<close>

text \<open>
  \<open>chain nx p xs\<close>: following \<open>nx\<close> from the pointer \<open>p\<close> visits exactly \<open>xs\<close> and then
  reaches the null pointer.
\<close>

primrec chain :: "('a \<Rightarrow> 'a option) \<Rightarrow> 'a option \<Rightarrow> 'a list \<Rightarrow> bool" where
  "chain nx p [] \<longleftrightarrow> p = None"
| "chain nx p (x # xs) \<longleftrightarrow> p = Some x \<and> chain nx (nx x) xs"

lemma chain_None [simp]: "chain nx None xs \<longleftrightarrow> xs = []"
  by (cases xs) auto

lemma chain_Some: "chain nx (Some x) xs \<longleftrightarrow> (\<exists>ys. xs = x # ys \<and> chain nx (nx x) ys)"
  by (cases xs) auto

lemma chain_upd [simp]: "y \<notin> set xs \<Longrightarrow> chain (nx(y := v)) p xs \<longleftrightarrow> chain nx p xs"
  by (induction xs arbitrary: p) auto

lemma chain_cong: "(\<And>x. x \<in> set xs \<Longrightarrow> nx x = nx' x) \<Longrightarrow> chain nx p xs \<longleftrightarrow> chain nx' p xs"
  by (induction xs arbitrary: p) auto

lemma chain_unique: "chain nx p xs \<Longrightarrow> chain nx p ys \<Longrightarrow> xs = ys"
proof (induction xs arbitrary: p ys)
  case (Cons x xs)
  then show ?case by (cases ys) auto
qed simp

lemma chain_suffix: "chain nx p (xs @ y # ys) \<Longrightarrow> chain nx (nx y) ys"
  by (induction xs arbitrary: p) auto

lemma chain_distinct: "chain nx p xs \<Longrightarrow> distinct xs"
proof (induction xs arbitrary: p)
  case (Cons x xs)
  have "x \<notin> set xs"
  proof
    assume "x \<in> set xs"
    then obtain as bs where xs: "xs = as @ x # bs" by (meson split_list)
    then have "chain nx (nx x) bs" using Cons.prems chain_suffix [of nx p "x # as" x bs] by simp
    then have "bs = xs" using Cons.prems chain_unique by fastforce
    then show False using xs by simp
  qed
  then show ?case using Cons by auto
qed simp

end
