(* ===== verification/Kernel_State.thy ===== *)
theory Kernel_State
  imports Prelude
begin

text \<open>
  The data of the kernel as the headers declare it, and the one record \<open>kernel\<close> that holds
  every static variable of the C files together with the processor state the code touches
  (PRIMASK, the PendSV pending bit, CONTROL, the MPU registers).

  Memory is split by type.  The raw bytes (heap blocks, task stacks, queue buffers, task names)
  are the byte memory \<open>mem\<close>; the structs the code only accesses by field live in typed stores:
  task control blocks in \<open>tcb_pool\<close>, and semaphores, mutexes and queues in partial maps from the
  address \<open>malloc\<close> returned to the struct.  A null pointer is \<open>None\<close> (or address 0); an access
  through one, or through an address that holds no struct of that type, is a run that does not
  return.
\<close>

section \<open>Constants of the headers\<close>

definition TASK_NAME_MAX_LEN :: u32 where [simp]: "TASK_NAME_MAX_LEN = 16"
definition MAX_TASK_PRIORITIES :: nat where [simp]: "MAX_TASK_PRIORITIES = 8"
definition MAX_TASKS :: nat where [simp]: "MAX_TASKS = 8"
definition MAX_TASK_STACK_SIZE :: u32 where [simp]: "MAX_TASK_STACK_SIZE = 512"
definition PORT_STACK_GUARD_SIZE :: u32 where [simp]: "PORT_STACK_GUARD_SIZE = 256"
definition KOBJ_MAX :: nat where [simp]: "KOBJ_MAX = 32"
definition KOBJ_INVALID :: u32 where [simp]: "KOBJ_INVALID = 0xFFFFFFFF"
definition KWORK_QUEUE_SIZE :: nat where [simp]: "KWORK_QUEUE_SIZE = MAX_TASKS * 2"
definition TASK_FLAG_USER :: u32 where [simp]: "TASK_FLAG_USER = 1"
definition TASK_FLAG_SVC_BLOCKED :: u32 where [simp]: "TASK_FLAG_SVC_BLOCKED = 2"
definition TASK_FLAG_TIMED_OUT :: u32 where [simp]: "TASK_FLAG_TIMED_OUT = 4"
definition CREST_WAIT_FOREVER :: u32 where [simp]: "CREST_WAIT_FOREVER = 0xFFFFFFFF"

section \<open>Tasks\<close>

datatype task_state = TASK_READY | TASK_RUNNING | TASK_WAITING | TASK_SUSPENDED

text \<open>A pointer to a TCB is the index of its slot in \<open>tcb_pool\<close>.\<close>

type_synonym tcb_ptr = nat

text \<open>
  \<open>struct TaskControlBlock **\<close> is only ever the address of the wait-list head of a primitive:
  the semaphore, the mutex, or one of the two lists of the queue at the given address.
\<close>

datatype wait_head = SemWait u32 | MutexWait u32 | QueueSendWait u32 | QueueRecvWait u32

text \<open>
  \<open>struct TaskControlBlock\<close>.  Stack pointers are addresses in \<open>mem\<close> (0 is NULL).  The
  character array \<open>name\<close> is in \<open>mem\<close>, at \<open>tcb_name_addr\<close>.
\<close>

record tcb =
  stack_base :: u32
  stack_size :: u32
  stack_pointer :: u32
  stack_alloc :: u32
  tstate :: task_state
  priority :: u32
  flags :: u32
  next_task :: "tcb_ptr option"
  wait_next :: "tcb_ptr option"
  delay_ticks :: u32
  blocking_wait_list :: "wait_head option"
  task_function :: u32
  task_arg :: u32

definition zero_tcb :: tcb where
  "zero_tcb = \<lparr>stack_base = 0, stack_size = 0, stack_pointer = 0, stack_alloc = 0,
     tstate = TASK_READY, priority = 0, flags = 0, next_task = None, wait_next = None,
     delay_ticks = 0, blocking_wait_list = None, task_function = 0, task_arg = 0\<rparr>"

section \<open>Synchronisation primitives\<close>

text \<open>\<open>count\<close> is a C int: the word is read as two's complement by \<open>sint\<close>.\<close>

record semaphore =
  sem_count :: u32
  sem_wait_list :: "tcb_ptr option"

record mutex =
  mtx_owner :: "tcb_ptr option"
  mtx_wait_list :: "tcb_ptr option"

record queue =
  q_item_size :: u32
  q_size :: u32
  q_slots :: u32
  q_head :: u32
  q_tail :: u32
  q_buffer :: u32
  q_send_wait :: "tcb_ptr option"
  q_recv_wait :: "tcb_ptr option"

section \<open>Kernel objects, work items, allocators\<close>

datatype kobj_type = KOBJ_QUEUE | KOBJ_SEM | KOBJ_MUTEX

record kobj_entry =
  obj_ptr :: u32
  obj_type :: kobj_type
  in_use :: bool
  gen :: u16

record work_item =
  wi_id :: u32
  wi_arg0 :: u32
  wi_arg1 :: u32
  wi_arg2 :: u32
  wi_arg3 :: u32
  wi_caller :: "tcb_ptr option"

text \<open>The static variables of \<open>alloc.c\<close>, and of \<open>user_alloc.c\<close>.\<close>

record heap_state =
  free_list :: u32
  heap_inited :: bool

section \<open>Processor and linker\<close>

record mpu_regs =
  mpu_ctrl :: u32
  mpu_rnr :: u32
  mpu_rbar :: "u32 \<Rightarrow> u32"
  mpu_rasr :: "u32 \<Rightarrow> u32"

text \<open>Symbols whose value the linker chooses; \<open>tcb_pool_addr\<close> is the address of \<open>tcb_pool\<close>.\<close>

record linker =
  heap_start :: u32
  heap_end :: u32
  user_heap_start :: u32
  user_heap_end :: u32
  tcb_pool_addr :: u32

section \<open>The kernel state\<close>

record kernel =
  primask :: u32
  pendsv :: bool
  control :: u32
  mpu :: mpu_regs
  uart_out :: "u8 list"
  mem :: memory
  ld :: linker
  kheap :: heap_state
  uheap :: heap_state
  table :: "nat \<Rightarrow> kobj_entry"
  tcb_pool :: "tcb_ptr \<Rightarrow> tcb"
  tcb_used :: "nat \<Rightarrow> bool"
  task_list :: "nat \<Rightarrow> tcb_ptr option"
  rr_current :: "nat \<Rightarrow> tcb_ptr option"
  current_task :: "tcb_ptr option"
  tick_count :: u32
  g_priority_mask :: u8
  sems :: "u32 \<rightharpoonup> semaphore"
  mutexes :: "u32 \<rightharpoonup> mutex"
  queues :: "u32 \<rightharpoonup> queue"
  kwork_buf :: "nat \<Rightarrow> work_item"
  kwork_head :: nat
  kwork_tail :: nat
  kernel_tcb :: "tcb_ptr option"

text \<open>
  The state at reset: every static variable is zero (the \<open>.bss\<close> of the kernel image), interrupts
  are enabled, and memory and the linker's symbols are arbitrary.
\<close>

definition boot_kernel :: "linker \<Rightarrow> memory \<Rightarrow> kernel" where
  "boot_kernel l m = \<lparr>primask = 0, pendsv = False, control = 0,
     mpu = \<lparr>mpu_ctrl = 0, mpu_rnr = 0, mpu_rbar = (\<lambda>_. 0), mpu_rasr = (\<lambda>_. 0)\<rparr>,
     uart_out = [], mem = m, ld = l,
     kheap = \<lparr>free_list = 0, heap_inited = False\<rparr>, uheap = \<lparr>free_list = 0, heap_inited = False\<rparr>,
     table = (\<lambda>_. \<lparr>obj_ptr = 0, obj_type = KOBJ_QUEUE, in_use = False, gen = 0\<rparr>),
     tcb_pool = (\<lambda>_. zero_tcb), tcb_used = (\<lambda>_. False),
     task_list = (\<lambda>_. None), rr_current = (\<lambda>_. None), current_task = None,
     tick_count = 0, g_priority_mask = 0,
     sems = Map.empty, mutexes = Map.empty, queues = Map.empty,
     kwork_buf = (\<lambda>_. \<lparr>wi_id = 0, wi_arg0 = 0, wi_arg1 = 0, wi_arg2 = 0, wi_arg3 = 0, wi_caller = None\<rparr>),
     kwork_head = 0, kwork_tail = 0, kernel_tcb = None\<rparr>"

text \<open>
  Assignment to fields of one TCB, \<open>t->f = v\<close>, and to a semaphore, mutex or queue.
\<close>

definition upd_tcb :: "tcb_ptr \<Rightarrow> (tcb \<Rightarrow> tcb) \<Rightarrow> kernel \<Rightarrow> kernel" where
  "upd_tcb t f k = k\<lparr>tcb_pool := (tcb_pool k)(t := f (tcb_pool k t))\<rparr>"

definition set_sem :: "u32 \<Rightarrow> semaphore \<Rightarrow> kernel \<Rightarrow> kernel" where
  "set_sem p s k = k\<lparr>sems := (sems k)(p \<mapsto> s)\<rparr>"

definition set_mutex :: "u32 \<Rightarrow> mutex \<Rightarrow> kernel \<Rightarrow> kernel" where
  "set_mutex p m k = k\<lparr>mutexes := (mutexes k)(p \<mapsto> m)\<rparr>"

definition set_queue :: "u32 \<Rightarrow> queue \<Rightarrow> kernel \<Rightarrow> kernel" where
  "set_queue p q k = k\<lparr>queues := (queues k)(p \<mapsto> q)\<rparr>"

text \<open>
  \<open>name\<close> is 16 bytes after the start of its TCB, and a TCB is 68 bytes long (four words, the
  name, and nine words).
\<close>

definition tcb_name_addr :: "kernel \<Rightarrow> tcb_ptr \<Rightarrow> u32" where
  "tcb_name_addr k t = tcb_pool_addr (ld k) + of_nat (68 * t + 16)"

section \<open>Critical sections and the context switch request\<close>

text \<open>\<open>cpsid i\<close> sets PRIMASK to 1; \<open>exit_critical\<close> restores the saved value.\<close>

definition enter_critical :: "kernel \<Rightarrow> u32 \<times> kernel" where
  "enter_critical k = (primask k, k\<lparr>primask := 1\<rparr>)"

definition exit_critical :: "u32 \<Rightarrow> kernel \<Rightarrow> kernel" where
  "exit_critical pm k = k\<lparr>primask := pm\<rparr>"

definition port_trigger_pendsv :: "kernel \<Rightarrow> kernel" where
  "port_trigger_pendsv k = k\<lparr>pendsv := True\<rparr>"

named_theorems state_defs "unfolding of the state helpers"

lemmas [state_defs] = upd_tcb_def set_sem_def set_mutex_def set_queue_def
  enter_critical_def exit_critical_def port_trigger_pendsv_def

section \<open>A sample configuration\<close>

text \<open>
  The state at reset with a kernel heap of 64 bytes at \<open>0x20008000\<close> and a user heap of 64 bytes
  at \<open>0x20004000\<close>, used to show that the hypotheses of the properties can hold.
\<close>

definition demo_linker :: linker where
  "demo_linker = \<lparr>heap_start = 0x20008000, heap_end = 0x20008040,
     user_heap_start = 0x20004000, user_heap_end = 0x20004040, tcb_pool_addr = 0x20000000\<rparr>"

definition demo_boot :: kernel where
  "demo_boot = boot_kernel demo_linker (\<lambda>_. 0)"

end
