(* ===== verification/Alloc.thy ===== *)
theory Alloc
  imports Kernel_State
begin

text \<open>
  The first-fit allocators \<open>kernel/alloc.c\<close> and \<open>kernel/user_alloc.c\<close>.  The two files
  are the same code over different linker symbols and different static variables, so the list
  operations are defined once over (memory, free list) and used by both.

  A block starts with a header of two words: its total size, with bit 0 set while it is
  allocated, and the next free block.  All loops run over byte memory; a loop over a cyclic free
  list does not return.
\<close>

section \<open>The code\<close>

definition ALIGN_MASK :: u32 where [simp]: "ALIGN_MASK = 7"
definition HDR_SIZE :: u32 where [simp]: "HDR_SIZE = 8" \<comment> \<open>sizeof(block_header_t)\<close>
definition MIN_BLOCK_SIZE :: u32 where [simp]: "MIN_BLOCK_SIZE = 16"

definition align_up :: "u32 \<Rightarrow> u32" where
  "align_up x = (x + ALIGN_MASK) AND NOT ALIGN_MASK"

definition hdr_size :: "memory \<Rightarrow> u32 \<Rightarrow> u32" where
  "hdr_size m h = load32 m h AND NOT 1"

definition hdr_allocated :: "memory \<Rightarrow> u32 \<Rightarrow> bool" where
  "hdr_allocated m h = (load32 m h AND 1 \<noteq> 0)"

text \<open>\<open>h->next\<close>\<close>

definition hdr_next :: "memory \<Rightarrow> u32 \<Rightarrow> u32" where
  "hdr_next m h = load32 m (h + 4)"

definition set_hdr_size :: "u32 \<Rightarrow> u32 \<Rightarrow> memory \<Rightarrow> memory" where
  "set_hdr_size h v m = store32 m h v"

definition set_hdr_next :: "u32 \<Rightarrow> u32 \<Rightarrow> memory \<Rightarrow> memory" where
  "set_hdr_next h v m = store32 m (h + 4) v"

definition heap_init :: "u32 \<Rightarrow> u32 \<Rightarrow> memory \<Rightarrow> memory \<times> heap_state" where
  "heap_init hstart hend m =
     (let aligned = (hstart + ALIGN_MASK) AND NOT ALIGN_MASK in
      if hend \<le> aligned then (m, \<lparr>free_list = 0, heap_inited = True\<rparr>)
      else (set_hdr_next aligned 0 (set_hdr_size aligned (hend - aligned) m),
            \<lparr>free_list = aligned, heap_inited = True\<rparr>))"

text \<open>\<open>if (prev) prev->next = x; else free_list = x;\<close>\<close>

definition set_link :: "u32 \<Rightarrow> u32 \<Rightarrow> memory \<times> u32 \<Rightarrow> memory \<times> u32" where
  "set_link prev x = (\<lambda>(m, fl). if prev \<noteq> 0 then (set_hdr_next prev x m, fl) else (m, x))"

text \<open>The allocation of \<open>need\<close> bytes from the block \<open>cur\<close>, which is large enough.\<close>

definition take_block :: "memory \<Rightarrow> u32 \<Rightarrow> u32 \<Rightarrow> u32 \<Rightarrow> u32 \<Rightarrow> memory \<times> u32" where
  "take_block m fl prev cur need =
     (let curr_sz = hdr_size m cur; remain = curr_sz - need in
      if MIN_BLOCK_SIZE \<le> remain then
        let nxt = cur + need;
            m1 = set_hdr_size nxt remain m;
            m2 = set_hdr_next nxt (hdr_next m1 cur) m1;
            (m3, fl') = set_link prev nxt (m2, fl)
        in (set_hdr_size cur (need OR 1) m3, fl')
      else
        let (m1, fl') = set_link prev (hdr_next m cur) (m, fl)
        in (set_hdr_size cur (curr_sz OR 1) m1, fl'))"

text \<open>The search loop of \<open>malloc\<close>; the result is the returned pointer, memory and free list.\<close>

partial_function (option) first_fit ::
  "memory \<Rightarrow> u32 \<Rightarrow> u32 \<Rightarrow> u32 \<Rightarrow> u32 \<Rightarrow> (u32 \<times> memory \<times> u32) option" where
  "first_fit m fl prev cur need =
     (if cur = 0 then Some (0, m, fl)
      else if need \<le> hdr_size m cur
      then Some (cur + HDR_SIZE, take_block m fl prev cur need)
      else first_fit m fl cur (hdr_next m cur) need)"

definition alloc_need :: "u32 \<Rightarrow> u32" where
  "alloc_need sz = (let need = align_up sz + HDR_SIZE
     in if need < MIN_BLOCK_SIZE then MIN_BLOCK_SIZE else need)"

text \<open>The body of the critical section of \<open>malloc\<close>.\<close>

definition heap_malloc ::
  "u32 \<Rightarrow> u32 \<Rightarrow> u32 \<Rightarrow> memory \<times> heap_state \<Rightarrow> (u32 \<times> memory \<times> heap_state) option" where
  "heap_malloc hstart hend need = (\<lambda>(m0, h0).
     let (m, h) = (if heap_inited h0 then (m0, h0) else heap_init hstart hend m0)
     in do {
       (p, m', fl) \<leftarrow> first_fit m (free_list h) 0 (free_list h) need;
       Some (p, m', h\<lparr>free_list := fl\<rparr>)
     })"

definition malloc :: "u32 \<Rightarrow> kernel \<Rightarrow> (u32 \<times> kernel) option" where
  "malloc sz k =
     (if sz = 0 then Some (0, k)
      else let need = alloc_need sz; (pm, k) = enter_critical k in do {
        (p, m, h) \<leftarrow> heap_malloc (heap_start (ld k)) (heap_end (ld k)) need (mem k, kheap k);
        Some (p, exit_critical pm (k\<lparr>mem := m, kheap := h\<rparr>))
      })"

definition user_malloc :: "u32 \<Rightarrow> kernel \<Rightarrow> (u32 \<times> kernel) option" where
  "user_malloc sz k =
     (if sz = 0 then Some (0, k)
      else let need = alloc_need sz; (pm, k) = enter_critical k in do {
        (p, m, h) \<leftarrow>
          heap_malloc (user_heap_start (ld k)) (user_heap_end (ld k)) need (mem k, uheap k);
        Some (p, exit_critical pm (k\<lparr>mem := m, uheap := h\<rparr>))
      })"

text \<open>The loop of \<open>free\<close> that finds the place of \<open>hdr\<close> in the address-sorted list.\<close>

partial_function (option) find_slot ::
  "memory \<Rightarrow> u32 \<Rightarrow> u32 \<Rightarrow> u32 \<Rightarrow> (u32 \<times> u32) option" where
  "find_slot m prev cur hdr =
     (if cur \<noteq> 0 \<and> cur < hdr then find_slot m cur (hdr_next m cur) hdr
      else Some (prev, cur))"

definition coalesce_next :: "u32 \<Rightarrow> memory \<Rightarrow> memory" where
  "coalesce_next hdr m =
     (if hdr_next m hdr \<noteq> 0 then
        if hdr + hdr_size m hdr = hdr_next m hdr then
          let m1 = set_hdr_size hdr (hdr_size m hdr + hdr_size m (hdr_next m hdr)) m
          in set_hdr_next hdr (hdr_next m1 (hdr_next m1 hdr)) m1
        else m
      else m)"

definition coalesce_prev :: "u32 \<Rightarrow> u32 \<Rightarrow> memory \<Rightarrow> memory" where
  "coalesce_prev prev hdr m =
     (if prev \<noteq> 0 then
        if prev + hdr_size m prev = hdr then
          let m1 = set_hdr_size prev (hdr_size m prev + hdr_size m hdr) m
          in set_hdr_next prev (hdr_next m1 hdr) m1
        else m
      else m)"

text \<open>The body of the critical section of \<open>free\<close>.\<close>

definition heap_free ::
  "u32 \<Rightarrow> u32 \<Rightarrow> memory \<times> heap_state \<Rightarrow> (memory \<times> heap_state) option" where
  "heap_free hend hdr = (\<lambda>(m, h).
     if \<not> heap_inited h then Some (m, h)
     else let bsz = hdr_size m hdr in
       if bsz < HDR_SIZE \<or> hend < hdr + bsz then Some (m, h)
       else let m1 = set_hdr_size hdr bsz m in do {
         (prev, cur) \<leftarrow> find_slot m1 0 (free_list h) hdr;
         let m2 = set_hdr_next hdr cur m1;
         let (m3, fl) = set_link prev hdr (m2, free_list h);
         Some (coalesce_prev prev hdr (coalesce_next hdr m3), h\<lparr>free_list := fl\<rparr>)
       })"

definition free :: "u32 \<Rightarrow> kernel \<Rightarrow> kernel option" where
  "free ptr k =
     (if ptr = 0 then Some k
      else let hdr = ptr - HDR_SIZE;
               aligned = (heap_start (ld k) + ALIGN_MASK) AND NOT ALIGN_MASK in
        if hdr < aligned \<or> heap_end (ld k) \<le> hdr then Some k
        else let (pm, k) = enter_critical k in do {
          (m, h) \<leftarrow> heap_free (heap_end (ld k)) hdr (mem k, kheap k);
          Some (exit_critical pm (k\<lparr>mem := m, kheap := h\<rparr>))
        })"

definition user_free :: "u32 \<Rightarrow> kernel \<Rightarrow> kernel option" where
  "user_free ptr k =
     (if ptr = 0 then Some k
      else let hdr = ptr - HDR_SIZE;
               aligned = (user_heap_start (ld k) + ALIGN_MASK) AND NOT ALIGN_MASK in
        if hdr < aligned \<or> user_heap_end (ld k) \<le> hdr then Some k
        else let (pm, k) = enter_critical k in do {
          (m, h) \<leftarrow> heap_free (user_heap_end (ld k)) hdr (mem k, uheap k);
          Some (exit_critical pm (k\<lparr>mem := m, uheap := h\<rparr>))
        })"

end
