(* ===== verification/Alloc_Refine.thy ===== *)
theory Alloc_Refine
  imports Alloc
begin

text \<open>
  The abstract allocator and the proof that the code of \<^theory_text>\<open>Alloc\<close> implements it.
  A heap is a list of blocks that tile it from its first address: the size of each block and
  whether it is allocated.  \<open>seg\<close> reads such a list off byte memory; the refinement lemmas
  follow the two loops of the code by induction over it.
\<close>

type_synonym blocks = "(nat \<times> bool) list"

section \<open>The abstract allocator\<close>

definition bytes :: "blocks \<Rightarrow> nat" where
  "bytes bs = sum_list (map fst bs)"

lemma bytes_simps [simp]:
  "bytes [] = 0" "bytes ((s, al) # bs) = s + bytes bs" "bytes (bs @ cs) = bytes bs + bytes cs"
  by (simp_all add: bytes_def)

text \<open>First fit: the first free block that is large enough, split when the rest can be a block.\<close>

fun alloc_blocks :: "nat \<Rightarrow> nat \<Rightarrow> blocks \<Rightarrow> (nat \<times> blocks) option" where
  "alloc_blocks need a [] = None"
| "alloc_blocks need a ((s, al) # bs) =
     (if \<not> al \<and> need \<le> s
      then Some (a, if 16 \<le> s - need then (need, True) # (s - need, False) # bs else (s, True) # bs)
      else map_option (map_prod id ((#) (s, al))) (alloc_blocks need (a + s) bs))"

text \<open>Merging of adjacent free blocks.\<close>

fun coalesce :: "blocks \<Rightarrow> blocks" where
  "coalesce ((s, False) # (s', False) # bs) = coalesce ((s + s', False) # bs)"
| "coalesce (b # bs) = b # coalesce bs"
| "coalesce [] = []"

text \<open>Freeing the allocated block at address \<open>p\<close>.\<close>

fun mark_free :: "nat \<Rightarrow> nat \<Rightarrow> blocks \<Rightarrow> blocks option" where
  "mark_free p a [] = None"
| "mark_free p a ((s, al) # bs) =
     (if p = a then (if al then Some ((s, False) # bs) else None)
      else map_option ((#) (s, al)) (mark_free p (a + s) bs))"

definition free_blocks :: "nat \<Rightarrow> nat \<Rightarrow> blocks \<Rightarrow> blocks option" where
  "free_blocks p a bs = map_option coalesce (mark_free p a bs)"

text \<open>No two free blocks are neighbours.\<close>

fun no_adj :: "blocks \<Rightarrow> bool" where
  "no_adj ((s, al) # (s', al') # bs) \<longleftrightarrow> (al \<or> al') \<and> no_adj ((s', al') # bs)"
| "no_adj _ \<longleftrightarrow> True"

definition size_ok :: "nat \<Rightarrow> bool" where
  "size_ok s \<longleftrightarrow> 16 \<le> s \<and> 8 dvd s"

definition sizes_ok :: "blocks \<Rightarrow> bool" where
  "sizes_ok bs \<longleftrightarrow> (\<forall>(s, al) \<in> set bs. size_ok s)"

lemma sizes_ok_simps [simp]:
  "sizes_ok []" "sizes_ok ((s, al) # bs) \<longleftrightarrow> size_ok s \<and> sizes_ok bs"
  "sizes_ok (bs @ cs) \<longleftrightarrow> sizes_ok bs \<and> sizes_ok cs"
  by (auto simp: sizes_ok_def)

text \<open>The allocated blocks with their addresses, and the addresses inside free blocks.\<close>

fun allocated :: "nat \<Rightarrow> blocks \<Rightarrow> (nat \<times> nat) list" where
  "allocated a [] = []"
| "allocated a ((s, al) # bs) = (if al then [(a, s)] else []) @ allocated (a + s) bs"

fun in_free :: "nat \<Rightarrow> blocks \<Rightarrow> nat \<Rightarrow> bool" where
  "in_free a [] x \<longleftrightarrow> False"
| "in_free a ((s, al) # bs) x \<longleftrightarrow> \<not> al \<and> a \<le> x \<and> x < a + s \<or> in_free (a + s) bs x"

lemma allocated_append [simp]:
  "allocated a (bs @ cs) = allocated a bs @ allocated (a + bytes bs) cs"
  by (induction a bs rule: allocated.induct) (auto simp: add.assoc)

lemma in_free_append [simp]:
  "in_free a (bs @ cs) x \<longleftrightarrow> in_free a bs x \<or> in_free (a + bytes bs) cs x"
  by (induction a bs x rule: in_free.induct) (auto simp: add.assoc)

lemma in_free_bounds: "in_free a bs x \<Longrightarrow> a \<le> x \<and> x < a + bytes bs"
  by (induction a bs x rule: in_free.induct) auto

lemma allocated_bounds: "(p, s) \<in> set (allocated a bs) \<Longrightarrow> a \<le> p \<and> p + s \<le> a + bytes bs"
  by (induction a bs rule: allocated.induct) (auto split: if_splits)

lemma allocated_not_free:
  "(p, s) \<in> set (allocated a bs) \<Longrightarrow> p \<le> x \<Longrightarrow> x < p + s \<Longrightarrow> \<not> in_free a bs x"
proof (induction a bs rule: allocated.induct)
  case (2 a s' al bs)
  then show ?case
    using allocated_bounds [of p s "a + s'" bs] in_free_bounds [of "a + s'" bs x]
    by (auto split: if_splits)
qed simp

lemma allocated_disjoint:
  "(p, s) \<in> set (allocated a bs) \<Longrightarrow> (q, t) \<in> set (allocated a bs) \<Longrightarrow> (p, s) \<noteq> (q, t) \<Longrightarrow>
     p + s \<le> q \<or> q + t \<le> p"
proof (induction a bs rule: allocated.induct)
  case (2 a s' al bs)
  then show ?case
    using allocated_bounds [of p s "a + s'" bs] allocated_bounds [of q t "a + s'" bs]
    by (auto split: if_splits)
qed simp

section \<open>Block lists in memory\<close>

text \<open>
  \<open>seg m a bs p q\<close>: from address \<open>a\<close> on memory holds the headers of the blocks \<open>bs\<close>; \<open>p\<close> is
  the pointer to the first free block at or after \<open>a\<close>, \<open>q\<close> the one after the last of \<open>bs\<close>.
\<close>

fun seg :: "memory \<Rightarrow> nat \<Rightarrow> blocks \<Rightarrow> u32 \<Rightarrow> u32 \<Rightarrow> bool" where
  "seg m a [] p q \<longleftrightarrow> p = q"
| "seg m a ((s, al) # bs) p q \<longleftrightarrow> size_ok s \<and>
     load32 m (of_nat a) = of_nat (if al then s + 1 else s) \<and>
     (if al then seg m (a + s) bs p q
      else p = of_nat a \<and> seg m (a + s) bs (hdr_next m (of_nat a)) q)"

text \<open>The address of the last free block of a list (0 when there is none).\<close>

fun last_free :: "nat \<Rightarrow> blocks \<Rightarrow> nat" where
  "last_free a [] = 0"
| "last_free a ((s, al) # bs) =
     (let l = last_free (a + s) bs in if l \<noteq> 0 then l else if al then 0 else a)"

lemma seg_append [simp]:
  "seg m a (bs @ cs) p q \<longleftrightarrow> (\<exists>r. seg m a bs p r \<and> seg m (a + bytes bs) cs r q)"
  by (induction a bs arbitrary: p rule: allocated.induct) (auto simp: add.assoc)

lemma seg_sizes_ok: "seg m a bs p q \<Longrightarrow> sizes_ok bs"
  by (induction a bs arbitrary: p rule: allocated.induct) (auto split: if_splits)

lemma seg_cong:
  assumes "\<And>b. a \<le> unat b \<Longrightarrow> unat b < a + bytes bs \<Longrightarrow> m b = m' b"
    and "a + bytes bs \<le> 4294967296" "sizes_ok bs"
  shows "seg m a bs p q \<longleftrightarrow> seg m' a bs p q"
  using assms
proof (induction a bs arbitrary: p rule: allocated.induct)
  case (2 a s al bs)
  have s: "16 \<le> s" using "2.prems"(3) by (simp add: size_ok_def)
  have "load32 m (of_nat a) = load32 m' (of_nat a)"
    using s "2.prems"(2) by (intro load32_cong "2.prems"(1)) (auto simp: region_of_nat)
  moreover have "load32 m (of_nat (a + 4)) = load32 m' (of_nat (a + 4))"
  proof (intro load32_cong "2.prems"(1))
    fix b assume "b \<in> region (of_nat (a + 4)) 4"
    then show "a \<le> unat b" "unat b < a + bytes ((s, al) # bs)"
      using s "2.prems"(2) region_of_nat [of "a + 4" 4 b] by simp_all
  qed
  moreover have "seg m (a + s) bs p' q \<longleftrightarrow> seg m' (a + s) bs p' q" for p'
    using "2.prems" by (intro "2.IH") auto
  ultimately show ?case by (simp add: hdr_next_def)
qed simp

lemma seg_store_outside:
  assumes "y + 4 \<le> a \<or> a + bytes bs \<le> y" "a + bytes bs \<le> 4294967296" "y + 4 \<le> 4294967296"
    "sizes_ok bs"
  shows "seg (store32 m (of_nat y) v) a bs p q \<longleftrightarrow> seg m a bs p q"
proof (rule seg_cong [OF _ assms(2,4)])
  fix b :: u32 assume "a \<le> unat b" "unat b < a + bytes bs"
  then have "b \<notin> region (of_nat y) 4"
    using assms(1,3) by (auto simp: region_of_nat)
  then show "store32 m (of_nat y) v b = m b" by (rule store32_other)
qed

text \<open>Header accesses at numeric addresses.\<close>

lemma hdr_next_nat: "hdr_next m (of_nat c) = load32 m (of_nat (c + 4))"
  by (simp add: hdr_next_def)

lemma set_hdr_next_nat: "set_hdr_next (of_nat c) v m = store32 m (of_nat (c + 4)) v"
  by (simp add: set_hdr_next_def)

lemmas hdr_nat = hdr_next_nat set_hdr_next_nat set_hdr_size_def

lemma size_ok_even: "size_ok s \<Longrightarrow> even s"
  by (auto simp: size_ok_def elim: dvd_trans [rotated])

lemma hdr_size_of_nat:
  assumes "load32 m p = of_nat (if al then s + 1 else s)" "size_ok s" "s + 1 < 4294967296"
  shows "hdr_size m p = of_nat s"
proof (cases al)
  case True
  have "even s" using assms(2) by (rule size_ok_even)
  then have "(s + 1) mod 2 = 1" by presburger
  then have "unat ((of_nat (s + 1) :: u32) AND - 2) = s"
    using assms(3) by (simp only: unat_and_not_1 unat_of_nat32)
  then show ?thesis
    using True assms by (simp add: hdr_size_def word_unat_eq_iff word_nat del: of_nat_add of_nat_Suc)
next
  case False
  then show ?thesis
    using assms size_ok_even [OF assms(2)] by (simp add: hdr_size_def and_not_1_of_even)
qed

lemma last_free_append:
  "last_free a (bs @ cs) =
     (let l = last_free (a + bytes bs) cs in if l \<noteq> 0 then l else last_free a bs)"
  by (induction a bs rule: allocated.induct) (auto simp: Let_def add.assoc)

lemma last_free_bounds:
  "sizes_ok bs \<Longrightarrow> last_free a bs \<noteq> 0 \<Longrightarrow>
     a \<le> last_free a bs \<and> last_free a bs + 16 \<le> a + bytes bs"
proof (induction a bs rule: allocated.induct)
  case (2 a s al bs)
  then show ?case by (auto simp: Let_def size_ok_def split: if_splits)
qed simp

lemma last_free_in_free:
  "sizes_ok bs \<Longrightarrow> last_free a bs \<noteq> 0 \<Longrightarrow> i < 16 \<Longrightarrow> in_free a bs (last_free a bs + i)"
  by (induction a bs rule: allocated.induct) (auto simp: Let_def size_ok_def split: if_splits)

lemma seg_no_free: "last_free a bs = 0 \<Longrightarrow> 0 < a \<Longrightarrow> seg m a bs p r \<Longrightarrow> p = r \<and> seg m a bs r' r'"
proof (induction a bs arbitrary: p rule: allocated.induct)
  case (2 a s al bs)
  then show ?case by (auto simp: Let_def split: if_splits)
qed simp

text \<open>Redirecting the link that leads out of a segment.\<close>

lemma seg_relink_some:
  "seg m a bs p r \<Longrightarrow> 0 < a \<Longrightarrow> a + bytes bs \<le> 4294967296 \<Longrightarrow> last_free a bs \<noteq> 0 \<Longrightarrow>
     seg (store32 m (of_nat (last_free a bs + 4)) r') a bs p r'"
proof (induction a bs arbitrary: p rule: allocated.induct)
  case (2 a s al bs)
  let ?l = "last_free (a + s) bs"
  have ok: "size_ok s" "16 \<le> s" "sizes_ok bs"
    using "2.prems"(1) seg_sizes_ok [of m a "(s, al) # bs"] by (auto simp: size_ok_def)
  show ?case
  proof (cases "?l = 0")
    case True
    then have free: "\<not> al" and last: "last_free a ((s, al) # bs) = a"
      using "2.prems"(4) by (auto simp: Let_def split: if_splits)
    have "seg m (a + s) bs r' r'"
      using "2.prems" True free ok by (auto intro: conjunct2 [OF seg_no_free])
    then have "seg (store32 m (of_nat (a + 4)) r') (a + s) bs r' r'"
      using "2.prems"(3) ok by (subst seg_store_outside) auto
    moreover have "load32 (store32 m (of_nat (a + 4)) r') (of_nat a) = load32 m (of_nat a)"
      using "2.prems"(3) ok by (intro load32_store32_nat) auto
    ultimately show ?thesis
      using "2.prems"(1) free ok unfolding last
      by (simp only: seg.simps hdr_next_nat load32_store32_same if_False simp_thms)
  next
    case False
    then have last: "last_free a ((s, al) # bs) = ?l" by (simp add: Let_def)
    have b: "a + s \<le> ?l" "?l + 16 \<le> a + s + bytes bs"
      using last_free_bounds [OF ok(3) False] by auto
    let ?m = "store32 m (of_nat (?l + 4)) r'"
    have IH: "seg m (a + s) bs p' r \<Longrightarrow> seg ?m (a + s) bs p' r'" for p'
      using "2.prems"(2,3) False by (intro "2.IH") auto
    have "load32 ?m (of_nat a) = load32 m (of_nat a)"
      using "2.prems"(3) ok b by (intro load32_store32_nat) auto
    moreover have "load32 ?m (of_nat (a + 4)) = load32 m (of_nat (a + 4))"
      using "2.prems"(3) ok b by (intro load32_store32_nat) auto
    ultimately show ?thesis
      unfolding last using "2.prems"(1) IH by (auto simp: hdr_next_nat split: if_splits)
  qed
qed simp

lemma seg_set_link:
  assumes "seg m a bs p r" "0 < a" "a + bytes bs < 4294967296"
    and "set_link (of_nat (last_free a bs)) r' (m, p) = (m', p')"
  shows "seg m' a bs p' r'"
proof (cases "last_free a bs = 0")
  case True
  then show ?thesis using assms seg_no_free [OF True assms(2,1)] by (simp add: set_link_def)
next
  case False
  have "last_free a bs + 16 \<le> a + bytes bs"
    using last_free_bounds [OF seg_sizes_ok [OF assms(1)] False] by simp
  then show ?thesis
    using assms False seg_relink_some [OF assms(1,2) _ False, of r']
    by (auto simp: set_link_def word_nat set_hdr_next_nat)
qed

text \<open>What a link update leaves alone: everything but four bytes of a free block's header.\<close>

lemma set_link_frame:
  assumes "set_link (of_nat l) x (m, p) = (m', p')" "l + 8 \<le> 4294967296"
    "\<not> (l \<noteq> 0 \<and> l + 4 \<le> unat b \<and> unat b < l + 8)"
  shows "m' b = m b"
proof (cases "l = 0")
  case False
  then have "b \<notin> region (of_nat (l + 4)) 4"
    using assms(2,3) region_of_nat [of "l + 4" 4 b] by auto
  then show ?thesis
    using assms False by (auto simp: set_link_def word_nat set_hdr_next_nat store32_other)
qed (use assms in \<open>simp add: set_link_def\<close>)

lemma seg_set_link_outside:
  assumes "set_link (of_nat l) x (m, p) = (m', p')" "l + 8 \<le> c"
    "c + bytes bs \<le> 4294967296" "sizes_ok bs"
  shows "seg m' c bs q r \<longleftrightarrow> seg m c bs q r"
proof (rule seg_cong [OF _ assms(3,4)])
  fix b :: u32 assume "c \<le> unat b" "unat b < c + bytes bs"
  then show "m' b = m b"
    using assms(2,3) by (intro set_link_frame [OF assms(1)]) auto
qed

section \<open>malloc implements first fit\<close>

definition taken :: "nat \<Rightarrow> nat \<Rightarrow> blocks" where
  "taken n s = (if 16 \<le> s - n then [(n, True), (s - n, False)] else [(s, True)])"

lemma take_block_split:
  assumes "hdr_size m (of_nat c) = of_nat s" "size_ok s" "size_ok n" "n \<le> s"
    "c + s < 4294967296"
    and "take_block m fl prev (of_nat c) (of_nat n) = (m', fl')" "16 \<le> s - n"
  obtains m1 m2 m3 where
    "m1 = store32 m (of_nat (c + n)) (of_nat (s - n))"
    "m2 = store32 m1 (of_nat (c + n + 4)) (hdr_next m (of_nat c))"
    "set_link prev (of_nat (c + n)) (m2, fl) = (m3, fl')"
    "m' = store32 m3 (of_nat c) (of_nat (n + 1))"
proof -
  have n: "16 \<le> n" using assms(3) by (simp add: size_ok_def)
  have remain: "(of_nat s :: u32) - of_nat n = of_nat (s - n)"
    using assms(4) by (simp add: of_nat_diff)
  have "(of_nat 16 :: u32) \<le> of_nat (s - n)"
    using assms(5,7) by (subst of_nat32_le_iff) auto
  then have ge: "(16 :: u32) \<le> of_nat (s - n)" by simp
  have or1: "(of_nat n :: u32) OR 1 = of_nat (n + 1)"
    using assms(4,5) size_ok_even [OF assms(3)] by (intro or_1_of_even) auto
  let ?m1 = "store32 m (of_nat (c + n)) (of_nat (s - n))"
  have nx: "hdr_next ?m1 (of_nat c) = hdr_next m (of_nat c)"
    using n assms(4,5,7) unfolding hdr_next_nat by (intro load32_store32_nat) auto
  obtain m3 fl3 where link: "set_link prev (of_nat (c + n))
      (store32 ?m1 (of_nat (c + n + 4)) (hdr_next m (of_nat c)), fl) = (m3, fl3)"
    by (cases "set_link prev (of_nat (c + n))
      (store32 ?m1 (of_nat (c + n + 4)) (hdr_next m (of_nat c)), fl)")
  have "take_block m fl prev (of_nat c) (of_nat n) =
      (store32 m3 (of_nat c) (of_nat (n + 1)), fl3)"
    using link nx unfolding take_block_def Let_def assms(1) remain MIN_BLOCK_SIZE_def or1
      of_nat_add [of c n, symmetric] set_hdr_next_nat set_hdr_size_def
    by (simp only: if_P [OF ge] prod.case)
  then show ?thesis using that assms(6) link by simp
qed

lemma take_block_whole:
  assumes "hdr_size m (of_nat c) = of_nat s" "size_ok s" "n \<le> s"
    "c + s < 4294967296"
    and "take_block m fl prev (of_nat c) (of_nat n) = (m', fl')" "\<not> 16 \<le> s - n"
  obtains m1 where
    "set_link prev (hdr_next m (of_nat c)) (m, fl) = (m1, fl')"
    "m' = store32 m1 (of_nat c) (of_nat (s + 1))"
proof -
  have remain: "(of_nat s :: u32) - of_nat n = of_nat (s - n)"
    using assms(3) by (simp add: of_nat_diff)
  have "\<not> (of_nat 16 :: u32) \<le> of_nat (s - n)"
    using assms(4,6) by (subst of_nat32_le_iff) auto
  then have ge: "\<not> (16 :: u32) \<le> of_nat (s - n)" by simp
  have or1: "(of_nat s :: u32) OR 1 = of_nat (s + 1)"
    using assms(4) size_ok_even [OF assms(2)] by (intro or_1_of_even) auto
  obtain m1 fl1 where link: "set_link prev (hdr_next m (of_nat c)) (m, fl) = (m1, fl1)"
    by (cases "set_link prev (hdr_next m (of_nat c)) (m, fl)")
  have "take_block m fl prev (of_nat c) (of_nat n) = (store32 m1 (of_nat c) (of_nat (s + 1)), fl1)"
    using link unfolding take_block_def Let_def assms(1) remain MIN_BLOCK_SIZE_def or1
      set_hdr_size_def by (simp only: if_not_P [OF ge] prod.case)
  then show ?thesis using that assms(5) link by simp
qed

lemma take_block_refines:
  assumes xs: "seg m a xs fl (of_nat c)" and c: "c = a + bytes xs"
    and blk: "load32 m (of_nat c) = of_nat s" "size_ok s"
    and ys: "seg m (c + s) ys (hdr_next m (of_nat c)) 0"
    and n: "size_ok n" "n \<le> s"
    and bnd: "8 \<le> a" "c + s + bytes ys < 4294967296"
    and run: "take_block m fl (of_nat (last_free a xs)) (of_nat c) (of_nat n) = (m', fl')"
  shows "seg m' a (xs @ taken n s @ ys) fl' 0"
proof -
  have oks: "sizes_ok xs" "sizes_ok ys" using xs ys by (auto dest: seg_sizes_ok)
  have s16: "16 \<le> s" "16 \<le> n" using blk(2) n(1) by (simp_all add: size_ok_def)
  have hs: "hdr_size m (of_nat c) = of_nat s"
    using hdr_size_of_nat [of m "of_nat c" False s] blk bnd c by simp
  have l8: "last_free a xs + 8 \<le> c"
    using last_free_bounds [OF oks(1), of a] c bnd(1) by (cases "last_free a xs = 0") simp_all
  show ?thesis
  proof (cases "16 \<le> s - n")
    case True
    obtain m1 m2 m3 where m1: "m1 = store32 m (of_nat (c + n)) (of_nat (s - n))"
      and m2: "m2 = store32 m1 (of_nat (c + n + 4)) (hdr_next m (of_nat c))"
      and link: "set_link (of_nat (last_free a xs)) (of_nat (c + n)) (m2, fl) = (m3, fl')"
      and m4: "m' = store32 m3 (of_nat c) (of_nat (n + 1))"
      using take_block_split [OF hs blk(2) n _ run True] bnd(2) by auto
    have "8 dvd s - n" using blk(2) n by (auto simp: size_ok_def dvd_diff_nat)
    then have ok: "size_ok (s - n)" using True by (simp add: size_ok_def)
    have out: "seg m2 x bs p q \<longleftrightarrow> seg m x bs p q"
      if "x + bytes bs \<le> c + n \<or> c + n + 8 \<le> x" "x + bytes bs \<le> 4294967296" "sizes_ok bs"
      for x bs p q
    proof -
      have "seg m2 x bs p q \<longleftrightarrow> seg m1 x bs p q"
        unfolding m2 using that bnd True n by (intro seg_store_outside) auto
      also have "\<dots> \<longleftrightarrow> seg m x bs p q"
        unfolding m1 using that bnd True n by (intro seg_store_outside) auto
      finally show ?thesis .
    qed
    have "seg m2 a xs fl (of_nat c)"
      using xs c bnd oks by (subst out) auto
    then have xs3: "seg m3 a xs fl' (of_nat (c + n))"
      by (rule seg_set_link [OF _ _ _ link]) (use bnd c in simp_all)
    have ys2: "seg m2 (c + s) ys (hdr_next m (of_nat c)) 0"
      using ys bnd oks True n by (subst out) auto
    have "load32 m2 (of_nat (c + n)) = of_nat (s - n)"
      unfolding m2 using bnd True n s16 by (subst load32_store32_nat) (auto simp: m1)
    then have "seg m2 (c + n) ((s - n, False) # ys) (of_nat (c + n)) 0"
      using ys2 ok n(2) by (simp add: hdr_next_nat m2 del: of_nat_add)
    then have "seg m3 (c + n) ((s - n, False) # ys) (of_nat (c + n)) 0"
      using l8 bnd n oks ok by (subst seg_set_link_outside [OF link]) auto
    moreover have "seg m3 (c + n) ((s - n, False) # ys) q 0 =
       seg m' (c + n) ((s - n, False) # ys) q 0" for q
      unfolding m4 using bnd n oks ok s16 by (subst seg_store_outside) auto
    moreover have "seg m' a xs fl' (of_nat (c + n))"
      unfolding m4 using xs3 bnd c oks s16 by (subst seg_store_outside) auto
    ultimately show ?thesis
      using True c n(1) m4 by (auto simp: taken_def simp del: of_nat_add)
  next
    case False
    obtain m1 where link: "set_link (of_nat (last_free a xs)) (hdr_next m (of_nat c)) (m, fl) = (m1, fl')"
      and m': "m' = store32 m1 (of_nat c) (of_nat (s + 1))"
      using take_block_whole [OF hs blk(2) n(2) _ run False] bnd(2) by auto
    have "seg m1 a xs fl' (hdr_next m (of_nat c))"
      by (rule seg_set_link [OF xs _ _ link]) (use bnd c in simp_all)
    then have "seg m' a xs fl' (hdr_next m (of_nat c))"
      unfolding m' using bnd c oks s16 by (subst seg_store_outside) auto
    moreover have "seg m1 (c + s) ys (hdr_next m (of_nat c)) 0"
      using ys l8 bnd oks by (subst seg_set_link_outside [OF link]) auto
    then have "seg m' (c + s) ys (hdr_next m (of_nat c)) 0"
      unfolding m' using bnd oks s16 by (subst seg_store_outside) auto
    ultimately show ?thesis
      using False c blk(2) m' by (auto simp: taken_def simp del: of_nat_add)
  qed
qed

text \<open>Taking a block writes inside free blocks only.\<close>

lemma store32_frame:
  "y + 4 \<le> 4294967296 \<Longrightarrow> unat b < y \<or> y + 4 \<le> unat b \<Longrightarrow> store32 m (of_nat y) v b = m b"
  using region_of_nat [of y 4 b] by (intro store32_other) auto

lemma take_block_frame:
  assumes "hdr_size m (of_nat c) = of_nat s" "size_ok s" "size_ok n" "n \<le> s"
    "c + s < 4294967296" "l + 8 \<le> c"
    and "take_block m fl (of_nat l) (of_nat c) (of_nat n) = (m', fl')"
    and b: "\<not> (c \<le> unat b \<and> unat b < c + s)" "\<not> (l \<noteq> 0 \<and> l + 4 \<le> unat b \<and> unat b < l + 8)"
  shows "m' b = m b"
proof (cases "16 \<le> s - n")
  case True
  have n: "16 \<le> n" using assms(3) by (simp add: size_ok_def)
  obtain m1 m2 m3 where m1: "m1 = store32 m (of_nat (c + n)) (of_nat (s - n))"
    and m2: "m2 = store32 m1 (of_nat (c + n + 4)) (hdr_next m (of_nat c))"
    and link: "set_link (of_nat l) (of_nat (c + n)) (m2, fl) = (m3, fl')"
    and m4: "m' = store32 m3 (of_nat c) (of_nat (n + 1))"
    using take_block_split [OF assms(1-5,7) True] by metis
  have "m' b = m3 b"
    unfolding m4 using b(1) assms(5) n True by (intro store32_frame) auto
  also have "\<dots> = m2 b"
    using assms(5,6) b(2) by (intro set_link_frame [OF link]) auto
  also have "\<dots> = m1 b"
    unfolding m2 using b(1) assms(4,5) n True by (intro store32_frame) auto
  also have "\<dots> = m b"
    unfolding m1 using b(1) assms(4,5) n True by (intro store32_frame) auto
  finally show ?thesis .
next
  case False
  obtain m1 where link: "set_link (of_nat l) (hdr_next m (of_nat c)) (m, fl) = (m1, fl')"
    and m': "m' = store32 m1 (of_nat c) (of_nat (s + 1))"
    using take_block_whole [OF assms(1,2,4,5,7) False] by metis
  have "16 \<le> s" using assms(2) by (simp add: size_ok_def)
  moreover have "m1 b = m b"
    using assms(5,6) b(2) by (intro set_link_frame [OF link]) auto
  ultimately show ?thesis
    unfolding m' using b(1) assms(5) by (subst store32_frame) auto
qed

text \<open>
  The search loop: \<open>xs\<close> are the blocks already passed, \<open>ys\<close> the ones from the current free
  block on.
\<close>

lemma first_fit_refines:
  assumes "seg m a xs fl cur" "seg m (a + bytes xs) ys cur 0"
    and "8 \<le> a" "a + bytes xs + bytes ys < 4294967296" "size_ok n" "n < 4294967296"
  shows "case alloc_blocks n (a + bytes xs) ys of
      None \<Rightarrow> first_fit m fl (of_nat (last_free a xs)) cur (of_nat n) = Some (0, m, fl)
    | Some (p, ys') \<Rightarrow> \<exists>m' fl'.
        first_fit m fl (of_nat (last_free a xs)) cur (of_nat n) = Some (of_nat (p + 8), m', fl') \<and>
        seg m' a (xs @ ys') fl' 0 \<and>
        (\<forall>b. \<not> in_free a (xs @ ys) (unat b) \<longrightarrow> m' b = m b)"
  using assms
proof (induction ys arbitrary: xs cur)
  case Nil
  then show ?case by (simp add: first_fit.simps)
next
  case (Cons blk ys)
  obtain s al where blk [simp]: "blk = (s, al)" by (cases blk)
  let ?c = "a + bytes xs"
  have ok: "size_ok s" and ld: "load32 m (of_nat ?c) = of_nat (if al then s + 1 else s)"
    using Cons.prems(2) by simp_all
  have s16: "16 \<le> s" using ok by (simp add: size_ok_def)
  have hs: "hdr_size m (of_nat ?c) = of_nat s"
    using hdr_size_of_nat [OF ld ok] Cons.prems(3,4) by simp
  have IH: "case alloc_blocks n (a + bytes (xs @ [blk])) ys of
      None \<Rightarrow> first_fit m fl (of_nat (last_free a (xs @ [blk]))) cur' (of_nat n) = Some (0, m, fl)
    | Some (p, ys') \<Rightarrow> \<exists>m' fl'.
        first_fit m fl (of_nat (last_free a (xs @ [blk]))) cur' (of_nat n) = Some (of_nat (p + 8), m', fl') \<and>
        seg m' a ((xs @ [blk]) @ ys') fl' 0 \<and>
        (\<forall>b. \<not> in_free a ((xs @ [blk]) @ ys) (unat b) \<longrightarrow> m' b = m b)"
    if "seg m a (xs @ [blk]) fl cur'" "seg m (?c + s) ys cur' 0" for cur'
    using that Cons.prems(3-6) by (intro Cons.IH) (auto simp: add.assoc)
  show ?case
  proof (cases al)
    case True
    have "last_free a (xs @ [blk]) = last_free a xs"
      using True by (simp add: last_free_append Let_def)
    moreover have "seg m a (xs @ [blk]) fl cur" "seg m (?c + s) ys cur 0"
      using Cons.prems(1,2) True by auto
    ultimately show ?thesis
      using IH [of cur] True by (auto simp: add.assoc split: option.splits)
  next
    case False
    have cur: "cur = of_nat ?c" and ys: "seg m (?c + s) ys (hdr_next m (of_nat ?c)) 0"
      using Cons.prems(2) False by simp_all
    have c0: "(of_nat ?c :: u32) \<noteq> 0"
      using Cons.prems(3,4) by (subst of_nat32_eq_0_iff) auto
    have cmp: "(of_nat n :: u32) \<le> of_nat s \<longleftrightarrow> n \<le> s"
      using Cons.prems(4,6) by (intro of_nat32_le_iff) auto
    have l8: "last_free a xs + 8 \<le> ?c"
      using last_free_bounds [OF seg_sizes_ok [OF Cons.prems(1)], of a] Cons.prems(3)
      by (cases "last_free a xs = 0") simp_all
    show ?thesis
    proof (cases "n \<le> s")
      case True
      obtain m' fl' where run:
        "take_block m fl (of_nat (last_free a xs)) (of_nat ?c) (of_nat n) = (m', fl')"
        by (cases "take_block m fl (of_nat (last_free a xs)) (of_nat ?c) (of_nat n)")
      have "first_fit m fl (of_nat (last_free a xs)) cur (of_nat n) =
          Some (of_nat (?c + 8), m', fl')"
        using c0 cmp True hs run unfolding cur by (subst first_fit.simps) simp
      moreover have "seg m' a (xs @ taken n s @ ys) fl' 0"
        using Cons.prems ld ok ys False True run unfolding cur
        by (intro take_block_refines) (auto simp del: of_nat_add)
      moreover have "m' b = m b" if "\<not> in_free a (xs @ blk # ys) (unat b)" for b
      proof -
        have "\<not> (?c \<le> unat b \<and> unat b < ?c + s)" using that False by auto
        moreover have "\<not> (last_free a xs \<noteq> 0 \<and> last_free a xs + 4 \<le> unat b \<and> unat b < last_free a xs + 8)"
        proof
          assume l: "last_free a xs \<noteq> 0 \<and> last_free a xs + 4 \<le> unat b \<and> unat b < last_free a xs + 8"
          then have "in_free a xs (last_free a xs + (unat b - last_free a xs))"
            using seg_sizes_ok [OF Cons.prems(1)] by (intro last_free_in_free) auto
          then show False using l that by simp
        qed
        ultimately show ?thesis
          using take_block_frame [OF hs ok Cons.prems(5) True _ l8 run] Cons.prems(4) by simp
      qed
      moreover have "alloc_blocks n ?c (blk # ys) = Some (?c, taken n s @ ys)"
        using True False by (simp add: taken_def)
      ultimately show ?thesis
        by (simp del: of_nat_add seg_append in_free_append alloc_blocks.simps)
    next
      case nle: False
      have "last_free a (xs @ [blk]) = ?c"
        using False Cons.prems(3) by (simp add: last_free_append Let_def)
      moreover have "first_fit m fl (of_nat (last_free a xs)) cur (of_nat n) =
          first_fit m fl (of_nat ?c) (hdr_next m (of_nat ?c)) (of_nat n)"
        using c0 cmp nle hs unfolding cur by (subst first_fit.simps) simp
      moreover have "seg m a (xs @ [blk]) fl (hdr_next m (of_nat ?c))"
        using Cons.prems(1) False ld ok unfolding cur by auto
      ultimately show ?thesis
        using IH [of "hdr_next m (of_nat ?c)"] ys nle False
        by (auto simp: add.assoc simp del: of_nat_add split: option.splits)
    qed
  qed
qed

section \<open>free implements marking and coalescing\<close>

lemma seg_first:
  "seg m a bs p r \<Longrightarrow> (\<forall>(s, al) \<in> set bs. al) \<and> p = r \<or>
     (\<exists>x. p = of_nat x \<and> a \<le> x \<and> x < a + bytes bs)"
proof (induction a bs arbitrary: p rule: allocated.induct)
  case (2 a s al bs)
  have s: "16 \<le> s" using "2.prems" by (simp add: size_ok_def)
  show ?case
  proof (cases al)
    case True
    then have "seg m (a + s) bs p r" using "2.prems" by simp
    from "2.IH" [OF this] show ?thesis using True by fastforce
  next
    case False
    then show ?thesis using "2.prems" s by (intro disjI2 exI [of _ a]) simp
  qed
qed simp

lemma find_slot_refines:
  assumes "seg m a xs fl cur" "seg m (a + bytes xs) ys cur r"
    and "8 \<le> a" "a + bytes xs + bytes ys < 4294967296"
    and "r = 0 \<or> of_nat (a + bytes xs + bytes ys) \<le> r"
  shows "find_slot m (of_nat (last_free a xs)) cur (of_nat (a + bytes xs + bytes ys)) =
    Some (of_nat (last_free a (xs @ ys)), r)"
  using assms
proof (induction ys arbitrary: xs cur)
  case Nil
  then show ?case by (subst find_slot.simps) auto
next
  case (Cons blk ys)
  obtain s al where blk [simp]: "blk = (s, al)" by (cases blk)
  let ?c = "a + bytes xs"
  have IH: "find_slot m (of_nat (last_free a (xs @ [blk]))) cur'
      (of_nat (a + bytes (xs @ [blk]) + bytes ys)) =
    Some (of_nat (last_free a ((xs @ [blk]) @ ys)), r)"
    if "seg m a (xs @ [blk]) fl cur'" "seg m (?c + s) ys cur' r" for cur'
    using that Cons.prems(3-5) by (intro Cons.IH) (auto simp: add.assoc)
  show ?case
  proof (cases al)
    case True
    then have "last_free a (xs @ [blk]) = last_free a xs"
      by (simp add: last_free_append Let_def)
    then show ?thesis
      using IH [of cur] Cons.prems(1,2) True by (simp add: add.assoc del: of_nat_add)
  next
    case False
    have cur: "cur = of_nat ?c" and s: "16 \<le> s"
      and ys: "seg m (?c + s) ys (hdr_next m (of_nat ?c)) r"
      using Cons.prems(2) False by (simp_all add: size_ok_def)
    have c0: "(of_nat ?c :: u32) \<noteq> 0"
      using Cons.prems(3,4) by (subst of_nat32_eq_0_iff) auto
    have lt: "(of_nat ?c :: u32) < of_nat (a + bytes xs + bytes (blk # ys))"
      using Cons.prems(4) s by (subst of_nat32_less_iff) auto
    have "last_free a (xs @ [blk]) = ?c"
      using False Cons.prems(3) by (simp add: last_free_append Let_def)
    moreover have "seg m a (xs @ [blk]) fl (hdr_next m (of_nat ?c))"
      using Cons.prems(1,2) False by auto
    moreover have "find_slot m (of_nat (last_free a xs)) cur
          (of_nat (a + bytes xs + bytes (blk # ys))) =
        find_slot m (of_nat ?c) (hdr_next m (of_nat ?c))
          (of_nat (a + bytes xs + bytes (blk # ys)))"
      using c0 lt unfolding cur by (subst find_slot.simps) simp
    ultimately show ?thesis
      using IH [of "hdr_next m (of_nat ?c)"] ys by (simp add: add.assoc del: of_nat_add)
  qed
qed

lemma last_free_decomp:
  assumes "last_free a bs \<noteq> 0"
  obtains xs t zs where "bs = xs @ (t, False) # zs" "last_free a bs = a + bytes xs"
    "\<forall>(s, al) \<in> set zs. al"
proof -
  have "\<exists>xs t zs. bs = xs @ (t, False) # zs \<and> last_free a bs = a + bytes xs \<and> (\<forall>(s, al) \<in> set zs. al)"
    using assms
  proof (induction a bs rule: allocated.induct)
    case (2 a s al bs)
    show ?case
    proof (cases "last_free (a + s) bs = 0")
      case True
      then have "\<not> al" "last_free a ((s, al) # bs) = a"
        using "2.prems" by (auto simp: Let_def split: if_splits)
      moreover have "\<forall>(s, al) \<in> set bs. al" if "last_free b bs = 0" "0 < b" for b
        using that by (induction b bs rule: allocated.induct) (auto simp: Let_def split: if_splits)
      moreover have "0 < a" using \<open>last_free a ((s, al) # bs) = a\<close> "2.prems" by simp
      ultimately show ?thesis
        using True by (intro exI [of _ "[]"] exI [of _ s] exI [of _ bs]) auto
    next
      case False
      then obtain xs t zs where "bs = xs @ (t, False) # zs" "last_free (a + s) bs = a + s + bytes xs"
        "\<forall>(s, al) \<in> set zs. al" using "2.IH" by auto
      then show ?thesis
        using False by (intro exI [of _ "(s, al) # xs"] exI [of _ t] exI [of _ zs]) (simp add: Let_def)
    qed
  qed simp
  then show ?thesis using that by blast
qed

definition join_next :: "nat \<Rightarrow> blocks \<Rightarrow> blocks" where
  "join_next s ys = (case ys of (t, False) # zs \<Rightarrow> (s + t, False) # zs | _ \<Rightarrow> (s, False) # ys)"

definition join_prev :: "blocks \<Rightarrow> nat \<Rightarrow> blocks" where
  "join_prev xs s = (if xs \<noteq> [] \<and> \<not> snd (last xs)
     then butlast xs @ [(fst (last xs) + s, False)] else xs @ [(s, False)])"

lemma join_next_cases:
  obtains t zs where "ys = (t, False) # zs" "join_next s ys = (s + t, False) # zs"
  | "join_next s ys = (s, False) # ys" "ys = [] \<or> snd (hd ys)"
proof (cases ys)
  case (Cons b zs)
  then show ?thesis using that by (cases b; cases "snd b") (auto simp: join_next_def)
qed (use that in \<open>simp add: join_next_def\<close>)

lemma coalesce_next_refines:
  assumes "seg m c ((s, False) # ys) (of_nat c) 0" "8 \<le> c" "c + s + bytes ys < 4294967296"
    and m': "m' = coalesce_next (of_nat c) m"
  shows "seg m' c (join_next s ys) (of_nat c) 0 \<and>
    (\<forall>b. \<not> (c \<le> unat b \<and> unat b < c + 8) \<longrightarrow> m' b = m b)"
proof -
  let ?nx = "hdr_next m (of_nat c)"
  have ok: "size_ok s" "16 \<le> s" "sizes_ok ys" and ld: "load32 m (of_nat c) = of_nat s"
    and ys: "seg m (c + s) ys ?nx 0"
    using assms(1) by (auto simp: size_ok_def dest: seg_sizes_ok)
  have hs: "hdr_size m (of_nat c) = of_nat s"
    using hdr_size_of_nat [of m "of_nat c" False s] ld ok assms(2,3) by simp
  show ?thesis
  proof (rule join_next_cases [of ys s])
    fix t zs assume split: "ys = (t, False) # zs" and join: "join_next s ys = (s + t, False) # zs"
    have nx: "?nx = of_nat (c + s)" and ld2: "load32 m (of_nat (c + s)) = of_nat t"
      and okt: "size_ok t" "16 \<le> t" and zs: "seg m (c + s + t) zs (hdr_next m (of_nat (c + s))) 0"
      using ys split by (auto simp: size_ok_def)
    have hs2: "hdr_size m (of_nat (c + s)) = of_nat t"
      using hdr_size_of_nat [of m "of_nat (c + s)" False t] ld2 okt assms(2,3) split
      by (simp del: of_nat_add)
    have nz: "(of_nat (c + s) :: u32) \<noteq> 0"
      using assms(2,3) by (subst of_nat32_eq_0_iff) auto
    let ?m1 = "store32 m (of_nat c) (of_nat (s + t))"
    have "hdr_next ?m1 (of_nat c) = of_nat (c + s)"
      using nx assms(3) ok unfolding hdr_next_nat by (subst load32_store32_nat) auto
    moreover have "hdr_next ?m1 (of_nat (c + s)) = hdr_next m (of_nat (c + s))"
      using assms(3) ok split okt unfolding hdr_next_nat by (intro load32_store32_nat) auto
    ultimately have eq: "m' = store32 ?m1 (of_nat (c + 4)) (hdr_next m (of_nat (c + s)))"
      using nz unfolding m' coalesce_next_def nx hs hs2 set_hdr_size_def
        of_nat_add [of c s, symmetric] of_nat_add [of s t, symmetric]
      by (simp only: if_P refl simp_thms Let_def set_hdr_next_nat)
    have "load32 m' (of_nat c) = of_nat (s + t)"
      using assms(3) ok unfolding eq by (subst load32_store32_nat) auto
    moreover have "seg m' (c + s + t) zs q 0 = seg m (c + s + t) zs q 0" for q
      using assms(3) ok split okt
      by (intro seg_cong) (auto simp: eq store32_frame dest: seg_sizes_ok simp del: of_nat_add)
    moreover have "size_ok (s + t)" using ok okt by (auto simp: size_ok_def)
    ultimately have "seg m' c ((s + t, False) # zs) (of_nat c) 0"
      using zs by (simp add: hdr_next_nat eq add.assoc del: of_nat_add)
    moreover have "m' b = m b" if "\<not> (c \<le> unat b \<and> unat b < c + 8)" for b
      using that assms(3) ok by (auto simp: eq store32_frame simp del: of_nat_add)
    ultimately show ?thesis using join by simp
  next
    assume join: "join_next s ys = (s, False) # ys" and alloc: "ys = [] \<or> snd (hd ys)"
    have "?nx = 0 \<or> of_nat c + of_nat s \<noteq> ?nx"
    proof (rule ccontr)
      assume "\<not> ?thesis"
      then have nx: "?nx = of_nat (c + s)" "?nx \<noteq> 0" by auto
      then obtain x where x: "?nx = of_nat x" "c + s \<le> x" "x < c + s + bytes ys"
        using seg_first [OF ys] by auto
      then obtain t zs where "ys = (t, True) # zs" using alloc by (cases ys) auto
      then have "seg m (c + s + t) zs ?nx 0" "16 \<le> t" using ys by (auto simp: size_ok_def)
      then obtain x' where x': "?nx = of_nat x'" "c + s + t \<le> x'" "x' < c + s + bytes ys"
        using seg_first [of m "c + s + t" zs ?nx 0] nx(2) \<open>ys = _\<close> by auto
      then have "(of_nat x' :: u32) = of_nat (c + s)" using nx(1) by simp
      then have "x' = c + s" using x'(3) assms(3) by (subst (asm) of_nat32_eq_iff) auto
      then show False using x'(2) \<open>16 \<le> t\<close> by simp
    qed
    then have "m' = m" by (auto simp: m' coalesce_next_def hs)
    then show ?thesis using assms(1) join by simp
  qed
qed

lemma coalesce_prev_refines:
  assumes xs: "seg m a xs fl (of_nat c)" and c: "c = a + bytes xs"
    and cur: "seg m c ((s, False) # ys) (of_nat c) 0"
    and bnd: "8 \<le> a" "c + s + bytes ys < 4294967296"
    and m': "m' = coalesce_prev (of_nat (last_free a xs)) (of_nat c) m"
  shows "seg m' a (join_prev xs s @ ys) fl 0 \<and>
    (\<forall>b. \<not> (last_free a xs \<noteq> 0 \<and> last_free a xs \<le> unat b \<and> unat b < last_free a xs + 8) \<longrightarrow> m' b = m b)"
proof -
  let ?l = "last_free a xs"
  have oks: "sizes_ok xs" "size_ok s" "16 \<le> s" "sizes_ok ys"
    using xs cur by (auto simp: size_ok_def dest: seg_sizes_ok)
  have hs: "hdr_size m (of_nat c) = of_nat s"
    using hdr_size_of_nat [of m "of_nat c" False s] cur oks bnd c by simp
  have whole: "seg m a (xs @ (s, False) # ys) fl 0" using xs cur c by auto
  show ?thesis
  proof (cases "?l = 0")
    case True
    then have "\<not> (xs \<noteq> [] \<and> \<not> snd (last xs))"
      using bnd(1) by (cases xs rule: rev_cases) (auto simp: last_free_append Let_def split: if_splits)
    then have "join_prev xs s = xs @ [(s, False)]" unfolding join_prev_def by (rule if_not_P)
    moreover have "m' = m" using True by (simp add: m' coalesce_prev_def)
    ultimately show ?thesis using whole by simp
  next
    case False
    obtain ps t zs where dec: "xs = ps @ (t, False) # zs" "?l = a + bytes ps"
      and zs: "\<forall>(s, al) \<in> set zs. al"
      using last_free_decomp [OF False] by blast
    have ld: "load32 m (of_nat ?l) = of_nat t" and okt: "size_ok t" "16 \<le> t"
      and ps: "seg m a ps fl (of_nat ?l)"
      and rest: "seg m (?l + t) zs (hdr_next m (of_nat ?l)) (of_nat c)"
      using xs dec by (auto simp: size_ok_def)
    have ht: "hdr_size m (of_nat ?l) = of_nat t"
      using hdr_size_of_nat [of m "of_nat ?l" False t] ld okt bnd c dec by (simp del: of_nat_add)
    have nz: "(of_nat ?l :: u32) \<noteq> 0"
      using bnd c dec by (subst of_nat32_eq_0_iff) auto
    have adj: "(of_nat (?l + t) :: u32) = of_nat c \<longleftrightarrow> zs = []"
    proof -
      have "(of_nat (?l + t) :: u32) = of_nat c \<longleftrightarrow> ?l + t = c"
        using bnd c dec by (intro of_nat32_eq_iff) auto
      also have "\<dots> \<longleftrightarrow> zs = []"
        using c dec oks(1) by (cases zs) (auto simp: size_ok_def)
      finally show ?thesis .
    qed
    show ?thesis
    proof (cases "zs = []")
      case True
      let ?m1 = "store32 m (of_nat ?l) (of_nat (t + s))"
      have cl: "c = ?l + t" using c dec True by simp
      have "hdr_next ?m1 (of_nat c) = hdr_next m (of_nat c)"
        using bnd oks okt cl unfolding hdr_next_nat by (intro load32_store32_nat) auto
      then have eq: "m' = store32 ?m1 (of_nat (?l + 4)) (hdr_next m (of_nat c))"
        using nz adj True unfolding m' coalesce_prev_def hs ht set_hdr_size_def
          of_nat_add [of ?l t, symmetric] of_nat_add [of t s, symmetric]
        by (simp only: if_P simp_thms Let_def set_hdr_next_nat)
      have "load32 m' (of_nat ?l) = of_nat (t + s)"
        using bnd oks cl okt unfolding eq by (subst load32_store32_nat) auto
      moreover have "seg m' (c + s) ys q 0 = seg m (c + s) ys q 0" for q
        using bnd oks cl okt
        by (intro seg_cong) (auto simp: eq store32_frame simp del: of_nat_add)
      moreover have "seg m' a ps fl (of_nat ?l) = seg m a ps fl (of_nat ?l)"
        using bnd oks cl okt dec
        by (intro seg_cong) (auto simp: eq store32_frame simp del: of_nat_add)
      moreover have "seg m (c + s) ys (hdr_next m (of_nat c)) 0" using cur by simp
      moreover have "size_ok (t + s)" using oks okt by (auto simp: size_ok_def)
      moreover have "join_prev xs s @ ys = ps @ (t + s, False) # ys"
        using dec True by (simp add: join_prev_def)
      ultimately have "seg m' a (join_prev xs s @ ys) fl 0"
        using ps dec cl by (auto simp: hdr_next_nat eq add.assoc simp del: of_nat_add)
      moreover have "m' b = m b" if "\<not> (?l \<le> unat b \<and> unat b < ?l + 8)" for b
        using that bnd cl oks by (auto simp: eq store32_frame simp del: of_nat_add)
      ultimately show ?thesis using False by blast
    next
      case zs': False
      then have "m' = m" using adj by (simp add: m' coalesce_prev_def ht)
      moreover have "join_prev xs s = xs @ [(s, False)]"
        using zs' zs dec by (cases zs rule: rev_cases) (auto simp: join_prev_def)
      ultimately show ?thesis using whole by simp
    qed
  qed
qed

text \<open>The two local merges are the merging of all neighbours when only one block was freed.\<close>

lemma coalesce_id: "no_adj bs \<Longrightarrow> coalesce bs = bs"
  by (induction bs rule: coalesce.induct) (auto elim: no_adj.elims)

lemma no_adj_Cons: "no_adj (b # bs) \<longleftrightarrow> (bs = [] \<or> snd b \<or> snd (hd bs)) \<and> no_adj bs"
  by (cases b; cases bs) auto

lemma no_adj_append:
  "no_adj (xs @ ys) \<longleftrightarrow> no_adj xs \<and> no_adj ys \<and>
     (xs = [] \<or> ys = [] \<or> snd (last xs) \<or> snd (hd ys))"
  by (induction xs) (auto simp: no_adj_Cons hd_append)

lemma coalesce_head:
  assumes "no_adj ys"
  shows "coalesce ((s, False) # ys) = join_next s ys"
proof (rule join_next_cases [of ys s])
  fix t zs assume "ys = (t, False) # zs" "join_next s ys = (s + t, False) # zs"
  moreover then have "coalesce ((s + t, False) # zs) = (s + t, False) # zs"
    using assms by (intro coalesce_id) (auto simp: no_adj_Cons)
  ultimately show ?thesis by simp
next
  assume "join_next s ys = (s, False) # ys" "ys = [] \<or> snd (hd ys)"
  moreover then have "coalesce ((s, False) # ys) = (s, False) # ys"
    using assms by (intro coalesce_id) (auto simp: no_adj_Cons)
  ultimately show ?thesis by simp
qed

lemma coalesce_Cons:
  "bs \<noteq> [] \<Longrightarrow> snd b \<or> snd (hd bs) \<Longrightarrow> coalesce (b # bs) = b # coalesce bs"
  by (cases b; cases bs) auto

lemma coalesce_mid:
  assumes "no_adj xs" "no_adj ys" "join_next s ys = (s', False) # ys'"
  shows "coalesce (xs @ (s, False) # ys) = join_prev xs s' @ ys'"
  using assms(1)
proof (induction xs)
  case Nil
  then show ?case using assms(2,3) by (simp add: coalesce_head join_prev_def)
next
  case (Cons b xs)
  obtain t al where b [simp]: "b = (t, al)" by (cases b)
  have IH: "coalesce (xs @ (s, False) # ys) = join_prev xs s' @ ys'"
    using Cons by (simp add: no_adj_Cons)
  show ?case
  proof (cases "xs = []")
    case True
    have "coalesce ((t + s, False) # ys) = (t + s', False) # ys'"
      using assms(2,3) by (auto simp: coalesce_head join_next_def split: list.splits prod.splits bool.splits)
    then show ?thesis
      using True IH by (cases al) (auto simp: join_prev_def)
  next
    case False
    then have "coalesce (b # (xs @ (s, False) # ys)) = b # coalesce (xs @ (s, False) # ys)"
      using Cons.prems by (intro coalesce_Cons) (auto simp: no_adj_Cons hd_append)
    then show ?thesis using IH False by (simp add: join_prev_def)
  qed
qed

lemma join_next_form:
  obtains s' ys' where "join_next s ys = (s', False) # ys'" "s' + bytes ys' = s + bytes ys"
  by (rule join_next_cases [of ys s]) auto

lemma bytes_join_prev: "bytes (join_prev xs s) = bytes xs + s"
  by (cases xs rule: rev_cases) (auto simp: join_prev_def)

lemma mark_free_split:
  "sizes_ok bs \<Longrightarrow> mark_free p a bs = Some bs' \<longleftrightarrow>
     (\<exists>xs s ys. bs = xs @ (s, True) # ys \<and> p = a + bytes xs \<and> bs' = xs @ (s, False) # ys)"
proof (induction p a bs arbitrary: bs' rule: mark_free.induct)
  case (2 p a s al bs)
  show ?case
  proof (cases "p = a")
    case True
    have "xs = []" if "(s, al) # bs = xs @ (s', True) # ys" "a = a + bytes xs" for xs s' ys
      using that "2.prems" by (cases xs) (auto simp: size_ok_def)
    then show ?thesis using True by (fastforce split: if_splits)
  next
    case False
    have "(\<exists>xs s' ys. (s, al) # bs = xs @ (s', True) # ys \<and> p = a + bytes xs \<and> bs' = xs @ (s', False) # ys) \<longleftrightarrow>
      (\<exists>bs''. bs' = (s, al) # bs'' \<and>
        (\<exists>xs s' ys. bs = xs @ (s', True) # ys \<and> p = a + s + bytes xs \<and> bs'' = xs @ (s', False) # ys))"
      (is "?l \<longleftrightarrow> ?r")
    proof
      assume ?l
      then obtain xs s' ys where *: "(s, al) # bs = xs @ (s', True) # ys" "p = a + bytes xs"
        "bs' = xs @ (s', False) # ys" by blast
      then obtain zs where "xs = (s, al) # zs" using False by (cases xs) auto
      then show ?r using * by (intro exI [of _ "zs @ (s', False) # ys"]) (auto simp: add.assoc)
    next
      assume ?r
      then obtain xs s' ys where "bs = xs @ (s', True) # ys" "p = a + s + bytes xs"
        "bs' = (s, al) # xs @ (s', False) # ys" by blast
      then show ?l by (intro exI [of _ "(s, al) # xs"]) auto
    qed
    then show ?thesis using False "2.IH" [OF False] "2.prems" by auto
  qed
qed simp

lemma in_free_Cons:
  "in_free a (b # bs) x \<longleftrightarrow> \<not> snd b \<and> a \<le> x \<and> x < a + fst b \<or> in_free (a + fst b) bs x"
  by (cases b) simp

lemma allocated_Cons:
  "allocated a (b # bs) = (if snd b then [(a, fst b)] else []) @ allocated (a + fst b) bs"
  by (cases b) simp

lemma in_free_coalesce [simp]: "in_free a (coalesce bs) x \<longleftrightarrow> in_free a bs x"
proof (induction bs arbitrary: a rule: coalesce.induct, goal_cases)
  case (1 s s' bs a)
  show ?case using 1 [of a] by (auto simp: add.assoc)
qed (simp_all add: in_free_Cons)

lemma allocated_coalesce [simp]: "allocated a (coalesce bs) = allocated a bs"
proof (induction bs arbitrary: a rule: coalesce.induct, goal_cases)
  case (1 s s' bs a)
  show ?case using 1 [of a] by (simp add: add.assoc)
qed (simp_all add: allocated_Cons)

lemma bytes_coalesce [simp]: "bytes (coalesce bs) = bytes bs"
  by (induction bs rule: coalesce.induct) auto

lemma coalesce_ne: "bs \<noteq> [] \<Longrightarrow> coalesce bs \<noteq> [] \<and> snd (hd (coalesce bs)) = snd (hd bs)"
  by (induction bs rule: coalesce.induct) auto

lemma no_adj_coalesce [simp]: "no_adj (coalesce bs)"
proof (induction bs rule: coalesce.induct, goal_cases)
  case (3 s)
  then show ?case by simp
next
  case (4 s s' bs)
  then show ?case using coalesce_ne [of "(s', True) # bs"] by (simp add: no_adj_Cons)
qed (auto simp: no_adj_Cons)

section \<open>The heap invariant\<close>

definition heap_base :: "u32 \<Rightarrow> nat" where
  "heap_base hstart = unat ((hstart + ALIGN_MASK) AND NOT ALIGN_MASK)"

text \<open>
  The blocks \<open>bs\<close> tile the heap from its aligned start to its end, memory holds their headers
  and links, and no two free blocks are neighbours.  Before the first call the heap is one free
  block that memory does not show yet.
\<close>

definition heap_wf :: "u32 \<Rightarrow> u32 \<Rightarrow> blocks \<Rightarrow> memory \<Rightarrow> heap_state \<Rightarrow> bool" where
  "heap_wf hstart hend bs m h \<longleftrightarrow>
     8 \<le> heap_base hstart \<and> heap_base hstart + bytes bs = unat hend \<and> no_adj bs \<and>
     (if heap_inited h then seg m (heap_base hstart) bs (free_list h) 0
      else bs = [(unat hend - heap_base hstart, False)] \<and> size_ok (unat hend - heap_base hstart))"

lemma heap_wf_sizes: "heap_wf hstart hend bs m h \<Longrightarrow> sizes_ok bs"
  by (auto simp: heap_wf_def dest: seg_sizes_ok split: if_splits)

lemma heap_base_word: "of_nat (heap_base hstart) = (hstart + ALIGN_MASK) AND NOT ALIGN_MASK"
  by (simp add: heap_base_def)

lemma heap_free_refines:
  assumes wf: "heap_wf hstart hend bs m h" and init: "heap_inited h"
    and blk: "bs = xs @ (s, True) # ys" and c: "c = heap_base hstart + bytes xs"
  obtains m' h' where "heap_free hend (of_nat c) (m, h) = Some (m', h')" "heap_inited h'"
    "heap_wf hstart hend (coalesce (xs @ (s, False) # ys)) m' h'"
    "\<And>b. \<not> in_free (heap_base hstart) (xs @ (s, False) # ys) (unat b) \<Longrightarrow> m' b = m b"
proof -
  let ?a = "heap_base hstart" and ?fl = "free_list h"
  obtain r where xs: "seg m ?a xs ?fl r" and ys: "seg m (c + s) ys r 0"
    and ld: "load32 m (of_nat c) = of_nat (s + 1)" and ok: "size_ok s"
    using wf init blk c by (auto simp: heap_wf_def)
  have bnd: "8 \<le> ?a" "c + s + bytes ys = unat hend" and s16: "16 \<le> s"
    and oks: "sizes_ok xs" "sizes_ok ys" and adj: "no_adj xs" "no_adj ys"
    using wf blk c ok heap_wf_sizes [OF wf] by (auto simp: heap_wf_def size_ok_def no_adj_append no_adj_Cons)
  have top: "c + s + bytes ys < 4294967296" using bnd(2) unat_u32_lt [of hend] by linarith
  have hs: "hdr_size m (of_nat c) = of_nat s"
    using hdr_size_of_nat [of m "of_nat c" True s] ld ok bnd top c by simp
  have "of_nat s \<ge> (of_nat 8 :: u32)"
    using s16 top by (subst of_nat32_le_iff) auto
  then have ge8: "\<not> (of_nat s :: u32) < 8" by (simp add: not_less)
  have le: "\<not> hend < of_nat c + of_nat s"
  proof -
    have "unat (of_nat (c + s) :: u32) = c + s" using top by (intro unat_of_nat32) simp
    then show ?thesis using bnd(2) by (simp add: not_less word_le_nat_alt)
  qed
  define m1 where "m1 = store32 m (of_nat c) (of_nat s)"
  have xs1: "seg m1 ?a xs ?fl r"
    unfolding m1_def using xs top oks c s16 by (subst seg_store_outside) auto
  have ys1: "seg m1 (c + s) ys r 0"
    unfolding m1_def using ys top oks s16 by (subst seg_store_outside) auto
  have "r = 0 \<or> (of_nat c :: u32) \<le> r"
    using seg_first [OF ys] top by (auto simp: of_nat32_le_iff)
  moreover have ctop: "c < 4294967296" using top by linarith
  ultimately have slot: "find_slot m1 0 ?fl (of_nat c) = Some (of_nat (last_free ?a xs), r)"
    using find_slot_refines [of m1 ?a "[]" ?fl ?fl xs r] xs1 bnd(1) c by simp
  define m2 where "m2 = store32 m1 (of_nat (c + 4)) r"
  obtain m3 fl' where link: "set_link (of_nat (last_free ?a xs)) (of_nat c) (m2, ?fl) = (m3, fl')"
    by (cases "set_link (of_nat (last_free ?a xs)) (of_nat c) (m2, ?fl)")
  have l8: "last_free ?a xs + 8 \<le> c"
    using last_free_bounds [OF oks(1), of ?a] c bnd(1) by (cases "last_free ?a xs = 0") simp_all
  have xs2: "seg m2 ?a xs ?fl r"
    unfolding m2_def using xs1 top oks c s16 by (subst seg_store_outside) auto
  have xs3: "seg m3 ?a xs fl' (of_nat c)"
    by (rule seg_set_link [OF xs2 _ _ link]) (use bnd(1) ctop c in simp_all)
  have ys2: "seg m2 (c + s) ys r 0"
    unfolding m2_def using ys1 top oks s16 by (subst seg_store_outside) auto
  have "load32 m2 (of_nat c) = of_nat s"
    unfolding m2_def using top s16 by (subst load32_store32_nat) (auto simp: m1_def)
  then have "seg m2 c ((s, False) # ys) (of_nat c) 0"
    using ys2 ok by (simp add: hdr_next_nat m2_def del: of_nat_add)
  then have cur3: "seg m3 c ((s, False) # ys) (of_nat c) 0"
    using l8 top oks ok by (subst seg_set_link_outside [OF link]) auto
  define m4 where "m4 = coalesce_next (of_nat c) m3"
  have cn: "seg m4 c (join_next s ys) (of_nat c) 0"
    and fr4: "\<And>b. \<not> (c \<le> unat b \<and> unat b < c + 8) \<Longrightarrow> m4 b = m3 b"
    using coalesce_next_refines [OF cur3 _ top m4_def] bnd(1) c by auto
  have xs4: "seg m4 ?a xs fl' (of_nat c)"
    using xs3 top oks c by (subst seg_cong [of _ _ _ m3]) (auto simp: fr4)
  obtain s' ys' where jn: "join_next s ys = (s', False) # ys'" "s' + bytes ys' = s + bytes ys"
    by (rule join_next_form)
  define m5 where "m5 = coalesce_prev (of_nat (last_free ?a xs)) (of_nat c) m4"
  have cp: "seg m5 ?a (join_prev xs s' @ ys') fl' 0"
    and fr5: "\<And>b. \<not> (last_free ?a xs \<noteq> 0 \<and> last_free ?a xs \<le> unat b \<and> unat b < last_free ?a xs + 8)
      \<Longrightarrow> m5 b = m4 b"
    using coalesce_prev_refines [OF xs4 c _ bnd(1) _ m5_def, of s' ys'] cn jn top by auto
  have run: "heap_free hend (of_nat c) (m, h) = Some (m5, h\<lparr>free_list := fl'\<rparr>)"
    using init ge8 le slot link
    by (simp add: heap_free_def hs Let_def set_hdr_size_def m1_def m2_def m4_def m5_def
        set_hdr_next_nat del: of_nat_add)
  show ?thesis
  proof (rule that [OF run])
    show "heap_inited (h\<lparr>free_list := fl'\<rparr>)" using init by simp
    have "bytes (xs @ (s, False) # ys) = bytes bs" using blk by simp
    then show "heap_wf hstart hend (coalesce (xs @ (s, False) # ys)) m5 (h\<lparr>free_list := fl'\<rparr>)"
      using cp [folded coalesce_mid [OF adj jn(1)]] wf init by (simp add: heap_wf_def)
  next
    fix b :: u32 assume nf: "\<not> in_free ?a (xs @ (s, False) # ys) (unat b)"
    have nc: "\<not> (c \<le> unat b \<and> unat b < c + 8)" using nf c s16 by auto
    have nl: "\<not> (last_free ?a xs \<noteq> 0 \<and> last_free ?a xs \<le> unat b \<and> unat b < last_free ?a xs + 8)"
    proof
      assume l: "last_free ?a xs \<noteq> 0 \<and> last_free ?a xs \<le> unat b \<and> unat b < last_free ?a xs + 8"
      then have "unat b - last_free ?a xs < 16" by linarith
      then show False
        using nf l last_free_in_free [OF oks(1), of ?a "unat b - last_free ?a xs"] by simp
    qed
    have "m5 b = m3 b" using fr5 [OF nl] fr4 [OF nc] by simp
    also have "\<dots> = m2 b" using nl l8 top by (intro set_link_frame [OF link]) auto
    also have "\<dots> = m b"
      using nc top s16 by (auto simp: m2_def m1_def store32_frame simp del: of_nat_add)
    finally show "m5 b = m b" .
  qed
qed

section \<open>malloc on a well-formed heap\<close>

text \<open>The block \<open>alloc_blocks\<close> picks is the first free one that is large enough.\<close>

lemma alloc_blocks_Some:
  "alloc_blocks n a bs = Some (p, bs') \<Longrightarrow>
     \<exists>xs s ys. bs = xs @ (s, False) # ys \<and> p = a + bytes xs \<and> n \<le> s \<and>
       bs' = xs @ taken n s @ ys \<and> (\<forall>(t, al) \<in> set xs. al \<or> t < n)"
proof (induction n a bs arbitrary: bs' rule: alloc_blocks.induct)
  case (2 n a s al bs)
  show ?case
  proof (cases "\<not> al \<and> n \<le> s")
    case True
    then show ?thesis
      using "2.prems" by (intro exI [of _ "[]"] exI [of _ s] exI [of _ bs]) (auto simp: taken_def)
  next
    case False
    then obtain bs'' where run: "alloc_blocks n (a + s) bs = Some (p, bs'')" and bs': "bs' = (s, al) # bs''"
      using "2.prems" by (auto split: if_splits)
    then obtain xs t ys where "bs = xs @ (t, False) # ys" "p = a + s + bytes xs" "n \<le> t"
      "bs'' = xs @ taken n t @ ys" "\<forall>(t, al) \<in> set xs. al \<or> t < n"
      using "2.IH" [OF False run] by blast
    then show ?thesis
      using False bs' by (intro exI [of _ "(s, al) # xs"] exI [of _ t] exI [of _ ys]) auto
  qed
qed simp

lemma alloc_blocks_None: "alloc_blocks n a bs = None \<longleftrightarrow> (\<forall>(s, al) \<in> set bs. al \<or> s < n)"
  by (induction n a bs rule: alloc_blocks.induct) auto

lemma bytes_taken [simp]: "n \<le> s \<Longrightarrow> bytes (taken n s) = s"
  by (simp add: taken_def)

lemma no_adj_taken:
  "no_adj (xs @ (s, False) # ys) \<Longrightarrow> no_adj (xs @ taken n s @ ys)"
  by (auto simp: taken_def no_adj_append no_adj_Cons hd_append)

text \<open>The size the allocated block gets: the rounded request plus header, or the whole block.\<close>

definition given :: "nat \<Rightarrow> nat \<Rightarrow> nat" where
  "given n s = (if 16 \<le> s - n then n else s)"

lemma allocated_taken:
  "n \<le> s \<Longrightarrow> allocated a (taken n s @ ys) = (a, given n s) # allocated (a + s) ys"
  by (simp add: taken_def given_def)

lemma in_free_taken: "n \<le> s \<Longrightarrow> in_free a (taken n s) x \<Longrightarrow> a \<le> x \<and> x < a + s"
  by (auto simp: taken_def split: if_splits)

lemma heap_init_seg:
  assumes "heap_wf hstart hend bs m h" "\<not> heap_inited h"
  obtains m' h' where "heap_init hstart hend m = (m', h')" "heap_inited h'"
    "heap_wf hstart hend bs m' h'"
    "\<And>b. \<not> in_free (heap_base hstart) bs (unat b) \<Longrightarrow> m' b = m b"
proof -
  let ?a = "heap_base hstart"
  obtain s where bs: "bs = [(s, False)]" and ok: "size_ok s" and a8: "8 \<le> ?a"
    and tot: "?a + s = unat hend"
    using assms by (auto simp: heap_wf_def)
  have s16: "16 \<le> s" using ok by (simp add: size_ok_def)
  have top: "?a + s < 4294967296" using tot unat_u32_lt [of hend] by linarith
  have hend: "hend = of_nat (?a + s)" using tot by simp
  have "\<not> hend \<le> of_nat ?a"
    unfolding hend using top s16 by (subst of_nat32_le_iff) auto
  moreover have "hend - of_nat ?a = of_nat s"
    unfolding hend by simp
  ultimately have run: "heap_init hstart hend m =
     (store32 (store32 m (of_nat ?a) (of_nat s)) (of_nat (?a + 4)) 0,
      \<lparr>free_list = of_nat ?a, heap_inited = True\<rparr>)"
    unfolding heap_init_def heap_base_word [symmetric] Let_def set_hdr_next_nat set_hdr_size_def
    by (simp only: if_False)
  let ?m = "store32 (store32 m (of_nat ?a) (of_nat s)) (of_nat (?a + 4)) 0"
  have "load32 ?m (of_nat ?a) = of_nat s"
    using top s16 by (subst load32_store32_nat) auto
  then have seg: "seg ?m ?a bs (of_nat ?a) 0"
    using ok unfolding bs by (simp add: hdr_next_nat del: of_nat_add)
  show ?thesis
  proof (rule that [OF run])
    show "heap_wf hstart hend bs ?m \<lparr>free_list = of_nat ?a, heap_inited = True\<rparr>"
      using seg assms(1) by (simp add: heap_wf_def)
    fix b :: u32 assume "\<not> in_free ?a bs (unat b)"
    then have "unat b < ?a \<or> ?a + s \<le> unat b" unfolding bs by auto
    then show "?m b = m b"
      using top s16 by (auto simp: store32_frame simp del: of_nat_add)
  qed simp
qed

lemma heap_malloc_refines:
  assumes wf: "heap_wf hstart hend bs m h" and n: "size_ok (unat need)"
  shows "case alloc_blocks (unat need) (heap_base hstart) bs of
      None \<Rightarrow> \<exists>m' h'. heap_malloc hstart hend need (m, h) = Some (0, m', h') \<and> heap_inited h' \<and>
        heap_wf hstart hend bs m' h' \<and>
        (\<forall>b. \<not> in_free (heap_base hstart) bs (unat b) \<longrightarrow> m' b = m b)
    | Some (p, bs') \<Rightarrow> \<exists>m' h'.
        heap_malloc hstart hend need (m, h) = Some (of_nat (p + 8), m', h') \<and> heap_inited h' \<and>
        heap_wf hstart hend bs' m' h' \<and>
        (\<forall>b. \<not> in_free (heap_base hstart) bs (unat b) \<longrightarrow> m' b = m b)"
proof -
  let ?a = "heap_base hstart" and ?n = "unat need"
  obtain m1 h1 where init: "(if heap_inited h then (m, h) else heap_init hstart hend m) = (m1, h1)"
    and inited: "heap_inited h1" and wf1: "heap_wf hstart hend bs m1 h1"
    and fr1: "\<And>b. \<not> in_free ?a bs (unat b) \<Longrightarrow> m1 b = m b"
  proof (cases "heap_inited h")
    case True
    then show thesis using that [of m h] wf by simp
  next
    case False
    then show thesis using heap_init_seg [OF wf False] that by (metis (full_types))
  qed
  have seg: "seg m1 ?a bs (free_list h1) 0" and a8: "8 \<le> ?a" and tot: "?a + bytes bs = unat hend"
    and adj: "no_adj bs"
    using wf1 inited by (auto simp: heap_wf_def)
  have top: "?a + bytes bs < 4294967296" using tot unat_u32_lt [of hend] by linarith
  have ff: "case alloc_blocks ?n ?a bs of
      None \<Rightarrow> first_fit m1 (free_list h1) 0 (free_list h1) need = Some (0, m1, free_list h1)
    | Some (p, ys') \<Rightarrow> \<exists>m' fl'.
        first_fit m1 (free_list h1) 0 (free_list h1) need = Some (of_nat (p + 8), m', fl') \<and>
        seg m' ?a ys' fl' 0 \<and> (\<forall>b. \<not> in_free ?a bs (unat b) \<longrightarrow> m' b = m1 b)"
    using first_fit_refines [of m1 ?a "[]" "free_list h1" "free_list h1" bs ?n] seg a8 top n
    by (cases "alloc_blocks ?n ?a bs") (auto simp del: of_nat_add)
  show ?thesis
  proof (cases "alloc_blocks ?n ?a bs")
    case None
    then show ?thesis
      using ff init inited wf1 fr1 by (auto simp: heap_malloc_def simp del: of_nat_add)
  next
    case (Some r)
    then obtain p bs' where r: "alloc_blocks ?n ?a bs = Some (p, bs')" by (cases r) auto
    then obtain m' fl' where run:
      "first_fit m1 (free_list h1) 0 (free_list h1) need = Some (of_nat (p + 8), m', fl')"
      and seg': "seg m' ?a bs' fl' 0" and fr: "\<And>b. \<not> in_free ?a bs (unat b) \<Longrightarrow> m' b = m1 b"
      using ff by (auto simp del: of_nat_add)
    have "bytes bs' = bytes bs" "no_adj bs'"
      using alloc_blocks_Some [OF r] adj by (auto intro: no_adj_taken simp del: append.simps)
    then have "heap_wf hstart hend bs' m' (h1\<lparr>free_list := fl'\<rparr>)"
      using wf1 inited seg' by (simp add: heap_wf_def)
    then show ?thesis
      using r run init inited fr fr1 by (simp add: heap_malloc_def del: of_nat_add)
  qed
qed

end
