(* ===== verification/Alloc_Contract.thy ===== *)
theory Alloc_Contract
  imports Alloc_Refine
begin

text \<open>
  The contract of an allocator as a locale, its two implementations (\<open>malloc\<close>/\<open>free\<close> over the
  kernel heap and \<open>user_malloc\<close>/\<open>user_free\<close> over the user heap) as interpretations, and the
  properties of the allocators that rest on the contract.
\<close>

section \<open>The request size\<close>

lemma unat_align_up_small:
  assumes "unat sz \<le> 4294967288"
  shows "unat (align_up sz) = (unat sz + 7) div 8 * 8"
proof -
  have "unat (sz + 7) = unat sz + 7" using assms by (simp add: word_nat)
  then have "unat (align_up sz) = (unat sz + 7) - (unat sz + 7) mod 8"
    by (simp add: align_up_def unat_and_not_7)
  then show ?thesis by (simp add: minus_mod_eq_div_mult)
qed

lemma alloc_need_size_ok: "size_ok (unat (alloc_need sz))"
proof -
  have "8 dvd unat (align_up sz)"
    by (simp add: align_up_def unat_and_not_7 dvd_minus_mod)
  then have "8 dvd unat (align_up sz + 8)"
    by (simp add: unat_word_ariths dvd_mod_iff)
  then show ?thesis
    by (auto simp: alloc_need_def Let_def size_ok_def word_less_nat_alt)
qed

lemma alloc_need_covers:
  assumes "0 < unat sz" "unat sz \<le> 4294967280"
  shows "unat (alloc_need sz) = (unat sz + 7) div 8 * 8 + 8"
proof -
  have "unat (align_up sz) = (unat sz + 7) div 8 * 8"
    using assms by (intro unat_align_up_small) simp
  moreover have "(unat sz + 7) div 8 * 8 \<le> 4294967280" "8 \<le> (unat sz + 7) div 8 * 8"
    using assms by presburger+
  ultimately have "unat (align_up sz + 8) = (unat sz + 7) div 8 * 8 + 8"
    by (simp add: word_nat)
  then show ?thesis
    using \<open>8 \<le> (unat sz + 7) div 8 * 8\<close>
    by (auto simp: alloc_need_def Let_def word_less_nat_alt)
qed

text \<open>Above \<open>0xFFFFFFF0\<close> the rounding or the addition of the header wraps around.\<close>

lemma alloc_need_overflow:
  assumes "0xFFFFFFF0 < sz" shows "unat (alloc_need sz) = 16"
proof (cases "unat sz \<le> 4294967288")
  case True
  have "4294967280 < unat sz" using assms by (simp add: word_less_nat_alt)
  then have "(unat sz + 7) div 8 * 8 = 4294967288" using True by presburger
  then have "unat (align_up sz) = 4294967288" using unat_align_up_small [OF True] by simp
  then have "align_up sz = of_nat 4294967288" by (metis of_nat_unat ucast_id)
  then show ?thesis by (simp add: alloc_need_def Let_def)
next
  case False
  have "unat (sz + 7) = (unat sz + 7) mod 4294967296"
    by (simp add: unat_word_ariths)
  then have "unat (sz + 7) = unat sz + 7 - 4294967296"
    using False unat_u32_lt [of sz] by (simp add: le_mod_geq)
  moreover have "unat sz + 7 - 4294967296 < 8" using unat_u32_lt [of sz] by linarith
  ultimately have "unat (sz + 7) mod 8 = unat (sz + 7)" by (simp only: mod_less)
  then have "unat (align_up sz) = 0" by (simp add: align_up_def unat_and_not_7)
  then have "align_up sz = 0" by (simp add: unat_eq_zero)
  then show ?thesis by (simp add: alloc_need_def Let_def)
qed

text \<open>
  What a block must hold to serve a request, as a number: the eight bytes of the header and the request
  rounded up to a multiple of eight.  The code computes this number for every request up to \<open>0xFFFFFFF0\<close> bytes;
  above that it takes a block of sixteen bytes, header included.
\<close>

definition request_bytes :: "nat \<Rightarrow> nat" where
  "request_bytes n = (if n \<le> 0xFFFFFFF0 then 8 + (n + 7) div 8 * 8 else 16)"

lemma request_bytes_room: "n \<le> 0xFFFFFFF0 \<Longrightarrow> n + 8 \<le> request_bytes n"
  unfolding request_bytes_def by presburger

lemma alloc_need_request:
  assumes "sz \<noteq> 0" shows "unat (alloc_need sz) = request_bytes (unat sz)"
proof (cases "unat sz \<le> 0xFFFFFFF0")
  case True
  then show ?thesis using assms alloc_need_covers [of sz] by (simp add: request_bytes_def unat_gt_0)
next
  case False
  then show ?thesis using alloc_need_overflow [of sz] by (simp add: request_bytes_def word_less_nat_alt)
qed

lemma sizes_ok_dvd: "sizes_ok bs \<Longrightarrow> 8 dvd bytes bs"
  by (induction bs) (auto simp: size_ok_def)

section \<open>The contract\<close>

locale allocator =
  fixes alloc :: "u32 \<Rightarrow> kernel \<Rightarrow> (u32 \<times> kernel) option"
    and release :: "u32 \<Rightarrow> kernel \<Rightarrow> kernel option"
    and wf :: "blocks \<Rightarrow> kernel \<Rightarrow> bool"
    and base :: "kernel \<Rightarrow> nat"
  assumes wf_facts:
      "wf bs k \<Longrightarrow> 8 \<le> base k \<and> base k + bytes bs < 4294967296 \<and> sizes_ok bs \<and> no_adj bs"
    and alloc_none: "wf bs k \<Longrightarrow> sz \<noteq> 0 \<Longrightarrow>
      alloc_blocks (unat (alloc_need sz)) (base k) bs = None \<Longrightarrow>
      \<exists>k'. alloc sz k = Some (0, k') \<and> wf bs k' \<and> base k' = base k \<and> primask k' = primask k \<and>
        (\<forall>b. \<not> in_free (base k) bs (unat b) \<longrightarrow> mem k' b = mem k b)"
    and alloc_some: "wf bs k \<Longrightarrow> sz \<noteq> 0 \<Longrightarrow>
      alloc_blocks (unat (alloc_need sz)) (base k) bs = Some (p, bs') \<Longrightarrow>
      \<exists>k'. alloc sz k = Some (of_nat (p + 8), k') \<and> wf bs' k' \<and> base k' = base k \<and>
        primask k' = primask k \<and>
        (\<forall>b. \<not> in_free (base k) bs (unat b) \<longrightarrow> mem k' b = mem k b)"
    and release_some: "wf bs k \<Longrightarrow> mark_free p (base k) bs = Some bs' \<Longrightarrow>
      \<exists>k'. release (of_nat (p + 8)) k = Some k' \<and> wf (coalesce bs') k' \<and> base k' = base k \<and>
        primask k' = primask k \<and>
        (\<forall>b. \<not> in_free (base k) bs' (unat b) \<longrightarrow> mem k' b = mem k b)"
begin

text \<open>An allocation returns, and null exactly when no free block is large enough.\<close>

lemma alloc_returns:
  assumes "wf bs k" "sz \<noteq> 0"
  obtains q k' where "alloc sz k = Some (q, k')" "primask k' = primask k"
    "q = 0 \<longleftrightarrow> (\<forall>(s, al) \<in> set bs. al \<or> s < unat (alloc_need sz))"
proof (cases "alloc_blocks (unat (alloc_need sz)) (base k) bs")
  case None
  then show thesis using that alloc_none [OF assms None] alloc_blocks_None by metis
next
  case (Some r)
  then obtain p bs' where r: "alloc_blocks (unat (alloc_need sz)) (base k) bs = Some (p, bs')"
    by (cases r) auto
  obtain xs s ys where split: "bs = xs @ (s, False) # ys" "p = base k + bytes xs"
    "unat (alloc_need sz) \<le> s"
    using alloc_blocks_Some [OF r] by blast
  have "16 \<le> s" using wf_facts [OF assms(1)] split by (simp add: size_ok_def)
  then have "(of_nat (p + 8) :: u32) \<noteq> 0"
    using wf_facts [OF assms(1)] split by (subst of_nat32_eq_0_iff) auto
  moreover have "\<not> (\<forall>(s, al) \<in> set bs. al \<or> s < unat (alloc_need sz))"
    using split by auto
  ultimately show thesis using that alloc_some [OF assms r] by metis
qed

text \<open>Marking the block of an allocation free and merging undoes it.\<close>

lemma alloc_undo:
  assumes "wf bs k" "bs = xs @ (s, False) # ys" "p = base k + bytes xs" "n \<le> s" "bs' = xs @ taken n s @ ys"
    and wf': "wf bs' k'"
  shows "\<exists>bs''. mark_free p (base k) bs' = Some bs'' \<and> coalesce bs'' = bs"
proof -
  let ?rest = "(if 16 \<le> s - n then [(s - n, False)] else []) @ ys"
  have bs': "bs' = xs @ (given n s, True) # ?rest"
    using assms(5) by (simp add: taken_def given_def)
  have "sizes_ok bs'" using wf_facts [OF wf'] by simp
  then have mark: "mark_free p (base k) bs' = Some (xs @ (given n s, False) # ?rest)"
    using bs' assms(3) by (subst mark_free_split) auto
  have adj: "no_adj xs" "no_adj ys" "no_adj (xs @ (s, False) # ys)"
    using wf_facts [OF assms(1)] assms(2) by (auto simp: no_adj_append no_adj_Cons)
  have join: "join_next (given n s) ?rest = (s, False) # ys"
    using assms(4) adj(3) by (auto simp: join_next_def given_def no_adj_append no_adj_Cons
        split: list.splits bool.splits)
  have "no_adj ?rest"
    using adj by (auto simp: no_adj_append no_adj_Cons)
  then have "coalesce (xs @ (given n s, False) # ?rest) = join_prev xs s @ ys"
    using coalesce_mid [OF adj(1) _ join] by simp
  also have "\<dots> = bs"
    using adj(3) assms(2) by (auto simp: join_prev_def no_adj_append)
  finally show ?thesis using mark by blast
qed

text \<open>
  The block a successful allocation returns: it was free, it holds the request (when the
  rounding does not overflow), it is aligned and disjoint from every block allocated before, and
  those keep their contents.
\<close>

lemma alloc_block:
  assumes "wf bs k" "sz \<noteq> 0" "alloc sz k = Some (q, k')" "q \<noteq> 0"
  obtains p s bs' where "q = of_nat (p + 8)" "wf bs' k'" "base k' = base k"
    "unat (alloc_need sz) \<le> s" "base k \<le> p" "p + s \<le> base k + bytes bs"
    "8 dvd p - base k"
    "set (allocated (base k) bs') = insert (p, s) (set (allocated (base k) bs))"
    "\<forall>x. p \<le> x \<longrightarrow> x < p + s \<longrightarrow> in_free (base k) bs x"
    "\<forall>(p', s') \<in> set (allocated (base k) bs). p' + s' \<le> p \<or> p + s \<le> p'"
    "\<forall>(p', s') \<in> set (allocated (base k) bs). \<forall>b. p' \<le> unat b \<and> unat b < p' + s' \<longrightarrow> mem k' b = mem k b"
    "\<exists>bs''. mark_free p (base k) bs' = Some bs'' \<and> coalesce bs'' = bs"
    "alloc_blocks (unat (alloc_need sz)) (base k) bs = Some (p, bs')"
proof -
  let ?n = "unat (alloc_need sz)"
  obtain p bs' where r: "alloc_blocks ?n (base k) bs = Some (p, bs')"
    using alloc_none [OF assms(1,2)] assms(3,4) by (cases "alloc_blocks ?n (base k) bs") auto
  obtain k'' where k'': "alloc sz k = Some (of_nat (p + 8), k'')" "wf bs' k''" "base k'' = base k"
    "\<forall>b. \<not> in_free (base k) bs (unat b) \<longrightarrow> mem k'' b = mem k b"
    using alloc_some [OF assms(1,2) r] by blast
  obtain xs s ys where split: "bs = xs @ (s, False) # ys" "p = base k + bytes xs" "?n \<le> s"
    "bs' = xs @ taken ?n s @ ys"
    using alloc_blocks_Some [OF r] by blast
  let ?s = "given ?n s"
  have le: "?n \<le> ?s" "?s \<le> s" using split(3) by (auto simp: given_def)
  have al: "allocated (base k) bs' = allocated (base k) xs @ (p, ?s) # allocated (p + s) ys"
    "allocated (base k) bs = allocated (base k) xs @ allocated (p + s) ys"
    using split allocated_taken [OF split(3)] by (simp_all add: add.assoc)
  have free: "\<forall>x. p \<le> x \<longrightarrow> x < p + s \<longrightarrow> in_free (base k) bs x"
    using split by auto
  have disj: "p' + s' \<le> p \<or> p + ?s \<le> p'" if "(p', s') \<in> set (allocated (base k) bs)" for p' s'
    using that al(2) le allocated_bounds [of p' s' "base k" xs] allocated_bounds [of p' s' "p + s" ys]
      split(2) by auto
  have keep: "mem k' b = mem k b"
    if "(p', s') \<in> set (allocated (base k) bs)" "p' \<le> unat b" "unat b < p' + s'" for p' s' b
    using that allocated_not_free k'' assms(3) by fastforce
  have "8 dvd bytes xs"
    using wf_facts [OF assms(1)] split(1) by (simp add: sizes_ok_dvd)
  moreover have "q = of_nat (p + 8)" "k' = k''" using k''(1) assms(3) by (simp_all del: of_nat_add)
  moreover have "base k \<le> p" "p + ?s \<le> base k + bytes bs" using split(1,2) le by simp_all
  moreover have "set (allocated (base k) bs') = insert (p, ?s) (set (allocated (base k) bs))"
    using al by auto
  moreover have "\<forall>x. p \<le> x \<longrightarrow> x < p + ?s \<longrightarrow> in_free (base k) bs x" using free le by simp
  moreover have "\<forall>(p', s') \<in> set (allocated (base k) bs). p' + s' \<le> p \<or> p + ?s \<le> p'"
    using disj by blast
  moreover have "\<forall>(p', s') \<in> set (allocated (base k) bs).
      \<forall>b. p' \<le> unat b \<and> unat b < p' + s' \<longrightarrow> mem k' b = mem k b"
    using keep by blast
  ultimately show thesis
    using k''(2,3) le(1) split(2) r alloc_undo [OF assms(1) split k''(2)]
    by (intro that [of p bs' ?s]) (simp_all del: of_nat_add)
qed

text \<open>
  Freeing the block of an allocation gives back the blocks before it, in any state that still has
  the blocks of right after it.
\<close>

lemma alloc_release_later:
  assumes "wf bs k" "sz \<noteq> 0" "alloc sz k = Some (q, k')" "q \<noteq> 0"
  obtains p bs' where "wf bs' k'" "base k' = base k" "alloc_blocks (unat (alloc_need sz)) (base k) bs = Some (p, bs')"
    "\<forall>k2. wf bs' k2 \<longrightarrow> base k2 = base k \<longrightarrow>
       (\<exists>k3. release q k2 = Some k3 \<and> wf bs k3 \<and> primask k3 = primask k2)"
proof -
  obtain p s bs' bs'' where q: "q = of_nat (p + 8)" "wf bs' k'" "base k' = base k"
    "mark_free p (base k) bs' = Some bs''" "coalesce bs'' = bs" "alloc_blocks (unat (alloc_need sz)) (base k) bs = Some (p, bs')"
    using alloc_block [OF assms] by blast
  have "\<exists>k3. release q k2 = Some k3 \<and> wf bs k3 \<and> primask k3 = primask k2"
    if "wf bs' k2" "base k2 = base k" for k2
    using release_some [of bs' k2 p bs''] that q by fastforce
  then show thesis using that [of bs' p] q(2,3,6) by blast
qed

lemma alloc_release:
  assumes "wf bs k" "sz \<noteq> 0" "alloc sz k = Some (q, k')" "q \<noteq> 0"
  obtains k'' where "release q k' = Some k''" "wf bs k''" "primask k'' = primask k'"
  using alloc_release_later [OF assms] that by metis

end

section \<open>The two heaps\<close>

definition kheap_base :: "kernel \<Rightarrow> nat" where
  "kheap_base k = heap_base (heap_start (ld k))"

definition kheap_wf :: "blocks \<Rightarrow> kernel \<Rightarrow> bool" where
  "kheap_wf bs k \<longleftrightarrow> heap_wf (heap_start (ld k)) (heap_end (ld k)) bs (mem k) (kheap k)"

definition uheap_base :: "kernel \<Rightarrow> nat" where
  "uheap_base k = heap_base (user_heap_start (ld k))"

definition uheap_wf :: "blocks \<Rightarrow> kernel \<Rightarrow> bool" where
  "uheap_wf bs k \<longleftrightarrow> heap_wf (user_heap_start (ld k)) (user_heap_end (ld k)) bs (mem k) (uheap k)"

lemma heap_wf_facts:
  assumes "heap_wf hstart hend bs m h"
  shows "8 \<le> heap_base hstart \<and> heap_base hstart + bytes bs < 4294967296 \<and> sizes_ok bs \<and> no_adj bs"
proof -
  have "heap_base hstart + bytes bs = unat hend" using assms by (simp add: heap_wf_def)
  then have "heap_base hstart + bytes bs < 4294967296" using unat_u32_lt [of hend] by linarith
  then show ?thesis using assms heap_wf_sizes [OF assms] by (simp add: heap_wf_def)
qed

lemma free_guard:
  assumes "heap_wf hstart hend bs m h" "bs = xs @ (s, True) # ys" "p = heap_base hstart + bytes xs"
  shows "(of_nat (p + 8) :: u32) \<noteq> 0" "of_nat (p + 8) - HDR_SIZE = of_nat p"
    "\<not> (of_nat p < (hstart + ALIGN_MASK) AND NOT ALIGN_MASK \<or> hend \<le> of_nat p)"
proof -
  have facts: "8 \<le> heap_base hstart" "p + s + bytes ys < 4294967296" "16 \<le> s"
    and tot: "p + s + bytes ys = unat hend"
  proof -
    show tot: "p + s + bytes ys = unat hend" using assms by (simp add: heap_wf_def)
    then show "p + s + bytes ys < 4294967296" using unat_u32_lt [of hend] by linarith
    show "8 \<le> heap_base hstart" "16 \<le> s"
      using heap_wf_facts [OF assms(1)] assms(2) by (simp_all add: size_ok_def)
  qed
  show "(of_nat (p + 8) :: u32) \<noteq> 0"
    using facts by (subst of_nat32_eq_0_iff) auto
  show "of_nat (p + 8) - HDR_SIZE = of_nat p" by simp
  have "\<not> (of_nat p :: u32) < of_nat (heap_base hstart)"
    using facts assms(3) by (subst of_nat32_less_iff) auto
  moreover have "unat (of_nat p :: u32) = p" using facts by (intro unat_of_nat32) simp
  then have "\<not> hend \<le> of_nat p" using facts tot by (simp add: word_le_nat_alt)
  ultimately show "\<not> (of_nat p < (hstart + ALIGN_MASK) AND NOT ALIGN_MASK \<or> hend \<le> of_nat p)"
    by (simp only: heap_base_word simp_thms)
qed

lemma mark_free_inited: "heap_wf hstart hend bs m h \<Longrightarrow> mark_free p a bs = Some bs' \<Longrightarrow> heap_inited h"
  by (auto simp: heap_wf_def split: if_splits)

interpretation kernel_heap: allocator malloc free kheap_wf kheap_base
proof unfold_locales
  show "8 \<le> kheap_base k \<and> kheap_base k + bytes bs < 4294967296 \<and> sizes_ok bs \<and> no_adj bs"
    if "kheap_wf bs k" for bs k
    using that heap_wf_facts unfolding kheap_wf_def kheap_base_def by blast
next
  fix bs k sz assume a: "kheap_wf bs k" "sz \<noteq> 0"
    "alloc_blocks (unat (alloc_need sz)) (kheap_base k) bs = None"
  with heap_malloc_refines [OF a(1) [unfolded kheap_wf_def] alloc_need_size_ok [of sz]]
  show "\<exists>k'. malloc sz k = Some (0, k') \<and> kheap_wf bs k' \<and> kheap_base k' = kheap_base k \<and>
      primask k' = primask k \<and>
      (\<forall>b. \<not> in_free (kheap_base k) bs (unat b) \<longrightarrow> mem k' b = mem k b)"
    by (auto simp: malloc_def kheap_wf_def kheap_base_def state_defs)
next
  fix bs k sz p bs' assume a: "kheap_wf bs k" "sz \<noteq> 0"
    "alloc_blocks (unat (alloc_need sz)) (kheap_base k) bs = Some (p, bs')"
  with heap_malloc_refines [OF a(1) [unfolded kheap_wf_def] alloc_need_size_ok [of sz]]
  show "\<exists>k'. malloc sz k = Some (of_nat (p + 8), k') \<and> kheap_wf bs' k' \<and>
      kheap_base k' = kheap_base k \<and> primask k' = primask k \<and>
      (\<forall>b. \<not> in_free (kheap_base k) bs (unat b) \<longrightarrow> mem k' b = mem k b)"
    by (auto simp: malloc_def kheap_wf_def kheap_base_def state_defs simp del: of_nat_add)
next
  fix bs k p bs' assume wf: "kheap_wf bs k" and mark: "mark_free p (kheap_base k) bs = Some bs'"
  note wf' = wf [unfolded kheap_wf_def]
  obtain xs s ys where split: "bs = xs @ (s, True) # ys" "p = kheap_base k + bytes xs"
    "bs' = xs @ (s, False) # ys"
    using mark heap_wf_sizes [OF wf'] mark_free_split by blast
  have p: "p = heap_base (heap_start (ld k)) + bytes xs" using split(2) by (simp add: kheap_base_def)
  obtain m' h' where run: "heap_free (heap_end (ld k)) (of_nat p) (mem k, kheap k) = Some (m', h')"
    "heap_inited h'" "heap_wf (heap_start (ld k)) (heap_end (ld k)) (coalesce bs') m' h'"
    "\<And>b. \<not> in_free (heap_base (heap_start (ld k))) bs' (unat b) \<Longrightarrow> m' b = mem k b"
    using heap_free_refines [OF wf' mark_free_inited [OF wf' mark] split(1) p] split(3) by blast
  show "\<exists>k'. free (of_nat (p + 8)) k = Some k' \<and> kheap_wf (coalesce bs') k' \<and>
      kheap_base k' = kheap_base k \<and> primask k' = primask k \<and>
      (\<forall>b. \<not> in_free (kheap_base k) bs' (unat b) \<longrightarrow> mem k' b = mem k b)"
    using run free_guard [OF wf' split(1) p] unfolding free_def Let_def
    by (simp add: kheap_wf_def kheap_base_def state_defs del: of_nat_add HDR_SIZE_def ALIGN_MASK_def)
qed

interpretation user_heap: allocator user_malloc user_free uheap_wf uheap_base
proof unfold_locales
  show "8 \<le> uheap_base k \<and> uheap_base k + bytes bs < 4294967296 \<and> sizes_ok bs \<and> no_adj bs"
    if "uheap_wf bs k" for bs k
    using that heap_wf_facts unfolding uheap_wf_def uheap_base_def by blast
next
  fix bs k sz assume a: "uheap_wf bs k" "sz \<noteq> 0"
    "alloc_blocks (unat (alloc_need sz)) (uheap_base k) bs = None"
  with heap_malloc_refines [OF a(1) [unfolded uheap_wf_def] alloc_need_size_ok [of sz]]
  show "\<exists>k'. user_malloc sz k = Some (0, k') \<and> uheap_wf bs k' \<and> uheap_base k' = uheap_base k \<and>
      primask k' = primask k \<and>
      (\<forall>b. \<not> in_free (uheap_base k) bs (unat b) \<longrightarrow> mem k' b = mem k b)"
    by (auto simp: user_malloc_def uheap_wf_def uheap_base_def state_defs)
next
  fix bs k sz p bs' assume a: "uheap_wf bs k" "sz \<noteq> 0"
    "alloc_blocks (unat (alloc_need sz)) (uheap_base k) bs = Some (p, bs')"
  with heap_malloc_refines [OF a(1) [unfolded uheap_wf_def] alloc_need_size_ok [of sz]]
  show "\<exists>k'. user_malloc sz k = Some (of_nat (p + 8), k') \<and> uheap_wf bs' k' \<and>
      uheap_base k' = uheap_base k \<and> primask k' = primask k \<and>
      (\<forall>b. \<not> in_free (uheap_base k) bs (unat b) \<longrightarrow> mem k' b = mem k b)"
    by (auto simp: user_malloc_def uheap_wf_def uheap_base_def state_defs simp del: of_nat_add)
next
  fix bs k p bs' assume wf: "uheap_wf bs k" and mark: "mark_free p (uheap_base k) bs = Some bs'"
  note wf' = wf [unfolded uheap_wf_def]
  obtain xs s ys where split: "bs = xs @ (s, True) # ys" "p = uheap_base k + bytes xs"
    "bs' = xs @ (s, False) # ys"
    using mark heap_wf_sizes [OF wf'] mark_free_split by blast
  have p: "p = heap_base (user_heap_start (ld k)) + bytes xs"
    using split(2) by (simp add: uheap_base_def)
  obtain m' h' where run: "heap_free (user_heap_end (ld k)) (of_nat p) (mem k, uheap k) = Some (m', h')"
    "heap_inited h'" "heap_wf (user_heap_start (ld k)) (user_heap_end (ld k)) (coalesce bs') m' h'"
    "\<And>b. \<not> in_free (heap_base (user_heap_start (ld k))) bs' (unat b) \<Longrightarrow> m' b = mem k b"
    using heap_free_refines [OF wf' mark_free_inited [OF wf' mark] split(1) p] split(3) by blast
  show "\<exists>k'. user_free (of_nat (p + 8)) k = Some k' \<and> uheap_wf (coalesce bs') k' \<and>
      uheap_base k' = uheap_base k \<and> primask k' = primask k \<and>
      (\<forall>b. \<not> in_free (uheap_base k) bs' (unat b) \<longrightarrow> mem k' b = mem k b)"
    using run free_guard [OF wf' split(1) p] unfolding user_free_def Let_def
    by (simp add: uheap_wf_def uheap_base_def state_defs del: of_nat_add HDR_SIZE_def ALIGN_MASK_def)
qed

section \<open>Properties of the allocators\<close>

text \<open>
  The kernel heap of \<open>demo_boot\<close> with one allocated block of 16 bytes.
\<close>

definition demo_used :: kernel where
  "demo_used = demo_boot\<lparr>
     mem := store32 (store32 (store32 (\<lambda>_. 0) 0x20008000 17) 0x20008010 48) 0x20008014 0,
     kheap := \<lparr>free_list = 0x20008010, heap_inited = True\<rparr>\<rparr>"

lemma demo_base [simp]:
  "kheap_base demo_boot = 0x20008000" "uheap_base demo_boot = 0x20004000"
  "kheap_base demo_used = 0x20008000"
  by (simp_all add: kheap_base_def uheap_base_def heap_base_def demo_boot_def demo_used_def
      boot_kernel_def demo_linker_def)

lemma demo_boot_wf: "kheap_wf [(64, False)] demo_boot" "uheap_wf [(64, False)] demo_boot"
  by (simp_all add: kheap_wf_def uheap_wf_def heap_wf_def heap_base_def demo_boot_def
      boot_kernel_def demo_linker_def size_ok_def)

lemma demo_used_wf: "kheap_wf [(16, True), (48, False)] demo_used"
  by (simp add: kheap_wf_def heap_wf_def heap_base_def demo_used_def demo_boot_def hdr_next_def
      boot_kernel_def demo_linker_def size_ok_def load32_store32_other region_4)

text \<open>
  C9. \<open>malloc\<close> returns on every well-formed heap (its search loop ends) and restores PRIMASK.  It returns
  null exactly when no free block has room for the request, rounded up to a multiple of eight, and the header
  of eight bytes; the blocks are then as they were.  Otherwise the result points eight bytes into a block that
  was not allocated before: at least the requested number of bytes of the block lie behind the result; the
  block is inside the heap, 8-aligned relative to its start and disjoint from every allocated block, and the
  contents of those, headers included, are unchanged.  This is so for requests of at most \<open>0xFFFFFFF0\<close> bytes;
  for a larger one the block need only have sixteen bytes, eight of them behind the result.
\<close>

theorem malloc_correct:
  assumes "kheap_wf bs k" "sz \<noteq> 0"
  shows "\<exists>q k'. malloc sz k = Some (q, k') \<and> primask k' = primask k \<and>
    (if \<forall>(s, al) \<in> set bs. al \<or> s < request_bytes (unat sz) then q = 0 \<and> kheap_wf bs k'
     else \<exists>p s bs'. unat q = p + 8 \<and> kheap_wf bs' k' \<and>
       request_bytes (unat sz) \<le> s \<and> (unat sz \<le> 0xFFFFFFF0 \<longrightarrow> unat q + unat sz \<le> p + s) \<and>
       kheap_base k \<le> p \<and> p + s \<le> kheap_base k + bytes bs \<and> 8 dvd p - kheap_base k \<and>
       set (allocated (kheap_base k) bs') = insert (p, s) (set (allocated (kheap_base k) bs)) \<and>
       (\<forall>(p', s') \<in> set (allocated (kheap_base k) bs). p' + s' \<le> p \<or> p + s \<le> p') \<and>
       (\<forall>(p', s') \<in> set (allocated (kheap_base k) bs).
          \<forall>b. p' \<le> unat b \<and> unat b < p' + s' \<longrightarrow> mem k' b = mem k b))"
proof -
  note need = alloc_need_request [OF assms(2)]
  obtain q k' where run: "malloc sz k = Some (q, k')" "primask k' = primask k"
    and null: "q = 0 \<longleftrightarrow> (\<forall>(s, al) \<in> set bs. al \<or> s < request_bytes (unat sz))"
    using kernel_heap.alloc_returns [OF assms] unfolding need by blast
  show ?thesis
  proof (cases "q = 0")
    case True
    then have "alloc_blocks (unat (alloc_need sz)) (kheap_base k) bs = None"
      using null need by (simp add: alloc_blocks_None)
    then have "kheap_wf bs k'" using kernel_heap.alloc_none [OF assms] run by auto
    then show ?thesis using True null run by auto
  next
    case False
    then have no: "(\<forall>(s, al) \<in> set bs. al \<or> s < request_bytes (unat sz)) = False" using null by blast
    obtain p s bs' where b: "q = of_nat (p + 8)" "kheap_wf bs' k'"
      "request_bytes (unat sz) \<le> s" "kheap_base k \<le> p" "p + s \<le> kheap_base k + bytes bs"
      "8 dvd p - kheap_base k"
      "set (allocated (kheap_base k) bs') = insert (p, s) (set (allocated (kheap_base k) bs))"
      "\<forall>(p', s') \<in> set (allocated (kheap_base k) bs). p' + s' \<le> p \<or> p + s \<le> p'"
      "\<forall>(p', s') \<in> set (allocated (kheap_base k) bs).
         \<forall>b. p' \<le> unat b \<and> unat b < p' + s' \<longrightarrow> mem k' b = mem k b"
      using kernel_heap.alloc_block [OF assms run(1) False] unfolding need by blast
    have "8 \<le> s" using b(3) by (auto simp: request_bytes_def split: if_splits)
    then have "p + 8 < 4294967296" using kernel_heap.wf_facts [OF assms(1)] b(5) by linarith
    then have q: "unat q = p + 8" unfolding b(1) by (rule unat_of_nat32)
    then have "unat sz \<le> 0xFFFFFFF0 \<longrightarrow> unat q + unat sz \<le> p + s"
      using request_bytes_room [of "unat sz"] b(3) by linarith
    then show ?thesis
      unfolding no if_False using run b(2-) q by blast
  qed
qed

theorem malloc_correct_witness:
  "kheap_wf [(64, False)] demo_boot \<and> (24 :: u32) \<noteq> 0 \<and>
   (\<exists>q k'. malloc 24 demo_boot = Some (q, k') \<and> 0x20008008 \<le> unat q \<and> unat q + 24 \<le> 0x20008040)"
  using malloc_correct [OF demo_boot_wf(1), of 24] demo_boot_wf(1) by (auto simp: request_bytes_def)

text \<open>
  C10. \<open>free\<close> of an allocated block returns, restores PRIMASK, and leaves the heap as the abstract
  allocator says: the block is marked free and merged with its free neighbours, so no two
  neighbouring blocks are free afterwards; every other allocated block keeps its contents.
\<close>

theorem free_correct:
  assumes "kheap_wf bs k" "mark_free p (kheap_base k) bs = Some bs'"
  shows "\<exists>k'. free (of_nat (p + 8)) k = Some k' \<and> primask k' = primask k \<and>
    kheap_wf (coalesce bs') k' \<and> no_adj (coalesce bs') \<and>
    allocated (kheap_base k) (coalesce bs') = allocated (kheap_base k) bs' \<and>
    (\<forall>(q, s) \<in> set (allocated (kheap_base k) bs').
       \<forall>b. q \<le> unat b \<and> unat b < q + s \<longrightarrow> mem k' b = mem k b)"
proof -
  obtain k' where k': "free (of_nat (p + 8)) k = Some k'" "kheap_wf (coalesce bs') k'"
    "primask k' = primask k" "\<forall>b. \<not> in_free (kheap_base k) bs' (unat b) \<longrightarrow> mem k' b = mem k b"
    using kernel_heap.release_some [OF assms] by blast
  then show ?thesis using allocated_not_free by fastforce
qed

theorem free_correct_witness:
  "kheap_wf [(16, True), (48, False)] demo_used \<and>
   mark_free 0x20008000 (kheap_base demo_used) [(16, True), (48, False)] =
     Some [(16, False), (48, False)] \<and>
   (\<exists>k'. free 0x20008008 demo_used = Some k' \<and> kheap_wf [(64, False)] k')"
proof -
  have m: "mark_free 0x20008000 (kheap_base demo_used) [(16, True), (48, False)] =
      Some [(16, False), (48, False)]"
    by simp
  show ?thesis using free_correct [OF demo_used_wf m] demo_used_wf m by auto
qed

text \<open>
  Round trip: freeing the block the last \<open>malloc\<close> returned gives back exactly the blocks the
  heap had before (the split is undone by the merging).
\<close>

theorem malloc_free_roundtrip:
  assumes "kheap_wf bs k" "sz \<noteq> 0" "malloc sz k = Some (q, k')" "q \<noteq> 0"
  shows "\<exists>k''. free q k' = Some k'' \<and> kheap_wf bs k'' \<and> primask k'' = primask k'"
  using kernel_heap.alloc_release [OF assms] by metis

theorem malloc_free_roundtrip_witness:
  "\<exists>q k'. malloc 24 demo_boot = Some (q, k') \<and> q \<noteq> 0 \<and>
     (\<exists>k''. free q k' = Some k'' \<and> kheap_wf [(64, False)] k'')"
proof -
  have "unat (alloc_need 24) = 32" by (simp add: alloc_need_covers)
  moreover obtain q k' where "malloc 24 demo_boot = Some (q, k')"
    "q = 0 \<longleftrightarrow> (\<forall>(s, al) \<in> set [(64, False)]. al \<or> s < unat (alloc_need 24))"
    by (rule kernel_heap.alloc_returns [OF demo_boot_wf(1), of 24]) simp_all
  ultimately have "malloc 24 demo_boot = Some (q, k')" "q \<noteq> 0" by simp_all
  then show ?thesis using malloc_free_roundtrip [OF demo_boot_wf(1), of 24 q k'] by auto
qed

text \<open>
  The rounding of the request is not checked for overflow: every request above
  \<open>0xFFFFFFF0\<close> bytes is served like a request for eight bytes.
\<close>

theorem malloc_size_overflow:
  assumes "0xFFFFFFF0 < sz"
  shows "malloc sz k = malloc 8 k"
proof -
  have "unat (alloc_need sz) = 16" by (rule alloc_need_overflow [OF assms])
  moreover have "unat (alloc_need 8) = 16" by (simp add: alloc_need_covers)
  ultimately have "alloc_need sz = alloc_need 8" by (simp add: word_unat_eq_iff)
  moreover have "sz \<noteq> 0" using assms by auto
  ultimately show ?thesis by (simp add: malloc_def)
qed

theorem malloc_size_overflow_witness:
  "(0xFFFFFFF0 :: u32) < 0xFFFFFFFF \<and> malloc 0xFFFFFFFF demo_boot = malloc 8 demo_boot"
  using malloc_size_overflow [of "0xFFFFFFFF" demo_boot] by simp

end
