(* ===== verification/Kobject.thy ===== *)
theory Kobject
  imports Kernel_State
begin

text \<open>
  The handle table of kernel objects, \<open>kernel/kobject.c\<close>: the operations, the contract of a
  handle table as a locale (a partial map from handles to typed pointers), its interpretation on
  the code, and how long a freed handle stays invalid.
\<close>

section \<open>The code\<close>

definition pack_handle :: "u16 \<Rightarrow> u16 \<Rightarrow> u32" where
  "pack_handle g idx = push_bit 16 (ucast g) OR ucast idx"

definition handle_index :: "u32 \<Rightarrow> u16" where
  "handle_index h = ucast (h AND 0xFFFF)"

definition handle_gen :: "u32 \<Rightarrow> u16" where
  "handle_gen h = ucast (drop_bit 16 h)"

text \<open>\<open>gen = (uint16_t)(gen + 1); if (gen == 0) gen = 1;\<close>\<close>

definition bump_gen :: "u16 \<Rightarrow> u16" where
  "bump_gen g = (if g + 1 = 0 then 1 else g + 1)"

definition k_obj_alloc :: "u32 \<Rightarrow> kobj_type \<Rightarrow> kernel \<Rightarrow> u32 \<times> kernel" where
  "k_obj_alloc ptr ty k =
     (if ptr = 0 then (KOBJ_INVALID, k)
      else let (pm, k) = enter_critical k in
        case find (\<lambda>i. \<not> in_use (table k i)) [0..<KOBJ_MAX] of
          None \<Rightarrow> (KOBJ_INVALID, exit_critical pm k)
        | Some i \<Rightarrow>
            let g = bump_gen (gen (table k i));
                e = \<lparr>obj_ptr = ptr, obj_type = ty, in_use = True, gen = g\<rparr>
            in (pack_handle g (of_nat i), exit_critical pm (k\<lparr>table := (table k)(i := e)\<rparr>)))"

definition k_obj_get :: "u32 \<Rightarrow> kobj_type \<Rightarrow> kernel \<Rightarrow> u32 \<times> kernel" where
  "k_obj_get h ty k =
     (if h = KOBJ_INVALID then (0, k)
      else let idx = unat (handle_index h); g = handle_gen h in
        if KOBJ_MAX \<le> idx then (0, k)
        else let (pm, k) = enter_critical k; e = table k idx in
          if \<not> in_use e then (0, exit_critical pm k)
          else if gen e \<noteq> g then (0, exit_critical pm k)
          else if obj_type e \<noteq> ty then (0, exit_critical pm k)
          else (obj_ptr e, exit_critical pm k))"

definition k_obj_free :: "u32 \<Rightarrow> kernel \<Rightarrow> kernel" where
  "k_obj_free h k =
     (if h = KOBJ_INVALID then k
      else let idx = unat (handle_index h); g = handle_gen h in
        if KOBJ_MAX \<le> idx then k
        else let (pm, k) = enter_critical k; e = table k idx in
          exit_critical pm
            (if in_use e \<and> gen e = g
             then k\<lparr>table := (table k)(idx := \<lparr>obj_ptr = 0, obj_type = KOBJ_QUEUE, in_use = False,
                     gen = bump_gen (gen e)\<rparr>)\<rparr>
             else k))"

section \<open>Handles\<close>

lemma bit_low_half: "bit (0xFFFF :: u32) n \<longleftrightarrow> n < 16"
proof -
  have "(0xFFFF :: u32) = mask 16" by (simp add: mask_eq_exp_minus_1)
  then show ?thesis by (simp only: bit_mask_iff) auto
qed

lemma bit_handle_index: "bit (handle_index h) n \<longleftrightarrow> n < 16 \<and> bit h n"
  unfolding handle_index_def
  by (simp only: bit_unsigned_iff bit_and_iff bit_low_half) (auto simp: possible_bit_def)

lemma handle_index_pack [simp]: "handle_index (pack_handle g i) = i"
  by (rule bit_word_eqI) (simp add: bit_handle_index pack_handle_def bit_simps)

lemma handle_gen_pack [simp]: "handle_gen (pack_handle g i) = g"
  by (rule bit_word_eqI) (auto simp: handle_gen_def pack_handle_def bit_simps dest: bit_imp_le_length)

lemma pack_handle_unpack [simp]: "pack_handle (handle_gen h) (handle_index h) = h"
  by (rule bit_word_eqI)
    (auto simp: handle_gen_def bit_handle_index pack_handle_def bit_simps)

lemma unat_of_nat16: "n < 65536 \<Longrightarrow> unat (of_nat n :: u16) = n"
  by (simp add: unat_of_nat take_bit_nat_eq_self)

lemma handle_index_invalid: "unat (handle_index KOBJ_INVALID) = 65535"
  by (simp add: handle_index_def)

text \<open>The valid handles, as a partial map to the pointer and the type of the object.\<close>

definition kobj_live :: "kernel \<Rightarrow> u32 \<rightharpoonup> u32 \<times> kobj_type" where
  "kobj_live k h =
     (let e = table k (unat (handle_index h)) in
      if unat (handle_index h) < KOBJ_MAX \<and> in_use e \<and> gen e = handle_gen h
      then Some (obj_ptr e, obj_type e) else None)"

lemma bump_gen_nonzero [simp]: "bump_gen g \<noteq> 0"
  by (simp add: bump_gen_def)

definition kobj_inv :: "kernel \<Rightarrow> bool" where
  "kobj_inv k \<longleftrightarrow> (\<forall>i < KOBJ_MAX. in_use (table k i) \<longrightarrow>
     obj_ptr (table k i) \<noteq> 0 \<and> gen (table k i) \<noteq> 0)"

lemma k_obj_get_live:
  "k_obj_get h ty k = ((case kobj_live k h of Some (p, t) \<Rightarrow> if t = ty then p else 0 | None \<Rightarrow> 0), k)"
proof (cases "h = KOBJ_INVALID")
  case True
  then show ?thesis using handle_index_invalid by (simp add: k_obj_get_def kobj_live_def)
next
  case False
  then show ?thesis
    by (simp add: k_obj_get_def kobj_live_def state_defs Let_def)
qed

lemma k_obj_alloc_full:
  assumes "\<forall>i < KOBJ_MAX. in_use (table k i)"
  shows "k_obj_alloc p ty k = (KOBJ_INVALID, k)"
proof -
  have "find (\<lambda>i. \<not> in_use (table k i)) [0..<KOBJ_MAX] = None"
    using assms by (simp add: find_None_iff)
  then show ?thesis by (simp add: k_obj_alloc_def state_defs)
qed

lemma k_obj_alloc_slot:
  assumes "p \<noteq> 0" "i < KOBJ_MAX" "\<not> in_use (table k i)" "\<forall>j < i. in_use (table k j)"
  shows "k_obj_alloc p ty k =
    (pack_handle (bump_gen (gen (table k i))) (of_nat i),
     k\<lparr>table := (table k)(i := \<lparr>obj_ptr = p, obj_type = ty, in_use = True,
       gen = bump_gen (gen (table k i))\<rparr>)\<rparr>)"
proof -
  have "find (\<lambda>i. \<not> in_use (table k i)) [0..<KOBJ_MAX] = Some i"
    using assms by (auto simp: find_Some_iff intro!: exI [of _ i])
  then show ?thesis using assms(1) by (simp add: k_obj_alloc_def state_defs Let_def)
qed

text \<open>Either the table is full, or the first free slot is taken.\<close>

lemma first_free:
  obtains "\<forall>i < KOBJ_MAX. in_use (table k i)"
  | i where "i < KOBJ_MAX" "\<not> in_use (table k i)" "\<forall>j < i. in_use (table k j)"
proof (cases "\<forall>i < KOBJ_MAX. in_use (table k i)")
  case False
  then obtain i where i: "i < KOBJ_MAX" "\<not> in_use (table k i)" by blast
  let ?i = "LEAST i. \<not> in_use (table k i)"
  have "\<not> in_use (table k ?i)" using i(2) by (rule LeastI)
  moreover have "?i < KOBJ_MAX" using Least_le [of "\<lambda>i. \<not> in_use (table k i)" i] i by simp
  moreover have "\<forall>j < ?i. in_use (table k j)" using not_less_Least by blast
  ultimately show thesis using that by blast
qed (use that in blast)

lemma handle_eqI:
  "handle_index h = handle_index h' \<Longrightarrow> handle_gen h = handle_gen h' \<Longrightarrow> h = h'"
  by (metis pack_handle_unpack)

lemma kobj_live_valid: "kobj_live k h = Some v \<Longrightarrow> h \<noteq> KOBJ_INVALID"
  using handle_index_invalid by (auto simp: kobj_live_def Let_def split: if_splits)

section \<open>The contract\<close>

locale handle_table =
  fixes halloc :: "'o \<Rightarrow> 't \<Rightarrow> 's \<Rightarrow> u32 \<times> 's"
    and hget :: "u32 \<Rightarrow> 't \<Rightarrow> 's \<Rightarrow> 'o \<times> 's"
    and hfree :: "u32 \<Rightarrow> 's \<Rightarrow> 's"
    and live :: "'s \<Rightarrow> u32 \<rightharpoonup> 'o \<times> 't"
    and inv :: "'s \<Rightarrow> bool"
    and null :: 'o
    and invalid :: u32
  assumes get: "hget h t s =
      ((case live s h of Some (p, t') \<Rightarrow> if t' = t then p else null | None \<Rightarrow> null), s)"
    and live_valid: "live s h = Some v \<Longrightarrow> h \<noteq> invalid"
    and live_ptr: "inv s \<Longrightarrow> live s h = Some (p, t) \<Longrightarrow> p \<noteq> null"
    and alloc: "inv s \<Longrightarrow> p \<noteq> null \<Longrightarrow> halloc p t s = (h, s') \<Longrightarrow>
      h = invalid \<and> s' = s \<or>
      h \<noteq> invalid \<and> live s h = None \<and> live s' = (live s)(h \<mapsto> (p, t)) \<and> inv s'"
    and free: "inv s \<Longrightarrow> inv (hfree h s) \<and> live (hfree h s) = (live s)(h := None)"
begin

lemma alloc_get:
  assumes "inv s" "p \<noteq> null" "halloc p t s = (h, s')" "h \<noteq> invalid"
  shows "hget h t s' = (p, s')" "t' \<noteq> t \<Longrightarrow> hget h t' s' = (null, s')"
  using alloc [OF assms(1-3)] assms(4) by (auto simp: get)

lemma alloc_frame:
  assumes "inv s" "p \<noteq> null" "halloc p t s = (h, s')" "live s h' \<noteq> None"
  shows "hget h' t' s' = (fst (hget h' t' s), s')"
  using alloc [OF assms(1-3)] assms(4) by (auto simp: get)

lemma free_get:
  assumes "inv s"
  shows "hget h t (hfree h s) = (null, hfree h s)"
    "h' \<noteq> h \<Longrightarrow> hget h' t (hfree h s) = (fst (hget h' t s), hfree h s)"
  using free [OF assms] by (auto simp: get)

lemma get_typed:
  assumes "inv s"
  shows "fst (hget h t s) \<noteq> null \<longleftrightarrow> (\<exists>p. live s h = Some (p, t))"
  using live_ptr [OF assms] by (auto simp: get split: option.splits)

end

lemma k_obj_alloc_cases:
  assumes "p \<noteq> 0"
  obtains "\<forall>i < KOBJ_MAX. in_use (table k i)" "k_obj_alloc p ty k = (KOBJ_INVALID, k)"
  | i where "i < KOBJ_MAX" "\<not> in_use (table k i)" "\<forall>j < i. in_use (table k j)"
      "k_obj_alloc p ty k = (pack_handle (bump_gen (gen (table k i))) (of_nat i),
        k\<lparr>table := (table k)(i := \<lparr>obj_ptr = p, obj_type = ty, in_use = True,
          gen = bump_gen (gen (table k i))\<rparr>)\<rparr>)"
  using first_free [of k] k_obj_alloc_full [of k p ty] k_obj_alloc_slot [OF assms] by metis

lemma kobj_live_alloc:
  assumes "i < KOBJ_MAX" "\<not> in_use (table k i)"
  shows "kobj_live (k\<lparr>table := (table k)(i := \<lparr>obj_ptr = p, obj_type = ty, in_use = True, gen = g\<rparr>)\<rparr>) =
    (kobj_live k)(pack_handle g (of_nat i) \<mapsto> (p, ty))"
proof
  fix h
  have i: "unat (of_nat i :: u16) = i" using assms(1) by (simp add: unat_of_nat16)
  show "kobj_live (k\<lparr>table := (table k)(i := \<lparr>obj_ptr = p, obj_type = ty, in_use = True, gen = g\<rparr>)\<rparr>) h =
    ((kobj_live k)(pack_handle g (of_nat i) \<mapsto> (p, ty))) h"
  proof (cases "h = pack_handle g (of_nat i)")
    case True
    then show ?thesis using assms i by (simp add: kobj_live_def)
  next
    case False
    have "handle_gen h \<noteq> g" if "unat (handle_index h) = i"
    proof
      assume "handle_gen h = g"
      moreover have "handle_index h = of_nat i" using that by (metis of_nat_unat ucast_id)
      ultimately show False using False handle_eqI [of h "pack_handle g (of_nat i)"] by simp
    qed
    then show ?thesis using False assms by (auto simp: kobj_live_def Let_def)
  qed
qed

lemma k_obj_free_simp:
  "k_obj_free h k = (if kobj_live k h = None then k
     else k\<lparr>table := (table k)(unat (handle_index h) := \<lparr>obj_ptr = 0, obj_type = KOBJ_QUEUE,
       in_use = False, gen = bump_gen (handle_gen h)\<rparr>)\<rparr>)"
proof (cases "h = KOBJ_INVALID")
  case True
  then show ?thesis using handle_index_invalid by (simp add: k_obj_free_def kobj_live_def)
next
  case False
  then show ?thesis
    by (auto simp: k_obj_free_def kobj_live_def Let_def state_defs split: if_splits)
qed

lemma kobj_live_free: "kobj_live (k_obj_free h k) = (kobj_live k)(h := None)"
proof
  fix h'
  have "h' = h" if "kobj_live k h = Some v" "kobj_live k h' = Some v'"
    "unat (handle_index h') = unat (handle_index h)" for v v'
    using that
    by (auto simp: kobj_live_def Let_def word_unat_eq_iff [of "handle_index _"] split: if_splits
        intro: handle_eqI)
  then show "kobj_live (k_obj_free h k) h' = ((kobj_live k)(h := None)) h'"
    unfolding k_obj_free_simp
    by (auto simp: kobj_live_def Let_def split: if_splits)
qed

interpretation kobj: handle_table k_obj_alloc k_obj_get k_obj_free kobj_live kobj_inv 0 KOBJ_INVALID
proof unfold_locales
  fix s p t h s' assume a: "kobj_inv s" "p \<noteq> 0" "k_obj_alloc p t s = (h, s')"
  show "h = KOBJ_INVALID \<and> s' = s \<or> h \<noteq> KOBJ_INVALID \<and> kobj_live s h = None \<and>
      kobj_live s' = (kobj_live s)(h \<mapsto> (p, t)) \<and> kobj_inv s'"
  proof (rule k_obj_alloc_cases [OF a(2), of s t])
    fix i assume i: "i < KOBJ_MAX" "\<not> in_use (table s i)"
      "k_obj_alloc p t s = (pack_handle (bump_gen (gen (table s i))) (of_nat i),
        s\<lparr>table := (table s)(i := \<lparr>obj_ptr = p, obj_type = t, in_use = True,
          gen = bump_gen (gen (table s i))\<rparr>)\<rparr>)"
    let ?h = "pack_handle (bump_gen (gen (table s i))) (of_nat i)"
    have "kobj_live s ?h = None"
      using i(1,2) by (simp add: kobj_live_def unat_of_nat16)
    moreover have live: "kobj_live s' = (kobj_live s)(?h \<mapsto> (p, t))"
      using a(3) unfolding i(3) by (auto simp only: prod.inject kobj_live_alloc [OF i(1,2)])
    moreover have "?h \<noteq> KOBJ_INVALID"
      using kobj_live_valid [of s' ?h] live by simp
    moreover have "kobj_inv s'"
      using a i by (auto simp: kobj_inv_def split: if_splits)
    ultimately show ?thesis using a(3) i(3) by simp
  qed (use a in simp)
next
  show "kobj_inv (k_obj_free h s) \<and> kobj_live (k_obj_free h s) = (kobj_live s)(h := None)"
    if "kobj_inv s" for h s
    using that kobj_live_free by (auto simp: kobj_inv_def k_obj_free_simp)
next
  show "p \<noteq> 0" if "kobj_inv s" "kobj_live s h = Some (p, t)" for s h p t
    using that by (auto simp: kobj_inv_def kobj_live_def Let_def split: if_splits)
qed (use kobj_live_valid k_obj_get_live in auto)

section \<open>How long a freed handle stays invalid\<close>

text \<open>Any further use of the table: allocations and frees by anyone.\<close>

datatype kobj_op = Op_alloc u32 kobj_type | Op_free u32

primrec kobj_step :: "kernel \<Rightarrow> kobj_op \<Rightarrow> kernel" where
  "kobj_step k (Op_alloc p ty) = snd (k_obj_alloc p ty k)"
| "kobj_step k (Op_free h) = k_obj_free h k"

text \<open>
  The generation of a slot runs through 1 to 65535 and skips 0; \<open>gen_after g n\<close> is the
  generation \<open>n\<close> bumps after \<open>g\<close>.
\<close>

definition gen_after :: "u16 \<Rightarrow> nat \<Rightarrow> u16" where
  "gen_after g n = of_nat ((unat g - 1 + n) mod 65535 + 1)"

lemma unat_gen_after: "unat (gen_after g n) = (unat g - 1 + n) mod 65535 + 1"
proof -
  have "(unat g - 1 + n) mod 65535 < 65535" by simp
  then have "(unat g - 1 + n) mod 65535 + 1 < 65536" by linarith
  then show ?thesis by (simp only: gen_after_def unat_of_nat16)
qed

lemma unat_u16_lt: "unat (g :: u16) < 65536"
  using unsigned_less [of g] by simp

lemma unat_bump_gen: "unat (bump_gen g) = unat g mod 65535 + 1"
proof (cases "unat g = 65535")
  case True
  then have "g + 1 = 0" by (simp add: word_unat_eq_iff unat_word_ariths)
  then show ?thesis using True by (simp add: bump_gen_def)
next
  case False
  then have "unat g < 65535" using unat_u16_lt [of g] by linarith
  then have "unat (g + 1) = unat g + 1" by (simp add: unat_word_ariths)
  moreover from this have "g + 1 \<noteq> 0" by (metis unat_0 add_is_0 one_neq_zero)
  ultimately show ?thesis using \<open>unat g < 65535\<close> by (simp add: bump_gen_def)
qed

lemma bump_gen_after: "bump_gen (gen_after g n) = gen_after g (Suc n)"
  by (simp add: word_unat_eq_iff [of "bump_gen _"] unat_bump_gen unat_gen_after mod_Suc_eq)

lemma gen_after_0: "g \<noteq> 0 \<Longrightarrow> gen_after g 0 = g"
proof -
  assume "g \<noteq> 0"
  then have "1 \<le> unat g" by (simp add: unat_gt_0 Suc_le_eq)
  moreover have "unat g - 1 < 65535" using unat_u16_lt [of g] by linarith
  ultimately show ?thesis by (simp add: word_unat_eq_iff [of "gen_after g 0"] unat_gen_after)
qed

lemma gen_after_eq:
  assumes "g \<noteq> 0" "gen_after g n = g"
  shows "65535 dvd n"
proof -
  have "1 \<le> unat g" using assms(1) by (simp add: unat_gt_0 Suc_le_eq)
  then have "(unat g - 1 + n) mod 65535 = (unat g - 1) mod 65535"
    using assms gen_after_0 unat_gen_after by (metis add.right_neutral add_right_cancel)
  then show ?thesis by (metis add_diff_cancel_left' le_add1 mod_eq_dvd_iff_nat)
qed

text \<open>
  A slot whose last change was made \<open>n\<close> bumps after the generation \<open>g\<close> became valid is in use
  exactly when \<open>n\<close> is even.
\<close>

definition slot_age :: "u16 \<Rightarrow> nat \<Rightarrow> kobj_entry \<Rightarrow> bool" where
  "slot_age g n e \<longleftrightarrow> gen e = gen_after g n \<and> (in_use e \<longleftrightarrow> even n)"

lemma slot_age_step:
  assumes "slot_age g n (table k i)" "i < KOBJ_MAX"
  shows "slot_age g n (table (kobj_step k op) i) \<or> slot_age g (Suc n) (table (kobj_step k op) i)"
proof (cases op)
  case (Op_alloc p ty)
  show ?thesis
  proof (cases "p = 0")
    case False
    show ?thesis
      by (rule k_obj_alloc_cases [OF False, of k ty])
        (use assms in \<open>auto simp: Op_alloc slot_age_def bump_gen_after\<close>)
  qed (use assms in \<open>simp add: Op_alloc k_obj_alloc_def\<close>)
next
  case (Op_free h)
  show ?thesis
    using assms by (auto simp: Op_free k_obj_free_simp slot_age_def kobj_live_def Let_def
        bump_gen_after [symmetric] split: if_splits)
qed

lemma slot_age_run:
  assumes "slot_age g n (table k i)" "i < KOBJ_MAX"
  shows "\<exists>n' \<ge> n. n' \<le> n + length ops \<and> slot_age g n' (table (foldl kobj_step k ops) i)"
  using assms(1)
proof (induction ops arbitrary: k n)
  case (Cons op ops)
  from slot_age_step [OF Cons.prems assms(2), of op]
  obtain m where m: "m = n \<or> m = Suc n" "slot_age g m (table (kobj_step k op) i)" by blast
  from Cons.IH [OF m(2)] obtain n' where "m \<le> n'" "n' \<le> m + length ops"
    "slot_age g n' (table (foldl kobj_step k (op # ops)) i)"
    by auto
  then show ?case using m(1) by (intro exI [of _ n']) auto
qed auto

section \<open>Properties of the handle table\<close>

text \<open>
  C11. Allocating a handle fails exactly when the table is full, and then changes nothing.  Otherwise
  the new handle was not valid before, it yields the stored pointer for its own type and null for
  every other type, and every handle valid before still yields what it did.
\<close>

theorem k_obj_alloc_correct:
  assumes "kobj_inv k" "p \<noteq> 0"
  shows "\<exists>h k'. k_obj_alloc p ty k = (h, k') \<and> kobj_inv k' \<and>
    (if \<forall>i < KOBJ_MAX. in_use (table k i) then h = KOBJ_INVALID \<and> k' = k
     else h \<noteq> KOBJ_INVALID \<and> (\<forall>ty'. fst (k_obj_get h ty' k) = 0) \<and>
       k_obj_get h ty k' = (p, k') \<and> (\<forall>ty'. ty' \<noteq> ty \<longrightarrow> k_obj_get h ty' k' = (0, k')) \<and>
       (\<forall>h' ty'. h' \<noteq> h \<longrightarrow> k_obj_get h' ty' k' = (fst (k_obj_get h' ty' k), k')))"
proof -
  obtain h k' where run: "k_obj_alloc p ty k = (h, k')" by fastforce
  have full: "h = KOBJ_INVALID \<longleftrightarrow> (\<forall>i < KOBJ_MAX. in_use (table k i))"
  proof (rule k_obj_alloc_cases [OF assms(2), of k ty])
    fix i assume i: "i < KOBJ_MAX" "\<not> in_use (table k i)"
      "k_obj_alloc p ty k = (pack_handle (bump_gen (gen (table k i))) (of_nat i),
        k\<lparr>table := (table k)(i := \<lparr>obj_ptr = p, obj_type = ty, in_use = True,
          gen = bump_gen (gen (table k i))\<rparr>)\<rparr>)"
    then have "unat (handle_index h) = i" using run by (auto simp: unat_of_nat16)
    then have "h \<noteq> KOBJ_INVALID" using i(1) handle_index_invalid by auto
    then show ?thesis using i by auto
  qed (use run in auto)
  from kobj.alloc [OF assms run] show ?thesis
  proof
    assume "h = KOBJ_INVALID \<and> k' = k"
    then show ?thesis using run assms full by simp
  next
    assume a: "h \<noteq> KOBJ_INVALID \<and> kobj_live k h = None \<and>
      kobj_live k' = (kobj_live k)(h \<mapsto> (p, ty)) \<and> kobj_inv k'"
    then have "\<not> (\<forall>i < KOBJ_MAX. in_use (table k i))" using full by simp
    then show ?thesis using a run by (auto simp: kobj.get)
  qed
qed

theorem k_obj_alloc_correct_witness:
  "\<exists>h k'. k_obj_alloc 0x20009000 KOBJ_SEM demo_boot = (h, k') \<and> h \<noteq> KOBJ_INVALID \<and>
     k_obj_get h KOBJ_SEM k' = (0x20009000, k') \<and> k_obj_get h KOBJ_MUTEX k' = (0, k')"
proof -
  have inv: "kobj_inv demo_boot" by (simp add: kobj_inv_def demo_boot_def boot_kernel_def)
  have p: "(0x20009000 :: u32) \<noteq> 0" by simp
  have free: "(\<forall>i < KOBJ_MAX. in_use (table demo_boot i)) = False"
    by (simp add: demo_boot_def boot_kernel_def) (rule exI [of _ 0], simp)
  from k_obj_alloc_correct [OF inv p, of KOBJ_SEM] show ?thesis
    unfolding free if_False by blast
qed

text \<open>
  C12. Freeing a handle makes it yield null for every type, and changes what no other handle
  yields; freeing a handle that is not valid (stale, out of range, or \<open>KOBJ_INVALID\<close>) changes
  nothing at all.
\<close>

theorem k_obj_free_correct:
  assumes "kobj_inv k"
  shows "kobj_inv (k_obj_free h k) \<and>
    (\<forall>h' ty. k_obj_get h' ty (k_obj_free h k) =
       (if h' = h then 0 else fst (k_obj_get h' ty k), k_obj_free h k)) \<and>
    ((\<forall>ty. fst (k_obj_get h ty k) = 0) \<longrightarrow> k_obj_free h k = k)"
proof -
  have "kobj_live k h = None" if "\<forall>ty. fst (k_obj_get h ty k) = 0"
  proof (rule ccontr)
    assume "kobj_live k h \<noteq> None"
    then obtain q t where "kobj_live k h = Some (q, t)" by auto
    then show False using kobj.get_typed [OF assms, of h t] that by auto
  qed
  then have same: "(\<forall>ty. fst (k_obj_get h ty k) = 0) \<longrightarrow> k_obj_free h k = k"
    by (simp add: k_obj_free_simp)
  have "k_obj_get h' ty (k_obj_free h k) =
      (if h' = h then 0 else fst (k_obj_get h' ty k), k_obj_free h k)" for h' ty
    using kobj.free_get [OF assms] by auto
  then show ?thesis using kobj.free [OF assms] same by blast
qed

theorem k_obj_free_correct_witness:
  "kobj_inv demo_boot \<and> k_obj_free 0x10003 demo_boot = demo_boot"
proof -
  have inv: "kobj_inv demo_boot" by (simp add: kobj_inv_def demo_boot_def boot_kernel_def)
  have "fst (k_obj_get 0x10003 ty demo_boot) = 0" for ty
    by (simp add: k_obj_get_def demo_boot_def boot_kernel_def Let_def state_defs)
  then show ?thesis using k_obj_free_correct [OF inv, of "0x10003"] inv by blast
qed

text \<open>
  C13. A freed handle stays invalid through any 131068 further allocations and frees, of any
  objects, by anyone: the 16-bit generation of its slot takes 131070 changes to come back with
  the slot in use.
\<close>

theorem stale_handle_invalid:
  assumes "kobj_inv k" "fst (k_obj_get h ty k) \<noteq> 0" "length ops < 131069"
  shows "fst (k_obj_get h ty' (foldl kobj_step (k_obj_free h k) ops)) = 0"
proof -
  let ?g = "handle_gen h" and ?i = "unat (handle_index h)"
  let ?k = "foldl kobj_step (k_obj_free h k) ops"
  obtain q where live: "kobj_live k h = Some (q, ty)"
    using kobj.get_typed [OF assms(1)] assms(2) by blast
  then have i: "?i < KOBJ_MAX" "in_use (table k ?i)" "gen (table k ?i) = ?g" "?g \<noteq> 0"
    using assms(1) by (auto simp: kobj_live_def kobj_inv_def Let_def split: if_splits)
  have "bump_gen ?g = gen_after ?g 1"
    using bump_gen_after [of ?g 0] gen_after_0 [OF i(4)] by simp
  then have "slot_age ?g 1 (table (k_obj_free h k) ?i)"
    using live by (simp add: slot_age_def k_obj_free_simp)
  from slot_age_run [OF this i(1), of ops] obtain n where
    n: "1 \<le> n" "n \<le> 1 + length ops" "slot_age ?g n (table ?k ?i)" by auto
  have "kobj_live ?k h = None"
  proof (rule ccontr)
    assume "kobj_live ?k h \<noteq> None"
    then have "in_use (table ?k ?i)" "gen (table ?k ?i) = ?g"
      by (auto simp: kobj_live_def Let_def split: if_splits)
    then have "even n" "gen_after ?g n = ?g" using n(3) by (auto simp: slot_age_def)
    then obtain c where c: "n = 65535 * c" using gen_after_eq [OF i(4)] by (auto elim: dvdE)
    then have "c = 1" using n assms(3) by linarith
    then show False using \<open>even n\<close> c by simp
  qed
  then show ?thesis by (simp add: k_obj_get_live)
qed

theorem stale_handle_invalid_witness:
  "\<exists>k. fst (k_obj_get 0x10000 KOBJ_SEM k) \<noteq> 0 \<and>
     fst (k_obj_get 0x10000 KOBJ_SEM
       (foldl kobj_step (k_obj_free 0x10000 k) [Op_alloc 0x20009000 KOBJ_SEM, Op_free 0])) = 0"
proof -
  let ?k = "demo_boot\<lparr>table :=
    (\<lambda>i. if i = 0 then \<lparr>obj_ptr = 0x20008100, obj_type = KOBJ_SEM, in_use = True, gen = 1\<rparr>
         else table demo_boot i)\<rparr>"
  have inv: "kobj_inv ?k" by (simp add: kobj_inv_def demo_boot_def boot_kernel_def)
  have get: "fst (k_obj_get 0x10000 KOBJ_SEM ?k) \<noteq> 0"
    by (simp add: k_obj_get_def handle_index_def handle_gen_def Let_def state_defs)
  show ?thesis
    by (rule exI [of _ ?k], intro conjI get stale_handle_invalid [OF inv get]) simp
qed

end
