(* ===== verification/Wait_List.thy ===== *)
theory Wait_List
  imports Kernel_State
begin

text \<open>
  The wait lists of semaphores, mutexes and queues: singly linked lists of TCBs through
  \<open>wait_next\<close>, whose heads live in the primitives.  The code inlines these operations in
  \<open>semaphore.c\<close>, \<open>mutex.c\<close>, \<open>queue.c\<close> and \<open>sched.c\<close>.  The abstraction \<open>wait_wf W\<close> gives every
  head the list of tasks waiting there; a task waits in one place at most.
\<close>

section \<open>The code\<close>

text \<open>\<open>*head\<close>, through a \<open>struct TaskControlBlock **\<close>.\<close>

definition read_head :: "wait_head \<Rightarrow> kernel \<Rightarrow> tcb_ptr option option" where
  "read_head h k = (case h of
     SemWait p \<Rightarrow> map_option sem_wait_list (sems k p)
   | MutexWait p \<Rightarrow> map_option mtx_wait_list (mutexes k p)
   | QueueSendWait p \<Rightarrow> map_option q_send_wait (queues k p)
   | QueueRecvWait p \<Rightarrow> map_option q_recv_wait (queues k p))"

text \<open>\<open>*head = v\<close>\<close>

definition write_head :: "wait_head \<Rightarrow> tcb_ptr option \<Rightarrow> kernel \<Rightarrow> kernel" where
  "write_head h v k = (case h of
     SemWait p \<Rightarrow> (case sems k p of None \<Rightarrow> k | Some s \<Rightarrow> set_sem p (s\<lparr>sem_wait_list := v\<rparr>) k)
   | MutexWait p \<Rightarrow> (case mutexes k p of None \<Rightarrow> k | Some s \<Rightarrow> set_mutex p (s\<lparr>mtx_wait_list := v\<rparr>) k)
   | QueueSendWait p \<Rightarrow> (case queues k p of None \<Rightarrow> k | Some s \<Rightarrow> set_queue p (s\<lparr>q_send_wait := v\<rparr>) k)
   | QueueRecvWait p \<Rightarrow> (case queues k p of None \<Rightarrow> k | Some s \<Rightarrow> set_queue p (s\<lparr>q_recv_wait := v\<rparr>) k))"

text \<open>\<open>cur->wait_next = *head; *head = cur;\<close>\<close>

definition wait_push :: "wait_head \<Rightarrow> tcb_ptr \<Rightarrow> kernel \<Rightarrow> kernel option" where
  "wait_push h t k = do {
     p \<leftarrow> read_head h k;
     Some (write_head h (Some t) (upd_tcb t (\<lambda>c. c\<lparr>wait_next := p\<rparr>) k))
   }"

text \<open>\<open>while (tail->wait_next) tail = tail->wait_next;\<close>\<close>

partial_function (option) wait_last :: "kernel \<Rightarrow> tcb_ptr \<Rightarrow> tcb_ptr option" where
  "wait_last k t = (case wait_next (tcb_pool k t) of None \<Rightarrow> Some t | Some u \<Rightarrow> wait_last k u)"

definition wait_append :: "wait_head \<Rightarrow> tcb_ptr \<Rightarrow> kernel \<Rightarrow> kernel option" where
  "wait_append h t k = do {
     let k = upd_tcb t (\<lambda>c. c\<lparr>wait_next := None\<rparr>) k;
     p \<leftarrow> read_head h k;
     case p of
       None \<Rightarrow> Some (write_head h (Some t) k)
     | Some u \<Rightarrow> do {
         tail \<leftarrow> wait_last k u;
         Some (upd_tcb tail (\<lambda>c. c\<lparr>wait_next := Some t\<rparr>) k)
       }
   }"

text \<open>
  Taking the first waiter \<open>t\<close> off a list: \<open>*head = t->wait_next; t->wait_next = NULL;
  t->delay_ticks = 0; t->blocking_wait_list = NULL;\<close>
\<close>

definition wait_pop :: "wait_head \<Rightarrow> tcb_ptr \<Rightarrow> kernel \<Rightarrow> kernel" where
  "wait_pop h t k =
     upd_tcb t (\<lambda>c. c\<lparr>wait_next := None, delay_ticks := 0, blocking_wait_list := None\<rparr>)
       (write_head h (wait_next (tcb_pool k t)) k)"

text \<open>\<open>while (cur && cur != t) { prev = cur; cur = cur->wait_next; }\<close>\<close>

partial_function (option) wait_find ::
  "kernel \<Rightarrow> tcb_ptr \<Rightarrow> tcb_ptr option \<Rightarrow> tcb_ptr option \<Rightarrow> (tcb_ptr option \<times> tcb_ptr option) option"
where
  "wait_find k t prev cur =
     (if cur \<noteq> None \<and> cur \<noteq> Some t then wait_find k t cur (wait_next (tcb_pool k (the cur)))
      else Some (prev, cur))"

text \<open>\<open>sync_tick_all\<close> splices an expired task out of the list it waits in.\<close>

definition wait_splice :: "wait_head \<Rightarrow> tcb_ptr \<Rightarrow> kernel \<Rightarrow> kernel option" where
  "wait_splice h t k = do {
     p \<leftarrow> read_head h k;
     (prev, cur) \<leftarrow> wait_find k t None p;
     if cur = Some t then
       Some (upd_tcb t (\<lambda>c. c\<lparr>wait_next := None\<rparr>)
         (case prev of
            Some u \<Rightarrow> upd_tcb u (\<lambda>c. c\<lparr>wait_next := wait_next (tcb_pool k t)\<rparr>) k
          | None \<Rightarrow> write_head h (wait_next (tcb_pool k t)) k))
     else Some k
   }"

section \<open>Reads after writes\<close>

lemma upd_tcb_simps [simp]:
  "tcb_pool (upd_tcb t f k) = (tcb_pool k)(t := f (tcb_pool k t))"
  "mem (upd_tcb t f k) = mem k" "ld (upd_tcb t f k) = ld k"
  "primask (upd_tcb t f k) = primask k" "pendsv (upd_tcb t f k) = pendsv k"
  "control (upd_tcb t f k) = control k" "uart_out (upd_tcb t f k) = uart_out k"
  "kheap (upd_tcb t f k) = kheap k" "uheap (upd_tcb t f k) = uheap k"
  "table (upd_tcb t f k) = table k" "tcb_used (upd_tcb t f k) = tcb_used k"
  "task_list (upd_tcb t f k) = task_list k" "rr_current (upd_tcb t f k) = rr_current k"
  "current_task (upd_tcb t f k) = current_task k" "tick_count (upd_tcb t f k) = tick_count k"
  "g_priority_mask (upd_tcb t f k) = g_priority_mask k"
  "sems (upd_tcb t f k) = sems k" "mutexes (upd_tcb t f k) = mutexes k"
  "queues (upd_tcb t f k) = queues k" "kwork_buf (upd_tcb t f k) = kwork_buf k"
  "kwork_head (upd_tcb t f k) = kwork_head k" "kwork_tail (upd_tcb t f k) = kwork_tail k"
  "kernel_tcb (upd_tcb t f k) = kernel_tcb k"
  by (simp_all add: upd_tcb_def)

lemma read_head_upd_tcb [simp]: "read_head h (upd_tcb t f k) = read_head h k"
  by (cases h) (simp_all add: read_head_def upd_tcb_def)

lemma write_head_simps [simp]:
  "tcb_pool (write_head h v k) = tcb_pool k"
  "mem (write_head h v k) = mem k" "ld (write_head h v k) = ld k"
  "primask (write_head h v k) = primask k" "pendsv (write_head h v k) = pendsv k"
  "control (write_head h v k) = control k" "uart_out (write_head h v k) = uart_out k"
  "kheap (write_head h v k) = kheap k" "uheap (write_head h v k) = uheap k"
  "table (write_head h v k) = table k" "tcb_used (write_head h v k) = tcb_used k"
  "task_list (write_head h v k) = task_list k" "rr_current (write_head h v k) = rr_current k"
  "current_task (write_head h v k) = current_task k" "tick_count (write_head h v k) = tick_count k"
  "g_priority_mask (write_head h v k) = g_priority_mask k"
  "kwork_buf (write_head h v k) = kwork_buf k" "kwork_head (write_head h v k) = kwork_head k"
  "kwork_tail (write_head h v k) = kwork_tail k" "kernel_tcb (write_head h v k) = kernel_tcb k"
  by (simp_all add: write_head_def state_defs split: wait_head.splits option.splits)

lemma read_write_head:
  "read_head h k \<noteq> None \<Longrightarrow>
   read_head h' (write_head h v k) = (if h' = h then Some v else read_head h' k)"
  by (auto simp: read_head_def write_head_def state_defs split: wait_head.splits option.splits)

section \<open>The abstraction\<close>

abbreviation wait_nx :: "kernel \<Rightarrow> tcb_ptr \<Rightarrow> tcb_ptr option" where
  "wait_nx k \<equiv> (\<lambda>t. wait_next (tcb_pool k t))"

definition wait_wf :: "(wait_head \<Rightarrow> tcb_ptr list) \<Rightarrow> kernel \<Rightarrow> bool" where
  "wait_wf W k \<longleftrightarrow>
     (\<forall>h. read_head h k = None \<longrightarrow> W h = []) \<and>
     (\<forall>h p. read_head h k = Some p \<longrightarrow> chain (wait_nx k) p (W h)) \<and>
     (\<forall>h h' t. t \<in> set (W h) \<longrightarrow> t \<in> set (W h') \<longrightarrow> h = h')"

lemma wait_wf_none: "wait_wf W k \<Longrightarrow> read_head h k = None \<Longrightarrow> W h = []"
  unfolding wait_wf_def by blast

lemma wait_wf_chain: "wait_wf W k \<Longrightarrow> read_head h k = Some p \<Longrightarrow> chain (wait_nx k) p (W h)"
  unfolding wait_wf_def by blast

lemma wait_wf_disjoint: "wait_wf W k \<Longrightarrow> t \<in> set (W h) \<Longrightarrow> t \<in> set (W h') \<Longrightarrow> h = h'"
  unfolding wait_wf_def by blast

lemma wait_wf_distinct: "wait_wf W k \<Longrightarrow> distinct (W h)"
  using wait_wf_none wait_wf_chain chain_distinct
  by (cases "read_head h k") (fastforce, blast)

lemma wait_wf_head: "wait_wf W k \<Longrightarrow> t \<in> set (W h) \<Longrightarrow> \<exists>p. read_head h k = Some p"
  using wait_wf_none by (cases "read_head h k") fastforce+

lemma wait_wf_cong:
  assumes "\<And>t. wait_next (tcb_pool k' t) = wait_next (tcb_pool k t)" "\<And>h. read_head h k' = read_head h k"
  shows "wait_wf W k' \<longleftrightarrow> wait_wf W k"
  by (simp only: wait_wf_def assms)

text \<open>Changing one list, given that the others keep their links and their heads.\<close>

lemma wait_wf_upd:
  assumes wf: "wait_wf W k" and h: "read_head h k \<noteq> None"
    and heads: "\<And>h'. read_head h' k' = (if h' = h then Some p else read_head h' k)"
    and links: "\<And>t h'. h' \<noteq> h \<Longrightarrow> t \<in> set (W h') \<Longrightarrow> wait_next (tcb_pool k' t) = wait_next (tcb_pool k t)"
    and list: "chain (wait_nx k') p xs"
    and fresh: "\<And>t h'. t \<in> set xs \<Longrightarrow> t \<in> set (W h') \<Longrightarrow> h' = h"
  shows "wait_wf (W(h := xs)) k'"
  unfolding wait_wf_def
proof (intro conjI allI impI)
  fix h' assume "read_head h' k' = None"
  then show "(W(h := xs)) h' = []" using wait_wf_none [OF wf] by (auto simp: heads split: if_splits)
next
  fix h' q assume q: "read_head h' k' = Some q"
  show "chain (wait_nx k') q ((W(h := xs)) h')"
  proof (cases "h' = h")
    case True
    then show ?thesis using q list by (simp add: heads)
  next
    case False
    then have "chain (wait_nx k) q (W h')" using q wait_wf_chain [OF wf] by (simp add: heads)
    then have "chain (wait_nx k') q (W h')"
      using chain_cong [of "W h'" "wait_nx k'" "wait_nx k" q] links [OF False] by simp
    then show ?thesis using False by simp
  qed
next
  fix h1 h2 t assume "t \<in> set ((W(h := xs)) h1)" "t \<in> set ((W(h := xs)) h2)"
  then have "h1 = h \<and> t \<in> set xs \<or> t \<in> set (W h1)" "h2 = h \<and> t \<in> set xs \<or> t \<in> set (W h2)"
    by (auto split: if_splits)
  then show "h1 = h2" using fresh wait_wf_disjoint [OF wf] by blast
qed

section \<open>The operations on the abstraction\<close>

lemma wait_push_wf:
  assumes "wait_wf W k" "read_head h k \<noteq> None" "\<And>h'. t \<notin> set (W h')"
  shows "\<exists>k'. wait_push h t k = Some k' \<and> wait_wf (W(h := t # W h)) k'"
proof -
  obtain p where p: "read_head h k = Some p" using assms(2) by auto
  let ?k = "write_head h (Some t) (upd_tcb t (\<lambda>c. c\<lparr>wait_next := p\<rparr>) k)"
  have "chain (wait_nx k) p (W h)" using assms(1) p wait_wf_chain by blast
  then have "chain (wait_nx ?k) p (W h)"
    using chain_cong [of "W h" "wait_nx ?k" "wait_nx k" p] assms(3) by fastforce
  then have "wait_wf (W(h := t # W h)) ?k"
    using assms p
    by (intro wait_wf_upd [OF assms(1,2)]) (auto simp: read_write_head dest: wait_wf_disjoint)
  then show ?thesis by (simp add: wait_push_def p)
qed

lemma wait_last_chain:
  "chain (wait_nx k) (Some t) (xs @ [u]) \<Longrightarrow> wait_last k t = Some u"
proof (induction xs arbitrary: t)
  case Nil
  then show ?case by (simp add: wait_last.simps)
next
  case (Cons x xs)
  then have "chain (wait_nx k) (wait_next (tcb_pool k t)) (xs @ [u])" by simp
  moreover from this obtain v where "wait_next (tcb_pool k t) = Some v"
    by (cases "wait_next (tcb_pool k t)") auto
  ultimately show ?case using Cons.IH by (subst wait_last.simps) simp
qed

lemma chain_snoc:
  assumes "chain nx p (xs @ [u])" "t \<notin> set (xs @ [u])" "nx t = None"
  shows "chain (nx(u := Some t)) p (xs @ [u, t])"
  using assms chain_distinct [OF assms(1)] by (induction xs arbitrary: p) auto

lemma wait_append_wf:
  assumes "wait_wf W k" "read_head h k \<noteq> None" "\<And>h'. t \<notin> set (W h')"
  shows "\<exists>k'. wait_append h t k = Some k' \<and> wait_wf (W(h := W h @ [t])) k'"
proof -
  obtain p where p: "read_head h k = Some p" using assms(2) by auto
  let ?k = "upd_tcb t (\<lambda>c. c\<lparr>wait_next := None\<rparr>) k"
  have ch: "chain (wait_nx ?k) p (W h)"
    using chain_cong [of "W h" "wait_nx ?k" "wait_nx k" p] wait_wf_chain [OF assms(1) p] assms(3)
    by fastforce
  show ?thesis
  proof (cases p)
    case None
    then have "W h = []" using ch by simp
    have "wait_wf (W(h := [t])) (write_head h (Some t) ?k)"
      using assms p
      by (intro wait_wf_upd [OF assms(1,2)]) (auto simp: read_write_head)
    then show ?thesis using None p \<open>W h = []\<close> by (simp add: wait_append_def)
  next
    case (Some u)
    then have "W h \<noteq> []" using ch by auto
    then obtain xs v where xs: "W h = xs @ [v]" by (metis append_butlast_last_id)
    then have last: "wait_last ?k u = Some v" using ch Some wait_last_chain by simp
    let ?k' = "upd_tcb v (\<lambda>c. c\<lparr>wait_next := Some t\<rparr>) ?k"
    have "t \<notin> set (xs @ [v])" using assms(3) xs by metis
    then have "chain ((wait_nx ?k)(v := Some t)) p (xs @ [v, t])"
      using ch xs by (intro chain_snoc) simp_all
    moreover have "(wait_nx ?k)(v := Some t) = wait_nx ?k'" by auto
    ultimately have "chain (wait_nx ?k') p (W h @ [t])" using xs by simp
    moreover have "wait_next (tcb_pool ?k' z) = wait_next (tcb_pool k z)"
      if "h' \<noteq> h" "z \<in> set (W h')" for h' z
    proof -
      have "v \<in> set (W h)" using xs by simp
      then have "z \<noteq> v" using that wait_wf_disjoint [OF assms(1)] by blast
      moreover have "z \<noteq> t" using that assms(3) by blast
      ultimately show ?thesis by simp
    qed
    ultimately have "wait_wf (W(h := W h @ [t])) ?k'"
      using assms p by (intro wait_wf_upd [OF assms(1,2)]) (auto dest: wait_wf_disjoint)
    then show ?thesis using Some p last by (simp add: wait_append_def)
  qed
qed

lemma wait_wf_first:
  assumes "wait_wf W k" "read_head h k = Some (Some t)"
  shows "W h = t # tl (W h)" "chain (wait_nx k) (wait_next (tcb_pool k t)) (tl (W h))"
    "t \<notin> set (tl (W h))"
  using wait_wf_chain [OF assms] wait_wf_distinct [OF assms(1), of h] by (auto simp: chain_Some)

lemma wait_pop_wf:
  assumes "wait_wf W k" "read_head h k = Some (Some t)"
  shows "wait_wf (W(h := tl (W h))) (wait_pop h t k)"
proof -
  note first = wait_wf_first [OF assms]
  let ?k = "wait_pop h t k"
  have "chain (wait_nx ?k) (wait_next (tcb_pool k t)) (tl (W h))"
    using chain_cong [of "tl (W h)" "wait_nx ?k" "wait_nx k"] first by (fastforce simp: wait_pop_def)
  moreover have "z \<noteq> t" if "h' \<noteq> h" "z \<in> set (W h')" for h' z
    using that first(1) wait_wf_disjoint [OF assms(1)] by (metis list.set_intros(1))
  moreover have "h' = h" if "z \<in> set (tl (W h))" "z \<in> set (W h')" for z h'
    using that first(1) wait_wf_disjoint [OF assms(1)] by (metis list.set_intros(2))
  moreover have "read_head h k \<noteq> None" using assms(2) by simp
  ultimately show ?thesis
    by (intro wait_wf_upd [OF assms(1)]) (auto simp: wait_pop_def read_write_head)
qed

text \<open>Splicing a task out removes it from the list; if it does not wait there, nothing changes.\<close>

lemma wait_find_chain:
  assumes "chain (wait_nx k) p (xs @ t # ys)" "t \<notin> set xs"
  shows "wait_find k t prev p = Some (if xs = [] then prev else Some (last xs), Some t)"
  using assms
proof (induction xs arbitrary: p prev)
  case Nil
  then show ?case by (simp add: wait_find.simps)
next
  case (Cons x xs)
  then show ?case by (simp add: wait_find.simps [of k t prev "Some x"])
qed

lemma wait_find_absent:
  assumes "chain (wait_nx k) p xs" "t \<notin> set xs"
  shows "\<exists>prev'. wait_find k t prev p = Some (prev', None)"
  using assms
proof (induction xs arbitrary: p prev)
  case Nil
  then show ?case by (simp add: wait_find.simps)
next
  case (Cons x xs)
  then show ?case by (simp add: wait_find.simps [of k t prev "Some x"])
qed

lemma chain_drop_mid:
  assumes "chain nx p (xs @ u # t # ys)"
  shows "chain (nx(u := nx t)) p (xs @ u # ys)"
  using assms chain_distinct [OF assms] by (induction xs arbitrary: p) auto

lemma wait_splice_wf:
  assumes "wait_wf W k" "t \<in> set (W h)"
  shows "\<exists>k'. wait_splice h t k = Some k' \<and> wait_wf (W(h := remove1 t (W h))) k'"
proof -
  obtain p where p: "read_head h k = Some p" using wait_wf_head [OF assms] by blast
  obtain xs ys where W: "W h = xs @ t # ys" "t \<notin> set xs" using split_list_first [OF assms(2)] by blast
  have ch: "chain (wait_nx k) p (xs @ t # ys)" using wait_wf_chain [OF assms(1) p] W by simp
  note dist = chain_distinct [OF ch]
  have rem: "remove1 t (W h) = xs @ ys" using W by (simp add: remove1_append)
  have other: "z \<noteq> u" if "h' \<noteq> h" "z \<in> set (W h')" "u \<in> set (W h)" for h' z u
    using that wait_wf_disjoint [OF assms(1)] by blast
  have fresh: "h' = h" if "z \<in> set (xs @ ys)" "z \<in> set (W h')" for h' z
    using that W(1) wait_wf_disjoint [OF assms(1), of z h' h] by auto
  have some: "read_head h k \<noteq> None" using p by simp
  show ?thesis
  proof (cases xs rule: rev_cases)
    case Nil
    let ?k = "upd_tcb t (\<lambda>c. c\<lparr>wait_next := None\<rparr>) (write_head h (wait_next (tcb_pool k t)) k)"
    have "chain (wait_nx k) (wait_next (tcb_pool k t)) ys" using ch Nil by simp
    then have "chain (wait_nx ?k) (wait_next (tcb_pool k t)) ys"
      using chain_cong [of ys "wait_nx ?k" "wait_nx k"] dist by fastforce
    moreover have "wait_next (tcb_pool ?k z) = wait_next (tcb_pool k z)"
      if "h' \<noteq> h" "z \<in> set (W h')" for z h'
      using other [OF that assms(2)] by simp
    ultimately have "wait_wf (W(h := xs @ ys)) ?k"
      using fresh some
      by (intro wait_wf_upd [OF assms(1) some, of _ "wait_next (tcb_pool k t)"])
        (simp_all add: read_write_head Nil)
    then show ?thesis using Nil p ch rem wait_find_chain [OF ch W(2)] by (simp add: wait_splice_def)
  next
    case (snoc zs u)
    let ?k = "upd_tcb t (\<lambda>c. c\<lparr>wait_next := None\<rparr>)
      (upd_tcb u (\<lambda>c. c\<lparr>wait_next := wait_next (tcb_pool k t)\<rparr>) k)"
    have "chain ((wait_nx k)(u := wait_next (tcb_pool k t))) p (zs @ u # ys)"
      using chain_drop_mid [of "wait_nx k" p zs u t ys] ch snoc by simp
    then have "chain (wait_nx ?k) p (zs @ u # ys)"
      using chain_cong [of "zs @ u # ys" "wait_nx ?k" "(wait_nx k)(u := wait_next (tcb_pool k t))" p]
        dist snoc by fastforce
    moreover have "u \<in> set (W h)" "u \<noteq> t" using W snoc dist by auto
    moreover have "wait_next (tcb_pool ?k z) = wait_next (tcb_pool k z)"
      if "h' \<noteq> h" "z \<in> set (W h')" for z h'
      using other [OF that assms(2)] other [OF that \<open>u \<in> set (W h)\<close>] by simp
    ultimately have "wait_wf (W(h := xs @ ys)) ?k"
      using fresh by (intro wait_wf_upd [OF assms(1) some, of _ p]) (simp_all add: p snoc)
    then show ?thesis using snoc p rem wait_find_chain [OF ch W(2)] by (simp add: wait_splice_def)
  qed
qed

lemma wait_splice_absent:
  assumes "wait_wf W k" "read_head h k \<noteq> None" "t \<notin> set (W h)"
  shows "wait_splice h t k = Some k"
proof -
  obtain p where p: "read_head h k = Some p" using assms(2) by auto
  show ?thesis
    using wait_find_absent [OF wait_wf_chain [OF assms(1) p] assms(3), of None] p
    by (auto simp: wait_splice_def)
qed

end
