(* ===== verification/Sched.thy ===== *)
theory Sched
  imports Wait_List
begin

text \<open>
  The scheduler, \<open>kernel/sched.c\<close>: per-priority lists of TCBs through \<open>next\<close>, a round-robin
  cursor per priority, and the tick that ages delays and timeouts.  Indexing the arrays with a
  priority of 8 or more is a run that does not return.
\<close>

section \<open>The code\<close>

text \<open>\<open>__builtin_ctz\<close>: the number of trailing zero bits of a nonzero word.\<close>

definition ctz32 :: "u32 \<Rightarrow> nat" where
  "ctz32 x = length (takeWhile (\<lambda>i. \<not> bit x i) [0..<32])"

definition scheduler_get_first_ready_priority :: "kernel \<Rightarrow> nat" where
  "scheduler_get_first_ready_priority k =
     (if g_priority_mask k = 0 then MAX_TASK_PRIORITIES else ctz32 (ucast (g_priority_mask k)))"

definition scheduler_init :: "kernel \<Rightarrow> kernel" where
  "scheduler_init k = k\<lparr>task_list := (\<lambda>_. None), rr_current := (\<lambda>_. None),
     g_priority_mask := 0, current_task := None\<rparr>"

definition scheduler_sleep :: "tcb_ptr \<Rightarrow> u32 \<Rightarrow> kernel \<Rightarrow> kernel" where
  "scheduler_sleep t ticks k =
     (let (pm, k) = enter_critical k;
          k = upd_tcb t (\<lambda>c. c\<lparr>delay_ticks := ticks, tstate := TASK_WAITING\<rparr>) k
      in exit_critical pm k)"

text \<open>\<open>stack_pointer[8]\<close> is the word 32 bytes above the saved stack pointer.\<close>

definition saved_r0 :: "tcb \<Rightarrow> u32" where
  "saved_r0 c = stack_pointer c + 32"

definition scheduler_wake_task :: "tcb_ptr \<Rightarrow> u32 \<Rightarrow> kernel \<Rightarrow> kernel" where
  "scheduler_wake_task t result k =
     (let (pm, k) = enter_critical k; c = tcb_pool k t;
          k = (if flags c AND TASK_FLAG_SVC_BLOCKED \<noteq> 0
               then upd_tcb t (\<lambda>c. c\<lparr>flags := flags c AND NOT TASK_FLAG_SVC_BLOCKED\<rparr>)
                      (k\<lparr>mem := store32 (mem k) (saved_r0 c) result\<rparr>)
               else k);
          k = upd_tcb t (\<lambda>c. c\<lparr>tstate := TASK_READY\<rparr>) k
      in port_trigger_pendsv (exit_critical pm k))"

definition scheduler_add_task :: "tcb_ptr \<Rightarrow> kernel \<Rightarrow> kernel option" where
  "scheduler_add_task t k =
     (let (pm, k) = enter_critical k; pr = unat (priority (tcb_pool k t)) in
      if MAX_TASK_PRIORITIES \<le> pr then None
      else let k = upd_tcb t (\<lambda>c. c\<lparr>next_task := task_list k pr\<rparr>) k;
               k = k\<lparr>task_list := (task_list k)(pr := Some t),
                     g_priority_mask := g_priority_mask k OR push_bit pr 1\<rparr>
           in Some (exit_critical pm (port_trigger_pendsv k)))"

text \<open>
  \<open>struct TaskControlBlock **p\<close> in \<open>scheduler_remove_task\<close> is the address of a list head or of
  the \<open>next\<close> field of a TCB.
\<close>

datatype link = Link_head nat | Link_next tcb_ptr

fun read_link :: "link \<Rightarrow> kernel \<Rightarrow> tcb_ptr option" where
  "read_link (Link_head pr) k = task_list k pr"
| "read_link (Link_next t) k = next_task (tcb_pool k t)"

fun write_link :: "link \<Rightarrow> tcb_ptr option \<Rightarrow> kernel \<Rightarrow> kernel" where
  "write_link (Link_head pr) v k = k\<lparr>task_list := (task_list k)(pr := v)\<rparr>"
| "write_link (Link_next t) v k = upd_tcb t (\<lambda>c. c\<lparr>next_task := v\<rparr>) k"

partial_function (option) unlink_loop :: "tcb_ptr \<Rightarrow> link \<Rightarrow> kernel \<Rightarrow> kernel option" where
  "unlink_loop t p k =
     (if read_link p k = None then Some k
      else if read_link p k = Some t
      then Some (upd_tcb t (\<lambda>c. c\<lparr>next_task := None\<rparr>) (write_link p (next_task (tcb_pool k t)) k))
      else unlink_loop t (Link_next (the (read_link p k))) k)"

definition scheduler_remove_task :: "tcb_ptr \<Rightarrow> kernel \<Rightarrow> kernel option" where
  "scheduler_remove_task t k =
     (let (pm, k) = enter_critical k; pr = unat (priority (tcb_pool k t)) in
      if MAX_TASK_PRIORITIES \<le> pr then None
      else let k = (if rr_current k pr = Some t
                    then k\<lparr>rr_current := (rr_current k)(pr := None)\<rparr> else k) in do {
        k \<leftarrow> unlink_loop t (Link_head pr) k;
        let k = (if task_list k pr = None
                 then k\<lparr>g_priority_mask := g_priority_mask k AND NOT (push_bit pr 1)\<rparr> else k);
        Some (exit_critical pm k)
      })"

text \<open>\<open>t->next ? t->next : list\<close>\<close>

definition rr_succ :: "kernel \<Rightarrow> tcb_ptr \<Rightarrow> tcb_ptr \<Rightarrow> tcb_ptr" where
  "rr_succ k list t = (case next_task (tcb_pool k t) of Some n \<Rightarrow> n | None \<Rightarrow> list)"

text \<open>The \<open>do ... while (t != start)\<close> loop: the first READY task, or null after a full turn.\<close>

partial_function (option) rr_scan ::
  "kernel \<Rightarrow> tcb_ptr \<Rightarrow> tcb_ptr \<Rightarrow> tcb_ptr \<Rightarrow> tcb_ptr option option" where
  "rr_scan k list start t =
     (if tstate (tcb_pool k t) = TASK_READY then Some (Some t)
      else if rr_succ k list t \<noteq> start then rr_scan k list start (rr_succ k list t)
      else Some None)"

fun scan_priorities :: "nat list \<Rightarrow> kernel \<Rightarrow> (tcb_ptr option \<times> kernel) option" where
  "scan_priorities [] k = Some (None, k)"
| "scan_priorities (pr # prs) k =
     (case task_list k pr of
        None \<Rightarrow> scan_priorities prs k
      | Some list \<Rightarrow> do {
          let start = (case rr_current k pr of Some s \<Rightarrow> s | None \<Rightarrow> list);
          r \<leftarrow> rr_scan k list start start;
          case r of
            Some t \<Rightarrow> Some (Some t, k\<lparr>rr_current := (rr_current k)(pr := Some (rr_succ k list t))\<rparr>)
          | None \<Rightarrow> scan_priorities prs k
        })"

definition scheduler_get_next :: "kernel \<Rightarrow> (tcb_ptr option \<times> kernel) option" where
  "scheduler_get_next k =
     (let (pm, k) = enter_critical k in do {
        (r, k) \<leftarrow> scan_priorities [0..<MAX_TASK_PRIORITIES] k;
        Some (r, exit_critical pm k)
      })"

definition scheduler_get_current :: "kernel \<Rightarrow> tcb_ptr option" where
  "scheduler_get_current k = current_task k"

definition scheduler_set_current :: "tcb_ptr option \<Rightarrow> kernel \<Rightarrow> kernel" where
  "scheduler_set_current t k = k\<lparr>current_task := t\<rparr>"

definition scheduler_get_tick_count :: "kernel \<Rightarrow> u32" where
  "scheduler_get_tick_count k = tick_count k"

text \<open>\<open>for (t = task_list[pr]; t; t = t->next)\<close>, and that loop for every priority.\<close>

partial_function (option) for_tasks ::
  "(tcb_ptr \<Rightarrow> kernel \<Rightarrow> kernel option) \<Rightarrow> tcb_ptr option \<Rightarrow> kernel \<Rightarrow> kernel option" where
  "for_tasks body t k =
     (if t = None then Some k
      else do { k \<leftarrow> body (the t) k; for_tasks body (next_task (tcb_pool k (the t))) k })"

fun for_priorities ::
  "(tcb_ptr \<Rightarrow> kernel \<Rightarrow> kernel option) \<Rightarrow> nat list \<Rightarrow> kernel \<Rightarrow> kernel option" where
  "for_priorities body [] k = Some k"
| "for_priorities body (pr # prs) k =
     do { k \<leftarrow> for_tasks body (task_list k pr) k; for_priorities body prs k }"

definition sync_tick_task :: "tcb_ptr \<Rightarrow> kernel \<Rightarrow> kernel option" where
  "sync_tick_task t k =
     (let (pm, k) = enter_critical k; c = tcb_pool k t in
      case blocking_wait_list c of
        Some head \<Rightarrow>
          if tstate c = TASK_WAITING \<and> 0 < delay_ticks c then
            let k = upd_tcb t (\<lambda>c. c\<lparr>delay_ticks := delay_ticks c - 1\<rparr>) k in
            if delay_ticks (tcb_pool k t) = 0 then do {
              k \<leftarrow> wait_splice head t k;
              let k = upd_tcb t (\<lambda>c. c\<lparr>blocking_wait_list := None,
                        flags := flags c OR TASK_FLAG_TIMED_OUT\<rparr>) k;
              Some (scheduler_wake_task t (- 1) (exit_critical pm k))
            }
            else Some (exit_critical pm k)
          else Some (exit_critical pm k)
      | None \<Rightarrow> Some (exit_critical pm k))"

definition sync_tick_all :: "kernel \<Rightarrow> kernel option" where
  "sync_tick_all k = for_priorities sync_tick_task [0..<MAX_TASK_PRIORITIES] k"

definition sleep_tick_task :: "tcb_ptr \<Rightarrow> kernel \<Rightarrow> kernel option" where
  "sleep_tick_task t k =
     (let c = tcb_pool k t in
      if tstate c = TASK_WAITING \<and> 0 < delay_ticks c \<and> blocking_wait_list c = None then
        let k = upd_tcb t (\<lambda>c. c\<lparr>delay_ticks := delay_ticks c - 1\<rparr>) k in
        if delay_ticks (tcb_pool k t) = 0
        then Some (upd_tcb t (\<lambda>c. c\<lparr>tstate := TASK_READY\<rparr>) k) else Some k
      else Some k)"

definition scheduler_tick :: "kernel \<Rightarrow> kernel option" where
  "scheduler_tick k = do {
     let k = k\<lparr>tick_count := tick_count k + 1\<rparr>;
     k \<leftarrow> for_priorities sleep_tick_task [0..<MAX_TASK_PRIORITIES] k;
     sync_tick_all k
   }"

end
