(* ===== verification/Sched_Lists.thy ===== *)
theory Sched_Lists
  imports Sched
begin

text \<open>
  The well-formed scheduler state, the round-robin ring as a rotation of a priority list, and
  what the list operations of the scheduler do to it.
\<close>

section \<open>Well-formed priority lists\<close>

abbreviation next_nx :: "kernel \<Rightarrow> tcb_ptr \<Rightarrow> tcb_ptr option" where
  "next_nx k \<equiv> (\<lambda>t. next_task (tcb_pool k t))"

abbreviation ready :: "kernel \<Rightarrow> tcb_ptr \<Rightarrow> bool" where
  "ready k t \<equiv> tstate (tcb_pool k t) = TASK_READY"

text \<open>\<open>L pr\<close> are the tasks of priority \<open>pr\<close>, in list order.\<close>

definition sched_wf :: "(nat \<Rightarrow> tcb_ptr list) \<Rightarrow> kernel \<Rightarrow> bool" where
  "sched_wf L k \<longleftrightarrow>
     (\<forall>pr < MAX_TASK_PRIORITIES. chain (next_nx k) (task_list k pr) (L pr) \<and>
        (bit (g_priority_mask k) pr \<longleftrightarrow> L pr \<noteq> []) \<and>
        (\<forall>s. rr_current k pr = Some s \<longrightarrow> s \<in> set (L pr))) \<and>
     (\<forall>pr. \<forall>t \<in> set (L pr). unat (priority (tcb_pool k t)) = pr \<and> pr < MAX_TASK_PRIORITIES)"

lemma sched_wf_chain:
  "sched_wf L k \<Longrightarrow> pr < MAX_TASK_PRIORITIES \<Longrightarrow> chain (next_nx k) (task_list k pr) (L pr)"
  by (simp add: sched_wf_def)

lemma sched_wf_mask:
  "sched_wf L k \<Longrightarrow> pr < MAX_TASK_PRIORITIES \<Longrightarrow> bit (g_priority_mask k) pr \<longleftrightarrow> L pr \<noteq> []"
  by (simp add: sched_wf_def)

lemma sched_wf_cursor:
  "sched_wf L k \<Longrightarrow> pr < MAX_TASK_PRIORITIES \<Longrightarrow> rr_current k pr = Some s \<Longrightarrow> s \<in> set (L pr)"
  by (simp add: sched_wf_def)

lemma sched_wf_priority:
  "sched_wf L k \<Longrightarrow> t \<in> set (L pr) \<Longrightarrow> unat (priority (tcb_pool k t)) = pr \<and> pr < MAX_TASK_PRIORITIES"
  unfolding sched_wf_def by blast

lemma sched_wf_head:
  "sched_wf L k \<Longrightarrow> pr < MAX_TASK_PRIORITIES \<Longrightarrow> task_list k pr = None \<longleftrightarrow> L pr = []"
  using sched_wf_chain [of L k pr] by (cases "L pr") auto

lemma sched_wf_distinct: "sched_wf L k \<Longrightarrow> distinct (L pr)"
  using sched_wf_chain [of L k pr] sched_wf_priority [of L k "hd (L pr)" pr] chain_distinct
  by (cases "L pr = []") fastforce+

lemma sched_wf_cong:
  assumes "\<And>t. next_task (tcb_pool k' t) = next_task (tcb_pool k t)"
    "\<And>t. priority (tcb_pool k' t) = priority (tcb_pool k t)"
    "task_list k' = task_list k" "rr_current k' = rr_current k"
    "g_priority_mask k' = g_priority_mask k"
  shows "sched_wf L k' \<longleftrightarrow> sched_wf L k"
  by (simp only: sched_wf_def assms)

section \<open>The ring of a priority\<close>

text \<open>The order in which the round robin visits a list: from the cursor on, then from the head.\<close>

definition rr_ring :: "(nat \<Rightarrow> tcb_ptr list) \<Rightarrow> kernel \<Rightarrow> nat \<Rightarrow> tcb_ptr list" where
  "rr_ring L k pr = (case rr_current k pr of
     None \<Rightarrow> L pr
   | Some s \<Rightarrow> dropWhile (\<lambda>t. t \<noteq> s) (L pr) @ takeWhile (\<lambda>t. t \<noteq> s) (L pr))"

lemma chain_nth:
  assumes "chain nx p xs" "i < length xs"
  shows "nx (xs ! i) = (if Suc i < length xs then Some (xs ! Suc i) else None)"
  using assms
proof (induction xs arbitrary: p i)
  case (Cons x xs)
  show ?case
  proof (cases i)
    case 0
    then show ?thesis using Cons.prems by (cases xs) auto
  qed (use Cons in auto)
qed simp

text \<open>\<open>ring_of k list xs\<close>: \<open>rr_succ\<close> turns around \<open>xs\<close>.\<close>

definition ring_of :: "kernel \<Rightarrow> tcb_ptr \<Rightarrow> tcb_ptr list \<Rightarrow> bool" where
  "ring_of k list xs \<longleftrightarrow> distinct xs \<and>
     (\<forall>i < length xs. rr_succ k list (xs ! i) = xs ! (Suc i mod length xs))"

lemma ring_of_list:
  assumes "chain (next_nx k) (Some list) xs"
  shows "ring_of k list xs"
proof -
  have "rr_succ k list (xs ! i) = xs ! (Suc i mod length xs)" if i: "i < length xs" for i
  proof (cases "Suc i < length xs")
    case True
    then show ?thesis using chain_nth [OF assms i] by (simp add: rr_succ_def)
  next
    case False
    then have "length xs = Suc i" using i by linarith
    moreover have "xs ! 0 = list" using assms by (auto simp: chain_Some)
    ultimately show ?thesis using chain_nth [OF assms i] by (simp add: rr_succ_def)
  qed
  then show ?thesis using chain_distinct [OF assms] by (simp add: ring_of_def)
qed

lemma ring_of_rotate:
  assumes "ring_of k list xs"
  shows "ring_of k list (rotate n xs)"
proof -
  have "rr_succ k list (rotate n xs ! i) = rotate n xs ! (Suc i mod length xs)"
    if "i < length xs" for i
  proof -
    have "0 < length xs" using that by linarith
    then have "(i + n) mod length xs < length xs" "Suc i mod length xs < length xs" by simp_all
    then show ?thesis
      using assms that by (simp add: nth_rotate ring_of_def mod_simps add.commute)
  qed
  then show ?thesis using assms by (simp add: ring_of_def)
qed

lemma rr_ring_rotate: "\<exists>n. rr_ring L k pr = rotate n (L pr)"
proof (cases "rr_current k pr")
  case None
  then show ?thesis by (intro exI [of _ 0]) (simp add: rr_ring_def)
next
  case (Some s)
  let ?n = "length (takeWhile (\<lambda>t. t \<noteq> s) (L pr))"
  have "rotate ?n (L pr) = rr_ring L k pr"
    using rotate_append [of "takeWhile (\<lambda>t. t \<noteq> s) (L pr)" "dropWhile (\<lambda>t. t \<noteq> s) (L pr)"] Some
    by (simp add: rr_ring_def)
  then show ?thesis by metis
qed

lemma rr_ring_set [simp]: "set (rr_ring L k pr) = set (L pr)"
  using rr_ring_rotate [of L k pr] by auto

lemma rr_ring_nil [simp]: "rr_ring L k pr = [] \<longleftrightarrow> L pr = []"
  using rr_ring_set [of L k pr] by (metis set_empty)

lemma rr_ring_ring:
  assumes "sched_wf L k" "pr < MAX_TASK_PRIORITIES" "task_list k pr = Some list"
  shows "ring_of k list (rr_ring L k pr)"
  using rr_ring_rotate [of L k pr] ring_of_list ring_of_rotate sched_wf_chain [OF assms(1,2)] assms(3)
  by metis

lemma rr_ring_start:
  assumes "sched_wf L k" "pr < MAX_TASK_PRIORITIES" "task_list k pr = Some list"
  shows "hd (rr_ring L k pr) = (case rr_current k pr of Some s \<Rightarrow> s | None \<Rightarrow> list)"
proof (cases "rr_current k pr")
  case None
  then show ?thesis
    using sched_wf_chain [OF assms(1,2)] assms(3) by (auto simp: rr_ring_def chain_Some)
next
  case (Some s)
  then have "s \<in> set (L pr)" using sched_wf_cursor [OF assms(1,2)] by simp
  then have "dropWhile (\<lambda>t. t \<noteq> s) (L pr) \<noteq> [] \<and> hd (dropWhile (\<lambda>t. t \<noteq> s) (L pr)) = s"
    using hd_dropWhile [of "\<lambda>t. t \<noteq> s" "L pr"] by (auto simp: dropWhile_eq_Nil_conv)
  then show ?thesis using Some by (simp add: rr_ring_def)
qed

section \<open>The scan\<close>

lemma rr_scan_ring:
  assumes "ring_of k list r" "i < length r"
  shows "rr_scan k list (hd r) (r ! i) = Some (find (ready k) (drop i r))"
  using assms(2)
proof (induction "length r - i" arbitrary: i)
  case (Suc n)
  have drop: "drop i r = r ! i # drop (Suc i) r" using Suc.prems by (simp add: Cons_nth_drop_Suc)
  have succ: "rr_succ k list (r ! i) = r ! (Suc i mod length r)"
    using assms(1) Suc.prems by (simp add: ring_of_def)
  have "r \<noteq> []" using Suc.prems by auto
  then have hd: "hd r = r ! 0" by (rule hd_conv_nth)
  show ?case
  proof (cases "ready k (r ! i)")
    case True
    then show ?thesis by (subst rr_scan.simps) (simp add: drop)
  next
    case False
    show ?thesis
    proof (cases "Suc i < length r")
      case True
      then have "r ! Suc i \<noteq> hd r"
        using assms(1) hd True \<open>r \<noteq> []\<close> nth_eq_iff_index_eq [of r "Suc i" 0]
        by (simp add: ring_of_def)
      then show ?thesis
        using False succ True Suc by (subst rr_scan.simps) (simp add: drop)
    next
      case last: False
      then have "length r = Suc i" using Suc.prems by linarith
      then have "rr_succ k list (r ! i) = hd r" using succ hd by simp
      then show ?thesis
        using False last by (subst rr_scan.simps) (simp add: drop)
    qed
  qed
qed simp

text \<open>
  What \<open>scheduler_get_next\<close> is to choose: the first priority that has a READY task, and there
  the first READY task of the ring.
\<close>

definition top_ready :: "(nat \<Rightarrow> tcb_ptr list) \<Rightarrow> kernel \<Rightarrow> nat \<Rightarrow> bool" where
  "top_ready L k pr \<longleftrightarrow> pr < MAX_TASK_PRIORITIES \<and> (\<exists>t \<in> set (L pr). ready k t) \<and>
     (\<forall>pr' < pr. \<forall>t \<in> set (L pr'). \<not> ready k t)"

lemma find_split:
  "(\<exists>x \<in> set xs. P x) \<Longrightarrow> \<exists>ys x zs. xs = ys @ x # zs \<and> P x \<and> (\<forall>y \<in> set ys. \<not> P y) \<and> find P xs = Some x"
proof (induction xs)
  case (Cons a xs)
  show ?case
  proof (cases "P a")
    case True
    then show ?thesis by (intro exI [of _ "[]"] exI [of _ a] exI [of _ xs]) simp
  next
    case False
    then obtain ys x zs where "xs = ys @ x # zs" "P x" "\<forall>y \<in> set ys. \<not> P y" "find P xs = Some x"
      using Cons by auto
    then show ?thesis
      using False by (intro exI [of _ "a # ys"] exI [of _ x] exI [of _ zs]) simp
  qed
qed simp

lemma scan_skip:
  assumes "sched_wf L k" "pr < MAX_TASK_PRIORITIES" "\<forall>t \<in> set (L pr). \<not> ready k t"
  shows "scan_priorities (pr # prs) k = scan_priorities prs k"
proof (cases "task_list k pr")
  case (Some list)
  let ?r = "rr_ring L k pr"
  have "L pr \<noteq> []" using sched_wf_head [OF assms(1,2)] Some by auto
  then have ne: "?r \<noteq> []" by simp
  have "find (ready k) ?r = None" using assms(3) by (simp add: find_None_iff)
  then have "rr_scan k list (hd ?r) (hd ?r) = Some None"
    using rr_scan_ring [OF rr_ring_ring [OF assms(1,2) Some], of 0] ne by (simp add: hd_conv_nth)
  then show ?thesis using rr_ring_start [OF assms(1,2) Some] Some by simp
qed simp

lemma scan_none:
  assumes "sched_wf L k" "\<forall>pr \<in> set prs. pr < MAX_TASK_PRIORITIES \<and> (\<forall>t \<in> set (L pr). \<not> ready k t)"
  shows "scan_priorities (prs @ rest) k = scan_priorities rest k"
  using assms(2) by (induction prs) (simp_all add: scan_skip [OF assms(1)] del: scan_priorities.simps(2))

lemma rotate_hd_unique:
  assumes "distinct xs" "xs \<noteq> []" "hd (rotate m xs) = hd (rotate n xs)"
  shows "rotate m xs = rotate n xs"
proof -
  have "xs ! (m mod length xs) = xs ! (n mod length xs)"
    using assms(2,3) by (simp add: hd_rotate_conv_nth)
  then have "m mod length xs = n mod length xs"
    using assms(1,2) by (simp add: nth_eq_iff_index_eq)
  then show ?thesis by (metis rotate_conv_mod)
qed

text \<open>The cursor moves to the successor, so the ring goes on right after the chosen task.\<close>

lemma rr_ring_at:
  assumes "sched_wf L k" "pr < MAX_TASK_PRIORITIES" "rr_ring L k pr = as @ t # bs"
    "task_list k pr = Some list"
  shows "rr_ring L (k\<lparr>rr_current := (rr_current k)(pr := Some (rr_succ k list t))\<rparr>) pr = bs @ as @ [t]"
    (is "rr_ring L ?k pr = _")
proof -
  let ?r = "rr_ring L k pr" and ?s = "rr_succ k list t"
  have ring: "ring_of k list ?r" by (rule rr_ring_ring [OF assms(1,2,4)])
  obtain n where n: "?r = rotate n (L pr)" using rr_ring_rotate by blast
  have "length as < length ?r" and t: "?r ! length as = t" using assms(3) by simp_all
  then have "rr_succ k list (?r ! length as) = ?r ! (Suc (length as) mod length ?r)"
    using ring unfolding ring_of_def by blast
  then have "?s = ?r ! (Suc (length as) mod length ?r)" by (simp only: t)
  also have "\<dots> = hd (bs @ as @ [t])"
  proof (cases bs)
    case Nil
    then show ?thesis using assms(3) by (cases as) auto
  next
    case (Cons b bs')
    then show ?thesis using assms(3) by (simp add: nth_append)
  qed
  finally have s: "?s = hd (bs @ as @ [t])" .
  have rot: "bs @ as @ [t] = rotate (Suc (length as)) ?r"
    using rotate_append [of "as @ [t]" bs] assms(3) by simp
  have mem: "?s \<in> set (L pr)"
    using s assms(3) rr_ring_set [of L k pr] by (cases bs; cases as) auto
  obtain xs ys where L: "L pr = xs @ ?s # ys" "?s \<notin> set xs" using split_list_first [OF mem] by blast
  then have new: "rr_ring L ?k pr = ?s # ys @ xs"
    by (simp add: rr_ring_def dropWhile_append takeWhile_append takeWhile_eq_all_conv
        dropWhile_eq_Nil_conv)
  have m: "bs @ as @ [t] = rotate (Suc (length as) + n) (L pr)"
    using rot n by (simp only: rotate_rotate)
  have l: "?s # ys @ xs = rotate (length xs) (L pr)"
    using L(1) rotate_append [of xs "?s # ys"] by simp
  have "hd (rotate (Suc (length as) + n) (L pr)) = hd (rotate (length xs) (L pr))"
    using s unfolding m [symmetric] l [symmetric] by simp
  moreover have "distinct (L pr)" "L pr \<noteq> []"
    using assms(1) sched_wf_distinct mem by auto
  ultimately show ?thesis
    using rotate_hd_unique [of "L pr" "Suc (length as) + n" "length xs"] unfolding new m l by simp
qed

section \<open>The choice of the next task\<close>

lemma upt_split: "i < n \<Longrightarrow> [0..<n] = [0..<i] @ i # [Suc i..<n]"
  using upt_add_eq_append [of 0 i "n - i"] by (simp add: upt_conv_Cons)

text \<open>
  The abstract step of the round robin: the ring is searched from its head, and goes on after the
  task chosen.
\<close>

lemma scheduler_get_next_some:
  assumes "sched_wf L k" "top_ready L k pr"
  obtains as t bs k' where "scheduler_get_next k = Some (Some t, k')"
    "rr_ring L k pr = as @ t # bs" "ready k t" "\<forall>u \<in> set as. \<not> ready k u"
    "rr_ring L k' pr = bs @ as @ [t]" "sched_wf L k'"
    "k' = k\<lparr>rr_current := (rr_current k)(pr := rr_current k' pr)\<rparr>"
proof -
  have pr: "pr < MAX_TASK_PRIORITIES" and some: "\<exists>t \<in> set (L pr). ready k t"
    and above: "\<forall>pr' < pr. \<forall>t \<in> set (L pr'). \<not> ready k t"
    using assms(2) unfolding top_ready_def by blast+
  let ?k = "k\<lparr>primask := 1\<rparr>"
  have wf: "sched_wf L ?k" using assms(1) by (subst sched_wf_cong [of _ k]) simp_all
  obtain list where list: "task_list ?k pr = Some list"
    using some sched_wf_head [OF wf pr] by (cases "task_list ?k pr") auto
  let ?r = "rr_ring L k pr"
  have ring: "rr_ring L ?k pr = ?r" by (simp add: rr_ring_def)
  obtain as t bs where split: "?r = as @ t # bs" "ready k t" "\<forall>u \<in> set as. \<not> ready k u"
    "find (ready k) ?r = Some t"
    using find_split [of ?r "ready k"] some by auto
  have "rr_scan ?k list (hd ?r) (hd ?r) = Some (Some t)"
    using rr_scan_ring [OF rr_ring_ring [OF wf pr list], of 0] split ring by (simp add: hd_conv_nth)
  then have scan: "scan_priorities (pr # prs) ?k =
      Some (Some t, ?k\<lparr>rr_current := (rr_current k)(pr := Some (rr_succ ?k list t))\<rparr>)" for prs
    using rr_ring_start [OF wf pr list] list ring by simp
  have "[0..<MAX_TASK_PRIORITIES] = [0..<pr] @ pr # [Suc pr..<MAX_TASK_PRIORITIES]"
    using pr by (rule upt_split)
  moreover have "scan_priorities ([0..<pr] @ rest) ?k = scan_priorities rest ?k" for rest
    using above pr by (intro scan_none [OF wf]) simp
  ultimately have run: "scheduler_get_next k =
      Some (Some t, k\<lparr>rr_current := (rr_current k)(pr := Some (rr_succ ?k list t))\<rparr>)"
    by (simp add: scheduler_get_next_def state_defs scan del: scan_priorities.simps upt_Suc)
  let ?k' = "k\<lparr>rr_current := (rr_current k)(pr := Some (rr_succ ?k list t))\<rparr>"
  have "rr_ring L (?k\<lparr>rr_current := (rr_current k)(pr := Some (rr_succ ?k list t))\<rparr>) pr = bs @ as @ [t]"
    using rr_ring_at [OF wf pr _ list, of as t bs] split ring by simp
  then have new: "rr_ring L ?k' pr = bs @ as @ [t]" by (simp add: rr_ring_def)
  have "rr_ring L ?k' pr \<noteq> []" using new by simp
  then have "rr_succ ?k list t \<in> set (L pr)"
  proof -
    have "ring_of ?k list ?r" using rr_ring_ring [OF wf pr list] ring by simp
    moreover have "length as < length ?r" "?r ! length as = t" using split(1) by simp_all
    ultimately have "rr_succ ?k list t = ?r ! (Suc (length as) mod length ?r)"
      unfolding ring_of_def by metis
    moreover have "Suc (length as) mod length ?r < length ?r" using split(1) by simp
    ultimately show ?thesis using rr_ring_set [of L k pr] by (metis nth_mem)
  qed
  then have "sched_wf L ?k'"
    using assms(1) by (auto simp: sched_wf_def)
  then show thesis
    using run split(1-3) new by (intro that [of t ?k' as bs]) simp_all
qed

lemma scheduler_get_next_none:
  assumes "sched_wf L k" "\<forall>pr. \<not> top_ready L k pr"
  shows "scheduler_get_next k = Some (None, k)"
    "pr < MAX_TASK_PRIORITIES \<Longrightarrow> t \<in> set (L pr) \<Longrightarrow> \<not> ready k t"
proof -
  have none: "\<forall>t \<in> set (L pr). \<not> ready k t" if "pr < MAX_TASK_PRIORITIES" for pr
    using that
  proof (induction pr rule: less_induct)
    case (less pr)
    then have "\<forall>pr' < pr. \<forall>t \<in> set (L pr'). \<not> ready k t" by simp
    then show ?case using assms(2) less.prems unfolding top_ready_def by blast
  qed
  let ?k = "k\<lparr>primask := 1\<rparr>"
  have "sched_wf L ?k" using assms(1) by (subst sched_wf_cong [of _ k]) simp_all
  from scan_none [OF this, of "[0..<MAX_TASK_PRIORITIES]" "[]"]
  have "scan_priorities [0..<MAX_TASK_PRIORITIES] ?k = Some (None, ?k)"
    using none by simp
  then show "scheduler_get_next k = Some (None, k)"
    by (simp add: scheduler_get_next_def state_defs del: scan_priorities.simps)
  show "pr < MAX_TASK_PRIORITIES \<Longrightarrow> t \<in> set (L pr) \<Longrightarrow> \<not> ready k t" using none by blast
qed

end
