(* ===== verification/Sched_Ops.thy ===== *)
theory Sched_Ops
  imports Sched_Lists
begin

text \<open>
  Insertion and removal in the priority lists, the priority mask, and fairness of the round
  robin.
\<close>

section \<open>Linked lists of tasks\<close>

lemma find_takeWhile:
  "\<exists>i < n. P i \<Longrightarrow> length (takeWhile (\<lambda>i. \<not> P i) [0..<n]) = (LEAST i. P i)"
proof -
  assume "\<exists>i < n. P i"
  then obtain i where i: "i < n" "P i" by blast
  let ?l = "LEAST i. P i"
  have at: "P ?l" using i(2) by (rule LeastI)
  have lt: "?l < n" using i(1) Least_le [of P i, OF i(2)] by linarith
  have below: "\<forall>j \<in> set [0..<?l]. \<not> P j"
  proof
    fix j assume "j \<in> set [0..<?l]"
    then have "j < ?l" by (simp only: set_upt atLeastLessThan_iff)
    then show "\<not> P j" by (rule not_less_Least)
  qed
  have "takeWhile (\<lambda>i. \<not> P i) ([0..<l] @ l # [Suc l..<n]) = [0..<l]"
    if "P l" "\<forall>j \<in> set [0..<l]. \<not> P j" for l
    using that by (subst takeWhile_append2) simp_all
  from this [OF at below] show ?thesis unfolding upt_split [OF lt, symmetric] by simp
qed

lemma ctz32_least: "x \<noteq> 0 \<Longrightarrow> ctz32 x = (LEAST i. bit x i)"
proof -
  assume "x \<noteq> 0"
  then obtain i where "bit x i" by (metis bit_word_eqI bit_0_eq bot_apply bot_bool_def)
  then have "\<exists>i < 32. bit x i" using bit_imp_le_length [of x i] by auto
  then show ?thesis unfolding ctz32_def by (rule find_takeWhile)
qed

lemma mask_word_nonzero: "(m :: u8) \<noteq> 0 \<longleftrightarrow> (\<exists>i < 8. bit m i)"
proof
  assume "m \<noteq> 0"
  then obtain i where "bit m i" by (metis bit_word_eqI bit_0_eq bot_apply bot_bool_def)
  then show "\<exists>i < 8. bit m i" using bit_imp_le_length [of m i] by auto
qed auto

section \<open>Insertion and removal\<close>

lemma scheduler_add_task_wf:
  assumes "sched_wf L k" "unat (priority (tcb_pool k t)) = pr" "pr < MAX_TASK_PRIORITIES"
    "\<And>pr. t \<notin> set (L pr)"
  obtains k' where "scheduler_add_task t k = Some k'" "sched_wf (L(pr := t # L pr)) k'"
    "k' = k\<lparr>tcb_pool := tcb_pool k', task_list := (task_list k)(pr := Some t),
            g_priority_mask := g_priority_mask k OR push_bit pr 1, pendsv := True\<rparr>"
    "tcb_pool k' = (tcb_pool k)(t := (tcb_pool k t)\<lparr>next_task := task_list k pr\<rparr>)"
proof -
  let ?pool = "(tcb_pool k)(t := (tcb_pool k t)\<lparr>next_task := task_list k pr\<rparr>)"
  let ?k = "k\<lparr>tcb_pool := ?pool, task_list := (task_list k)(pr := Some t),
            g_priority_mask := g_priority_mask k OR push_bit pr 1, pendsv := True\<rparr>"
  have run: "scheduler_add_task t k = Some ?k"
    using assms(2,3) by (simp add: scheduler_add_task_def state_defs)
  have ch: "chain (\<lambda>u. next_task (?pool u)) (task_list k q) (L q)" if "q < MAX_TASK_PRIORITIES" for q
    using sched_wf_chain [OF assms(1) that] assms(4) [of q]
      chain_cong [of "L q" "\<lambda>u. next_task (?pool u)" "next_nx k"] by fastforce
  have bits: "bit (g_priority_mask k OR push_bit pr 1) q \<longleftrightarrow> bit (g_priority_mask k) q \<or> q = pr"
    if "q < MAX_TASK_PRIORITIES" for q
    using that assms(3) by (auto simp: bit_simps)
  have "sched_wf (L(pr := t # L pr)) ?k"
    unfolding sched_wf_def
  proof (intro conjI allI impI ballI)
    fix q assume q: "q < MAX_TASK_PRIORITIES"
    show "chain (next_nx ?k) (task_list ?k q) ((L(pr := t # L pr)) q)"
      using ch [OF q] by auto
    show "bit (g_priority_mask ?k) q \<longleftrightarrow> (L(pr := t # L pr)) q \<noteq> []"
      using bits [OF q] sched_wf_mask [OF assms(1) q] by auto
    show "s \<in> set ((L(pr := t # L pr)) q)" if "rr_current ?k q = Some s" for s
      using that sched_wf_cursor [OF assms(1) q] by auto
  next
    fix q u assume "u \<in> set ((L(pr := t # L pr)) q)"
    then show "unat (priority (tcb_pool ?k u)) = q" "q < MAX_TASK_PRIORITIES"
      using sched_wf_priority [OF assms(1), of u q] assms(2,3) by (auto split: if_splits)
  qed
  then show thesis using run by (intro that [of ?k]) simp_all
qed

text \<open>The loop that takes \<open>t\<close> out of its list.\<close>

lemma unlink_loop_chain:
  assumes "chain (next_nx k) (read_link p k) (xs @ t # ys)" "t \<notin> set xs"
  shows "unlink_loop t p k = Some (upd_tcb t (\<lambda>c. c\<lparr>next_task := None\<rparr>)
    (write_link (if xs = [] then p else Link_next (last xs)) (next_task (tcb_pool k t)) k))"
  using assms
proof (induction xs arbitrary: p)
  case Nil
  then show ?case by (simp add: unlink_loop.simps)
next
  case (Cons x xs)
  then have "read_link p k = Some x" "x \<noteq> t" by auto
  then have "unlink_loop t p k = unlink_loop t (Link_next x) k"
    by (subst unlink_loop.simps) simp
  then show ?case using Cons by simp
qed

lemma unlink_loop_wf:
  assumes ch: "chain (next_nx k) (task_list k pr) (L pr)" and t: "t \<in> set (L pr)"
  obtains k' where "unlink_loop t (Link_head pr) k = Some k'"
    "chain (next_nx k') (task_list k' pr) (remove1 t (L pr))"
    "k' = k\<lparr>tcb_pool := tcb_pool k', task_list := (task_list k)(pr := task_list k' pr)\<rparr>"
    "\<forall>u. (tcb_pool k' u)\<lparr>next_task := None\<rparr> = (tcb_pool k u)\<lparr>next_task := None\<rparr>"
    "\<forall>u. u \<notin> set (L pr) \<longrightarrow> tcb_pool k' u = tcb_pool k u"
    "next_task (tcb_pool k' t) = None"
proof -
  obtain xs ys where L: "L pr = xs @ t # ys" "t \<notin> set xs" using split_list_first [OF t] by blast
  have ch': "chain (next_nx k) (read_link (Link_head pr) k) (xs @ t # ys)" using ch L by simp
  note dist = chain_distinct [OF ch']
  have rem: "remove1 t (L pr) = xs @ ys" using L by (simp add: remove1_append)
  note run = unlink_loop_chain [OF ch' L(2)]
  show thesis
  proof (cases xs rule: rev_cases)
    case Nil
    let ?k = "upd_tcb t (\<lambda>c. c\<lparr>next_task := None\<rparr>)
      (k\<lparr>task_list := (task_list k)(pr := next_task (tcb_pool k t))\<rparr>)"
    have "chain (next_nx k) (next_task (tcb_pool k t)) ys" using ch' Nil by simp
    then have "chain (next_nx ?k) (next_task (tcb_pool k t)) ys"
      using chain_cong [of ys "next_nx ?k" "next_nx k"] dist by (fastforce simp: upd_tcb_def)
    then show thesis
      using run Nil L t by (intro that [of ?k]) (simp_all add: rem upd_tcb_def)
  next
    case (snoc zs u)
    let ?k = "upd_tcb t (\<lambda>c. c\<lparr>next_task := None\<rparr>)
      (upd_tcb u (\<lambda>c. c\<lparr>next_task := next_task (tcb_pool k t)\<rparr>) k)"
    have ne: "u \<noteq> t" using L snoc by auto
    have "chain ((next_nx k)(u := next_nx k t)) (task_list k pr) (zs @ u # ys)"
      using ch' snoc by (intro chain_drop_mid) simp
    then have "chain (next_nx ?k) (task_list k pr) (zs @ u # ys)"
      using chain_cong [of "zs @ u # ys" "next_nx ?k" "(next_nx k)(u := next_nx k t)"] dist snoc
      by (fastforce simp: upd_tcb_def)
    then have c: "chain (next_nx ?k) (task_list ?k pr) (remove1 t (L pr))"
      unfolding rem snoc by simp
    have "u \<in> set (L pr)" using L snoc by simp
    then show thesis
      using run snoc t ne by (intro that [OF _ c]) (auto simp: upd_tcb_def)
  qed
qed

lemma scheduler_remove_task_wf:
  assumes wf: "sched_wf L k" and t: "t \<in> set (L pr)"
  obtains k' where "scheduler_remove_task t k = Some k'" "sched_wf (L(pr := remove1 t (L pr))) k'"
    "k' = k\<lparr>tcb_pool := tcb_pool k', task_list := task_list k', rr_current := rr_current k',
            g_priority_mask := g_priority_mask k'\<rparr>"
    "\<forall>u. (tcb_pool k' u)\<lparr>next_task := None\<rparr> = (tcb_pool k u)\<lparr>next_task := None\<rparr>"
    "next_task (tcb_pool k' t) = None"
proof -
  have pr: "unat (priority (tcb_pool k t)) = pr" "pr < MAX_TASK_PRIORITIES"
    using sched_wf_priority [OF wf t] by auto
  let ?k1 = "k\<lparr>primask := 1, rr_current :=
    (if rr_current k pr = Some t then (rr_current k)(pr := None) else rr_current k)\<rparr>"
  have "chain (next_nx ?k1) (task_list ?k1 pr) (L pr)" using sched_wf_chain [OF wf pr(2)] by simp
  from unlink_loop_wf [of ?k1 pr L, OF this t] obtain k2 where
    run: "unlink_loop t (Link_head pr) ?k1 = Some k2" and
    ch: "chain (next_nx k2) (task_list k2 pr) (remove1 t (L pr))" and
    k2: "k2 = ?k1\<lparr>tcb_pool := tcb_pool k2, task_list := (task_list k)(pr := task_list k2 pr)\<rparr>" and
    pool: "\<forall>u. (tcb_pool k2 u)\<lparr>next_task := None\<rparr> = (tcb_pool k u)\<lparr>next_task := None\<rparr>"
      "\<forall>u. u \<notin> set (L pr) \<longrightarrow> tcb_pool k2 u = tcb_pool k u" and
    nt: "next_task (tcb_pool k2 t) = None"
    by auto
  let ?mask = "if task_list k2 pr = None then g_priority_mask k AND NOT (push_bit pr 1)
     else g_priority_mask k"
  let ?k' = "k2\<lparr>g_priority_mask := ?mask, primask := primask k\<rparr>"
  have k2_fields: "g_priority_mask k2 = g_priority_mask k" "rr_current k2 = rr_current ?k1"
    "\<And>q. q \<noteq> pr \<Longrightarrow> task_list k2 q = task_list k q"
    by (subst k2, simp)+
  have res: "scheduler_remove_task t k = Some ?k'"
  proof -
    have "(if rr_current k pr = Some t then (k\<lparr>primask := 1\<rparr>)\<lparr>rr_current := (rr_current k)(pr := None)\<rparr>
        else k\<lparr>primask := 1\<rparr>) = ?k1" by simp
    then show ?thesis
      using run pr k2_fields(1)
      by (cases "rr_current k pr = Some t") (simp_all add: scheduler_remove_task_def state_defs Let_def)
  qed
  have prio: "priority (tcb_pool k2 u) = priority (tcb_pool k u)" for u
    using pool(1) by (metis tcb.ext_inject tcb.surjective tcb.update_convs(8))
  have dist: "distinct (L pr)" using sched_wf_distinct [OF wf] .
  have "sched_wf (L(pr := remove1 t (L pr))) ?k'"
    unfolding sched_wf_def
  proof (intro conjI allI impI ballI)
    fix q assume q: "q < MAX_TASK_PRIORITIES"
    show "chain (next_nx ?k') (task_list ?k' q) ((L(pr := remove1 t (L pr))) q)"
    proof (cases "q = pr")
      case False
      have "u \<notin> set (L pr)" if "u \<in> set (L q)" for u
        using sched_wf_priority [OF wf that] sched_wf_priority [OF wf, of u pr] False by auto
      then have "chain (next_nx k2) (task_list k q) (L q)"
        using chain_cong [of "L q" "next_nx k2" "next_nx k"] sched_wf_chain [OF wf q] pool(2) by simp
      then show ?thesis using False k2_fields(3) by simp
    qed (use ch in simp)
    show "bit (g_priority_mask ?k') q \<longleftrightarrow> (L(pr := remove1 t (L pr))) q \<noteq> []"
    proof (cases "q = pr")
      case True
      have "task_list k2 pr = None \<longleftrightarrow> remove1 t (L pr) = []"
        using ch by (cases "remove1 t (L pr)") auto
      then show ?thesis
        using True sched_wf_mask [OF wf pr(2)] t pr(2) by (auto simp: bit_simps)
    next
      case False
      then show ?thesis using sched_wf_mask [OF wf q] q pr(2) by (auto simp: bit_simps)
    qed
    show "s \<in> set ((L(pr := remove1 t (L pr))) q)" if "rr_current ?k' q = Some s" for s
      using that sched_wf_cursor [OF wf q] k2_fields(2) dist by (auto split: if_splits)
  next
    fix q u assume "u \<in> set ((L(pr := remove1 t (L pr))) q)"
    then have "u \<in> set (L q)" using dist by (auto split: if_splits)
    then show "unat (priority (tcb_pool ?k' u)) = q" "q < MAX_TASK_PRIORITIES"
      using sched_wf_priority [OF wf, of u q] prio by auto
  qed
  moreover have "?k' = k\<lparr>tcb_pool := tcb_pool ?k', task_list := task_list ?k',
      rr_current := rr_current ?k', g_priority_mask := g_priority_mask ?k'\<rparr>"
  proof -
    have "k2\<lparr>tcb_pool := p, task_list := l, rr_current := r, g_priority_mask := m, primask := i\<rparr> =
        k\<lparr>tcb_pool := p, task_list := l, rr_current := r, g_priority_mask := m, primask := i\<rparr>" for p l r m i
      by (subst k2) simp
    from this [where p = "tcb_pool ?k'" and l = "task_list ?k'" and r = "rr_current ?k'" and
      m = "g_priority_mask ?k'" and i = "primask k"]
    show ?thesis by simp
  qed
  ultimately show thesis using res pool(1) nt by (intro that [of ?k']) simp_all
qed

end
