(* ===== verification/Sched_Tick.thy ===== *)
theory Sched_Tick
  imports Sched_Ops
begin

text \<open>
  The tick: its loops over all tasks as a fold over the priority lists, and what one tick does to
  every task, every wait list and the saved frames.
\<close>

section \<open>Loops over all tasks\<close>

primrec for_list :: "(tcb_ptr \<Rightarrow> kernel \<Rightarrow> kernel option) \<Rightarrow> tcb_ptr list \<Rightarrow> kernel \<Rightarrow> kernel option" where
  "for_list body [] k = Some k"
| "for_list body (t # ts) k = do { k \<leftarrow> body t k; for_list body ts k }"

lemma for_list_append:
  "for_list body (xs @ ys) k = do { k \<leftarrow> for_list body xs k; for_list body ys k }"
  by (induction xs arbitrary: k) (auto split: bind_splits)

definition keeps_lists :: "(tcb_ptr \<Rightarrow> kernel \<Rightarrow> kernel option) \<Rightarrow> bool" where
  "keeps_lists body \<longleftrightarrow> (\<forall>t k k'. body t k = Some k' \<longrightarrow>
     task_list k' = task_list k \<and> (\<forall>u. next_task (tcb_pool k' u) = next_task (tcb_pool k u)))"

lemma for_tasks_list:
  assumes "keeps_lists body" "chain (next_nx k) p xs"
  shows "for_tasks body p k = for_list body xs k"
  using assms(2)
proof (induction xs arbitrary: p k)
  case Nil
  then show ?case by (simp add: for_tasks.simps)
next
  case (Cons x xs)
  show ?case
  proof (cases "body x k")
    case None
    then show ?thesis using Cons.prems by (subst for_tasks.simps) simp
  next
    case (Some k')
    then have "\<forall>u. next_task (tcb_pool k' u) = next_task (tcb_pool k u)"
      using assms(1) unfolding keeps_lists_def by blast
    then have "chain (next_nx k') (next_task (tcb_pool k' x)) xs" using Cons.prems by simp
    from Cons.IH [OF this] show ?thesis using Some Cons.prems by (subst for_tasks.simps) simp
  qed
qed

lemma for_list_keeps:
  "keeps_lists body \<Longrightarrow> for_list body xs k = Some k' \<Longrightarrow>
   task_list k' = task_list k \<and> (\<forall>u. next_task (tcb_pool k' u) = next_task (tcb_pool k u))"
proof (induction xs arbitrary: k)
  case (Cons x xs)
  then obtain k1 where k1: "body x k = Some k1" "for_list body xs k1 = Some k'"
    by (auto split: bind_splits)
  have "task_list k1 = task_list k \<and> (\<forall>u. next_task (tcb_pool k1 u) = next_task (tcb_pool k u))"
    using Cons.prems(1) k1(1) unfolding keeps_lists_def by blast
  then show ?case using Cons.IH [OF Cons.prems(1) k1(2)] by simp
qed simp

lemma for_priorities_list:
  assumes "keeps_lists body" "\<And>pr. pr \<in> set prs \<Longrightarrow> chain (next_nx k) (task_list k pr) (L pr)"
  shows "for_priorities body prs k = for_list body (concat (map L prs)) k"
  using assms(2)
proof (induction prs arbitrary: k)
  case (Cons pr prs)
  have fst: "for_tasks body (task_list k pr) k = for_list body (L pr) k"
    using for_tasks_list [OF assms(1)] Cons.prems by simp
  show ?case
  proof (cases "for_list body (L pr) k")
    case None
    then show ?thesis by (simp add: fst for_list_append)
  next
    case (Some k')
    note keep = for_list_keeps [OF assms(1) Some]
    have "chain (next_nx k') (task_list k' q) (L q)" if "q \<in> set prs" for q
      using that Cons.prems [of q] keep by simp
    from Cons.IH [OF this] show ?thesis by (simp add: fst for_list_append Some)
  qed
qed simp

text \<open>All tasks, in the order the tick visits them.\<close>

definition all_tasks :: "(nat \<Rightarrow> tcb_ptr list) \<Rightarrow> tcb_ptr list" where
  "all_tasks L = concat (map L [0..<MAX_TASK_PRIORITIES])"

lemma all_tasks_iff: "sched_wf L k \<Longrightarrow> t \<in> set (all_tasks L) \<longleftrightarrow> (\<exists>pr. t \<in> set (L pr))"
  using sched_wf_priority [of L k t] by (auto simp: all_tasks_def)

lemma all_tasks_distinct:
  assumes "sched_wf L k"
  shows "distinct (all_tasks L)"
proof -
  have "t \<notin> set (L j)" if "i < j" "t \<in> set (L i)" for i j t
    using that sched_wf_priority [OF assms] by blast
  then have "distinct (concat (map L [0..<n]))" for n
    using sched_wf_distinct [OF assms] by (induction n) auto
  then show ?thesis unfolding all_tasks_def .
qed

lemma for_all_tasks:
  "sched_wf L k \<Longrightarrow> keeps_lists body \<Longrightarrow>
   for_priorities body [0..<MAX_TASK_PRIORITIES] k = for_list body (all_tasks L) k"
  unfolding all_tasks_def using sched_wf_chain by (intro for_priorities_list) simp_all

section \<open>Sleeping tasks\<close>

definition sleep_tcb :: "tcb \<Rightarrow> tcb" where
  "sleep_tcb c =
     (if tstate c = TASK_WAITING \<and> 0 < delay_ticks c \<and> blocking_wait_list c = None
      then c\<lparr>delay_ticks := delay_ticks c - 1,
             tstate := (if delay_ticks c = 1 then TASK_READY else TASK_WAITING)\<rparr>
      else c)"

lemma upd_tcb_upd: "upd_tcb t f (upd_tcb t g k) = upd_tcb t (\<lambda>c. f (g c)) k"
  by (simp add: upd_tcb_def)

lemma upd_tcb_cong: "f (tcb_pool k t) = g (tcb_pool k t) \<Longrightarrow> upd_tcb t f k = upd_tcb t g k"
  by (simp add: upd_tcb_def)

lemma upd_tcb_same: "f (tcb_pool k t) = tcb_pool k t \<Longrightarrow> upd_tcb t f k = k"
  by (simp add: upd_tcb_def)

lemma upd_tcb_pool [simp]: "(upd_tcb t f k)\<lparr>tcb_pool := p\<rparr> = k\<lparr>tcb_pool := p\<rparr>"
  by (simp add: upd_tcb_def)

lemma tstate_idle: "tstate c = s \<Longrightarrow> c\<lparr>tstate := s\<rparr> = c"
  by auto

lemma sleep_tick_task_eq: "sleep_tick_task t k = Some (upd_tcb t sleep_tcb k)"
proof (cases "tstate (tcb_pool k t) = TASK_WAITING \<and> 0 < delay_ticks (tcb_pool k t) \<and>
    blocking_wait_list (tcb_pool k t) = None")
  case True
  then show ?thesis
    by (auto simp: sleep_tick_task_def Let_def upd_tcb_upd sleep_tcb_def tstate_idle intro!: upd_tcb_cong)
next
  case False
  then show ?thesis by (auto simp: sleep_tick_task_def Let_def sleep_tcb_def upd_tcb_same)
qed

lemma sleep_tcb_simps [simp]:
  "next_task (sleep_tcb c) = next_task c" "priority (sleep_tcb c) = priority c"
  "wait_next (sleep_tcb c) = wait_next c" "blocking_wait_list (sleep_tcb c) = blocking_wait_list c"
  "flags (sleep_tcb c) = flags c" "stack_pointer (sleep_tcb c) = stack_pointer c"
  by (simp_all add: sleep_tcb_def)

lemma keeps_sleep: "keeps_lists sleep_tick_task"
  by (auto simp: keeps_lists_def sleep_tick_task_eq)

lemma for_list_sleep:
  "distinct xs \<Longrightarrow> for_list sleep_tick_task xs k =
     Some (k\<lparr>tcb_pool := (\<lambda>t. if t \<in> set xs then sleep_tcb (tcb_pool k t) else tcb_pool k t)\<rparr>)"
proof (induction xs arbitrary: k)
  case (Cons x xs)
  let ?k = "upd_tcb x sleep_tcb k"
  have "(\<lambda>t. if t \<in> set xs then sleep_tcb (tcb_pool ?k t) else tcb_pool ?k t) =
        (\<lambda>t. if t \<in> set (x # xs) then sleep_tcb (tcb_pool k t) else tcb_pool k t)"
    using Cons.prems by (auto simp: fun_eq_iff)
  then show ?case
    using Cons.IH [of ?k] Cons.prems by (simp add: sleep_tick_task_eq del: upd_tcb_simps)
qed simp

section \<open>Timeouts on wait lists\<close>

text \<open>Two states that differ in wait lists only.\<close>

definition prims_same :: "kernel \<Rightarrow> kernel \<Rightarrow> bool" where
  "prims_same k k' \<longleftrightarrow>
     (\<forall>p. map_option sem_count (sems k' p) = map_option sem_count (sems k p)) \<and>
     (\<forall>p. map_option mtx_owner (mutexes k' p) = map_option mtx_owner (mutexes k p)) \<and>
     (\<forall>p. map_option (\<lambda>q. q\<lparr>q_send_wait := None, q_recv_wait := None\<rparr>) (queues k' p) =
          map_option (\<lambda>q. q\<lparr>q_send_wait := None, q_recv_wait := None\<rparr>) (queues k p))"

definition wait_frame :: "kernel \<Rightarrow> kernel \<Rightarrow> bool" where
  "wait_frame k k' \<longleftrightarrow>
     (\<forall>t. (tcb_pool k' t)\<lparr>wait_next := None\<rparr> = (tcb_pool k t)\<lparr>wait_next := None\<rparr>) \<and>
     k'\<lparr>tcb_pool := tcb_pool k, sems := sems k, mutexes := mutexes k, queues := queues k\<rparr> = k \<and>
     prims_same k k'"

lemma wait_frame_refl [simp]: "wait_frame k k"
  by (simp add: wait_frame_def prims_same_def)

lemma wait_frame_write: "wait_frame k (write_head h v k)"
  by (auto simp: wait_frame_def prims_same_def write_head_def state_defs split: wait_head.splits option.splits)

lemma wait_frame_upd:
  "wait_frame k k' \<Longrightarrow> wait_frame k (upd_tcb t (\<lambda>c. c\<lparr>wait_next := v\<rparr>) k')"
  by (auto simp: wait_frame_def prims_same_def upd_tcb_def)

lemma wait_splice_frame: "wait_splice h t k = Some k' \<Longrightarrow> wait_frame k k'"
  by (auto simp: wait_splice_def split: bind_splits if_splits option.splits prod.splits
      intro!: wait_frame_upd wait_frame_write)

lemma wait_frame_fields:
  assumes "wait_frame k k'"
  shows "mem k' = mem k" "primask k' = primask k" "pendsv k' = pendsv k"
    "task_list k' = task_list k" "rr_current k' = rr_current k"
    "g_priority_mask k' = g_priority_mask k" "current_task k' = current_task k"
    "tick_count k' = tick_count k"
proof -
  have e: "k'\<lparr>tcb_pool := tcb_pool k, sems := sems k, mutexes := mutexes k, queues := queues k\<rparr> = k"
    using assms unfolding wait_frame_def by blast
  show "mem k' = mem k" using arg_cong [OF e, of mem] by simp
  show "primask k' = primask k" using arg_cong [OF e, of primask] by simp
  show "pendsv k' = pendsv k" using arg_cong [OF e, of pendsv] by simp
  show "task_list k' = task_list k" using arg_cong [OF e, of task_list] by simp
  show "rr_current k' = rr_current k" using arg_cong [OF e, of rr_current] by simp
  show "g_priority_mask k' = g_priority_mask k" using arg_cong [OF e, of g_priority_mask] by simp
  show "current_task k' = current_task k" using arg_cong [OF e, of current_task] by simp
  show "tick_count k' = tick_count k" using arg_cong [OF e, of tick_count] by simp
qed

definition sync_expires :: "tcb \<Rightarrow> bool" where
  "sync_expires c \<longleftrightarrow>
     tstate c = TASK_WAITING \<and> delay_ticks c = 1 \<and> blocking_wait_list c \<noteq> None"

definition sync_tcb :: "tcb \<Rightarrow> tcb" where
  "sync_tcb c =
     (if sync_expires c
      then c\<lparr>delay_ticks := 0, blocking_wait_list := None,
             flags := (flags c OR TASK_FLAG_TIMED_OUT) AND NOT TASK_FLAG_SVC_BLOCKED,
             tstate := TASK_READY\<rparr>
      else if tstate c = TASK_WAITING \<and> 0 < delay_ticks c \<and> blocking_wait_list c \<noteq> None
      then c\<lparr>delay_ticks := delay_ticks c - 1\<rparr> else c)"

text \<open>The result a wake-up writes into the saved frame of a task blocked in a system call.\<close>

definition deliver :: "u32 \<Rightarrow> tcb \<Rightarrow> memory \<Rightarrow> memory" where
  "deliver r c m =
     (if flags c AND TASK_FLAG_SVC_BLOCKED \<noteq> 0 then store32 m (saved_r0 c) r else m)"

text \<open>States that differ in TCBs, wait lists, memory and the PendSV request only.\<close>

definition tick_frame :: "kernel \<Rightarrow> kernel \<Rightarrow> bool" where
  "tick_frame k k' \<longleftrightarrow>
     k'\<lparr>tcb_pool := tcb_pool k, sems := sems k, mutexes := mutexes k, queues := queues k,
        mem := mem k, pendsv := pendsv k\<rparr> = k \<and> prims_same k k'"

lemma tick_frame_trans: "tick_frame k k1 \<Longrightarrow> tick_frame k1 k2 \<Longrightarrow> tick_frame k k2"
proof -
  assume a: "tick_frame k k1" "tick_frame k1 k2"
  let ?f = "\<lambda>j. j\<lparr>tcb_pool := tcb_pool k, sems := sems k, mutexes := mutexes k, queues := queues k,
        mem := mem k, pendsv := pendsv k\<rparr>"
  have "k2\<lparr>tcb_pool := tcb_pool k1, sems := sems k1, mutexes := mutexes k1, queues := queues k1,
      mem := mem k1, pendsv := pendsv k1\<rparr> = k1"
    using a unfolding tick_frame_def by blast
  from arg_cong [OF this, of ?f] have "?f k2 = ?f k1" by simp
  then show ?thesis using a by (simp add: tick_frame_def prims_same_def)
qed

lemma scheduler_wake_task_eq:
  "scheduler_wake_task t r k =
     (upd_tcb t (\<lambda>c. c\<lparr>flags := flags c AND NOT TASK_FLAG_SVC_BLOCKED, tstate := TASK_READY\<rparr>) k)
       \<lparr>mem := deliver r (tcb_pool k t) (mem k), pendsv := True\<rparr>"
proof (cases "flags (tcb_pool k t) AND TASK_FLAG_SVC_BLOCKED = 0")
  case True
  have "f AND NOT 2 = f" if "f AND 2 = 0" for f :: u32
  proof (rule bit_word_eqI)
    fix n assume "n < LENGTH(32)"
    have "\<not> bit (f AND 2) n" using that by simp
    then show "bit (f AND NOT 2) n \<longleftrightarrow> bit f n"
      using \<open>n < _\<close> by (auto simp: bit_simps)
  qed
  then have "c\<lparr>flags := flags c AND NOT 2, tstate := s\<rparr> = c\<lparr>tstate := s\<rparr>"
    if "c = tcb_pool k t" for c s
    using True that by (cases c) simp
  then show ?thesis
    using True by (simp add: scheduler_wake_task_def deliver_def state_defs)
next
  case False
  then show ?thesis
    by (simp add: scheduler_wake_task_def deliver_def state_defs Let_def)
qed

lemma sync_tick_task_idle:
  "\<not> (tstate (tcb_pool k t) = TASK_WAITING \<and> 0 < delay_ticks (tcb_pool k t) \<and>
      blocking_wait_list (tcb_pool k t) \<noteq> None) \<Longrightarrow> sync_tick_task t k = Some k"
  by (auto simp: sync_tick_task_def state_defs Let_def split: option.splits)

lemma sync_tick_task_age:
  assumes "tstate (tcb_pool k t) = TASK_WAITING" "0 < delay_ticks (tcb_pool k t)"
    "blocking_wait_list (tcb_pool k t) = Some h" "delay_ticks (tcb_pool k t) \<noteq> 1"
  shows "sync_tick_task t k = Some (upd_tcb t sync_tcb k)"
  using assms
  by (simp add: sync_tick_task_def state_defs Let_def sync_tcb_def sync_expires_def)

lemma sync_tick_task_expire:
  assumes wf: "wait_wf W k" and t: "t \<in> set (W h)"
    and c: "tstate (tcb_pool k t) = TASK_WAITING" "delay_ticks (tcb_pool k t) = 1"
      "blocking_wait_list (tcb_pool k t) = Some h"
  obtains k' where "sync_tick_task t k = Some k'" "wait_wf (W(h := remove1 t (W h))) k'"
    "\<forall>u. (tcb_pool k' u)\<lparr>wait_next := None\<rparr> =
         (if u = t then sync_tcb (tcb_pool k t) else tcb_pool k u)\<lparr>wait_next := None\<rparr>"
    "mem k' = deliver (- 1) (tcb_pool k t) (mem k)" "pendsv k'" "tick_frame k k'"
proof -
  let ?k1 = "upd_tcb t (\<lambda>c. c\<lparr>delay_ticks := delay_ticks c - 1\<rparr>) (k\<lparr>primask := 1\<rparr>)"
  have "read_head h' ?k1 = read_head h' k" for h' by (cases h') (simp_all add: read_head_def)
  then have "wait_wf W ?k1" using wf by (subst wait_wf_cong [of _ k]) simp_all
  from wait_splice_wf [OF this t] obtain k2 where
    k2: "wait_splice h t ?k1 = Some k2" "wait_wf (W(h := remove1 t (W h))) k2" by blast
  note fr = wait_splice_frame [OF k2(1)]
  have strip: "(tcb_pool k2 u)\<lparr>wait_next := None\<rparr> = (tcb_pool ?k1 u)\<lparr>wait_next := None\<rparr>" for u
    using fr unfolding wait_frame_def by blast
  let ?k3 = "upd_tcb t (\<lambda>c. c\<lparr>blocking_wait_list := None, flags := flags c OR TASK_FLAG_TIMED_OUT\<rparr>) k2"
  let ?k' = "scheduler_wake_task t (- 1) (?k3\<lparr>primask := primask k\<rparr>)"
  have run: "sync_tick_task t k = Some ?k'"
    using c k2(1) by (simp add: sync_tick_task_def enter_critical_def exit_critical_def Let_def)
  have field: "flags (tcb_pool k2 t) = flags (tcb_pool k t)"
    "stack_pointer (tcb_pool k2 t) = stack_pointer (tcb_pool k t)"
    using arg_cong [OF strip [of t], of flags] arg_cong [OF strip [of t], of stack_pointer] by simp_all
  have heads: "read_head h' ?k' = read_head h' k2" for h'
    by (cases h') (simp_all add: scheduler_wake_task_eq read_head_def)
  have wf': "wait_wf (W(h := remove1 t (W h))) ?k'"
    using k2(2) heads by (subst wait_wf_cong [of _ k2]) (simp_all add: scheduler_wake_task_eq)
  have pool: "(tcb_pool ?k' u)\<lparr>wait_next := None\<rparr> =
      (if u = t then sync_tcb (tcb_pool k t) else tcb_pool k u)\<lparr>wait_next := None\<rparr>" for u
  proof (cases "u = t")
    case True
    have "(f ((tcb_pool k2 t)\<lparr>wait_next := None\<rparr>)) = (f ((tcb_pool ?k1 t)\<lparr>wait_next := None\<rparr>))"
      for f :: "tcb \<Rightarrow> tcb" using strip [of t] by simp
    from this [of "\<lambda>c. c\<lparr>blocking_wait_list := None, flags := (flags c OR TASK_FLAG_TIMED_OUT) AND
        NOT TASK_FLAG_SVC_BLOCKED, tstate := TASK_READY, wait_next := None\<rparr>"]
    show ?thesis
      using True c by (simp add: scheduler_wake_task_eq sync_tcb_def sync_expires_def)
  next
    case False
    then show ?thesis using strip [of u] by (simp add: scheduler_wake_task_eq)
  qed
  have "(f OR 4) AND 2 = f AND 2" for f :: u32
    by (simp add: bit.conj_disj_distrib2)
  then have mem: "mem ?k' = deliver (- 1) (tcb_pool k t) (mem k)"
    using field wait_frame_fields(1) [OF fr] by (simp add: scheduler_wake_task_eq deliver_def saved_r0_def)
  have "tick_frame k ?k'"
  proof -
    have e: "k2\<lparr>tcb_pool := tcb_pool ?k1, sems := sems ?k1, mutexes := mutexes ?k1, queues := queues ?k1\<rparr> = ?k1"
      and p: "prims_same ?k1 k2"
      using fr unfolding wait_frame_def by blast+
    let ?f = "\<lambda>j. j\<lparr>primask := primask k, tcb_pool := tcb_pool k, sems := sems k, mutexes := mutexes k,
      queues := queues k, mem := mem k, pendsv := pendsv k\<rparr>"
    have "?f k2 = ?f ?k1" using arg_cong [OF e, of ?f] by simp
    then show ?thesis using p by (simp add: tick_frame_def scheduler_wake_task_eq prims_same_def upd_tcb_def)
  qed
  then show thesis
    using run wf' pool mem by (intro that [of ?k']) (simp_all add: scheduler_wake_task_eq)
qed

lemma strip_fields:
  assumes "c\<lparr>wait_next := None\<rparr> = c'\<lparr>wait_next := None\<rparr>"
  shows "tstate c = tstate c'" "delay_ticks c = delay_ticks c'" "flags c = flags c'"
    "blocking_wait_list c = blocking_wait_list c'" "stack_pointer c = stack_pointer c'"
    "next_task c = next_task c'" "priority c = priority c'"
  using arg_cong [OF assms, of tstate] arg_cong [OF assms, of delay_ticks] arg_cong [OF assms, of flags]
    arg_cong [OF assms, of blocking_wait_list] arg_cong [OF assms, of stack_pointer]
    arg_cong [OF assms, of next_task] arg_cong [OF assms, of priority] by simp_all

lemma strip_sync:
  assumes "c\<lparr>wait_next := None\<rparr> = c'\<lparr>wait_next := None\<rparr>"
  shows "(sync_tcb c)\<lparr>wait_next := None\<rparr> = (sync_tcb c')\<lparr>wait_next := None\<rparr>"
    "sync_expires c = sync_expires c'" "deliver r c m = deliver r c' m"
proof -
  have c: "c = c'\<lparr>wait_next := wait_next c\<rparr>" using assms by (cases c; cases c') simp
  show "sync_expires c = sync_expires c'" by (subst c) (simp add: sync_expires_def)
  show "deliver r c m = deliver r c' m" by (subst c) (simp add: deliver_def saved_r0_def)
  show "(sync_tcb c)\<lparr>wait_next := None\<rparr> = (sync_tcb c')\<lparr>wait_next := None\<rparr>"
    by (subst c) (auto simp: sync_tcb_def sync_expires_def)
qed

text \<open>A task that waits with a timeout is in the list it says it blocks on.\<close>

definition timeouts_ok :: "(wait_head \<Rightarrow> tcb_ptr list) \<Rightarrow> kernel \<Rightarrow> bool" where
  "timeouts_ok W k \<longleftrightarrow> (\<forall>t h. tstate (tcb_pool k t) = TASK_WAITING \<longrightarrow> 0 < delay_ticks (tcb_pool k t) \<longrightarrow>
     blocking_wait_list (tcb_pool k t) = Some h \<longrightarrow> t \<in> set (W h))"

text \<open>One body of the loop, in all cases.\<close>

lemma sync_tick_task_step:
  assumes wf: "wait_wf W k" and ok: "timeouts_ok W k"
  obtains k' where "sync_tick_task t k = Some k'"
    "wait_wf (\<lambda>h. filter (\<lambda>u. \<not> (u = t \<and> sync_expires (tcb_pool k t))) (W h)) k'"
    "\<forall>u. (tcb_pool k' u)\<lparr>wait_next := None\<rparr> =
         (if u = t then sync_tcb (tcb_pool k t) else tcb_pool k u)\<lparr>wait_next := None\<rparr>"
    "mem k' = (if sync_expires (tcb_pool k t) then deliver (- 1) (tcb_pool k t) (mem k) else mem k)"
    "pendsv k' = (pendsv k \<or> sync_expires (tcb_pool k t))" "tick_frame k k'"
proof -
  let ?c = "tcb_pool k t"
  consider (idle) "\<not> (tstate ?c = TASK_WAITING \<and> 0 < delay_ticks ?c \<and> blocking_wait_list ?c \<noteq> None)"
    | (age) h where "tstate ?c = TASK_WAITING" "0 < delay_ticks ?c" "blocking_wait_list ?c = Some h"
        "delay_ticks ?c \<noteq> 1"
    | (expire) h where "tstate ?c = TASK_WAITING" "blocking_wait_list ?c = Some h" "delay_ticks ?c = 1"
    by blast
  then show thesis
  proof cases
    case idle
    then have "\<not> sync_expires ?c" "sync_tcb ?c = ?c" by (auto simp: sync_expires_def sync_tcb_def)
    then show thesis
      using wf sync_tick_task_idle [OF idle]
      by (intro that [of k]) (simp_all add: tick_frame_def prims_same_def)
  next
    case age
    then have "\<not> sync_expires ?c" by (simp add: sync_expires_def)
    have "wait_next (sync_tcb c) = wait_next c" for c by (simp add: sync_tcb_def)
    then have "wait_wf W (upd_tcb t sync_tcb k)" using wf by (subst wait_wf_cong [of _ k]) simp_all
    then show thesis
      using \<open>\<not> sync_expires ?c\<close> sync_tick_task_age [OF age]
      by (intro that [of "upd_tcb t sync_tcb k"]) (simp_all add: tick_frame_def prims_same_def)
  next
    case expire
    have "t \<in> set (W h)" using ok expire unfolding timeouts_ok_def by simp
    from sync_tick_task_expire [OF wf this expire(1,3,2)] obtain k' where k':
      "sync_tick_task t k = Some k'" "wait_wf (W(h := remove1 t (W h))) k'"
      "\<forall>u. (tcb_pool k' u)\<lparr>wait_next := None\<rparr> =
           (if u = t then sync_tcb ?c else tcb_pool k u)\<lparr>wait_next := None\<rparr>"
      "mem k' = deliver (- 1) ?c (mem k)" "pendsv k'" "tick_frame k k'"
      by blast
    have e: "sync_expires ?c" using expire by (simp add: sync_expires_def)
    have "filter (\<lambda>u. u \<noteq> t) (W h') = (W(h := remove1 t (W h))) h'" for h'
    proof (cases "h' = h")
      case True
      then show ?thesis using wait_wf_distinct [OF wf] by (simp add: distinct_remove1_removeAll removeAll_filter_not_eq eq_commute)
    next
      case False
      then have "t \<notin> set (W h')" using \<open>t \<in> set (W h)\<close> wait_wf_disjoint [OF wf] by blast
      then show ?thesis using False by (auto simp: filter_id_conv)
    qed
    then have "(\<lambda>h'. filter (\<lambda>u. u \<noteq> t) (W h')) = W(h := remove1 t (W h))" by (rule ext)
    then show thesis using k' e by (intro that [of k']) simp_all
  qed
qed

lemma wait_frame_strip:
  "wait_frame k k' \<Longrightarrow> (tcb_pool k' t)\<lparr>wait_next := None\<rparr> = (tcb_pool k t)\<lparr>wait_next := None\<rparr>"
  by (simp add: wait_frame_def)

lemma keeps_sync: "keeps_lists sync_tick_task"
  unfolding keeps_lists_def
proof (intro allI impI)
  fix t k k' assume run: "sync_tick_task t k = Some k'"
  show "task_list k' = task_list k \<and> (\<forall>u. next_task (tcb_pool k' u) = next_task (tcb_pool k u))"
  proof (cases "\<exists>h. blocking_wait_list (tcb_pool k t) = Some h \<and>
      tstate (tcb_pool k t) = TASK_WAITING \<and> delay_ticks (tcb_pool k t) = 1")
    case True
    then obtain h where c: "blocking_wait_list (tcb_pool k t) = Some h"
      "tstate (tcb_pool k t) = TASK_WAITING" "delay_ticks (tcb_pool k t) = 1" by blast
    let ?k1 = "upd_tcb t (\<lambda>c. c\<lparr>delay_ticks := delay_ticks c - 1\<rparr>) (k\<lparr>primask := 1\<rparr>)"
    obtain k2 where k2: "wait_splice h t ?k1 = Some k2"
      using run c by (cases "wait_splice h t ?k1") (simp_all add: sync_tick_task_def enter_critical_def)
    note fr = wait_splice_frame [OF k2]
    have "next_task (tcb_pool k2 u) = next_task (tcb_pool k u)" for u
      using strip_fields(6) [OF wait_frame_strip [OF fr, of u]] by (simp split: if_splits)
    then show ?thesis
      using run c k2 wait_frame_fields(4) [OF fr]
      by (auto simp: sync_tick_task_def enter_critical_def exit_critical_def scheduler_wake_task_eq)
  next
    case False
    show ?thesis
    proof (cases "tstate (tcb_pool k t) = TASK_WAITING \<and> 0 < delay_ticks (tcb_pool k t) \<and>
        blocking_wait_list (tcb_pool k t) \<noteq> None")
      case True
      then obtain h where "blocking_wait_list (tcb_pool k t) = Some h" by blast
      then have "k' = upd_tcb t sync_tcb k"
        using True False run sync_tick_task_age [of k t h] by auto
      then show ?thesis by (simp add: sync_tcb_def)
    qed (use run sync_tick_task_idle in auto)
  qed
qed

lemma timeouts_step:
  assumes wf: "wait_wf W k" and ok: "timeouts_ok W k"
    and pool: "\<forall>u. (tcb_pool k' u)\<lparr>wait_next := None\<rparr> =
         (if u = t then sync_tcb (tcb_pool k t) else tcb_pool k u)\<lparr>wait_next := None\<rparr>"
  shows "timeouts_ok (\<lambda>h. filter (\<lambda>u. \<not> (u = t \<and> sync_expires (tcb_pool k t))) (W h)) k'"
  unfolding timeouts_ok_def
proof (intro allI impI)
  fix u h assume a: "tstate (tcb_pool k' u) = TASK_WAITING" "0 < delay_ticks (tcb_pool k' u)"
    "blocking_wait_list (tcb_pool k' u) = Some h"
  note f = strip_fields [OF pool [rule_format, of u]]
  show "u \<in> set (filter (\<lambda>u. \<not> (u = t \<and> sync_expires (tcb_pool k t))) (W h))"
  proof (cases "u = t")
    case True
    then show ?thesis
      using a f ok unfolding timeouts_ok_def
      by (auto simp: sync_tcb_def sync_expires_def split: if_splits)
  next
    case False
    then show ?thesis using a f ok unfolding timeouts_ok_def by simp
  qed
qed

text \<open>The loop over a list of different tasks.\<close>

lemma for_list_sync:
  assumes "distinct xs" "wait_wf W k" "timeouts_ok W k"
  shows "\<exists>k'. for_list sync_tick_task xs k = Some k' \<and>
    wait_wf (\<lambda>h. filter (\<lambda>t. \<not> (t \<in> set xs \<and> sync_expires (tcb_pool k t))) (W h)) k' \<and>
    timeouts_ok (\<lambda>h. filter (\<lambda>t. \<not> (t \<in> set xs \<and> sync_expires (tcb_pool k t))) (W h)) k' \<and>
    (\<forall>t. (tcb_pool k' t)\<lparr>wait_next := None\<rparr> =
         (if t \<in> set xs then sync_tcb (tcb_pool k t) else tcb_pool k t)\<lparr>wait_next := None\<rparr>) \<and>
    mem k' = fold (\<lambda>t. deliver (- 1) (tcb_pool k t)) [t\<leftarrow>xs. sync_expires (tcb_pool k t)] (mem k) \<and>
    pendsv k' = (pendsv k \<or> (\<exists>t \<in> set xs. sync_expires (tcb_pool k t))) \<and> tick_frame k k'"
  using assms
proof (induction xs arbitrary: W k)
  case Nil
  then show ?case by (simp add: tick_frame_def prims_same_def)
next
  case (Cons x xs)
  let ?e = "\<lambda>t. sync_expires (tcb_pool k t)"
  let ?W1 = "\<lambda>h. filter (\<lambda>u. \<not> (u = x \<and> ?e x)) (W h)"
  obtain k1 where k1: "sync_tick_task x k = Some k1" "wait_wf ?W1 k1"
    "\<forall>u. (tcb_pool k1 u)\<lparr>wait_next := None\<rparr> =
         (if u = x then sync_tcb (tcb_pool k x) else tcb_pool k u)\<lparr>wait_next := None\<rparr>"
    "mem k1 = (if ?e x then deliver (- 1) (tcb_pool k x) (mem k) else mem k)"
    "pendsv k1 = (pendsv k \<or> ?e x)" "tick_frame k k1"
    by (rule sync_tick_task_step [OF Cons.prems(2,3), of x])
  have ok1: "timeouts_ok ?W1 k1" using timeouts_step [OF Cons.prems(2,3) k1(3)] .
  have same: "(tcb_pool k1 t)\<lparr>wait_next := None\<rparr> = (tcb_pool k t)\<lparr>wait_next := None\<rparr>"
    if "t \<in> set xs" for t
    using that k1(3) Cons.prems(1) by (metis distinct.simps(2))
  have e1: "t \<in> set xs \<Longrightarrow> sync_expires (tcb_pool k1 t) = ?e t" for t
    using strip_sync(2) [OF same] by blast
  let ?P = "\<lambda>h. filter (\<lambda>t. \<not> (t \<in> set xs \<and> sync_expires (tcb_pool k1 t))) (?W1 h)"
  obtain k' where k': "for_list sync_tick_task xs k1 = Some k'" "wait_wf ?P k'" "timeouts_ok ?P k'"
    "\<forall>t. (tcb_pool k' t)\<lparr>wait_next := None\<rparr> =
         (if t \<in> set xs then sync_tcb (tcb_pool k1 t) else tcb_pool k1 t)\<lparr>wait_next := None\<rparr>"
    "mem k' = fold (\<lambda>t. deliver (- 1) (tcb_pool k1 t)) [t\<leftarrow>xs. sync_expires (tcb_pool k1 t)] (mem k1)"
    "pendsv k' = (pendsv k1 \<or> (\<exists>t \<in> set xs. sync_expires (tcb_pool k1 t)))" "tick_frame k1 k'"
    using Cons.IH [OF _ k1(2) ok1] Cons.prems(1) by auto
  have W: "?P = (\<lambda>h. filter (\<lambda>t. \<not> (t \<in> set (x # xs) \<and> ?e t)) (W h))"
    using e1 by (intro ext) (auto intro: filter_cong)
  have pool: "(tcb_pool k' t)\<lparr>wait_next := None\<rparr> =
      (if t \<in> set (x # xs) then sync_tcb (tcb_pool k t) else tcb_pool k t)\<lparr>wait_next := None\<rparr>" for t
    using k'(4) k1(3) strip_sync(1) [OF same] Cons.prems(1) by (cases "t \<in> set xs"; cases "t = x") auto
  have filt: "[t\<leftarrow>xs. sync_expires (tcb_pool k1 t)] = [t\<leftarrow>xs. ?e t]"
    using e1 by (simp cong: filter_cong)
  have "fold (\<lambda>t. deliver (- 1) (tcb_pool k1 t)) [t\<leftarrow>xs. ?e t] m =
      fold (\<lambda>t. deliver (- 1) (tcb_pool k t)) [t\<leftarrow>xs. ?e t] m" for m
    using strip_sync(3) [OF same] by (intro fold_cong) (auto simp: fun_eq_iff)
  then have "mem k' = fold (\<lambda>t. deliver (- 1) (tcb_pool k t)) [t\<leftarrow>x # xs. ?e t] (mem k)"
    using k'(5) k1(4) filt by simp
  moreover have "pendsv k' = (pendsv k \<or> (\<exists>t \<in> set (x # xs). ?e t))"
    using k'(6) k1(5) e1 by auto
  moreover have "for_list sync_tick_task (x # xs) k = Some k'" using k1(1) k'(1) by simp
  ultimately show ?case
    using k'(2,3) pool tick_frame_trans [OF k1(6) k'(7)] unfolding W by blast
qed

end
