(* ===== verification/Sched_Props.thy ===== *)
theory Sched_Props
  imports Sched_Tick
begin

text \<open>
  The properties of the scheduler: the choice of the next task, fairness of the round robin, the
  priority lists and the priority mask, and the tick.
\<close>

section \<open>A sample state\<close>

text \<open>
  Task 0 (priority 0) waits in a system call for the semaphore at \<open>0x20008008\<close> with one tick
  left; tasks 2 and 1 (priority 1) are ready, and task 2 was chosen last.
\<close>

definition demo_tcb :: "task_state \<Rightarrow> u32 \<Rightarrow> tcb_ptr option \<Rightarrow> tcb" where
  "demo_tcb st pr nx = zero_tcb\<lparr>tstate := st, priority := pr, next_task := nx\<rparr>"

definition demo_sched :: kernel where
  "demo_sched = demo_boot\<lparr>
     tcb_pool := (tcb_pool demo_boot)
       (0 := (demo_tcb TASK_WAITING 0 None)\<lparr>flags := 2, delay_ticks := 1,
               blocking_wait_list := Some (SemWait 0x20008008), stack_pointer := 0x20008100\<rparr>,
        1 := demo_tcb TASK_READY 1 None,
        2 := demo_tcb TASK_READY 1 (Some 1)),
     task_list := (task_list demo_boot)(0 := Some 0, 1 := Some 2),
     rr_current := (rr_current demo_boot)(1 := Some 1),
     g_priority_mask := 3,
     sems := [0x20008008 \<mapsto> \<lparr>sem_count = 0, sem_wait_list = Some 0\<rparr>]\<rparr>"

definition demo_lists :: "nat \<Rightarrow> tcb_ptr list" where
  "demo_lists = (\<lambda>_. [])(0 := [0], 1 := [2, 1])"

definition demo_waits :: "wait_head \<Rightarrow> tcb_ptr list" where
  "demo_waits = (\<lambda>_. [])(SemWait 0x20008008 := [0])"

lemmas demo_sched_simps =
  demo_sched_def demo_lists_def demo_waits_def demo_boot_def boot_kernel_def demo_tcb_def zero_tcb_def

lemma demo_mask: "bit (3 :: u8) pr \<longleftrightarrow> pr \<in> {0, 1}"
proof -
  have "(3 :: u8) = mask 2" by (simp add: mask_eq_exp_minus_1)
  then show ?thesis by (simp only: bit_mask_iff) auto
qed

lemma demo_sched_wf: "sched_wf demo_lists demo_sched"
  unfolding sched_wf_def
proof (intro conjI allI impI ballI)
  fix pr
  show "chain (next_nx demo_sched) (task_list demo_sched pr) (demo_lists pr)"
    by (simp add: demo_sched_simps)
  show "bit (g_priority_mask demo_sched) pr \<longleftrightarrow> demo_lists pr \<noteq> []"
  proof -
    have "g_priority_mask demo_sched = 3" by (simp add: demo_sched_def)
    then show ?thesis by (simp only: demo_mask) (simp add: demo_lists_def)
  qed
  show "s \<in> set (demo_lists pr)" if "rr_current demo_sched pr = Some s" for s
    using that by (auto simp: demo_sched_simps split: if_splits)
  show "unat (priority (tcb_pool demo_sched t)) = pr" "pr < MAX_TASK_PRIORITIES"
    if "t \<in> set (demo_lists pr)" for t
    using that by (auto simp: demo_sched_simps split: if_splits)
qed

lemma demo_waits_wf: "wait_wf demo_waits demo_sched"
proof -
  have "read_head h demo_sched = (if h = SemWait 0x20008008 then Some (Some 0) else None)" for h
    by (cases h) (simp_all add: read_head_def demo_sched_simps)
  then show ?thesis
    by (auto simp: wait_wf_def demo_sched_simps split: if_splits)
qed

lemma demo_timeouts: "timeouts_ok demo_waits demo_sched"
  by (auto simp: timeouts_ok_def demo_sched_simps split: if_splits)

section \<open>The choice of the next task\<close>

text \<open>
  C14. On every well-formed state \<open>scheduler_get_next\<close> returns (its circular loops end), restores
  PRIMASK and changes nothing but the cursor of the chosen priority.  It returns null exactly when
  no task at all is READY; otherwise the task it returns is READY, no task of a higher priority
  is, it is the first READY one in ring order, and the ring goes on right behind it.
\<close>

theorem scheduler_get_next_correct:
  assumes "sched_wf L k"
  shows "\<exists>r k'. scheduler_get_next k = Some (r, k') \<and> sched_wf L k' \<and>
    k'\<lparr>rr_current := rr_current k\<rparr> = k \<and>
    (case r of
       None \<Rightarrow> k' = k \<and> (\<forall>pr. \<forall>t \<in> set (L pr). \<not> ready k t)
     | Some t \<Rightarrow> \<exists>pr as bs. rr_ring L k pr = as @ t # bs \<and> ready k t \<and> (\<forall>u \<in> set as. \<not> ready k u) \<and>
         (\<forall>pr' < pr. \<forall>u \<in> set (L pr'). \<not> ready k u) \<and>
         rr_ring L k' pr = bs @ as @ [t] \<and> (\<forall>pr'. pr' \<noteq> pr \<longrightarrow> rr_current k' pr' = rr_current k pr'))"
proof (cases "\<exists>pr. top_ready L k pr")
  case True
  then obtain pr where top: "top_ready L k pr" by blast
  obtain as t bs k' where r: "scheduler_get_next k = Some (Some t, k')"
    "rr_ring L k pr = as @ t # bs" "ready k t" "\<forall>u \<in> set as. \<not> ready k u"
    "rr_ring L k' pr = bs @ as @ [t]" "sched_wf L k'"
    "k' = k\<lparr>rr_current := (rr_current k)(pr := rr_current k' pr)\<rparr>"
    by (rule scheduler_get_next_some [OF assms top])
  have "k'\<lparr>rr_current := rr_current k\<rparr> = k" by (subst r(7)) simp
  moreover have "rr_current k' pr' = rr_current k pr'" if "pr' \<noteq> pr" for pr'
    using that by (subst r(7)) simp
  ultimately show ?thesis
    using r(1-6) top unfolding top_ready_def by (intro exI [of _ "Some t"] exI [of _ k']) auto
next
  case False
  then have none: "\<forall>pr. \<not> top_ready L k pr" by blast
  have "\<not> ready k t" if "t \<in> set (L pr)" for t pr
    using scheduler_get_next_none(2) [OF assms none _ that] sched_wf_priority [OF assms that] by blast
  then show ?thesis
    using scheduler_get_next_none(1) [OF assms none] assms by auto
qed

theorem scheduler_get_next_correct_witness:
  "sched_wf demo_lists demo_sched \<and>
   (\<exists>k'. scheduler_get_next demo_sched = Some (Some 1, k') \<and> sched_wf demo_lists k' \<and>
      rr_ring demo_lists k' 1 = [2, 1])"
proof -
  from scheduler_get_next_correct [OF demo_sched_wf] obtain r k' where
    r: "scheduler_get_next demo_sched = Some (r, k')" "sched_wf demo_lists k'" and
    c: "case r of
       None \<Rightarrow> k' = demo_sched \<and> (\<forall>pr. \<forall>t \<in> set (demo_lists pr). \<not> ready demo_sched t)
     | Some t \<Rightarrow> \<exists>pr as bs. rr_ring demo_lists demo_sched pr = as @ t # bs \<and> ready demo_sched t \<and>
         (\<forall>u \<in> set as. \<not> ready demo_sched u) \<and>
         (\<forall>pr' < pr. \<forall>u \<in> set (demo_lists pr'). \<not> ready demo_sched u) \<and>
         rr_ring demo_lists k' pr = bs @ as @ [t] \<and>
         (\<forall>pr'. pr' \<noteq> pr \<longrightarrow> rr_current k' pr' = rr_current demo_sched pr')"
    by blast
  have "ready demo_sched 1" "1 \<in> set (demo_lists 1)" by (simp_all add: demo_sched_simps)
  then obtain t where t: "r = Some t" using c by (cases r) auto
  then obtain pr as bs where ring: "rr_ring demo_lists demo_sched pr = as @ t # bs" "ready demo_sched t"
    "\<forall>u \<in> set as. \<not> ready demo_sched u" "rr_ring demo_lists k' pr = bs @ as @ [t]"
    using c by auto
  have "t \<in> set (demo_lists pr)" using ring(1) rr_ring_set [of demo_lists demo_sched pr] by auto
  then have "pr = 1" using ring(2) by (auto simp: demo_sched_simps split: if_splits)
  moreover have "rr_ring demo_lists demo_sched 1 = [1, 2]" by (simp add: rr_ring_def demo_sched_simps)
  moreover have "ready demo_sched 1" by (simp add: demo_sched_simps)
  ultimately have "as = [] \<and> t = 1 \<and> bs = [2]" using ring(1,3) by (cases as) auto
  then show ?thesis using r t ring(4) \<open>pr = 1\<close> demo_sched_wf by auto
qed

text \<open>\<open>n\<close> calls in a row, and the tasks they return.\<close>

primrec get_next_n :: "nat \<Rightarrow> kernel \<Rightarrow> (tcb_ptr option list \<times> kernel) option" where
  "get_next_n 0 k = Some ([], k)"
| "get_next_n (Suc n) k = do {
     (r, k) \<leftarrow> scheduler_get_next k;
     (rs, k) \<leftarrow> get_next_n n k;
     Some (r # rs, k)
   }"

lemma rotate1_nth_mod: "xs \<noteq> [] \<Longrightarrow> rotate1 xs ! (i mod length xs) = xs ! (Suc i mod length xs)"
  by (simp add: nth_rotate1 mod_simps)

text \<open>
  C15. Fairness: as long as the READY tasks stay the same, consecutive choices go round the READY
  tasks of the highest priority in ring order.  With \<open>n\<close> of them, the first \<open>n\<close> choices return
  each exactly once, and choice \<open>i\<close> is choice \<open>i\<close> modulo \<open>n\<close> again.
\<close>

theorem round_robin_fair:
  assumes "sched_wf L k" "top_ready L k pr"
  shows "\<exists>k'. get_next_n n k =
    Some (map (\<lambda>i. Some ([t\<leftarrow>rr_ring L k pr. ready k t] ! (i mod length [t\<leftarrow>L pr. ready k t]))) [0..<n], k')
    \<and> distinct [t\<leftarrow>rr_ring L k pr. ready k t] \<and>
      length [t\<leftarrow>rr_ring L k pr. ready k t] = length [t\<leftarrow>L pr. ready k t]"
proof -
  let ?n = "length [t\<leftarrow>L pr. ready k t]"
  have ring: "distinct (rr_ring L j pr)" "distinct (L pr)" if "sched_wf L j" for j
    using rr_ring_rotate [of L j pr] sched_wf_distinct [OF that, of pr] by auto
  have len: "length [t\<leftarrow>rr_ring L j pr. P t] = length [t\<leftarrow>L pr. P t]" if "sched_wf L j" for j P
    using distinct_card [OF distinct_filter [OF ring(1) [OF that], of P]]
      distinct_card [OF distinct_filter [OF ring(2) [OF that], of P]] by simp
  have dist: "distinct [t\<leftarrow>rr_ring L k pr. ready k t]"
    using ring(1) [OF assms(1)] by (rule distinct_filter)
  have "\<exists>k'. get_next_n n j = Some (map (\<lambda>i. Some ([t\<leftarrow>rr_ring L j pr. ready k t] ! (i mod ?n))) [0..<n], k')"
    if "sched_wf L j" "tcb_pool j = tcb_pool k" for j
    using that
  proof (induction n arbitrary: j)
    case (Suc n)
    have top: "top_ready L j pr" using assms(2) Suc.prems(2) by (simp add: top_ready_def)
    obtain as t bs j' where r: "scheduler_get_next j = Some (Some t, j')"
      "rr_ring L j pr = as @ t # bs" "ready j t" "\<forall>u \<in> set as. \<not> ready j u"
      "rr_ring L j' pr = bs @ as @ [t]" "sched_wf L j'"
      "j' = j\<lparr>rr_current := (rr_current j)(pr := rr_current j' pr)\<rparr>"
      by (rule scheduler_get_next_some [OF Suc.prems(1) top])
    have pool: "tcb_pool j' = tcb_pool k" using Suc.prems(2) by (subst r(7)) simp
    let ?xs = "[t\<leftarrow>rr_ring L j pr. ready k t]" and ?ys = "[t\<leftarrow>rr_ring L j' pr. ready k t]"
    have as: "filter (ready k) as = []" using r(4) Suc.prems(2) by (simp add: filter_empty_conv)
    have xs: "?xs = t # filter (ready k) bs" "?ys = filter (ready k) bs @ [t]"
      using r(2,3,5) as Suc.prems(2) by simp_all
    then have ys: "?ys = rotate1 ?xs" by simp
    have n: "length ?xs = ?n" "?xs \<noteq> []"
      using len [OF Suc.prems(1), of "ready k"] xs(1) by (simp, simp)
    obtain k' where "get_next_n n j' = Some (map (\<lambda>i. Some (?ys ! (i mod ?n))) [0..<n], k')"
      using Suc.IH [OF r(6) pool] by blast
    moreover have "?ys ! (i mod ?n) = ?xs ! (Suc i mod ?n)" for i
      using rotate1_nth_mod [OF n(2), of i] n(1) ys by simp
    moreover have "map (\<lambda>i. Some (?xs ! (i mod ?n))) [0..<Suc n] =
        Some t # map (\<lambda>i. Some (?xs ! (Suc i mod ?n))) [0..<n]"
      using xs(1) by (simp add: map_upt_Suc del: upt_Suc)
    ultimately show ?case using r(1) by simp
  qed simp
  then show ?thesis using assms(1) dist len by blast
qed

theorem round_robin_fair_witness:
  "\<exists>k'. get_next_n 4 demo_sched = Some ([Some 1, Some 2, Some 1, Some 2], k')"
proof -
  have top: "top_ready demo_lists demo_sched 1"
    by (auto simp: top_ready_def demo_sched_simps)
  have "rr_ring demo_lists demo_sched 1 = [1, 2]" by (simp add: rr_ring_def demo_sched_simps)
  moreover have "ready demo_sched 1" "ready demo_sched 2" "demo_lists 1 = [2, 1]"
    by (simp_all add: demo_sched_simps)
  moreover have "[0..<4] = [0, 1, 2, 3::nat]" by (simp add: upt_rec)
  moreover have "2 mod 2 = (0::nat)" "3 mod 2 = (1::nat)" by simp_all
  ultimately show ?thesis using round_robin_fair [OF demo_sched_wf top, of 4] by (simp add: numeral_2_eq_2 [symmetric])
qed

section \<open>The priority lists\<close>

text \<open>
  \<open>scheduler_add_task\<close> puts a task that is in no list at the head of the list of its priority,
  sets the bit of that priority and requests a switch; \<open>scheduler_remove_task\<close> takes it out again
  and the priority lists, cursors and mask are as before.  In between the state is well formed.
\<close>

theorem scheduler_add_remove:
  assumes "sched_wf L k" "unat (priority (tcb_pool k t)) = pr" "pr < MAX_TASK_PRIORITIES"
    "\<And>pr. t \<notin> set (L pr)"
  shows "\<exists>k1 k2. scheduler_add_task t k = Some k1 \<and> sched_wf (L(pr := t # L pr)) k1 \<and> pendsv k1 \<and>
    bit (g_priority_mask k1) pr \<and> primask k1 = primask k \<and>
    scheduler_remove_task t k1 = Some k2 \<and> sched_wf L k2 \<and> primask k2 = primask k \<and>
    next_task (tcb_pool k2 t) = None \<and>
    (\<forall>pr < MAX_TASK_PRIORITIES. bit (g_priority_mask k2) pr = bit (g_priority_mask k) pr)"
proof -
  obtain k1 where k1: "scheduler_add_task t k = Some k1" "sched_wf (L(pr := t # L pr)) k1"
    "k1 = k\<lparr>tcb_pool := tcb_pool k1, task_list := (task_list k)(pr := Some t),
            g_priority_mask := g_priority_mask k OR push_bit pr 1, pendsv := True\<rparr>"
    by (rule scheduler_add_task_wf [OF assms])
  let ?L = "L(pr := t # L pr)"
  have t: "t \<in> set (?L pr)" by simp
  obtain k2 where k2: "scheduler_remove_task t k1 = Some k2" "sched_wf (?L(pr := remove1 t (?L pr))) k2"
    "k2 = k1\<lparr>tcb_pool := tcb_pool k2, task_list := task_list k2, rr_current := rr_current k2,
            g_priority_mask := g_priority_mask k2\<rparr>"
    "next_task (tcb_pool k2 t) = None"
    by (rule scheduler_remove_task_wf [OF k1(2) t])
  have L: "?L(pr := remove1 t (?L pr)) = L" by auto
  have "primask k2 = primask k1" by (subst k2(3)) simp
  moreover have "primask k1 = primask k" "pendsv k1" by (subst k1(3), simp)+
  moreover have "bit (g_priority_mask k2) q = bit (g_priority_mask k) q" if "q < MAX_TASK_PRIORITIES" for q
    using sched_wf_mask [OF k2(2) [unfolded L] that] sched_wf_mask [OF assms(1) that] by simp
  moreover have "bit (g_priority_mask k1) pr" using sched_wf_mask [OF k1(2) assms(3)] by simp
  ultimately show ?thesis using k1(1,2) k2(1,4) k2(2) [unfolded L] by auto
qed

theorem scheduler_add_remove_witness:
  "\<exists>k1 k2. scheduler_add_task 3 demo_sched = Some k1 \<and> sched_wf (demo_lists(0 := [3, 0])) k1 \<and>
     scheduler_remove_task 3 k1 = Some k2 \<and> sched_wf demo_lists k2"
proof -
  have "unat (priority (tcb_pool demo_sched 3)) = 0" "\<And>pr. 3 \<notin> set (demo_lists pr)"
    by (simp_all add: demo_sched_simps)
  from scheduler_add_remove [OF demo_sched_wf this(1) _ this(2)]
  have "\<exists>k1 k2. scheduler_add_task 3 demo_sched = Some k1 \<and>
      sched_wf (demo_lists(0 := 3 # demo_lists 0)) k1 \<and>
      scheduler_remove_task 3 k1 = Some k2 \<and> sched_wf demo_lists k2"
    by auto
  moreover have "demo_lists 0 = [0]" by (simp add: demo_lists_def)
  ultimately show ?thesis by simp
qed

text \<open>
  \<open>scheduler_get_first_ready_priority\<close> answers the first priority that has a task at all,
  READY or not, and \<open>MAX_TASK_PRIORITIES\<close> when there is none: the mask tracks which lists are
  nonempty.
\<close>

theorem first_ready_priority_nonempty:
  assumes "sched_wf L k"
  shows "scheduler_get_first_ready_priority k =
    (if \<forall>pr. L pr = [] then MAX_TASK_PRIORITIES else LEAST pr. L pr \<noteq> [])"
proof -
  have bits: "bit (g_priority_mask k) pr \<longleftrightarrow> L pr \<noteq> []" for pr
  proof (cases "pr < MAX_TASK_PRIORITIES")
    case True
    then show ?thesis using sched_wf_mask [OF assms] by blast
  next
    case False
    then have "L pr = []"
      using sched_wf_priority [OF assms, of "hd (L pr)" pr] by (metis list.set_sel(1))
    moreover have "\<not> bit (g_priority_mask k) pr" using False bit_imp_le_length [of "g_priority_mask k" pr] by auto
    ultimately show ?thesis by simp
  qed
  show ?thesis
  proof (cases "\<forall>pr. L pr = []")
    case True
    then have "g_priority_mask k = 0" using mask_word_nonzero bits by blast
    then show ?thesis using True by (simp add: scheduler_get_first_ready_priority_def)
  next
    case False
    then obtain pr where "L pr \<noteq> []" by blast
    then have bit: "bit (g_priority_mask k) pr" using bits by blast
    then have "g_priority_mask k \<noteq> 0" by auto
    moreover have u: "bit (ucast (g_priority_mask k) :: u32) i \<longleftrightarrow> L i \<noteq> []" for i
      using bits [of i] bit_imp_le_length [of "g_priority_mask k" i] by (auto simp: bit_simps)
    moreover have "(ucast (g_priority_mask k) :: u32) \<noteq> 0" using u [of pr] \<open>L pr \<noteq> []\<close> by auto
    ultimately have "scheduler_get_first_ready_priority k = (LEAST pr. L pr \<noteq> [])"
      unfolding scheduler_get_first_ready_priority_def
      using ctz32_least [of "ucast (g_priority_mask k)"] by simp
    then show ?thesis using False by (simp only: if_False)
  qed
qed

theorem first_ready_priority_nonempty_witness:
  "sched_wf demo_lists demo_sched \<and> scheduler_get_first_ready_priority demo_sched = 0 \<and>
   demo_lists 0 = [0] \<and> \<not> ready demo_sched 0"
proof -
  have ne: "demo_lists 0 \<noteq> []" by (simp add: demo_lists_def)
  then have "(LEAST pr. demo_lists pr \<noteq> []) = 0" by (rule Least_eq_0)
  moreover have "\<not> (\<forall>pr. demo_lists pr = [])" using ne by blast
  ultimately have "scheduler_get_first_ready_priority demo_sched = 0"
    using first_ready_priority_nonempty [OF demo_sched_wf] by (simp only: if_False)
  moreover have "demo_lists 0 = [0]" "\<not> ready demo_sched 0" by (simp_all add: demo_sched_simps demo_lists_def)
  ultimately show ?thesis using demo_sched_wf by blast
qed

section \<open>The tick\<close>

definition tick_tcb :: "tcb \<Rightarrow> tcb" where
  "tick_tcb c =
     (if tstate c = TASK_WAITING \<and> 0 < delay_ticks c then
        if delay_ticks c = 1 then
          case blocking_wait_list c of
            None \<Rightarrow> c\<lparr>delay_ticks := 0, tstate := TASK_READY\<rparr>
          | Some h \<Rightarrow> c\<lparr>delay_ticks := 0, blocking_wait_list := None,
              flags := (flags c OR TASK_FLAG_TIMED_OUT) AND NOT TASK_FLAG_SVC_BLOCKED,
              tstate := TASK_READY\<rparr>
        else c\<lparr>delay_ticks := delay_ticks c - 1\<rparr>
      else c)"

lemma tick_tcb_eq: "sync_tcb (sleep_tcb c) = tick_tcb c"
proof -
  have "tstate c = TASK_WAITING \<Longrightarrow> c\<lparr>delay_ticks := d, tstate := TASK_WAITING\<rparr> = c\<lparr>delay_ticks := d\<rparr>" for d
    by (cases c) simp
  then show ?thesis
    by (auto simp: tick_tcb_def sync_tcb_def sleep_tcb_def sync_expires_def split: option.splits)
qed

lemma sync_expires_sleep [simp]: "sync_expires (sleep_tcb c) = sync_expires c"
  by (auto simp: sync_expires_def sleep_tcb_def)

lemma deliver_sleep [simp]: "deliver r (sleep_tcb c) = deliver r c"
  by (auto simp: deliver_def saved_r0_def fun_eq_iff)

lemma tick_tcb_lists [simp]: "next_task (tick_tcb c) = next_task c" "priority (tick_tcb c) = priority c"
  by (auto simp: tick_tcb_def split: option.splits)

text \<open>What a tick leaves alone.\<close>

definition tick_kept :: "kernel \<Rightarrow> kernel \<Rightarrow> bool" where
  "tick_kept k k' \<longleftrightarrow> task_list k' = task_list k \<and> rr_current k' = rr_current k \<and>
     g_priority_mask k' = g_priority_mask k \<and> current_task k' = current_task k \<and>
     kernel_tcb k' = kernel_tcb k \<and> kwork_buf k' = kwork_buf k \<and> kwork_head k' = kwork_head k \<and>
     kwork_tail k' = kwork_tail k \<and> (pendsv k \<longrightarrow> pendsv k')"

lemma scheduler_tick_run:
  assumes "sched_wf L k" "wait_wf W k" "timeouts_ok W k"
  shows "\<exists>k'. scheduler_tick k = Some k' \<and> tick_count k' = tick_count k + 1 \<and>
    sched_wf L k' \<and> primask k' = primask k \<and>
    wait_wf (\<lambda>h. [t\<leftarrow>W h. \<not> (t \<in> set (all_tasks L) \<and> sync_expires (tcb_pool k t))]) k' \<and>
    timeouts_ok (\<lambda>h. [t\<leftarrow>W h. \<not> (t \<in> set (all_tasks L) \<and> sync_expires (tcb_pool k t))]) k' \<and>
    (\<forall>t. (tcb_pool k' t)\<lparr>wait_next := None\<rparr> =
       (if t \<in> set (all_tasks L) then tick_tcb (tcb_pool k t) else tcb_pool k t)\<lparr>wait_next := None\<rparr>) \<and>
    mem k' = fold (\<lambda>t. deliver (- 1) (tcb_pool k t))
      [t\<leftarrow>all_tasks L. sync_expires (tcb_pool k t)] (mem k) \<and> tick_kept k k'"
proof -
  let ?T = "all_tasks L"
  let ?k0 = "k\<lparr>tick_count := tick_count k + 1\<rparr>"
  let ?pool = "\<lambda>t. if t \<in> set ?T then sleep_tcb (tcb_pool k t) else tcb_pool k t"
  let ?k1 = "?k0\<lparr>tcb_pool := ?pool\<rparr>"
  have wf0: "sched_wf L ?k0" using assms(1) by (subst sched_wf_cong [of _ k]) simp_all
  have pass1: "for_priorities sleep_tick_task [0..<MAX_TASK_PRIORITIES] ?k0 = Some ?k1"
    using for_all_tasks [OF wf0 keeps_sleep] for_list_sleep [OF all_tasks_distinct [OF assms(1)], of ?k0]
    by (simp cong: if_cong)
  have wf1: "sched_wf L ?k1" using assms(1) by (subst sched_wf_cong [of _ k]) simp_all
  have heads: "read_head h ?k1 = read_head h k" for h by (cases h) (simp_all add: read_head_def)
  have ww: "wait_wf W ?k1" using assms(2) heads by (subst wait_wf_cong [of _ k]) simp_all
  have ok: "timeouts_ok W ?k1"
    using assms(3) by (auto simp: timeouts_ok_def sleep_tcb_def split: if_splits)
  have pass2: "scheduler_tick k = for_list sync_tick_task ?T ?k1"
    using pass1 for_all_tasks [OF wf1 keeps_sync] by (simp add: scheduler_tick_def sync_tick_all_def)
  obtain k' where k': "for_list sync_tick_task ?T ?k1 = Some k'"
    "wait_wf (\<lambda>h. [t\<leftarrow>W h. \<not> (t \<in> set ?T \<and> sync_expires (tcb_pool ?k1 t))]) k'"
    "timeouts_ok (\<lambda>h. [t\<leftarrow>W h. \<not> (t \<in> set ?T \<and> sync_expires (tcb_pool ?k1 t))]) k'"
    "\<forall>t. (tcb_pool k' t)\<lparr>wait_next := None\<rparr> =
         (if t \<in> set ?T then sync_tcb (tcb_pool ?k1 t) else tcb_pool ?k1 t)\<lparr>wait_next := None\<rparr>"
    "mem k' = fold (\<lambda>t. deliver (- 1) (tcb_pool ?k1 t)) [t\<leftarrow>?T. sync_expires (tcb_pool ?k1 t)] (mem ?k1)"
    "tick_frame ?k1 k'" "pendsv k' = (pendsv ?k1 \<or> (\<exists>t \<in> set ?T. sync_expires (tcb_pool ?k1 t)))"
    using for_list_sync [OF all_tasks_distinct [OF assms(1)] ww ok] by blast
  have ex: "sync_expires (tcb_pool ?k1 t) = sync_expires (tcb_pool k t)" for t by simp
  have del: "deliver r (tcb_pool ?k1 t) = deliver r (tcb_pool k t)" for t r by simp
  have pool: "(tcb_pool k' t)\<lparr>wait_next := None\<rparr> =
      (if t \<in> set ?T then tick_tcb (tcb_pool k t) else tcb_pool k t)\<lparr>wait_next := None\<rparr>" for t
    using k'(4) by (simp add: tick_tcb_eq)
  have e: "k'\<lparr>tcb_pool := tcb_pool ?k1, sems := sems ?k1, mutexes := mutexes ?k1,
      queues := queues ?k1, mem := mem ?k1, pendsv := pendsv ?k1\<rparr> = ?k1"
    using k'(6) unfolding tick_frame_def by blast
  have fields: "tick_count k' = tick_count k + 1" "primask k' = primask k"
    "task_list k' = task_list k" "rr_current k' = rr_current k" "g_priority_mask k' = g_priority_mask k"
    using arg_cong [OF e, of tick_count] arg_cong [OF e, of primask] arg_cong [OF e, of task_list]
      arg_cong [OF e, of rr_current] arg_cong [OF e, of g_priority_mask] by simp_all
  have "sched_wf L k'"
    using assms(1) fields(3-5) strip_fields(6,7) [OF pool]
    by (subst sched_wf_cong [of _ k]) simp_all
  moreover have "tick_kept k k'"
    using fields(3-5) k'(7) arg_cong [OF e, of current_task] arg_cong [OF e, of kernel_tcb]
      arg_cong [OF e, of kwork_buf] arg_cong [OF e, of kwork_head] arg_cong [OF e, of kwork_tail]
    by (simp add: tick_kept_def)
  ultimately show ?thesis
    using pass2 k'(1,2,3,5) fields(1,2) pool unfolding ex del by auto
qed

lemma scheduler_tick_full:
  assumes "sched_wf L k" "wait_wf W k" "timeouts_ok W k"
  shows "\<exists>k'. scheduler_tick k = Some k' \<and> tick_count k' = tick_count k + 1 \<and>
    sched_wf L k' \<and> primask k' = primask k \<and>
    wait_wf (\<lambda>h. [t\<leftarrow>W h. \<not> (t \<in> set (all_tasks L) \<and> sync_expires (tcb_pool k t))]) k' \<and>
    timeouts_ok (\<lambda>h. [t\<leftarrow>W h. \<not> (t \<in> set (all_tasks L) \<and> sync_expires (tcb_pool k t))]) k' \<and>
    (\<forall>t. (tcb_pool k' t)\<lparr>wait_next := None\<rparr> =
       (if t \<in> set (all_tasks L) then tick_tcb (tcb_pool k t) else tcb_pool k t)\<lparr>wait_next := None\<rparr>) \<and>
    mem k' = fold (\<lambda>t. deliver (- 1) (tcb_pool k t))
      [t\<leftarrow>all_tasks L. sync_expires (tcb_pool k t)] (mem k)"
  using scheduler_tick_run [OF assms] by blast

text \<open>
  C16. One tick returns (all its loops end), counts the tick, and ages every waiting task of the
  priority lists exactly once: a delay or timeout above one is decremented; a sleeping task whose
  delay ends becomes READY; a task whose timeout ends is spliced out of the list it waits in,
  marked timed out, made READY, and, when it is blocked in a system call, gets \<open>-1\<close> in its saved
  R0.  Every other task, wait list and byte of memory stays as it is.
\<close>

theorem scheduler_tick_correct:
  assumes "sched_wf L k" "wait_wf W k" "timeouts_ok W k"
  shows "\<exists>k'. scheduler_tick k = Some k' \<and> tick_count k' = tick_count k + 1 \<and>
    sched_wf L k' \<and> primask k' = primask k \<and>
    wait_wf (\<lambda>h. [t\<leftarrow>W h. \<not> (t \<in> set (all_tasks L) \<and> sync_expires (tcb_pool k t))]) k' \<and>
    timeouts_ok (\<lambda>h. [t\<leftarrow>W h. \<not> (t \<in> set (all_tasks L) \<and> sync_expires (tcb_pool k t))]) k' \<and>
    (\<forall>t. (tcb_pool k' t)\<lparr>wait_next := None\<rparr> =
       (if t \<in> set (all_tasks L) then tick_tcb (tcb_pool k t) else tcb_pool k t)\<lparr>wait_next := None\<rparr>) \<and>
    mem k' = fold (\<lambda>t. deliver (- 1) (tcb_pool k t))
      [t\<leftarrow>all_tasks L. sync_expires (tcb_pool k t)] (mem k)"
  by (rule scheduler_tick_full [OF assms])

theorem scheduler_tick_correct_witness:
  "\<exists>k'. scheduler_tick demo_sched = Some k' \<and> tick_count k' = 1 \<and>
     tstate (tcb_pool k' 0) = TASK_READY \<and> flags (tcb_pool k' 0) = TASK_FLAG_TIMED_OUT \<and>
     load32 (mem k') 0x20008120 = - 1 \<and> wait_wf (\<lambda>_. []) k'"
proof -
  let ?T = "all_tasks demo_lists"
  have T: "?T = [0, 2, 1]" by (simp add: all_tasks_def demo_lists_def upt_rec)
  have ex: "sync_expires (tcb_pool demo_sched t) \<longleftrightarrow> t = 0" if "t \<in> set ?T" for t
    using that unfolding T by (auto simp: sync_expires_def demo_sched_simps)
  have W: "(\<lambda>h. [t\<leftarrow>demo_waits h. \<not> (t \<in> set ?T \<and> sync_expires (tcb_pool demo_sched t))]) = (\<lambda>_. [])"
    using ex by (auto simp: T demo_waits_def fun_eq_iff)
  have f: "[t\<leftarrow>?T. sync_expires (tcb_pool demo_sched t)] = [0]"
    using ex by (simp add: T)
  have tick: "tick_tcb (tcb_pool demo_sched 0) = (tcb_pool demo_sched 0)\<lparr>delay_ticks := 0,
      blocking_wait_list := None, flags := 4, tstate := TASK_READY\<rparr>"
    by (simp add: tick_tcb_def demo_sched_simps)
  have sp: "tcb_pool demo_sched 0 = (tcb_pool demo_sched 0)\<lparr>flags := 2, stack_pointer := 0x20008100\<rparr>"
    by (simp add: demo_sched_simps)
  obtain k' where k': "scheduler_tick demo_sched = Some k'" "tick_count k' = tick_count demo_sched + 1"
    "wait_wf (\<lambda>h. [t\<leftarrow>demo_waits h. \<not> (t \<in> set ?T \<and> sync_expires (tcb_pool demo_sched t))]) k'"
    "\<forall>t. (tcb_pool k' t)\<lparr>wait_next := None\<rparr> = (if t \<in> set ?T then tick_tcb (tcb_pool demo_sched t)
        else tcb_pool demo_sched t)\<lparr>wait_next := None\<rparr>"
    "mem k' = fold (\<lambda>t. deliver (- 1) (tcb_pool demo_sched t))
      [t\<leftarrow>?T. sync_expires (tcb_pool demo_sched t)] (mem demo_sched)"
    using scheduler_tick_correct [OF demo_sched_wf demo_waits_wf demo_timeouts] by blast
  have "tcb_pool demo_sched 0 = (demo_tcb TASK_WAITING 0 None)\<lparr>flags := 2, delay_ticks := 1,
      blocking_wait_list := Some (SemWait 0x20008008), stack_pointer := 0x20008100\<rparr>"
    by (simp add: demo_sched_def)
  then have "mem k' = store32 (mem demo_sched) 0x20008120 (- 1)"
    using k'(5) f by (simp add: deliver_def saved_r0_def)
  moreover have "(tcb_pool k' 0)\<lparr>wait_next := None\<rparr> = (tick_tcb (tcb_pool demo_sched 0))\<lparr>wait_next := None\<rparr>"
    using k'(4) T by simp
  note st = strip_fields(1,3) [OF this]
  moreover have "tick_count demo_sched = 0" by (simp add: demo_sched_simps)
  ultimately show ?thesis using k'(1,2,3) unfolding W by (simp add: tick)
qed

end
