(* ===== verification/Blocking.thy ===== *)
theory Blocking
  imports Sched_Tick
begin

text \<open>
  What the blocking calls of semaphores, mutexes and queues share: a call that blocks is split at
  \<open>port_trigger_pendsv()\<close> into the part before it (result \<open>Suspend\<close>) and the part that runs when
  the task is resumed.  The contract of a wait list is a locale, interpreted for the stacks of
  semaphores and mutexes and for the FIFO lists of queues.
\<close>

section \<open>The code\<close>

text \<open>The int a call returns, or the call is suspended.\<close>

datatype call = Return u32 | Suspend

text \<open>
  \<open>if (timeout_ms != CREST_WAIT_FOREVER) { t->delay_ticks = timeout_ms;
  t->blocking_wait_list = head; } else { t->delay_ticks = 0; t->blocking_wait_list = NULL; }\<close>
\<close>

definition set_timeout :: "wait_head \<Rightarrow> tcb_ptr \<Rightarrow> u32 \<Rightarrow> kernel \<Rightarrow> kernel" where
  "set_timeout h t timeout_ms k =
     upd_tcb t (\<lambda>c. if timeout_ms \<noteq> CREST_WAIT_FOREVER
       then c\<lparr>delay_ticks := timeout_ms, blocking_wait_list := Some h\<rparr>
       else c\<lparr>delay_ticks := 0, blocking_wait_list := None\<rparr>) k"

text \<open>\<open>cur->flags &= ~TASK_FLAG_TIMED_OUT; cur->state = TASK_WAITING;\<close>\<close>

definition set_waiting :: "tcb_ptr \<Rightarrow> kernel \<Rightarrow> kernel" where
  "set_waiting t k =
     upd_tcb t (\<lambda>c. c\<lparr>flags := flags c AND NOT TASK_FLAG_TIMED_OUT, tstate := TASK_WAITING\<rparr>) k"

text \<open>
  The rest of \<open>z_impl_sem_take_timeout\<close> and \<open>z_impl_mutex_lock_timeout\<close> after the task \<open>cur\<close> is
  resumed.
\<close>

definition timed_resume :: "tcb_ptr \<Rightarrow> kernel \<Rightarrow> u32 \<times> kernel" where
  "timed_resume cur k =
     (if flags (tcb_pool k cur) AND TASK_FLAG_TIMED_OUT \<noteq> 0
      then (- 1, upd_tcb cur (\<lambda>c. c\<lparr>flags := flags c AND NOT TASK_FLAG_TIMED_OUT\<rparr>) k)
      else (0, k))"

section \<open>The invariant of waiting tasks\<close>

text \<open>
  A task on a wait list is WAITING; with a timeout it knows its list, without one it has none.
\<close>

definition waiting_ok :: "(wait_head \<Rightarrow> tcb_ptr list) \<Rightarrow> kernel \<Rightarrow> bool" where
  "waiting_ok W k \<longleftrightarrow> (\<forall>h. \<forall>t \<in> set (W h). tstate (tcb_pool k t) = TASK_WAITING \<and>
     blocking_wait_list (tcb_pool k t) = (if 0 < delay_ticks (tcb_pool k t) then Some h else None))"

definition prim_inv :: "(wait_head \<Rightarrow> tcb_ptr list) \<Rightarrow> kernel \<Rightarrow> bool" where
  "prim_inv W k \<longleftrightarrow> wait_wf W k \<and> timeouts_ok W k \<and> waiting_ok W k"

lemma prim_invD:
  "prim_inv W k \<Longrightarrow> wait_wf W k" "prim_inv W k \<Longrightarrow> timeouts_ok W k" "prim_inv W k \<Longrightarrow> waiting_ok W k"
  by (simp_all add: prim_inv_def)

lemma prim_inv_cong:
  assumes "tcb_pool k' = tcb_pool k" "\<And>h. read_head h k' = read_head h k"
  shows "prim_inv W k' \<longleftrightarrow> prim_inv W k"
  using wait_wf_cong [of k' k W] assms by (simp add: prim_inv_def timeouts_ok_def waiting_ok_def)

lemma read_head_fields [simp]:
  "read_head h (k\<lparr>primask := v1\<rparr>) = read_head h k" "read_head h (k\<lparr>pendsv := v2\<rparr>) = read_head h k"
  "read_head h (k\<lparr>mem := v3\<rparr>) = read_head h k" "read_head h (k\<lparr>current_task := v4\<rparr>) = read_head h k"
  "read_head h (k\<lparr>table := v5\<rparr>) = read_head h k" "read_head h (k\<lparr>kheap := v6\<rparr>) = read_head h k"
  "read_head h (k\<lparr>tcb_pool := v7\<rparr>) = read_head h k" "read_head h (k\<lparr>rr_current := v8\<rparr>) = read_head h k"
  "read_head h (k\<lparr>uart_out := v9\<rparr>) = read_head h k" "read_head h (k\<lparr>kwork_head := v10\<rparr>) = read_head h k"
  "read_head h (k\<lparr>kwork_tail := v11\<rparr>) = read_head h k" "read_head h (k\<lparr>kwork_buf := v12\<rparr>) = read_head h k"
  "read_head h (k\<lparr>tick_count := v13\<rparr>) = read_head h k"
  by (cases h; simp add: read_head_def)+

text \<open>Changes of a task that waits nowhere, and stays so.\<close>

lemma prim_inv_other:
  assumes "prim_inv W k" "\<And>h. t \<notin> set (W h)"
    "wait_next (f (tcb_pool k t)) = wait_next (tcb_pool k t)"
    "\<not> (tstate (f (tcb_pool k t)) = TASK_WAITING \<and> 0 < delay_ticks (f (tcb_pool k t)) \<and>
        blocking_wait_list (f (tcb_pool k t)) \<noteq> None)"
  shows "prim_inv W (upd_tcb t f k)"
proof -
  have "wait_wf W (upd_tcb t f k)"
    using assms(3) by (subst wait_wf_cong [of _ k]) (simp_all add: prim_invD [OF assms(1)])
  moreover have "timeouts_ok W (upd_tcb t f k)"
    using assms(4) prim_invD(2) [OF assms(1)] by (simp add: timeouts_ok_def)
  moreover have "waiting_ok W (upd_tcb t f k)"
    using assms(2) prim_invD(3) [OF assms(1)] by (auto simp: waiting_ok_def)
  ultimately show ?thesis by (simp add: prim_inv_def)
qed

section \<open>The contract of a wait list\<close>

lemma set_waiting_inv:
  assumes "prim_inv W k" "\<And>h. t \<notin> set (W h)" "blocking_wait_list (tcb_pool k t) = None"
  shows "prim_inv W (set_waiting t k)"
  unfolding set_waiting_def using assms by (intro prim_inv_other) simp_all

text \<open>
  \<open>enq h t\<close> adds the task \<open>t\<close>, which waits nowhere, to the list \<open>h\<close>, at the place \<open>ins\<close> says.
\<close>

locale wait_discipline =
  fixes enq :: "wait_head \<Rightarrow> tcb_ptr \<Rightarrow> kernel \<Rightarrow> kernel option"
    and ins :: "tcb_ptr \<Rightarrow> tcb_ptr list \<Rightarrow> tcb_ptr list"
  assumes enq_wf: "wait_wf W k \<Longrightarrow> read_head h k \<noteq> None \<Longrightarrow> (\<And>h'. t \<notin> set (W h')) \<Longrightarrow>
      \<exists>k'. enq h t k = Some k' \<and> wait_wf (W(h := ins t (W h))) k'"
    and enq_frame: "enq h t k = Some k' \<Longrightarrow> wait_frame k k'"
    and set_ins: "set (ins t xs) = insert t (set xs)"
begin

text \<open>A WAITING task blocks: it is on the list, with its timeout, and the invariant holds.\<close>

lemma block_inv:
  assumes inv: "prim_inv W k" and h: "read_head h k \<noteq> None" and t: "\<And>h'. t \<notin> set (W h')"
    and w: "tstate (tcb_pool k t) = TASK_WAITING" and tm: "timeout_ms \<noteq> 0"
  obtains k1 where "enq h t k = Some k1" "wait_frame k k1"
    "prim_inv (W(h := ins t (W h))) (set_timeout h t timeout_ms k1)"
proof -
  obtain k1 where k1: "enq h t k = Some k1" "wait_wf (W(h := ins t (W h))) k1"
    using enq_wf [OF prim_invD(1) [OF inv] h t] by blast
  note fr = enq_frame [OF k1(1)]
  let ?W = "W(h := ins t (W h))" and ?k = "set_timeout h t timeout_ms k1"
  note same = strip_fields [OF wait_frame_strip [OF fr]]
  have "wait_wf ?W ?k"
    using k1(2) by (subst wait_wf_cong [of _ k1]) (simp_all add: set_timeout_def)
  moreover have "timeouts_ok ?W ?k"
    unfolding timeouts_ok_def
  proof (intro allI impI)
    fix u g assume a: "tstate (tcb_pool ?k u) = TASK_WAITING" "0 < delay_ticks (tcb_pool ?k u)"
      "blocking_wait_list (tcb_pool ?k u) = Some g"
    show "u \<in> set (?W g)"
    proof (cases "u = t")
      case True
      then have "g = h" using a(3) by (simp add: set_timeout_def split: if_splits)
      then show ?thesis using True set_ins by simp
    next
      case False
      then have "u \<in> set (W g)"
        using a same [of u] prim_invD(2) [OF inv] by (simp add: set_timeout_def timeouts_ok_def)
      then show ?thesis using set_ins by auto
    qed
  qed
  moreover have "waiting_ok ?W ?k"
    unfolding waiting_ok_def
  proof (intro allI ballI)
    fix g u assume u: "u \<in> set (?W g)"
    show "tstate (tcb_pool ?k u) = TASK_WAITING \<and> blocking_wait_list (tcb_pool ?k u) =
        (if 0 < delay_ticks (tcb_pool ?k u) then Some g else None)"
    proof (cases "u = t")
      case True
      then have "g = h" using u t by (auto split: if_splits)
      then show ?thesis
        using True w same [of t] tm by (simp add: set_timeout_def word_gt_0)
    next
      case False
      then have "u \<in> set (W g)" using u set_ins by (auto split: if_splits)
      then show ?thesis
        using False same [of u] prim_invD(3) [OF inv] by (simp add: set_timeout_def waiting_ok_def)
    qed
  qed
  ultimately show thesis using that k1(1) fr by (simp add: prim_inv_def)
qed

text \<open>A task that already waits is queued in a critical section, as the worker does for its caller.\<close>

lemma enqueue:
  assumes inv: "prim_inv W k" and h: "read_head h k \<noteq> None" and t: "\<And>h'. t \<notin> set (W h')"
    and w: "tstate (tcb_pool k t) = TASK_WAITING" and tm: "timeout_ms \<noteq> 0"
  obtains k1 k' where "enq h t (k\<lparr>primask := 1\<rparr>) = Some k1" "k' = (set_timeout h t timeout_ms k1)\<lparr>primask := primask k\<rparr>"
    "prim_inv (W(h := ins t (W h))) k'" "prims_same k k'" "mem k' = mem k" "tstate (tcb_pool k' t) = TASK_WAITING"
    "flags (tcb_pool k' t) = flags (tcb_pool k t)"
    "delay_ticks (tcb_pool k' t) = (if timeout_ms = CREST_WAIT_FOREVER then 0 else timeout_ms)"
proof -
  let ?k0 = "k\<lparr>primask := 1\<rparr>"
  have inv0: "prim_inv W ?k0" using inv by (subst prim_inv_cong [of _ k]) simp_all
  have h0: "read_head h ?k0 \<noteq> None" using h by simp
  obtain k1 where k1: "enq h t ?k0 = Some k1" "wait_frame ?k0 k1" "prim_inv (W(h := ins t (W h))) (set_timeout h t timeout_ms k1)"
    by (rule block_inv [OF inv0 h0 t _ tm]) (simp add: w)
  let ?k' = "(set_timeout h t timeout_ms k1)\<lparr>primask := primask k\<rparr>"
  have "prim_inv (W(h := ins t (W h))) ?k'" using k1(3) by (subst prim_inv_cong) simp_all
  moreover have "prims_same ?k0 k1" using k1(2) by (simp add: wait_frame_def)
  then have "prims_same k ?k'" by (simp add: prims_same_def set_timeout_def)
  moreover have "mem ?k' = mem k" using wait_frame_fields(1) [OF k1(2)] by (simp add: set_timeout_def)
  moreover have "tstate (tcb_pool ?k' t) = TASK_WAITING" "flags (tcb_pool ?k' t) = flags (tcb_pool k t)"
    "delay_ticks (tcb_pool ?k' t) = (if timeout_ms = CREST_WAIT_FOREVER then 0 else timeout_ms)"
    using strip_fields(1,3) [OF wait_frame_strip [OF k1(2), of t]] w by (simp_all add: set_timeout_def)
  ultimately show thesis using that k1(1) by blast
qed

text \<open>The running task queues itself and asks for a switch.\<close>

lemma suspend:
  assumes inv: "prim_inv W k" and h: "read_head h k \<noteq> None" and t: "\<And>h'. t \<notin> set (W h')"
    and blk: "blocking_wait_list (tcb_pool k t) = None" and tm: "timeout_ms \<noteq> 0"
  obtains k1 k' where "enq h t (set_waiting t (k\<lparr>primask := 1\<rparr>)) = Some k1"
    "k' = (set_timeout h t timeout_ms k1)\<lparr>primask := primask k, pendsv := True\<rparr>"
    "prim_inv (W(h := ins t (W h))) k'" "prims_same k k'" "mem k' = mem k" "tstate (tcb_pool k' t) = TASK_WAITING"
    "delay_ticks (tcb_pool k' t) = (if timeout_ms = CREST_WAIT_FOREVER then 0 else timeout_ms)"
proof -
  let ?k = "set_waiting t k"
  have inv': "prim_inv W ?k" by (rule set_waiting_inv [OF inv t blk])
  have h': "read_head h ?k \<noteq> None" and w: "tstate (tcb_pool ?k t) = TASK_WAITING" using h by (simp_all add: set_waiting_def)
  have e: "set_waiting t (k\<lparr>primask := 1\<rparr>) = ?k\<lparr>primask := 1\<rparr>" "primask ?k = primask k" "mem ?k = mem k"
    by (simp_all add: set_waiting_def upd_tcb_def)
  obtain k1 k2 where k: "enq h t (?k\<lparr>primask := 1\<rparr>) = Some k1" "k2 = (set_timeout h t timeout_ms k1)\<lparr>primask := primask ?k\<rparr>"
    "prim_inv (W(h := ins t (W h))) k2" "prims_same ?k k2" "mem k2 = mem ?k" "tstate (tcb_pool k2 t) = TASK_WAITING"
    "delay_ticks (tcb_pool k2 t) = (if timeout_ms = CREST_WAIT_FOREVER then 0 else timeout_ms)"
    by (rule enqueue [OF inv' h' t w tm], rule that; assumption)
  let ?k' = "k2\<lparr>pendsv := True\<rparr>"
  have i: "prim_inv (W(h := ins t (W h))) ?k'" using k(3) by (subst prim_inv_cong [of _ k2]) simp_all
  have p: "prims_same k ?k'" using k(4) by (simp add: prims_same_def set_waiting_def)
  have f: "mem ?k' = mem k" "tstate (tcb_pool ?k' t) = TASK_WAITING"
    "delay_ticks (tcb_pool ?k' t) = (if timeout_ms = CREST_WAIT_FOREVER then 0 else timeout_ms)"
    using k(5-7) e(3) by simp_all
  have "?k' = (set_timeout h t timeout_ms k1)\<lparr>primask := primask k, pendsv := True\<rparr>" by (simp add: k(2) e(2))
  then show thesis by (rule that [OF k(1) [folded e(1)] _ i p f])
qed

end

lemma wait_frame_trans:
  assumes "wait_frame k k1" "wait_frame k1 k2"
  shows "wait_frame k k2"
proof -
  let ?f = "\<lambda>j. j\<lparr>tcb_pool := tcb_pool k, sems := sems k, mutexes := mutexes k, queues := queues k\<rparr>"
  have "k2\<lparr>tcb_pool := tcb_pool k1, sems := sems k1, mutexes := mutexes k1, queues := queues k1\<rparr> = k1"
    using assms(2) unfolding wait_frame_def by blast
  from arg_cong [OF this, of ?f] have "?f k2 = ?f k1" by simp
  then show ?thesis using assms by (simp add: wait_frame_def prims_same_def)
qed

lemma wait_push_frame: "wait_push h t k = Some k' \<Longrightarrow> wait_frame k k'"
  by (auto simp: wait_push_def split: bind_splits
      intro!: wait_frame_trans [OF wait_frame_upd [OF wait_frame_refl] wait_frame_write])

lemma wait_append_frame: "wait_append h t k = Some k' \<Longrightarrow> wait_frame k k'"
  by (auto simp: wait_append_def Let_def split: bind_splits option.splits
      intro!: wait_frame_trans [OF wait_frame_upd [OF wait_frame_refl] wait_frame_write]
        wait_frame_upd wait_frame_refl)

interpretation lifo: wait_discipline wait_push "(#)"
  by unfold_locales (use wait_push_wf wait_push_frame in auto)

interpretation fifo: wait_discipline wait_append "\<lambda>t xs. xs @ [t]"
  by unfold_locales (use wait_append_wf wait_append_frame in auto)

section \<open>Waking the first waiter\<close>

lemma scheduler_wake_task_simps [simp]:
  "read_head h (scheduler_wake_task t r k) = read_head h k"
  "primask (scheduler_wake_task t r k) = primask k" "pendsv (scheduler_wake_task t r k)"
  "sems (scheduler_wake_task t r k) = sems k" "mutexes (scheduler_wake_task t r k) = mutexes k"
  "queues (scheduler_wake_task t r k) = queues k" "table (scheduler_wake_task t r k) = table k"
  "mem (scheduler_wake_task t r k) = deliver r (tcb_pool k t) (mem k)"
  "tcb_pool (scheduler_wake_task t r k) = (tcb_pool k)(t := (tcb_pool k t)
     \<lparr>flags := flags (tcb_pool k t) AND NOT TASK_FLAG_SVC_BLOCKED, tstate := TASK_READY\<rparr>)"
  "task_list (scheduler_wake_task t r k) = task_list k"
  "rr_current (scheduler_wake_task t r k) = rr_current k"
  "g_priority_mask (scheduler_wake_task t r k) = g_priority_mask k"
  "current_task (scheduler_wake_task t r k) = current_task k"
  "kwork_buf (scheduler_wake_task t r k) = kwork_buf k"
  "kwork_head (scheduler_wake_task t r k) = kwork_head k"
  "kwork_tail (scheduler_wake_task t r k) = kwork_tail k"
  "kernel_tcb (scheduler_wake_task t r k) = kernel_tcb k"
  "kheap (scheduler_wake_task t r k) = kheap k" "ld (scheduler_wake_task t r k) = ld k"
  "uart_out (scheduler_wake_task t r k) = uart_out k"
  by (simp_all add: scheduler_wake_task_eq read_head_def upd_tcb_def split: wait_head.split)

lemma wait_pop_simps [simp]:
  "primask (wait_pop h t k) = primask k" "mem (wait_pop h t k) = mem k"
  "tcb_pool (wait_pop h t k) = (tcb_pool k)(t := (tcb_pool k t)
     \<lparr>wait_next := None, delay_ticks := 0, blocking_wait_list := None\<rparr>)"
  by (simp_all add: wait_pop_def)

text \<open>A task that waits nowhere is made READY.\<close>

lemma wake_inv:
  assumes "prim_inv W k" "\<And>h. t \<notin> set (W h)"
  shows "prim_inv W (scheduler_wake_task t r k)"
proof -
  let ?f = "\<lambda>c. c\<lparr>flags := flags c AND NOT TASK_FLAG_SVC_BLOCKED, tstate := TASK_READY\<rparr>"
  have "prim_inv W (upd_tcb t ?f k)" using assms by (intro prim_inv_other) simp_all
  then show ?thesis
    by (subst prim_inv_cong [of _ "upd_tcb t ?f k"]) simp_all
qed

lemma wait_pop_inv:
  assumes inv: "prim_inv W k" and h: "read_head h k = Some (Some t)"
  obtains ts where "W h = t # ts" "\<forall>g. t \<notin> set ((W(h := ts)) g)" "prim_inv (W(h := ts)) (wait_pop h t k)"
proof -
  note wf = prim_invD(1) [OF inv]
  note first = wait_wf_first [OF wf h]
  let ?ts = "tl (W h)" and ?k = "wait_pop h t k"
  have out: "t \<notin> set ((W(h := ?ts)) g)" for g
    using first wait_wf_disjoint [OF wf, of t g h] by (metis fun_upd_apply list.set_intros(1))
  have "wait_wf (W(h := ?ts)) ?k" by (rule wait_pop_wf [OF wf h])
  moreover have "timeouts_ok (W(h := ?ts)) ?k"
    unfolding timeouts_ok_def
  proof (intro allI impI)
    fix u g assume a: "tstate (tcb_pool ?k u) = TASK_WAITING" "0 < delay_ticks (tcb_pool ?k u)"
      "blocking_wait_list (tcb_pool ?k u) = Some g"
    then have "u \<noteq> t" by auto
    then have "u \<in> set (W g)" using a prim_invD(2) [OF inv] by (simp add: timeouts_ok_def)
    then show "u \<in> set ((W(h := ?ts)) g)"
      using first(1) \<open>u \<noteq> t\<close> by (metis fun_upd_apply set_ConsD)
  qed
  moreover have "waiting_ok (W(h := ?ts)) ?k"
    unfolding waiting_ok_def
  proof (intro allI ballI)
    fix g u assume u: "u \<in> set ((W(h := ?ts)) g)"
    then have "u \<noteq> t" using out by blast
    moreover have "u \<in> set (W g)" using u first(1) by (metis fun_upd_apply list.set_intros(2))
    ultimately show "tstate (tcb_pool ?k u) = TASK_WAITING \<and> blocking_wait_list (tcb_pool ?k u) =
        (if 0 < delay_ticks (tcb_pool ?k u) then Some g else None)"
      using prim_invD(3) [OF inv] by (simp add: waiting_ok_def)
  qed
  ultimately show thesis using that [OF first(1)] out unfolding prim_inv_def by blast
qed

text \<open>The list and its head agree on whether, and on who, waits first.\<close>

lemma waiters_head:
  assumes "prim_inv W k" "read_head h k = Some w"
  shows "W h = [] \<Longrightarrow> w = None" "W h = t # ts \<Longrightarrow> w = Some t"
  using wait_wf_chain [OF prim_invD(1) [OF assms(1)] assms(2)] by simp_all

lemma wait_pop_first:
  assumes inv: "prim_inv W k" and h: "read_head h k = Some w" and W: "W h = t # ts"
  shows "w = Some t" "\<And>g. t \<notin> set ((W(h := ts)) g)" "prim_inv (W(h := ts)) (wait_pop h t (k\<lparr>primask := 1\<rparr>))"
proof -
  show w: "w = Some t" by (rule waiters_head(2) [OF inv h W])
  have inv0: "prim_inv W (k\<lparr>primask := 1\<rparr>)" using inv by (subst prim_inv_cong [of _ k]) simp_all
  have h0: "read_head h (k\<lparr>primask := 1\<rparr>) = Some (Some t)" using h w by simp
  obtain ts' where "W h = t # ts'" "\<forall>g. t \<notin> set ((W(h := ts')) g)" "prim_inv (W(h := ts')) (wait_pop h t (k\<lparr>primask := 1\<rparr>))"
    by (rule wait_pop_inv [OF inv0 h0])
  then show "\<And>g. t \<notin> set ((W(h := ts)) g)" "prim_inv (W(h := ts)) (wait_pop h t (k\<lparr>primask := 1\<rparr>))" using W by simp_all
qed

end
