(* ===== verification/Libc.thy ===== *)
theory Libc
  imports Prelude
begin

text \<open>
  The memory routines of \<open>kernel/libc_stubs.c\<close>: \<open>memset\<close>, \<open>memcpy\<close> and
  \<open>strncpy\<close>, as loops over byte memory.  Each lemma gives the memory after the call byte
  by byte, so it states both what is written and what is left alone.
\<close>

section \<open>memset and memcpy\<close>

fun memset_loop :: "memory \<Rightarrow> u32 \<Rightarrow> u8 \<Rightarrow> nat \<Rightarrow> memory" where
  "memset_loop m p c 0 = m"
| "memset_loop m p c (Suc n) = memset_loop (m(p := c)) (p + 1) c n"

definition memset :: "memory \<Rightarrow> u32 \<Rightarrow> u32 \<Rightarrow> u32 \<Rightarrow> memory" where
  "memset m s c n = memset_loop m s (ucast c) (unat n)"

fun memcpy_loop :: "memory \<Rightarrow> u32 \<Rightarrow> u32 \<Rightarrow> nat \<Rightarrow> memory" where
  "memcpy_loop m d s 0 = m"
| "memcpy_loop m d s (Suc n) = memcpy_loop (m(d := m s)) (d + 1) (s + 1) n"

definition memcpy :: "memory \<Rightarrow> u32 \<Rightarrow> u32 \<Rightarrow> u32 \<Rightarrow> memory" where
  "memcpy m d s n = memcpy_loop m d s (unat n)"

lemma memset_loop_bytes:
  "n \<le> 4294967296 \<Longrightarrow> memset_loop m p c n b = (if b \<in> region p n then c else m b)"
proof (induction m p c n arbitrary: b rule: memset_loop.induct)
  case (2 m p c n)
  have "memset_loop (m(p := c)) (p + 1) c n b =
    (if b \<in> region (p + 1) n then c else (m(p := c)) b)"
    using "2.prems" by (intro "2.IH") simp
  with "2.prems" show ?case by (simp add: region_Suc del: fun_upd_apply) simp
qed simp

lemma memset_bytes: "memset m s c n b = (if b \<in> region s (unat n) then ucast c else m b)"
  by (simp add: memset_def memset_loop_bytes less_imp_le)

lemma memcpy_loop_bytes:
  "n \<le> 4294967296 \<Longrightarrow> region d n \<inter> region s n = {} \<Longrightarrow>
     memcpy_loop m d s n b = (if b \<in> region d n then m (s + (b - d)) else m b)"
proof (induction m d s n arbitrary: b rule: memcpy_loop.induct)
  case (2 m d s n)
  have n: "n < 4294967296" using "2.prems" by simp
  have split: "region d (Suc n) = insert d (region (d + 1) n)"
    "region s (Suc n) = insert s (region (s + 1) n)"
    using n by (simp_all add: region_Suc)
  have IH: "memcpy_loop (m(d := m s)) (d + 1) (s + 1) n b =
    (if b \<in> region (d + 1) n then (m(d := m s)) (s + 1 + (b - (d + 1))) else (m(d := m s)) b)"
    using "2.prems" n split by (intro "2.IH") auto
  have shift: "s + 1 + (b - (d + 1)) = s + (b - d)" by simp
  show ?case
  proof (cases "b \<in> region (d + 1) n")
    case True
    then have "unat (b - (d + 1)) < n" by (simp add: region_def)
    then have "s + 1 + (b - (d + 1)) \<in> region (s + 1) n"
      by (simp add: region_def diff_diff_eq)
    then have "s + (b - d) \<in> region s (Suc n)" using shift split by auto
    moreover have "d \<in> region d (Suc n)" by simp
    ultimately have "s + (b - d) \<noteq> d" using "2.prems"(2) by (metis IntI empty_iff)
    then show ?thesis using True IH shift split by simp
  next
    case False
    then show ?thesis using IH split by simp
  qed
qed simp

lemma memcpy_bytes:
  "region d (unat n) \<inter> region s (unat n) = {} \<Longrightarrow>
     memcpy m d s n b = (if b \<in> region d (unat n) then m (s + (b - d)) else m b)"
  by (simp add: memcpy_def memcpy_loop_bytes less_imp_le)

text \<open>Whatever the source, a copy writes the destination range only.\<close>

lemma memcpy_loop_outside:
  "n \<le> 4294967296 \<Longrightarrow> b \<notin> region d n \<Longrightarrow> memcpy_loop m d s n b = m b"
  by (induction m d s n rule: memcpy_loop.induct) (auto simp: region_Suc)

lemma memcpy_outside: "b \<notin> region d (unat n) \<Longrightarrow> memcpy m d s n b = m b"
  by (simp add: memcpy_def memcpy_loop_outside less_imp_le)

section \<open>strncpy\<close>

text \<open>
  The first loop of the source copies and tests the copied byte; it decrements \<open>n\<close> only
  when the byte was not the terminator.  The result is the memory, the final value of \<open>d\<close>
  and the final value of \<open>n\<close>.
\<close>

fun strncpy_copy :: "memory \<Rightarrow> u32 \<Rightarrow> u32 \<Rightarrow> nat \<Rightarrow> memory \<times> u32 \<times> nat" where
  "strncpy_copy m d s 0 = (m, d, 0)"
| "strncpy_copy m d s (Suc n) =
     (let c = m s; m' = m(d := c)
      in if c \<noteq> 0 then strncpy_copy m' (d + 1) (s + 1) n else (m', d + 1, Suc n))"

definition strncpy :: "memory \<Rightarrow> u32 \<Rightarrow> u32 \<Rightarrow> u32 \<Rightarrow> memory" where
  "strncpy m dest src n =
     (case strncpy_copy m dest src (unat n) of (m', d, n') \<Rightarrow> memset_loop m' d 0 n')"

text \<open>A C string of length \<open>k\<close> at address \<open>s\<close>.\<close>

definition cstring :: "memory \<Rightarrow> u32 \<Rightarrow> nat \<Rightarrow> bool" where
  "cstring m s k \<longleftrightarrow> (\<forall>i < k. m (s + of_nat i) \<noteq> 0) \<and> m (s + of_nat k) = 0"

lemma cstring_0 [simp]: "cstring m s 0 \<longleftrightarrow> m s = 0"
  by (simp add: cstring_def)

lemma cstring_Suc: "cstring m s (Suc k) \<longleftrightarrow> m s \<noteq> 0 \<and> cstring m (s + 1) k"
  by (simp add: cstring_def All_less_Suc2 add.assoc)

lemma cstring_cong:
  assumes "\<And>b. b \<in> region s (Suc k) \<Longrightarrow> m b = m' b" "Suc k \<le> 4294967296"
  shows "cstring m s k \<longleftrightarrow> cstring m' s k"
proof -
  have "m (s + of_nat i) = m' (s + of_nat i)" if "i \<le> k" for i
    using that assms(2) by (intro assms(1) in_region_offset) auto
  then show ?thesis by (auto simp: cstring_def)
qed

lemma strncpy_copy_short:
  "cstring m s k \<Longrightarrow> k < n \<Longrightarrow> n \<le> 4294967296 \<Longrightarrow> region d (Suc k) \<inter> region s (Suc k) = {} \<Longrightarrow>
     strncpy_copy m d s n = (memcpy_loop m d s (Suc k), d + of_nat (Suc k), n - k)"
proof (induction k arbitrary: m d s n)
  case 0
  then show ?case by (cases n) auto
next
  case (Suc k)
  then obtain n' where n: "n = Suc n'" by (cases n) auto
  have k: "Suc k < 4294967296" using Suc.prems by simp
  have split: "region d (Suc (Suc k)) = insert d (region (d + 1) (Suc k))"
    "region s (Suc (Suc k)) = insert s (region (s + 1) (Suc k))"
    using k by (simp_all add: region_Suc)
  have "cstring m (s + 1) k" using Suc.prems(1) by (simp add: cstring_Suc)
  moreover have "\<And>b. b \<in> region (s + 1) (Suc k) \<Longrightarrow> m b = (m(d := m s)) b"
    using Suc.prems(4) split by auto
  ultimately have "cstring (m(d := m s)) (s + 1) k"
    using cstring_cong [of "s + 1" k m "m(d := m s)"] k by simp
  moreover have "k < n'" "n' \<le> 4294967296" using Suc.prems(2,3) n by simp_all
  moreover have "region (d + 1) (Suc k) \<inter> region (s + 1) (Suc k) = {}"
    using Suc.prems(4) unfolding split by blast
  ultimately have "strncpy_copy (m(d := m s)) (d + 1) (s + 1) n' =
     (memcpy_loop (m(d := m s)) (d + 1) (s + 1) (Suc k), d + 1 + of_nat (Suc k), n' - k)"
    by (rule Suc.IH)
  moreover have "strncpy_copy m d s n = strncpy_copy (m(d := m s)) (d + 1) (s + 1) n'"
    using Suc.prems(1) n by (simp add: cstring_Suc)
  ultimately show ?case
    using n by (simp only: memcpy_loop.simps(2) [of m d s "Suc k"]) (simp add: add.assoc)
qed

lemma strncpy_copy_long:
  "(\<forall>i < n. m (s + of_nat i) \<noteq> 0) \<Longrightarrow> n \<le> 4294967296 \<Longrightarrow> region d n \<inter> region s n = {} \<Longrightarrow>
     strncpy_copy m d s n = (memcpy_loop m d s n, d + of_nat n, 0)"
proof (induction n arbitrary: m d s)
  case (Suc n)
  have split: "region d (Suc n) = insert d (region (d + 1) n)"
    "region s (Suc n) = insert s (region (s + 1) n)"
    using Suc.prems by (simp_all add: region_Suc)
  have "m (s + 1 + of_nat i) \<noteq> 0" if "i < n" for i
    using Suc.prems(1) that by (auto simp: All_less_Suc2 add.assoc)
  moreover have "s + 1 + of_nat i \<noteq> d" if "i < n" for i
  proof -
    have "s + 1 + of_nat i \<in> region s (Suc n)"
      using in_region_offset [of i n "s + 1"] that Suc.prems(2) split by simp
    then show ?thesis using Suc.prems(3) split by auto
  qed
  ultimately have "strncpy_copy (m(d := m s)) (d + 1) (s + 1) n =
     (memcpy_loop (m(d := m s)) (d + 1) (s + 1) n, d + 1 + of_nat n, 0)"
    using Suc.prems split by (intro Suc.IH) auto
  then show ?case using Suc.prems(1) by (simp add: All_less_Suc2 add.assoc)
qed simp

text \<open>
  A source shorter than \<open>n\<close>: the copy of the terminator is not counted, so one byte more
  than \<open>n\<close> is written (the string and then zeros up to and including \<open>dest[n]\<close>).
\<close>

lemma strncpy_short_bytes:
  assumes "cstring m src k" "k < unat n"
    and "region dest (Suc (unat n)) \<inter> region src (Suc k) = {}"
  shows "strncpy m dest src n b =
    (if b \<in> region dest (Suc (unat n))
     then (if unat (b - dest) < k then m (src + (b - dest)) else 0) else m b)"
proof -
  let ?n = "unat n"
  have n: "?n < 4294967296" by simp
  have kb: "k < 4294967295" using assms(2) n by linarith
  have rest: "?n - k \<le> 4294967296" using n by linarith
  have sub: "region dest (Suc k) \<subseteq> region dest (Suc ?n)"
    using assms(2) by (intro region_mono) simp
  then have disj: "region dest (Suc k) \<inter> region src (Suc k) = {}" using assms(3) by blast
  have copy: "strncpy_copy m dest src ?n =
      (memcpy_loop m dest src (Suc k), dest + of_nat (Suc k), ?n - k)"
    using assms(1,2) disj n by (intro strncpy_copy_short) simp_all
  have "region dest (Suc k + (?n - k)) = region dest (Suc k) \<union> region (dest + of_nat (Suc k)) (?n - k)"
    using assms(2) n by (intro region_append) simp
  then have split: "region dest (Suc ?n) = region dest (Suc k) \<union> region (dest + of_nat (Suc k)) (?n - k)"
    using assms(2) by simp
  have byte: "memcpy_loop m dest src (Suc k) b =
      (if b \<in> region dest (Suc k) then m (src + (b - dest)) else m b)"
    using kb disj by (intro memcpy_loop_bytes) auto
  have eq: "strncpy m dest src n b =
      (if b \<in> region (dest + of_nat (Suc k)) (?n - k) then 0
       else if b \<in> region dest (Suc k) then m (src + (b - dest)) else m b)"
    using copy byte rest by (simp add: strncpy_def memset_loop_bytes del: memcpy_loop.simps)
  have last: "m (src + (b - dest)) = 0" if "unat (b - dest) = k"
  proof -
    have "b - dest = of_nat k" using that by (metis unsigned_word_eqI word_of_nat_eq_iff word_unat_eq_iff unat_of_nat32 unat_u32_lt)
    then show ?thesis using assms(1) by (simp add: cstring_def)
  qed
  have low: "unat (b - dest) < Suc k" if "b \<in> region dest (Suc k)"
    using that by (simp add: region_def)
  have high: "b \<notin> region (dest + of_nat (Suc k)) (?n - k)" if "unat (b - dest) < Suc k"
  proof
    assume "b \<in> region (dest + of_nat (Suc k)) (?n - k)"
    moreover define x where "x = b - dest"
    ultimately have "unat (x - of_nat (Suc k)) < ?n - k" "unat x < Suc k"
      using that by (simp_all add: region_def diff_diff_eq)
    moreover have "unat (x - of_nat (Suc k)) = 4294967296 + unat x - Suc k"
      using \<open>unat x < Suc k\<close> kb by (simp add: unat_sub_if' unat_of_nat32 del: of_nat_Suc)
    ultimately show False using n kb by linarith
  qed
  show ?thesis
    using eq split last low high by (auto simp: region_def less_Suc_eq)
qed

end
