(* ===== verification/Ring.thy ===== *)
theory Ring
  imports Prelude
begin

text \<open>
  Ring buffers: index arithmetic modulo the number of slots, the contract of a bounded FIFO as a
  locale, and what follows from it for histories of operations.  The work queue of the kernel
  worker and the data queues are interpretations.
\<close>

section \<open>Index arithmetic\<close>

definition ring_count :: "nat \<Rightarrow> nat \<Rightarrow> nat \<Rightarrow> nat" where
  "ring_count n h t = (if h \<le> t then t - h else t + n - h)"

text \<open>The occupied slots, oldest first.\<close>

definition ring_slots :: "nat \<Rightarrow> nat \<Rightarrow> nat \<Rightarrow> nat list" where
  "ring_slots n h t = map (\<lambda>i. (h + i) mod n) [0..<ring_count n h t]"

lemma ring_slots_length [simp]: "length (ring_slots n h t) = ring_count n h t"
  by (simp add: ring_slots_def)

lemma ring_count_bound: "h < n \<Longrightarrow> t < n \<Longrightarrow> ring_count n h t < n"
  by (auto simp: ring_count_def)

lemma ring_empty: "h < n \<Longrightarrow> t < n \<Longrightarrow> ring_slots n h t = [] \<longleftrightarrow> h = t"
  by (auto simp: ring_slots_def ring_count_def)

lemma ring_next: "t < n \<Longrightarrow> Suc t mod n = (if Suc t = n then 0 else Suc t)"
  by (simp add: mod_Suc)

lemma ring_count_push:
  "h < n \<Longrightarrow> t < n \<Longrightarrow> Suc t mod n \<noteq> h \<Longrightarrow> ring_count n h (Suc t mod n) = Suc (ring_count n h t)"
  by (auto simp: ring_next ring_count_def split: if_splits)

lemma ring_full: "h < n \<Longrightarrow> t < n \<Longrightarrow> Suc t mod n = h \<longleftrightarrow> ring_count n h t = n - 1"
  by (auto simp: ring_next ring_count_def split: if_splits)

lemma ring_tail: "h < n \<Longrightarrow> t < n \<Longrightarrow> (h + ring_count n h t) mod n = t"
  by (auto simp: ring_count_def)

lemma ring_push:
  assumes "h < n" "t < n" "Suc t mod n \<noteq> h"
  shows "ring_slots n h (Suc t mod n) = ring_slots n h t @ [t]"
  using ring_count_push [OF assms] ring_tail [OF assms(1,2)] by (simp add: ring_slots_def)

lemma ring_pop:
  assumes "h < n" "t < n" "h \<noteq> t"
  shows "ring_slots n h t = h # ring_slots n (Suc h mod n) t"
proof -
  have c: "ring_count n h t = Suc (ring_count n (Suc h mod n) t)"
    using assms by (auto simp: ring_next ring_count_def split: if_splits)
  have "map (\<lambda>i. (h + i) mod n) [0..<Suc m] = h # map (\<lambda>i. (Suc h mod n + i) mod n) [0..<m]" for m
    using assms(1) by (simp add: map_upt_Suc mod_simps del: upt_Suc)
  then show ?thesis unfolding ring_slots_def c .
qed

lemma ring_slots_less: "h < n \<Longrightarrow> i \<in> set (ring_slots n h t) \<Longrightarrow> i < n"
  by (auto simp: ring_slots_def)

lemma ring_tail_free:
  assumes "h < n" "t < n"
  shows "t \<notin> set (ring_slots n h t)"
proof
  assume "t \<in> set (ring_slots n h t)"
  then obtain i where i: "i < ring_count n h t" "t = (h + i) mod n" by (auto simp: ring_slots_def)
  show False
  proof (cases "h + i < n")
    case True
    then show False using i assms by (auto simp: ring_count_def split: if_splits)
  next
    case False
    then have "(h + i) mod n = h + i - n" using i assms ring_count_bound [OF assms] by (simp add: le_mod_geq)
    then show False using i False assms by (auto simp: ring_count_def split: if_splits)
  qed
qed

section \<open>Bounded FIFOs\<close>

text \<open>
  A sequence of operations, \<open>Some i\<close> a push of the argument \<open>i\<close> and \<open>None\<close> a pop; an operation
  that finds the buffer full or empty does nothing.  The result has the values pushed, the values
  popped and the final state.
\<close>

primrec fifo_run ::
  "('i \<Rightarrow> 's \<Rightarrow> 'a) \<Rightarrow> ('i \<Rightarrow> 's \<Rightarrow> 's option) \<Rightarrow> ('s \<Rightarrow> ('a \<times> 's) option) \<Rightarrow>
   'i option list \<Rightarrow> 's \<Rightarrow> 'a list \<times> 'a list \<times> 's" where
  "fifo_run val push pop [] s = ([], [], s)"
| "fifo_run val push pop (x # xs) s =
     (case x of
        Some i \<Rightarrow> (case push i s of
            None \<Rightarrow> fifo_run val push pop xs s
          | Some s' \<Rightarrow> (let (ins, outs, s'') = fifo_run val push pop xs s' in (val i s # ins, outs, s'')))
      | None \<Rightarrow> (case pop s of
            None \<Rightarrow> fifo_run val push pop xs s
          | Some (v, s') \<Rightarrow> (let (ins, outs, s'') = fifo_run val push pop xs s' in (ins, v # outs, s''))))"

text \<open>
  \<open>push i\<close> and \<open>pop\<close> are \<open>None\<close> when the buffer is full or empty; \<open>val i s\<close> is the value the
  argument \<open>i\<close> stands for in the state \<open>s\<close>, when it is a good argument.
\<close>

locale bounded_fifo =
  fixes contents :: "'s \<Rightarrow> 'a list" and cap :: "'s \<Rightarrow> nat" and wf :: "'s \<Rightarrow> bool"
    and good :: "'i \<Rightarrow> 's \<Rightarrow> bool" and val :: "'i \<Rightarrow> 's \<Rightarrow> 'a"
    and push :: "'i \<Rightarrow> 's \<Rightarrow> 's option" and pop :: "'s \<Rightarrow> ('a \<times> 's) option"
  assumes bounded: "wf s \<Longrightarrow> length (contents s) \<le> cap s"
    and push_full: "wf s \<Longrightarrow> push i s = None \<longleftrightarrow> length (contents s) = cap s"
    and push_some: "wf s \<Longrightarrow> good i s \<Longrightarrow> push i s = Some s' \<Longrightarrow>
      wf s' \<and> contents s' = contents s @ [val i s] \<and> cap s' = cap s \<and> (\<forall>j. good j s \<longrightarrow> good j s')"
    and pop_empty: "wf s \<Longrightarrow> pop s = None \<longleftrightarrow> contents s = []"
    and pop_some: "wf s \<Longrightarrow> pop s = Some (x, s') \<Longrightarrow>
      wf s' \<and> contents s = x # contents s' \<and> cap s' = cap s \<and> (\<forall>j. good j s \<longrightarrow> good j s')"
begin

text \<open>Nothing is lost, duplicated or reordered.\<close>

lemma run_fifo:
  assumes "wf s" "\<forall>i. Some i \<in> set ops \<longrightarrow> good i s" "fifo_run val push pop ops s = (ins, outs, s')"
  shows "wf s' \<and> contents s @ ins = outs @ contents s' \<and> cap s' = cap s \<and> length (contents s') \<le> cap s"
  using assms
proof (induction ops arbitrary: s ins outs)
  case Nil
  then show ?case using bounded by auto
next
  case (Cons x ops)
  show ?case
  proof (cases x)
    case (Some i)
    show ?thesis
    proof (cases "push i s")
      case None
      then show ?thesis using Cons Some by simp
    next
      case push: (Some s1)
      note s1 = push_some [OF Cons.prems(1) _ push]
      obtain ins1 where run: "fifo_run val push pop ops s1 = (ins1, outs, s')" "ins = val i s # ins1"
        using Cons.prems(3) Some push by (auto split: prod.splits)
      have g: "good i s" using Cons.prems(2) Some by simp
      then have "\<forall>j. Some j \<in> set ops \<longrightarrow> good j s1" using Cons.prems(2) s1 by simp
      from Cons.IH [OF _ this run(1)] show ?thesis using s1 [OF g] run(2) by simp
    qed
  next
    case None
    show ?thesis
    proof (cases "pop s")
      case e: None
      then show ?thesis using Cons None by simp
    next
      case (Some vs)
      obtain v s1 where pop: "pop s = Some (v, s1)" using Some by (cases vs) auto
      note s1 = pop_some [OF Cons.prems(1) pop]
      obtain outs1 where run: "fifo_run val push pop ops s1 = (ins, outs1, s')" "outs = v # outs1"
        using Cons.prems(3) None pop by (auto split: prod.splits)
      have "\<forall>j. Some j \<in> set ops \<longrightarrow> good j s1" using Cons.prems(2) s1 by simp
      from Cons.IH [OF _ this run(1)] show ?thesis using s1 run(2) by simp
    qed
  qed
qed

end

end
