(* ===== verification/Queue.thy ===== *)
theory Queue
  imports Blocking Alloc_Contract Libc Ring
begin

text \<open>
  Data queues, \<open>kernel/queue.c\<close>: a ring buffer of fixed-size items in the kernel heap with one
  slot more than its capacity, and FIFO lists of blocked senders and receivers.  The \<open>for (;;)\<close>
  loop of push and pop suspends at most once, because the timeout is set to 0 before: the model
  has the body of the loop, the call up to the suspension, and the rest after it.
\<close>

section \<open>The code\<close>

definition QUEUE_SIZEOF :: u32 where [simp]: "QUEUE_SIZEOF = 32" \<comment> \<open>sizeof(queue_t)\<close>

definition queue_init :: "u32 \<Rightarrow> u32 \<Rightarrow> u32 \<Rightarrow> kernel \<Rightarrow> (u32 \<times> kernel) option" where
  "queue_init p isz sz k =
     (if p = 0 \<or> isz = 0 \<or> sz = 0 then Some (- 1, k)
      else let q = \<lparr>q_item_size = isz, q_size = sz, q_slots = sz + 1, q_head = 0, q_tail = 0,
                    q_buffer = 0, q_send_wait = None, q_recv_wait = None\<rparr>;
               k = set_queue p q k; slots = q_slots q; tot = isz * slots in
        if slots \<noteq> 0 \<and> tot div slots \<noteq> isz then Some (- 1, k)
        else do {
          (b, k) \<leftarrow> malloc tot k;
          let k = set_queue p (q\<lparr>q_buffer := b\<rparr>) k;
          if b = 0 then Some (- 1, k) else Some (0, k)
        })"

text \<open>\<open>free(queue)\<close>: the struct is gone from the store of queues.\<close>

definition queue_release :: "u32 \<Rightarrow> kernel \<Rightarrow> kernel option" where
  "queue_release p k = free p (k\<lparr>queues := (queues k)(p := None)\<rparr>)"

definition z_impl_queue_create :: "u32 \<Rightarrow> u32 \<Rightarrow> kernel \<Rightarrow> (u32 \<times> kernel) option" where
  "z_impl_queue_create isz sz k =
     (if isz = 0 \<or> sz = 0 then Some (0, k)
      else do {
        (p, k) \<leftarrow> malloc QUEUE_SIZEOF k;
        if p = 0 then Some (0, k)
        else do {
          (r, k) \<leftarrow> queue_init p isz sz k;
          if r \<noteq> 0 then do { k \<leftarrow> queue_release p k; Some (0, k) }
          else Some (p, k)
        }
      })"

text \<open>The address of slot \<open>i\<close>: \<open>(char *)queue->buffer + i * queue->item_size\<close>.\<close>

definition slot_addr :: "queue \<Rightarrow> u32 \<Rightarrow> u32" where
  "slot_addr q i = q_buffer q + i * q_item_size q"

text \<open>Blocking the current task on one of the lists of the queue.\<close>

definition queue_block :: "wait_head \<Rightarrow> u32 \<Rightarrow> u32 \<Rightarrow> kernel \<Rightarrow> (call \<times> kernel) option" where
  "queue_block h pm timeout_ms k = do {
     cur \<leftarrow> scheduler_get_current k;
     let k = set_waiting cur k;
     k \<leftarrow> wait_append h cur k;
     let k = set_timeout h cur timeout_ms k;
     Some (Suspend, port_trigger_pendsv (exit_critical pm k))
   }"

text \<open>
  Waking the first task \<open>w\<close> of a list and leaving the critical section; without waiters, just
  leaving it.
\<close>

definition wake_first :: "wait_head \<Rightarrow> tcb_ptr option \<Rightarrow> u32 \<Rightarrow> kernel \<Rightarrow> kernel" where
  "wake_first h w pm k = (case w of
     Some to_wake \<Rightarrow> scheduler_wake_task to_wake 0 (exit_critical pm (wait_pop h to_wake k))
   | None \<Rightarrow> exit_critical pm k)"

text \<open>
  One run of the loop body, in the critical section whose saved PRIMASK is \<open>pm\<close>.  A queue without
  slots is a division by zero.
\<close>

definition queue_push_body :: "u32 \<Rightarrow> u32 \<Rightarrow> u32 \<Rightarrow> u32 \<Rightarrow> kernel \<Rightarrow> (call \<times> kernel) option" where
  "queue_push_body p item timeout_ms pm k = do {
     q \<leftarrow> queues k p;
     if q_slots q = 0 then None
     else let next_index = (q_tail q + 1) mod q_slots q in
       if next_index \<noteq> q_head q then do {
         let k = k\<lparr>mem := memcpy (mem k) (slot_addr q (q_tail q)) item (q_item_size q)\<rparr>;
         let k = set_queue p (q\<lparr>q_tail := next_index\<rparr>) k;
         Some (Return 0, wake_first (QueueRecvWait p) (q_recv_wait q) pm k)
       }
       else if timeout_ms = 0 then Some (Return (- 1), exit_critical pm k)
       else queue_block (QueueSendWait p) pm timeout_ms k
   }"

definition z_impl_queue_push :: "u32 \<Rightarrow> u32 \<Rightarrow> u32 \<Rightarrow> kernel \<Rightarrow> (call \<times> kernel) option" where
  "z_impl_queue_push p item timeout_ms k =
     (let (pm, k) = enter_critical k in queue_push_body p item timeout_ms pm k)"

text \<open>After the wake-up: a timed-out push gives up, any other tries once more with timeout 0.\<close>

definition queue_push_resume :: "tcb_ptr \<Rightarrow> u32 \<Rightarrow> u32 \<Rightarrow> kernel \<Rightarrow> (call \<times> kernel) option" where
  "queue_push_resume cur p item k =
     (if flags (tcb_pool k cur) AND TASK_FLAG_TIMED_OUT \<noteq> 0 then Some (Return (- 1), k)
      else let (pm, k) = enter_critical k in queue_push_body p item 0 pm k)"

definition queue_pop_body :: "u32 \<Rightarrow> u32 \<Rightarrow> u32 \<Rightarrow> u32 \<Rightarrow> kernel \<Rightarrow> (call \<times> kernel) option" where
  "queue_pop_body p item timeout_ms pm k = do {
     q \<leftarrow> queues k p;
     if q_head q \<noteq> q_tail q then do {
       let k = k\<lparr>mem := memcpy (mem k) item (slot_addr q (q_head q)) (q_item_size q)\<rparr>;
       if q_slots q = 0 then None
       else do {
         let k = set_queue p (q\<lparr>q_head := (q_head q + 1) mod q_slots q\<rparr>) k;
         Some (Return 0, wake_first (QueueSendWait p) (q_send_wait q) pm k)
       }
     }
     else if timeout_ms = 0 then Some (Return (- 1), exit_critical pm k)
     else queue_block (QueueRecvWait p) pm timeout_ms k
   }"

definition z_impl_queue_pop :: "u32 \<Rightarrow> u32 \<Rightarrow> u32 \<Rightarrow> kernel \<Rightarrow> (call \<times> kernel) option" where
  "z_impl_queue_pop p item timeout_ms k =
     (let (pm, k) = enter_critical k in queue_pop_body p item timeout_ms pm k)"

definition queue_pop_resume :: "tcb_ptr \<Rightarrow> u32 \<Rightarrow> u32 \<Rightarrow> kernel \<Rightarrow> (call \<times> kernel) option" where
  "queue_pop_resume cur p item k =
     (if flags (tcb_pool k cur) AND TASK_FLAG_TIMED_OUT \<noteq> 0 then Some (Return (- 1), k)
      else let (pm, k) = enter_critical k in queue_pop_body p item 0 pm k)"

section \<open>Items in memory\<close>

definition bytes_at :: "memory \<Rightarrow> u32 \<Rightarrow> nat \<Rightarrow> u8 list" where
  "bytes_at m a n = map (\<lambda>j. m (a + of_nat j)) [0..<n]"

lemma bytes_at_cong:
  "n \<le> 4294967296 \<Longrightarrow> (\<And>b. b \<in> region a n \<Longrightarrow> m b = m' b) \<Longrightarrow> bytes_at m a n = bytes_at m' a n"
  by (simp add: bytes_at_def in_region_offset)

lemma bytes_at_memcpy:
  assumes "region d (unat n) \<inter> region s (unat n) = {}"
  shows "bytes_at (memcpy m d s n) d (unat n) = bytes_at m s (unat n)"
proof -
  have "memcpy m d s n (d + of_nat j) = m (s + of_nat j)" if "j < unat n" for j
    using memcpy_bytes [OF assms, of m "d + of_nat j"] in_region_offset [OF that, of d] by simp
  then show ?thesis by (simp add: bytes_at_def)
qed

lemma bytes_at_memcpy_other:
  assumes "region d (unat n) \<inter> region a l = {}" "l \<le> 4294967296"
  shows "bytes_at (memcpy m d s n) a l = bytes_at m a l"
  using assms by (intro bytes_at_cong memcpy_outside) auto

section \<open>The abstraction\<close>

text \<open>
  A queue as \<open>queue_init\<close> leaves it: one slot more than its capacity, indices in range, a buffer
  that holds all slots.
\<close>

definition queue_wf :: "queue \<Rightarrow> bool" where
  "queue_wf q \<longleftrightarrow> 0 < q_item_size q \<and> 0 < q_size q \<and> unat (q_slots q) = unat (q_size q) + 1 \<and>
     q_head q < q_slots q \<and> q_tail q < q_slots q \<and>
     unat (q_item_size q) * unat (q_slots q) < 4294967296"

definition slot_bytes :: "memory \<Rightarrow> queue \<Rightarrow> nat \<Rightarrow> u8 list" where
  "slot_bytes m q i = bytes_at m (slot_addr q (of_nat i)) (unat (q_item_size q))"

definition queue_items :: "memory \<Rightarrow> queue \<Rightarrow> u8 list list" where
  "queue_items m q =
     map (slot_bytes m q) (ring_slots (unat (q_slots q)) (unat (q_head q)) (unat (q_tail q)))"

definition queue_region :: "queue \<Rightarrow> u32 set" where
  "queue_region q = region (q_buffer q) (unat (q_item_size q) * unat (q_slots q))"

lemma queue_wf_facts:
  assumes "queue_wf q"
  shows "unat (q_head q) < unat (q_slots q)" "unat (q_tail q) < unat (q_slots q)"
    "1 < unat (q_slots q)" "q_slots q \<noteq> 0" "0 < unat (q_item_size q)"
    "unat (q_slots q) = unat (q_size q) + 1"
    "unat (q_item_size q) * unat (q_slots q) < 4294967296"
proof -
  show lt: "unat (q_head q) < unat (q_slots q)" "unat (q_tail q) < unat (q_slots q)"
    using assms by (simp_all add: queue_wf_def word_less_nat_alt)
  have "0 < unat (q_size q)" using assms by (simp add: queue_wf_def word_less_nat_alt)
  then show "1 < unat (q_slots q)" "unat (q_slots q) = unat (q_size q) + 1"
    using assms by (simp_all add: queue_wf_def)
  show "q_slots q \<noteq> 0" using lt(1) by auto
  show "0 < unat (q_item_size q)" using assms by (simp add: queue_wf_def word_less_nat_alt)
  show "unat (q_item_size q) * unat (q_slots q) < 4294967296" using assms unfolding queue_wf_def by blast
qed

lemma next_index:
  assumes "i < n" shows "unat ((i + 1) mod n) = Suc (unat i) mod unat (n :: u32)"
proof -
  have "unat i < unat n" using assms by (simp add: word_less_nat_alt)
  then have "Suc (unat i) < 4294967296" using unat_u32_lt [of n] by linarith
  then have "unat (i + 1) = Suc (unat i)" by (simp add: unat_word_ariths)
  then show ?thesis by (simp add: unat_mod)
qed

text \<open>Slots lie in the buffer, and different slots are disjoint.\<close>

lemma slot_addr_nat:
  assumes "queue_wf q" "i < unat (q_slots q)"
  shows "slot_addr q (of_nat i) = q_buffer q + of_nat (i * unat (q_item_size q))"
  by (simp add: slot_addr_def)

lemma slot_offset:
  assumes "queue_wf q" "i < unat (q_slots q)"
  shows "i * unat (q_item_size q) + unat (q_item_size q) \<le> unat (q_item_size q) * unat (q_slots q)"
proof -
  have "Suc i * unat (q_item_size q) \<le> unat (q_slots q) * unat (q_item_size q)"
    using assms(2) by (intro mult_le_mono1) simp
  then show ?thesis by (simp add: mult.commute)
qed

lemma in_slot:
  assumes "queue_wf q" "i < unat (q_slots q)"
  shows "b \<in> region (slot_addr q (of_nat i)) (unat (q_item_size q)) \<longleftrightarrow>
    i * unat (q_item_size q) \<le> unat (b - q_buffer q) \<and>
    unat (b - q_buffer q) < i * unat (q_item_size q) + unat (q_item_size q)"
proof -
  let ?x = "i * unat (q_item_size q)" and ?n = "unat (q_item_size q)"
  have le: "?x + ?n < 4294967296" using slot_offset [OF assms] queue_wf_facts(7) [OF assms(1)] by linarith
  have "b \<in> region (slot_addr q (of_nat i)) ?n \<longleftrightarrow> (b - q_buffer q) \<in> region (of_nat ?x) ?n"
    unfolding slot_addr_nat [OF assms] region_def by (simp add: diff_diff_eq)
  also have "\<dots> \<longleftrightarrow> ?x \<le> unat (b - q_buffer q) \<and> unat (b - q_buffer q) < ?x + ?n"
    using le by (intro region_of_nat) linarith+
  finally show ?thesis .
qed

lemma slot_in_buffer:
  assumes "queue_wf q" "i < unat (q_slots q)"
  shows "region (slot_addr q (of_nat i)) (unat (q_item_size q)) \<subseteq> queue_region q"
proof
  fix b assume "b \<in> region (slot_addr q (of_nat i)) (unat (q_item_size q))"
  then have "unat (b - q_buffer q) < i * unat (q_item_size q) + unat (q_item_size q)"
    using in_slot [OF assms] by blast
  then have "unat (b - q_buffer q) < unat (q_item_size q) * unat (q_slots q)"
    using slot_offset [OF assms] by linarith
  then show "b \<in> queue_region q" by (simp add: queue_region_def region_def)
qed

lemma slots_disjoint:
  assumes "queue_wf q" "i < unat (q_slots q)" "j < unat (q_slots q)" "i \<noteq> j"
  shows "region (slot_addr q (of_nat i)) (unat (q_item_size q)) \<inter>
    region (slot_addr q (of_nat j)) (unat (q_item_size q)) = {}"
proof -
  let ?n = "unat (q_item_size q)"
  have sep: "Suc i * ?n \<le> j * ?n \<or> Suc j * ?n \<le> i * ?n"
    using assms(4) by (cases "i < j") (auto intro: mult_le_mono1 simp del: mult_Suc)
  show ?thesis
  proof (intro equals0I)
    fix b assume b: "b \<in> region (slot_addr q (of_nat i)) ?n \<inter> region (slot_addr q (of_nat j)) ?n"
    have "i * ?n \<le> unat (b - q_buffer q)" "unat (b - q_buffer q) < Suc i * ?n"
      "j * ?n \<le> unat (b - q_buffer q)" "unat (b - q_buffer q) < Suc j * ?n"
      using b in_slot [OF assms(1,2)] in_slot [OF assms(1,3)] by auto
    then show False using sep by linarith
  qed
qed

lemma slots_less:
  "queue_wf q \<Longrightarrow> i \<in> set (ring_slots (unat (q_slots q)) (unat (q_head q)) t) \<Longrightarrow> i < unat (q_slots q)"
  using ring_slots_less queue_wf_facts(1) by blast

text \<open>What push and pop do to the contents.\<close>

lemma queue_items_push:
  assumes wf: "queue_wf q" and space: "(q_tail q + 1) mod q_slots q \<noteq> q_head q"
    and src: "region item (unat (q_item_size q)) \<inter> queue_region q = {}"
  shows "queue_items (memcpy m (slot_addr q (q_tail q)) item (q_item_size q))
      (q\<lparr>q_tail := (q_tail q + 1) mod q_slots q\<rparr>) =
    queue_items m q @ [bytes_at m item (unat (q_item_size q))]"
proof -
  let ?n = "unat (q_slots q)" and ?h = "unat (q_head q)" and ?t = "unat (q_tail q)"
    and ?m = "memcpy m (slot_addr q (q_tail q)) item (q_item_size q)"
  have lt: "?h < ?n" "?t < ?n" using queue_wf_facts [OF wf] by auto
  have "q_tail q < q_slots q" using wf by (simp add: queue_wf_def)
  then have nx: "unat ((q_tail q + 1) mod q_slots q) = Suc ?t mod ?n" by (rule next_index)
  then have "Suc ?t mod ?n \<noteq> ?h" using space by (metis word_unat_eq_iff)
  then have slots: "ring_slots ?n ?h (Suc ?t mod ?n) = ring_slots ?n ?h ?t @ [?t]"
    using ring_push [OF lt] by simp
  have t: "slot_addr q (of_nat ?t) = slot_addr q (q_tail q)" by simp
  have old: "slot_bytes ?m q i = slot_bytes m q i" if "i \<in> set (ring_slots ?n ?h ?t)" for i
  proof -
    have "i < ?n" "i \<noteq> ?t" using that slots_less [OF wf] ring_tail_free [OF lt] by blast+
    then show ?thesis
      using slots_disjoint [OF wf lt(2), of i] unfolding slot_bytes_def t
      by (intro bytes_at_memcpy_other) auto
  qed
  have "slot_bytes ?m q ?t = bytes_at m item (unat (q_item_size q))"
    using slot_in_buffer [OF wf lt(2)] src unfolding slot_bytes_def t
    by (intro bytes_at_memcpy) auto
  moreover have "slot_bytes m (q\<lparr>q_tail := x\<rparr>) i = slot_bytes m q i" for m x i
    by (simp add: slot_bytes_def slot_addr_def)
  ultimately show ?thesis
    using old nx slots by (simp add: queue_items_def)
qed

lemma queue_items_pop:
  assumes wf: "queue_wf q" and some: "q_head q \<noteq> q_tail q"
    and dst: "region item (unat (q_item_size q)) \<inter> queue_region q = {}"
  shows "queue_items m q =
    bytes_at (memcpy m item (slot_addr q (q_head q)) (q_item_size q)) item (unat (q_item_size q)) #
    queue_items (memcpy m item (slot_addr q (q_head q)) (q_item_size q))
      (q\<lparr>q_head := (q_head q + 1) mod q_slots q\<rparr>)"
proof -
  let ?n = "unat (q_slots q)" and ?h = "unat (q_head q)" and ?t = "unat (q_tail q)"
    and ?m = "memcpy m item (slot_addr q (q_head q)) (q_item_size q)"
  have lt: "?h < ?n" "?t < ?n" using queue_wf_facts [OF wf] by auto
  have "q_head q < q_slots q" using wf by (simp add: queue_wf_def)
  then have nx: "unat ((q_head q + 1) mod q_slots q) = Suc ?h mod ?n" by (rule next_index)
  have "?h \<noteq> ?t" using some by (metis word_unat_eq_iff)
  then have slots: "ring_slots ?n ?h ?t = ?h # ring_slots ?n (Suc ?h mod ?n) ?t"
    using ring_pop [OF lt] by simp
  have h: "slot_addr q (of_nat ?h) = slot_addr q (q_head q)" by simp
  have same: "slot_bytes ?m q i = slot_bytes m q i" if "i < ?n" for i
    using slot_in_buffer [OF wf that] dst unfolding slot_bytes_def
    by (intro bytes_at_memcpy_other) auto
  have "bytes_at ?m item (unat (q_item_size q)) = slot_bytes m q ?h"
    using slot_in_buffer [OF wf lt(1)] dst unfolding slot_bytes_def h
    by (intro bytes_at_memcpy) auto
  moreover have "slot_bytes m (q\<lparr>q_head := x\<rparr>) i = slot_bytes m q i" for m x i
    by (simp add: slot_bytes_def slot_addr_def)
  moreover have "Suc ?h mod ?n < ?n" using lt(1) by simp
  then have "\<forall>i \<in> set (ring_slots ?n (Suc ?h mod ?n) ?t). slot_bytes ?m q i = slot_bytes m q i"
    using same ring_slots_less by blast
  ultimately show ?thesis using nx slots by (simp add: queue_items_def)
qed

section \<open>Waking the first waiter\<close>

definition strip_queue :: "queue \<Rightarrow> queue" where
  "strip_queue q = q\<lparr>q_send_wait := None, q_recv_wait := None\<rparr>"

lemma strip_queue_same [simp]:
  "queue_wf (strip_queue q) = queue_wf q" "queue_items m (strip_queue q) = queue_items m q"
  "queue_region (strip_queue q) = queue_region q" "q_item_size (strip_queue q) = q_item_size q"
  "q_size (strip_queue q) = q_size q"
  by (simp_all add: strip_queue_def queue_wf_def queue_items_def slot_bytes_def slot_addr_def
      queue_region_def fun_eq_iff)

lemma set_queue_simps [simp]:
  "tcb_pool (set_queue p s k) = tcb_pool k" "primask (set_queue p s k) = primask k"
  "mem (set_queue p s k) = mem k" "queues (set_queue p s k) = (queues k)(p \<mapsto> s)"
  "mutexes (set_queue p s k) = mutexes k" "sems (set_queue p s k) = sems k"
  by (simp_all add: set_queue_def)

lemma prim_inv_set_queue:
  assumes "prim_inv W k" "queues k p = Some s" "q_send_wait s' = q_send_wait s" "q_recv_wait s' = q_recv_wait s"
  shows "prim_inv W (set_queue p s' k)"
  using assms
  by (subst prim_inv_cong [of _ k]) (auto simp: read_head_def set_queue_def split: wait_head.splits)

lemma read_head_queue [simp]:
  "queues k p = Some q \<Longrightarrow> read_head (QueueSendWait p) k = Some (q_send_wait q)"
  "queues k p = Some q \<Longrightarrow> read_head (QueueRecvWait p) k = Some (q_recv_wait q)"
  by (simp_all add: read_head_def)

lemma write_head_queues:
  "map_option strip_queue (queues (write_head h v k) p) = map_option strip_queue (queues k p)"
  by (auto simp: write_head_def strip_queue_def state_defs split: wait_head.splits option.splits)

lemma wake_first_inv:
  assumes inv: "prim_inv W k" and h: "read_head h k = Some w"
  shows "prim_inv (W(h := tl (W h))) (wake_first h w pm k)"
    "primask (wake_first h w pm k) = pm"
    "map_option strip_queue (queues (wake_first h w pm k) p) = map_option strip_queue (queues k p)"
    "mem (wake_first h w pm k) = (case w of None \<Rightarrow> mem k | Some t \<Rightarrow> deliver 0 (tcb_pool k t) (mem k))"
    "W h = (case w of None \<Rightarrow> [] | Some t \<Rightarrow> t # tl (W h))"
    "w = Some t \<Longrightarrow> tstate (tcb_pool (wake_first h w pm k) t) = TASK_READY"
    "\<And>u. u \<notin> set (W h) \<Longrightarrow> tcb_pool (wake_first h w pm k) u = tcb_pool k u"
    "\<And>u. u \<in> set (tl (W h)) \<Longrightarrow> tcb_pool (wake_first h w pm k) u = tcb_pool k u"
proof -
  have W: "W h = (case w of None \<Rightarrow> [] | Some t \<Rightarrow> t # tl (W h))"
    using wait_wf_chain [OF prim_invD(1) [OF inv] h] by (cases w) (auto simp: chain_Some)
  then show "W h = (case w of None \<Rightarrow> [] | Some t \<Rightarrow> t # tl (W h))" .
  show "primask (wake_first h w pm k) = pm"
    by (simp add: wake_first_def exit_critical_def split: option.splits)
  show "map_option strip_queue (queues (wake_first h w pm k) p) = map_option strip_queue (queues k p)"
    using write_head_queues [of h _ k p]
    by (simp add: wake_first_def exit_critical_def wait_pop_def split: option.splits)
  show "mem (wake_first h w pm k) = (case w of None \<Rightarrow> mem k | Some t \<Rightarrow> deliver 0 (tcb_pool k t) (mem k))"
    by (simp add: wake_first_def exit_critical_def deliver_def saved_r0_def split: option.splits)
  show "w = Some t \<Longrightarrow> tstate (tcb_pool (wake_first h w pm k) t) = TASK_READY"
    by (simp add: wake_first_def)
  show "tcb_pool (wake_first h w pm k) u = tcb_pool k u" if "u \<notin> set (W h)" for u
  proof (cases w)
    case (Some t)
    then have "t \<in> set (W h)" using W by (metis list.set_intros(1) option.simps(5))
    then have "u \<noteq> t" using that by blast
    then show ?thesis using Some by (simp add: wake_first_def exit_critical_def)
  qed (simp add: wake_first_def exit_critical_def)
  have dist: "distinct (W h)" using wait_wf_distinct [OF prim_invD(1) [OF inv]] .
  show "tcb_pool (wake_first h w pm k) u = tcb_pool k u" if "u \<in> set (tl (W h))" for u
  proof (cases w)
    case (Some t)
    then have "W h = t # tl (W h)" using W by simp
    then have "t \<notin> set (tl (W h))" using dist by (metis distinct.simps(2))
    then have "u \<noteq> t" using that by blast
    then show ?thesis using Some by (simp add: wake_first_def exit_critical_def)
  qed (simp add: wake_first_def exit_critical_def)
  show "prim_inv (W(h := tl (W h))) (wake_first h w pm k)"
  proof (cases w)
    case None
    then have "W h = []" using W by simp
    then have same: "W(h := tl (W h)) = W" by (simp add: fun_upd_idem)
    have "prim_inv W (k\<lparr>primask := pm\<rparr>)" using inv by (subst prim_inv_cong [of _ k]) simp_all
    then show ?thesis unfolding same using None by (simp add: wake_first_def exit_critical_def)
  next
    case (Some t)
    obtain ts where ts: "W h = t # ts" "\<forall>g. t \<notin> set ((W(h := ts)) g)"
      "prim_inv (W(h := ts)) (wait_pop h t k)"
      by (rule wait_pop_inv [OF inv h [unfolded Some]])
    have "prim_inv (W(h := ts)) ((wait_pop h t k)\<lparr>primask := pm\<rparr>)"
      using ts(3) by (subst prim_inv_cong) simp_all
    then have "prim_inv (W(h := ts)) (scheduler_wake_task t 0 ((wait_pop h t k)\<lparr>primask := pm\<rparr>))"
      using ts(2) by (intro wake_inv) simp_all
    then show ?thesis using Some ts(1) by (simp add: wake_first_def exit_critical_def)
  qed
qed

end
