(* ===== verification/Queue_Fifo.thy ===== *)
theory Queue_Fifo
  imports Queue
begin

text \<open>
  The properties of data queues: push and pop in every case, FIFO order as an interpretation of
  the bounded FIFO contract, and creation with its overflow check.
\<close>

section \<open>The invariant of a queue\<close>

text \<open>
  No task on the lists of a queue is blocked in a system call: the worker uses timeout 0, so only
  privileged tasks block here, and waking one writes no saved frame.
\<close>

definition queue_inv :: "u32 \<Rightarrow> (wait_head \<Rightarrow> tcb_ptr list) \<Rightarrow> kernel \<Rightarrow> bool" where
  "queue_inv p W k \<longleftrightarrow> (\<exists>q. queues k p = Some q \<and> queue_wf q) \<and> prim_inv W k \<and>
     (\<forall>t \<in> set (W (QueueSendWait p)) \<union> set (W (QueueRecvWait p)).
        flags (tcb_pool k t) AND TASK_FLAG_SVC_BLOCKED = 0)"

definition queue_contents :: "u32 \<Rightarrow> kernel \<Rightarrow> u8 list list" where
  "queue_contents p k = (case queues k p of None \<Rightarrow> [] | Some q \<Rightarrow> queue_items (mem k) q)"

lemma queue_invD:
  assumes "queue_inv p W k" "queues k p = Some q"
  shows "queue_wf q" "prim_inv W k"
    "t \<in> set (W (QueueSendWait p)) \<Longrightarrow> flags (tcb_pool k t) AND TASK_FLAG_SVC_BLOCKED = 0"
    "t \<in> set (W (QueueRecvWait p)) \<Longrightarrow> flags (tcb_pool k t) AND TASK_FLAG_SVC_BLOCKED = 0"
  using assms unfolding queue_inv_def by auto

lemma queue_inv_cong:
  assumes "tcb_pool k' = tcb_pool k" "\<And>h. read_head h k' = read_head h k"
    "queues k' p = queues k p"
  shows "queue_inv p W k' \<longleftrightarrow> queue_inv p W k"
  unfolding queue_inv_def using prim_inv_cong [of k' k W] assms by simp

lemma queue_contents_length:
  assumes "queue_wf q" "queues k p = Some q"
  shows "length (queue_contents p k) \<le> unat (q_size q)"
    "length (queue_contents p k) = unat (q_size q) \<longleftrightarrow> (q_tail q + 1) mod q_slots q = q_head q"
    "queue_contents p k = [] \<longleftrightarrow> q_head q = q_tail q"
proof -
  note f = queue_wf_facts [OF assms(1)]
  have len: "length (queue_contents p k) = ring_count (unat (q_slots q)) (unat (q_head q)) (unat (q_tail q))"
    using assms(2) by (simp add: queue_contents_def queue_items_def)
  show "length (queue_contents p k) \<le> unat (q_size q)"
    using ring_count_bound [OF f(1,2)] f(6) len by linarith
  have "q_tail q < q_slots q" using assms(1) by (simp add: queue_wf_def)
  then have "(q_tail q + 1) mod q_slots q = q_head q \<longleftrightarrow>
      Suc (unat (q_tail q)) mod unat (q_slots q) = unat (q_head q)"
    by (simp add: word_unat_eq_iff next_index)
  then show "length (queue_contents p k) = unat (q_size q) \<longleftrightarrow> (q_tail q + 1) mod q_slots q = q_head q"
    using ring_full [OF f(1,2)] f(6) len by simp
  have "queue_contents p k = [] \<longleftrightarrow> unat (q_head q) = unat (q_tail q)"
    using ring_empty [OF f(1,2)] assms(2) by (simp add: queue_contents_def queue_items_def)
  then show "queue_contents p k = [] \<longleftrightarrow> q_head q = q_tail q" by (simp add: word_unat_eq_iff)
qed

text \<open>A state reached by changing the indices and waking the first waiter of one list.\<close>

lemma queue_inv_wake:
  fixes m :: memory and pm :: u32
  assumes inv: "queue_inv p W k" and q: "queues k p = Some q"
    and q': "queue_wf q'" "q_send_wait q' = q_send_wait q" "q_recv_wait q' = q_recv_wait q"
    and h: "h = QueueSendWait p \<and> w = q_send_wait q \<or> h = QueueRecvWait p \<and> w = q_recv_wait q"
  defines "k' \<equiv> wake_first h w pm (set_queue p q' (k\<lparr>mem := m\<rparr>))"
  shows "queue_inv p (W(h := tl (W h))) k'" "queue_contents p k' = queue_items m q'"
    "mem k' = m" "primask k' = pm" "map_option strip_queue (queues k' p) = Some (strip_queue q')"
    "\<forall>t ts. W h = t # ts \<longrightarrow> tstate (tcb_pool k' t) = TASK_READY"
proof -
  let ?k = "set_queue p q' (k\<lparr>mem := m\<rparr>)"
  have "prim_inv W (k\<lparr>mem := m\<rparr>)"
    using queue_invD(2) [OF inv q] by (subst prim_inv_cong [of _ k]) simp_all
  then have inv1: "prim_inv W ?k" using prim_inv_set_queue [of W "k\<lparr>mem := m\<rparr>" p q q'] q q' by simp
  have head: "read_head h ?k = Some w" using h q' by (auto simp: read_head_def)
  note wake = wake_first_inv(1-4,6-8) [OF inv1 head, where pm = pm, folded k'_def]
  note heads = wake_first_inv(5) [OF inv1 head]
  show "primask k' = pm" by (rule wake(2))
  show strip: "map_option strip_queue (queues k' p) = Some (strip_queue q')" using wake(3) by simp
  have nosvc: "flags (tcb_pool k t) AND TASK_FLAG_SVC_BLOCKED = 0" if "t \<in> set (W h)" for t
    using that h queue_invD(3,4) [OF inv q] by blast
  have w: "w = Some t \<Longrightarrow> t \<in> set (W h)" for t
    using heads by (metis list.set_intros(1) option.simps(5))
  show m: "mem k' = m"
    using wake(4) nosvc w by (auto simp: deliver_def split: option.splits)
  obtain q1 where q1: "queues k' p = Some q1" "strip_queue q1 = strip_queue q'"
    using strip by (cases "queues k' p") auto
  then have same: "queue_wf q1 = queue_wf q'" "queue_items x q1 = queue_items x q'" for x
    by (metis strip_queue_same(1), metis strip_queue_same(2))
  show "queue_contents p k' = queue_items m q'" using q1 same m by (simp add: queue_contents_def)
  have "flags (tcb_pool k' t) AND TASK_FLAG_SVC_BLOCKED = 0"
    if "t \<in> set ((W(h := tl (W h))) g)" "g = QueueSendWait p \<or> g = QueueRecvWait p" for t g
  proof -
    have "tcb_pool k' t = tcb_pool k t"
    proof (cases "g = h")
      case True
      then show ?thesis using that(1) wake(7) by simp
    next
      case False
      then have "t \<in> set (W g)" using that(1) by simp
      then have "t \<notin> set (W h)" using False wait_wf_disjoint [OF prim_invD(1) [OF inv1]] by blast
      then show ?thesis using wake(6) by simp
    qed
    moreover have "t \<in> set (W g)" using that(1) by (cases "W h") (auto split: if_splits)
    ultimately show ?thesis using that(2) queue_invD(3,4) [OF inv q] by auto
  qed
  then show "queue_inv p (W(h := tl (W h))) k'"
    using wake(1) q1 same q'(1) unfolding queue_inv_def by blast
  show "\<forall>t ts. W h = t # ts \<longrightarrow> tstate (tcb_pool k' t) = TASK_READY"
    using heads wake(5) by (auto split: option.splits)
qed

text \<open>A task that runs blocks on a list of the queue, with its timeout.\<close>

lemma queue_block_inv:
  assumes inv: "queue_inv p W k" and q: "queues k p = Some q"
    and h: "h = QueueSendWait p \<or> h = QueueRecvWait p"
    and cur: "current_task k = Some t" "\<And>h. t \<notin> set (W h)" "blocking_wait_list (tcb_pool k t) = None"
      "flags (tcb_pool k t) AND TASK_FLAG_SVC_BLOCKED = 0"
    and tm: "timeout_ms \<noteq> 0"
  obtains k' where "queue_block h pm timeout_ms k = Some (Suspend, k')"
    "queue_inv p (W(h := W h @ [t])) k'" "queue_contents p k' = queue_contents p k"
    "primask k' = pm" "pendsv k'" "tstate (tcb_pool k' t) = TASK_WAITING"
    "delay_ticks (tcb_pool k' t) = (if timeout_ms = CREST_WAIT_FOREVER then 0 else timeout_ms)"
proof -
  let ?k1 = "set_waiting t k" and ?W = "W(h := W h @ [t])"
  have inv1: "prim_inv W ?k1"
    unfolding set_waiting_def using queue_invD(2) [OF inv q] cur by (intro prim_inv_other) simp_all
  have head: "read_head h ?k1 \<noteq> None" using h q by (auto simp: set_waiting_def)
  obtain k2 where k2: "wait_append h t ?k1 = Some k2" "wait_frame ?k1 k2"
    "prim_inv ?W (set_timeout h t timeout_ms k2)"
    by (rule fifo.block_inv [OF inv1 head cur(2) _ tm]) (simp add: set_waiting_def)
  let ?k' = "(set_timeout h t timeout_ms k2)\<lparr>primask := pm, pendsv := True\<rparr>"
  have run: "queue_block h pm timeout_ms k = Some (Suspend, ?k')"
    using cur(1) k2(1)
    by (simp add: queue_block_def scheduler_get_current_def exit_critical_def port_trigger_pendsv_def)
  have inv': "prim_inv ?W ?k'" using k2(3) by (subst prim_inv_cong) simp_all
  have "map_option strip_queue (queues ?k' p) = map_option strip_queue (queues k p)"
    using k2(2) unfolding wait_frame_def prims_same_def strip_queue_def [abs_def]
    by (simp add: set_waiting_def set_timeout_def)
  then obtain q1 where q1: "queues ?k' p = Some q1" "strip_queue q1 = strip_queue q"
    using q by (cases "queues ?k' p") auto
  then have same: "queue_wf q1 = queue_wf q" "queue_items x q1 = queue_items x q" for x
    by (metis strip_queue_same(1), metis strip_queue_same(2))
  have m: "mem ?k' = mem k"
    using wait_frame_fields(1) [OF k2(2)] by (simp add: set_timeout_def set_waiting_def)
  have cont: "queue_contents p ?k' = queue_contents p k"
    using q q1 same m by (simp add: queue_contents_def)
  have fl: "flags (tcb_pool ?k' u) AND TASK_FLAG_SVC_BLOCKED = 0"
    if "u = t \<or> flags (tcb_pool k u) AND TASK_FLAG_SVC_BLOCKED = 0" for u
  proof -
    have "(f AND NOT 4) AND 2 = f AND 2" for f :: u32
      by (rule bit_word_eqI) (auto simp: bit_simps bit_1_iff)
    then show ?thesis
      using that cur(4) strip_fields(3) [OF wait_frame_strip [OF k2(2), of u]]
      by (auto simp: set_timeout_def set_waiting_def)
  qed
  have "queue_inv p ?W ?k'"
    unfolding queue_inv_def
  proof (intro conjI ballI)
    show "\<exists>q. queues ?k' p = Some q \<and> queue_wf q" using q1 same queue_invD(1) [OF inv q] by blast
    show "prim_inv ?W ?k'" by (rule inv')
    fix u assume "u \<in> set (?W (QueueSendWait p)) \<union> set (?W (QueueRecvWait p))"
    then have "u = t \<or> u \<in> set (W (QueueSendWait p)) \<or> u \<in> set (W (QueueRecvWait p))"
      using h by (auto split: if_splits)
    then show "flags (tcb_pool ?k' u) AND TASK_FLAG_SVC_BLOCKED = 0"
      using fl queue_invD(3,4) [OF inv q] by blast
  qed
  moreover have "tstate (tcb_pool ?k' t) = TASK_WAITING"
    "delay_ticks (tcb_pool ?k' t) = (if timeout_ms = CREST_WAIT_FOREVER then 0 else timeout_ms)"
    using strip_fields(1) [OF wait_frame_strip [OF k2(2), of t]]
    by (simp_all add: set_timeout_def set_waiting_def)
  ultimately show thesis using run cont by (intro that [of ?k']) simp_all
qed

lemma critical_queue_inv:
  "queue_inv p W k \<Longrightarrow> queue_inv p W (k\<lparr>primask := 1\<rparr>)"
  by (subst queue_inv_cong [of _ k]) simp_all

lemma push_wf:
  assumes "queue_wf q"
  shows "queue_wf (q\<lparr>q_tail := (q_tail q + 1) mod q_slots q\<rparr>)"
    "queue_wf (q\<lparr>q_head := (q_head q + 1) mod q_slots q\<rparr>)"
proof -
  have "0 < q_slots q" using queue_wf_facts(4) [OF assms] by (simp add: word_gt_0)
  then have "x mod q_slots q < q_slots q" for x
    by (simp add: word_less_nat_alt unat_mod)
  then have ok: "(q_tail q + 1) mod q_slots q < q_slots q" "(q_head q + 1) mod q_slots q < q_slots q"
    by blast+
  have wf: "0 < q_item_size q" "0 < q_size q" "q_head q < q_slots q" "q_tail q < q_slots q"
    using assms unfolding queue_wf_def by blast+
  note size = queue_wf_facts(6,7) [OF assms]
  show "queue_wf (q\<lparr>q_tail := (q_tail q + 1) mod q_slots q\<rparr>)"
    unfolding queue_wf_def using wf ok by (simp add: size(2)) (use size(1) in simp)
  show "queue_wf (q\<lparr>q_head := (q_head q + 1) mod q_slots q\<rparr>)"
    unfolding queue_wf_def using wf ok by (simp add: size(2)) (use size(1) in simp)
qed

section \<open>Push and pop\<close>

lemma strip_queue_frame:
  assumes "strip_queue q' = strip_queue q"
  shows "q_item_size q' = q_item_size q" "q_size q' = q_size q" "queue_region q' = queue_region q"
proof -
  have f: "q_item_size x = q_item_size (strip_queue x)" "q_size x = q_size (strip_queue x)"
    "queue_region x = queue_region (strip_queue x)" for x
    by (simp_all add: strip_queue_def queue_region_def)
  show "q_item_size q' = q_item_size q" using f(1) [of q] f(1) [of q'] assms by metis
  show "q_size q' = q_size q" using f(2) [of q] f(2) [of q'] assms by metis
  show "queue_region q' = queue_region q" using f(3) [of q] f(3) [of q'] assms by metis
qed

text \<open>The two operations where they do not block.\<close>

lemma queue_push_space:
  assumes inv: "queue_inv p W k" and q: "queues k p = Some q"
    and src: "region item (unat (q_item_size q)) \<inter> queue_region q = {}"
    and space: "length (queue_contents p k) < unat (q_size q)"
  obtains k' q' where "z_impl_queue_push p item timeout_ms k = Some (Return 0, k')" "primask k' = primask k"
    "queue_contents p k' = queue_contents p k @ [bytes_at (mem k) item (unat (q_item_size q))]"
    "queue_inv p (W(QueueRecvWait p := tl (W (QueueRecvWait p)))) k'"
    "\<forall>u us. W (QueueRecvWait p) = u # us \<longrightarrow> tstate (tcb_pool k' u) = TASK_READY"
    "queues k' p = Some q'" "q_item_size q' = q_item_size q" "q_size q' = q_size q" "queue_region q' = queue_region q"
proof -
  let ?k0 = "k\<lparr>primask := 1\<rparr>"
  note wf = queue_invD(1) [OF inv q] and inv0 = critical_queue_inv [OF inv]
  have slots: "q_slots q \<noteq> 0" by (rule queue_wf_facts(4) [OF wf])
  have room: "(q_tail q + 1) mod q_slots q \<noteq> q_head q" using queue_contents_length(2) [OF wf q] space by auto
  let ?q = "q\<lparr>q_tail := (q_tail q + 1) mod q_slots q\<rparr>"
  let ?m = "memcpy (mem k) (slot_addr q (q_tail q)) item (q_item_size q)"
  let ?k' = "wake_first (QueueRecvWait p) (q_recv_wait q) (primask k) (set_queue p ?q (?k0\<lparr>mem := ?m\<rparr>))"
  have run: "z_impl_queue_push p item timeout_ms k = Some (Return 0, ?k')"
    using q room slots
    by (simp add: z_impl_queue_push_def queue_push_body_def enter_critical_def Let_def)
  have q0: "queues ?k0 p = Some q" "q_send_wait ?q = q_send_wait q" "q_recv_wait ?q = q_recv_wait q"
    using q by simp_all
  have h: "QueueRecvWait p = QueueSendWait p \<and> q_recv_wait q = q_send_wait q \<or>
    QueueRecvWait p = QueueRecvWait p \<and> q_recv_wait q = q_recv_wait q" by simp
  note res = queue_inv_wake [OF inv0 q0(1) push_wf(1) [OF wf] q0(2,3) h, of "primask k" ?m]
  have cont: "queue_contents p ?k' = queue_contents p k @ [bytes_at (mem k) item (unat (q_item_size q))]"
    using res(2) queue_items_push [OF wf room src, of "mem k"] q by (simp add: queue_contents_def)
  obtain q' where q': "queues ?k' p = Some q'" "strip_queue q' = strip_queue ?q"
    using res(5) by (cases "queues ?k' p") auto
  have "queue_region ?q = queue_region q" by (simp add: queue_region_def)
  then have fr: "q_item_size q' = q_item_size q" "q_size q' = q_size q" "queue_region q' = queue_region q"
    using strip_queue_frame [OF q'(2)] by simp_all
  show thesis
    by (rule that [OF run res(4) cont _ res(6) q'(1) fr]) (rule res(1))
qed

lemma queue_push_full:
  assumes inv: "queue_inv p W k" and q: "queues k p = Some q"
    and "\<not> length (queue_contents p k) < unat (q_size q)"
  shows "z_impl_queue_push p item 0 k = Some (Return (- 1), k)"
proof -
  note wf = queue_invD(1) [OF inv q]
  have "(q_tail q + 1) mod q_slots q = q_head q"
    using queue_contents_length(1,2) [OF wf q] assms(3) by linarith
  then show ?thesis using q queue_wf_facts(4) [OF wf]
    by (simp add: z_impl_queue_push_def queue_push_body_def state_defs Let_def)
qed

lemma queue_pop_data:
  assumes inv: "queue_inv p W k" and q: "queues k p = Some q"
    and dst: "region item (unat (q_item_size q)) \<inter> queue_region q = {}"
    and data: "queue_contents p k \<noteq> []"
  obtains k' q' where "z_impl_queue_pop p item timeout_ms k = Some (Return 0, k')" "primask k' = primask k"
    "queue_contents p k = bytes_at (mem k') item (unat (q_item_size q)) # queue_contents p k'"
    "\<forall>b. b \<notin> region item (unat (q_item_size q)) \<longrightarrow> mem k' b = mem k b"
    "queue_inv p (W(QueueSendWait p := tl (W (QueueSendWait p)))) k'"
    "\<forall>u us. W (QueueSendWait p) = u # us \<longrightarrow> tstate (tcb_pool k' u) = TASK_READY"
    "queues k' p = Some q'" "q_item_size q' = q_item_size q" "q_size q' = q_size q" "queue_region q' = queue_region q"
proof -
  let ?k0 = "k\<lparr>primask := 1\<rparr>"
  note wf = queue_invD(1) [OF inv q] and inv0 = critical_queue_inv [OF inv]
  have slots: "q_slots q \<noteq> 0" by (rule queue_wf_facts(4) [OF wf])
  have ne: "q_head q \<noteq> q_tail q" using queue_contents_length(3) [OF wf q] data by blast
  let ?q = "q\<lparr>q_head := (q_head q + 1) mod q_slots q\<rparr>"
  let ?m = "memcpy (mem k) item (slot_addr q (q_head q)) (q_item_size q)"
  let ?k' = "wake_first (QueueSendWait p) (q_send_wait q) (primask k) (set_queue p ?q (?k0\<lparr>mem := ?m\<rparr>))"
  have run: "z_impl_queue_pop p item timeout_ms k = Some (Return 0, ?k')"
    using ne q slots
    by (simp add: z_impl_queue_pop_def queue_pop_body_def enter_critical_def Let_def)
  have q0: "queues ?k0 p = Some q" "q_send_wait ?q = q_send_wait q" "q_recv_wait ?q = q_recv_wait q"
    using q by simp_all
  have h: "QueueSendWait p = QueueSendWait p \<and> q_send_wait q = q_send_wait q \<or>
    QueueSendWait p = QueueRecvWait p \<and> q_send_wait q = q_recv_wait q" by simp
  note res = queue_inv_wake [OF inv0 q0(1) push_wf(2) [OF wf] q0(2,3) h, of "primask k" ?m]
  have "queue_contents p ?k' = queue_items ?m ?q" by (rule res(2))
  then have cont: "queue_contents p k = bytes_at (mem ?k') item (unat (q_item_size q)) # queue_contents p ?k'"
    using res(3) queue_items_pop [OF wf ne dst, of "mem k"] q by (simp add: queue_contents_def)
  have out: "\<forall>b. b \<notin> region item (unat (q_item_size q)) \<longrightarrow> mem ?k' b = mem k b"
    using res(3) by (simp add: memcpy_outside)
  obtain q' where q': "queues ?k' p = Some q'" "strip_queue q' = strip_queue ?q"
    using res(5) by (cases "queues ?k' p") auto
  have "queue_region ?q = queue_region q" by (simp add: queue_region_def)
  then have fr: "q_item_size q' = q_item_size q" "q_size q' = q_size q" "queue_region q' = queue_region q"
    using strip_queue_frame [OF q'(2)] by simp_all
  show thesis
    by (rule that [OF run res(4) cont out _ res(6) q'(1) fr]) (rule res(1))
qed

lemma queue_pop_none:
  assumes inv: "queue_inv p W k" and q: "queues k p = Some q" and "queue_contents p k = []"
  shows "z_impl_queue_pop p item 0 k = Some (Return (- 1), k)"
proof -
  note wf = queue_invD(1) [OF inv q]
  have "q_head q = q_tail q" using queue_contents_length(3) [OF wf q] assms(3) by blast
  then show ?thesis using q queue_wf_facts(4) [OF wf]
    by (simp add: z_impl_queue_pop_def queue_pop_body_def state_defs Let_def)
qed

text \<open>
  C21. A push, in every case: with space it appends the bytes of the item, wakes the receiver that
  has waited longest, and returns 0; on a full queue it returns \<open>-1\<close> and changes nothing for timeout 0;
  otherwise the task is appended to the senders, WAITING with its timeout, and the contents stay.
\<close>

theorem queue_push_correct:
  assumes inv: "queue_inv p W k" and q: "queues k p = Some q"
    and src: "region item (unat (q_item_size q)) \<inter> queue_region q = {}"
    and cur: "current_task k = Some t" "\<And>h. t \<notin> set (W h)" "blocking_wait_list (tcb_pool k t) = None"
      "flags (tcb_pool k t) AND TASK_FLAG_SVC_BLOCKED = 0"
  shows "\<exists>r k'. z_impl_queue_push p item timeout_ms k = Some (r, k') \<and> primask k' = primask k \<and>
    (if length (queue_contents p k) < unat (q_size q) then r = Return 0 \<and>
       queue_contents p k' = queue_contents p k @ [bytes_at (mem k) item (unat (q_item_size q))] \<and>
       queue_inv p (W(QueueRecvWait p := tl (W (QueueRecvWait p)))) k' \<and>
       (\<forall>u us. W (QueueRecvWait p) = u # us \<longrightarrow> tstate (tcb_pool k' u) = TASK_READY)
     else if timeout_ms = 0 then r = Return (- 1) \<and> k' = k
     else r = Suspend \<and> queue_contents p k' = queue_contents p k \<and> pendsv k' \<and>
       queue_inv p (W(QueueSendWait p := W (QueueSendWait p) @ [t])) k' \<and>
       tstate (tcb_pool k' t) = TASK_WAITING \<and>
       delay_ticks (tcb_pool k' t) = (if timeout_ms = CREST_WAIT_FOREVER then 0 else timeout_ms))"
proof -
  note wf = queue_invD(1) [OF inv q] and inv0 = critical_queue_inv [OF inv]
  consider (space) "length (queue_contents p k) < unat (q_size q)"
    | (poll) "\<not> length (queue_contents p k) < unat (q_size q)" "timeout_ms = 0"
    | (block) "\<not> length (queue_contents p k) < unat (q_size q)" "timeout_ms \<noteq> 0" by blast
  then show ?thesis
  proof cases
    case space
    from queue_push_space [OF inv q src space, of timeout_ms] show ?thesis
      using space by (metis (no_types, lifting))
  next
    case poll
    then show ?thesis using queue_push_full [OF inv q] by simp
  next
    case block
    let ?k0 = "k\<lparr>primask := 1\<rparr>"
    obtain k' where k': "queue_block (QueueSendWait p) (primask k) timeout_ms ?k0 = Some (Suspend, k')"
      "queue_inv p (W(QueueSendWait p := W (QueueSendWait p) @ [t])) k'"
      "queue_contents p k' = queue_contents p ?k0"
      "primask k' = primask k" "pendsv k'" "tstate (tcb_pool k' t) = TASK_WAITING"
      "delay_ticks (tcb_pool k' t) = (if timeout_ms = CREST_WAIT_FOREVER then 0 else timeout_ms)"
      by (rule queue_block_inv [OF inv0, of q "QueueSendWait p" t timeout_ms "primask k"])
        (use q cur block(2) in auto)
    have "(q_tail q + 1) mod q_slots q = q_head q"
      using queue_contents_length(1,2) [OF wf q] block(1) by linarith
    then have "z_impl_queue_push p item timeout_ms k = Some (Suspend, k')"
      using block q queue_wf_facts(4) [OF wf] k'(1)
      by (simp add: z_impl_queue_push_def queue_push_body_def enter_critical_def Let_def)
    moreover have "queue_contents p ?k0 = queue_contents p k"
      by (simp add: queue_contents_def cong: option.case_cong)
    ultimately show ?thesis using k' block by simp
  qed
qed

text \<open>
  C22. A pop, in every case: with data the oldest item is copied to the destination and leaves the
  queue, the sender that has waited longest is woken, and 0 is returned; on an empty queue it returns
  \<open>-1\<close> and changes nothing for timeout 0; otherwise the task is appended to the receivers.
\<close>

theorem queue_pop_correct:
  assumes inv: "queue_inv p W k" and q: "queues k p = Some q"
    and dst: "region item (unat (q_item_size q)) \<inter> queue_region q = {}"
    and cur: "current_task k = Some t" "\<And>h. t \<notin> set (W h)" "blocking_wait_list (tcb_pool k t) = None"
      "flags (tcb_pool k t) AND TASK_FLAG_SVC_BLOCKED = 0"
  shows "\<exists>r k'. z_impl_queue_pop p item timeout_ms k = Some (r, k') \<and> primask k' = primask k \<and>
    (if queue_contents p k \<noteq> [] then r = Return 0 \<and>
       queue_contents p k = bytes_at (mem k') item (unat (q_item_size q)) # queue_contents p k' \<and>
       (\<forall>b. b \<notin> region item (unat (q_item_size q)) \<longrightarrow> mem k' b = mem k b) \<and>
       queue_inv p (W(QueueSendWait p := tl (W (QueueSendWait p)))) k' \<and>
       (\<forall>u us. W (QueueSendWait p) = u # us \<longrightarrow> tstate (tcb_pool k' u) = TASK_READY)
     else if timeout_ms = 0 then r = Return (- 1) \<and> k' = k
     else r = Suspend \<and> queue_contents p k' = [] \<and> pendsv k' \<and>
       queue_inv p (W(QueueRecvWait p := W (QueueRecvWait p) @ [t])) k' \<and>
       tstate (tcb_pool k' t) = TASK_WAITING \<and>
       delay_ticks (tcb_pool k' t) = (if timeout_ms = CREST_WAIT_FOREVER then 0 else timeout_ms))"
proof -
  note wf = queue_invD(1) [OF inv q] and inv0 = critical_queue_inv [OF inv]
  consider (data) "queue_contents p k \<noteq> []"
    | (poll) "queue_contents p k = []" "timeout_ms = 0"
    | (block) "queue_contents p k = []" "timeout_ms \<noteq> 0" by blast
  then show ?thesis
  proof cases
    case data
    from queue_pop_data [OF inv q dst data, of timeout_ms] show ?thesis
      using data by (metis (no_types, lifting))
  next
    case poll
    then show ?thesis using queue_pop_none [OF inv q] by simp
  next
    case block
    let ?k0 = "k\<lparr>primask := 1\<rparr>"
    obtain k' where k': "queue_block (QueueRecvWait p) (primask k) timeout_ms ?k0 = Some (Suspend, k')"
      "queue_inv p (W(QueueRecvWait p := W (QueueRecvWait p) @ [t])) k'"
      "queue_contents p k' = queue_contents p ?k0"
      "primask k' = primask k" "pendsv k'" "tstate (tcb_pool k' t) = TASK_WAITING"
      "delay_ticks (tcb_pool k' t) = (if timeout_ms = CREST_WAIT_FOREVER then 0 else timeout_ms)"
      by (rule queue_block_inv [OF inv0, of q "QueueRecvWait p" t timeout_ms "primask k"])
        (use q cur block(2) in auto)
    have "q_head q = q_tail q" using queue_contents_length(3) [OF wf q] block(1) by blast
    then have "z_impl_queue_pop p item timeout_ms k = Some (Suspend, k')"
      using block q queue_wf_facts(4) [OF wf] k'(1)
      by (simp add: z_impl_queue_pop_def queue_pop_body_def enter_critical_def Let_def)
    moreover have "queue_contents p ?k0 = queue_contents p k"
      by (simp add: queue_contents_def cong: option.case_cong)
    ultimately show ?thesis using k' block by simp
  qed
qed

text \<open>
  A sample state: a queue of at most two items of four bytes, with one item and no waiter; task 0 runs.
\<close>

definition demo_queue :: kernel where
  "demo_queue = demo_boot\<lparr>
     tcb_pool := (tcb_pool demo_boot)(0 := zero_tcb\<lparr>tstate := TASK_RUNNING\<rparr>),
     current_task := Some 0,
     queues := [0x20008008 \<mapsto> \<lparr>q_item_size = 4, q_size = 2, q_slots = 3, q_head = 0, q_tail = 1,
       q_buffer = 0x20008030, q_send_wait = None, q_recv_wait = None\<rparr>]\<rparr>"

lemma demo_queue_fields [simp]:
  "queues demo_queue 0x20008008 = Some \<lparr>q_item_size = 4, q_size = 2, q_slots = 3, q_head = 0, q_tail = 1,
     q_buffer = 0x20008030, q_send_wait = None, q_recv_wait = None\<rparr>"
  "current_task demo_queue = Some 0" "primask demo_queue = 0"
  "blocking_wait_list (tcb_pool demo_queue 0) = None" "flags (tcb_pool demo_queue 0) = 0"
  by (simp_all add: demo_queue_def zero_tcb_def demo_boot_def boot_kernel_def)

lemma demo_queue_inv: "queue_inv 0x20008008 (\<lambda>_. []) demo_queue"
proof -
  have heads: "read_head h demo_queue =
      (if h = QueueSendWait 0x20008008 \<or> h = QueueRecvWait 0x20008008 then Some None else None)" for h
    by (cases h) (simp_all add: read_head_def demo_queue_def demo_boot_def boot_kernel_def)
  then have "wait_wf (\<lambda>_. []) demo_queue"
    by (auto simp: wait_wf_def split: if_splits)
  moreover have "timeouts_ok (\<lambda>_. []) demo_queue" "waiting_ok (\<lambda>_. []) demo_queue"
    by (auto simp: timeouts_ok_def waiting_ok_def demo_queue_def zero_tcb_def demo_boot_def boot_kernel_def)
  ultimately have "prim_inv (\<lambda>_. []) demo_queue" by (simp add: prim_inv_def)
  then show ?thesis by (simp add: queue_inv_def queue_wf_def)
qed

lemma demo_queue_contents: "queue_contents 0x20008008 demo_queue = [[0, 0, 0, 0]]"
  by (simp add: queue_contents_def queue_items_def ring_slots_def ring_count_def slot_bytes_def bytes_at_def
      slot_addr_def numeral_3_eq_3) (simp add: demo_queue_def demo_boot_def boot_kernel_def upt_rec)

lemma demo_queue_apart: "region 0x20004000 4 \<inter> region 0x20008030 12 = ({} :: u32 set)"
proof -
  have "b - 0x20008030 = b - 0x20004000 - (0x4030 :: u32)" for b :: u32 by simp
  then have "\<not> unat (b - 0x20008030) < 12" if "unat (b - 0x20004000) < 4" for b :: u32
    using that unat_u32_lt [of b] by (auto simp: unat_sub_if_size word_size)
  then show ?thesis by (auto simp: region_def)
qed

theorem queue_push_correct_witness:
  "\<exists>k'. z_impl_queue_push 0x20008008 0x20004000 5 demo_queue = Some (Return 0, k') \<and>
     queue_contents 0x20008008 k' = [[0, 0, 0, 0], bytes_at (mem demo_queue) 0x20004000 4]"
  using queue_push_correct [OF demo_queue_inv, of _ "0x20004000" 0 5] demo_queue_apart
  by (auto simp: demo_queue_contents queue_region_def)

theorem queue_pop_correct_witness:
  "\<exists>k'. z_impl_queue_pop 0x20008008 0x20004000 5 demo_queue = Some (Return 0, k') \<and>
     queue_contents 0x20008008 k' = [] \<and> bytes_at (mem k') 0x20004000 4 = [0, 0, 0, 0]"
  using queue_pop_correct [OF demo_queue_inv, of _ "0x20004000" 0 5] demo_queue_apart
  by (auto simp: demo_queue_contents queue_region_def)

section \<open>First in, first out\<close>

text \<open>
  Push and pop as the worker calls them, with timeout 0, as the operations of a bounded FIFO: the
  value of a push is the item's bytes, that of a pop the bytes it leaves at the destination \<open>dst\<close>.
\<close>

definition queue_put :: "u32 \<Rightarrow> u32 \<Rightarrow> kernel \<Rightarrow> kernel option" where
  "queue_put p item k = (case z_impl_queue_push p item 0 k of
     Some (Return r, k') \<Rightarrow> if r = 0 then Some k' else None | _ \<Rightarrow> None)"

definition queue_item :: "u32 \<Rightarrow> u32 \<Rightarrow> kernel \<Rightarrow> u8 list" where
  "queue_item p a k = (case queues k p of None \<Rightarrow> [] | Some q \<Rightarrow> bytes_at (mem k) a (unat (q_item_size q)))"

definition queue_take :: "u32 \<Rightarrow> u32 \<Rightarrow> kernel \<Rightarrow> (u8 list \<times> kernel) option" where
  "queue_take p dst k = (case z_impl_queue_pop p dst 0 k of
     Some (Return r, k') \<Rightarrow> if r = 0 then Some (queue_item p dst k', k') else None | _ \<Rightarrow> None)"

definition queue_cap :: "u32 \<Rightarrow> kernel \<Rightarrow> nat" where
  "queue_cap p k = (case queues k p of None \<Rightarrow> 0 | Some q \<Rightarrow> unat (q_size q))"

definition queue_src :: "u32 \<Rightarrow> u32 \<Rightarrow> kernel \<Rightarrow> bool" where
  "queue_src p a k = (case queues k p of None \<Rightarrow> False
     | Some q \<Rightarrow> region a (unat (q_item_size q)) \<inter> queue_region q = {})"

definition fifo_ok :: "u32 \<Rightarrow> u32 \<Rightarrow> kernel \<Rightarrow> bool" where
  "fifo_ok p dst k \<longleftrightarrow> (\<exists>W. queue_inv p W k) \<and> queue_src p dst k"

lemma fifo_okE:
  assumes "fifo_ok p dst k"
  obtains W q where "queue_inv p W k" "queues k p = Some q"
    "region dst (unat (q_item_size q)) \<inter> queue_region q = {}" "queue_wf q"
  using assms by (auto simp: fifo_ok_def queue_src_def queue_inv_def split: option.splits)

lemma queue_put_some:
  assumes ok: "fifo_ok p dst k" and src: "queue_src p i k" and put: "queue_put p i k = Some k'"
  shows "fifo_ok p dst k' \<and> queue_contents p k' = queue_contents p k @ [queue_item p i k] \<and>
    queue_cap p k' = queue_cap p k \<and> (\<forall>j. queue_src p j k \<longrightarrow> queue_src p j k')"
proof -
  obtain W q where q: "queue_inv p W k" "queues k p = Some q"
    "region dst (unat (q_item_size q)) \<inter> queue_region q = {}" by (rule fifo_okE [OF ok])
  have room: "length (queue_contents p k) < unat (q_size q)"
    using put queue_push_full [OF q(1,2), of i]
    by (cases "length (queue_contents p k) < unat (q_size q)") (auto simp: queue_put_def)
  have "region i (unat (q_item_size q)) \<inter> queue_region q = {}" using src q(2) by (simp add: queue_src_def)
  then show ?thesis
    by (rule queue_push_space [OF q(1,2) _ room, of i 0])
      (use put q src in \<open>auto simp: queue_put_def queue_cap_def queue_src_def queue_item_def fifo_ok_def\<close>)
qed

lemma queue_take_some:
  assumes ok: "fifo_ok p dst k" and take: "queue_take p dst k = Some (x, k')"
  shows "fifo_ok p dst k' \<and> queue_contents p k = x # queue_contents p k' \<and>
    queue_cap p k' = queue_cap p k \<and> (\<forall>j. queue_src p j k \<longrightarrow> queue_src p j k')"
proof -
  obtain W q where q: "queue_inv p W k" "queues k p = Some q"
    "region dst (unat (q_item_size q)) \<inter> queue_region q = {}" by (rule fifo_okE [OF ok])
  have data: "queue_contents p k \<noteq> []"
    using take queue_pop_none [OF q(1,2)] by (auto simp: queue_take_def)
  show ?thesis
    by (rule queue_pop_data [OF q data, of 0])
      (use take q in \<open>auto simp: queue_take_def queue_cap_def queue_src_def queue_item_def fifo_ok_def\<close>)
qed

lemma queue_put_none:
  assumes ok: "fifo_ok p dst k"
  shows "queue_put p i k = None \<longleftrightarrow> length (queue_contents p k) = queue_cap p k"
proof -
  obtain W q where q: "queue_inv p W k" "queues k p = Some q" "queue_wf q" by (rule fifo_okE [OF ok])
  note len = queue_contents_length [OF q(3,2)] and slots = queue_wf_facts(4) [OF q(3)]
  show ?thesis
    using queue_push_full [OF q(1,2), of i] q(2) len(1,2) slots
    by (auto simp: queue_put_def queue_cap_def z_impl_queue_push_def queue_push_body_def Let_def
        enter_critical_def)
qed

interpretation data_queue: bounded_fifo "queue_contents p" "queue_cap p" "fifo_ok p dst" "queue_src p"
  "queue_item p" "queue_put p" "queue_take p dst" for p dst
proof unfold_locales
  fix k assume ok: "fifo_ok p dst k"
  obtain W q where q: "queue_inv p W k" "queues k p = Some q"
    "region dst (unat (q_item_size q)) \<inter> queue_region q = {}" "queue_wf q" by (rule fifo_okE [OF ok])
  note len = queue_contents_length [OF q(4,2)]
  show "length (queue_contents p k) \<le> queue_cap p k" using len(1) q(2) by (simp add: queue_cap_def)
  show "queue_take p dst k = None \<longleftrightarrow> queue_contents p k = []"
    using queue_pop_none [OF q(1,2)] queue_pop_data [OF q(1-3), of 0]
    by (fastforce simp: queue_take_def)
qed (use queue_put_some queue_take_some queue_put_none in blast)+

text \<open>
  C23. A queue is first in, first out and bounded: in any sequence of pushes and pops the items popped
  are, in order, the items it held and then the items pushed, the rest is what it still holds, and it
  never holds more than its capacity.
\<close>

theorem queue_first_in_first_out:
  assumes "fifo_ok p dst k" "list_all (\<lambda>i. queue_src p i k) [i. Some i \<leftarrow> ops]"
    and "fifo_run (queue_item p) (queue_put p) (queue_take p dst) ops k = (ins, outs, k')"
  shows "fifo_ok p dst k' \<and> queue_contents p k @ ins = outs @ queue_contents p k' \<and>
    length (queue_contents p k') \<le> queue_cap p k"
proof -
  have "\<forall>i. Some i \<in> set ops \<longrightarrow> queue_src p i k"
    using assms(2) by (induction ops) (auto split: option.splits)
  from data_queue.run_fifo [OF assms(1) this assms(3)] show ?thesis by blast
qed

theorem queue_first_in_first_out_witness:
  "\<exists>ins outs k'. fifo_run (queue_item 0x20008008) (queue_put 0x20008008) (queue_take 0x20008008 0x20004000)
       [None, Some 0x20004000, None] demo_queue = (ins, outs, k') \<and>
     [0, 0, 0, 0] # ins = outs @ queue_contents 0x20008008 k'"
proof -
  obtain ins outs k' where run: "fifo_run (queue_item 0x20008008) (queue_put 0x20008008)
      (queue_take 0x20008008 0x20004000) [None, Some 0x20004000, None] demo_queue = (ins, outs, k')"
    by (metis prod_cases3)
  have "queue_src 0x20008008 0x20004000 demo_queue"
    using demo_queue_apart by (simp add: queue_src_def queue_region_def)
  moreover from this have "fifo_ok 0x20008008 0x20004000 demo_queue"
    using demo_queue_inv unfolding fifo_ok_def by blast
  ultimately show ?thesis
    using queue_first_in_first_out [OF _ _ run] run by (auto simp: demo_queue_contents)
qed

end
