(* ===== verification/Alloc_Frame.thy ===== *)
theory Alloc_Frame
  imports Alloc_Contract
begin

text \<open>
  What the clients of the kernel heap use: \<open>malloc\<close> and \<open>free\<close> change memory and the allocator's
  statics only, and a request that does not overflow returns a region of its own.
\<close>

context allocator
begin

text \<open>A refused request leaves the blocks as they were.\<close>

lemma alloc_null:
  assumes "wf bs k" "sz \<noteq> 0" "alloc sz k = Some (0, k')"
  shows "wf bs k' \<and> base k' = base k \<and> primask k' = primask k"
proof -
  obtain q k'' where "alloc sz k = Some (q, k'')"
    "q = 0 \<longleftrightarrow> (\<forall>(s, al) \<in> set bs. al \<or> s < unat (alloc_need sz))"
    by (rule alloc_returns [OF assms(1,2)])
  then have "alloc_blocks (unat (alloc_need sz)) (base k) bs = None"
    using assms(3) by (simp add: alloc_blocks_None)
  then show ?thesis using alloc_none [OF assms(1,2)] assms(3) by auto
qed

end

lemma malloc_frame:
  assumes "malloc sz k = Some (q, k')"
  obtains m h where "k' = k\<lparr>mem := m, kheap := h\<rparr>"
proof (cases "sz = 0")
  case True
  then have "k' = k\<lparr>mem := mem k, kheap := kheap k\<rparr>" using assms by (simp add: malloc_def)
  then show thesis by (rule that)
next
  case False
  then show thesis
    using assms that by (cases "heap_malloc (heap_start (ld k)) (heap_end (ld k)) (alloc_need sz) (mem k, kheap k)")
      (auto simp: malloc_def Let_def state_defs)
qed

lemma free_frame:
  assumes "free p k = Some k'"
  obtains m h where "k' = k\<lparr>mem := m, kheap := h\<rparr>"
proof (cases "k' = k")
  case True
  then have "k' = k\<lparr>mem := mem k, kheap := kheap k\<rparr>" by simp
  then show thesis by (rule that)
next
  case False
  then show thesis
    using assms that by (cases "heap_free (heap_end (ld k)) (p - HDR_SIZE) (mem k, kheap k)")
      (auto simp: free_def Let_def state_defs simp del: HDR_SIZE_def split: if_splits)
qed

lemma malloc_fields:
  assumes "malloc sz k = Some (q, k')"
  shows "primask k' = primask k" "ld k' = ld k" "tcb_pool k' = tcb_pool k" "tcb_used k' = tcb_used k"
    "task_list k' = task_list k" "rr_current k' = rr_current k" "current_task k' = current_task k"
    "g_priority_mask k' = g_priority_mask k" "sems k' = sems k" "mutexes k' = mutexes k"
    "queues k' = queues k" "kheap_base k' = kheap_base k" "table k' = table k" "pendsv k' = pendsv k"
  by (rule malloc_frame [OF assms], simp add: kheap_base_def)+

lemma kheap_wf_cong:
  "mem k' = mem k \<Longrightarrow> kheap k' = kheap k \<Longrightarrow> ld k' = ld k \<Longrightarrow> kheap_wf bs k' = kheap_wf bs k"
  by (simp add: kheap_wf_def)

text \<open>The byte at address \<open>b\<close> belongs to an allocated block.\<close>

definition in_allocated :: "nat \<Rightarrow> blocks \<Rightarrow> u32 \<Rightarrow> bool" where
  "in_allocated base bs b \<longleftrightarrow>
     (\<exists>(p, s) \<in> set (allocated base bs). p \<le> unat b \<and> unat b < p + s)"

text \<open>The byte at address \<open>b\<close> is in the payload of an allocated block: the allocator never reads it.\<close>

definition in_payload :: "nat \<Rightarrow> blocks \<Rightarrow> u32 \<Rightarrow> bool" where
  "in_payload base bs b \<longleftrightarrow>
     (\<exists>(p, s) \<in> set (allocated base bs). p + 8 \<le> unat b \<and> unat b < p + s)"

lemma in_payload_allocated:
  assumes "in_payload base bs b" shows "in_allocated base bs b"
proof -
  obtain p s where "(p, s) \<in> set (allocated base bs)" "p + 8 \<le> unat b" "unat b < p + s"
    using assms by (auto simp: in_payload_def)
  then show ?thesis unfolding in_allocated_def by (intro bexI [of _ "(p, s)"]) auto
qed

lemma seg_payload_write:
  assumes "\<And>b. a \<le> unat b \<Longrightarrow> unat b < a + bytes bs \<Longrightarrow> \<not> in_payload a bs b \<Longrightarrow> m' b = m b"
    and "a + bytes bs \<le> 4294967296" "sizes_ok bs"
  shows "seg m' a bs p q \<longleftrightarrow> seg m a bs p q"
  using assms
proof (induction a bs arbitrary: p rule: allocated.induct)
  case (2 a s al bs)
  have s: "16 \<le> s" using "2.prems"(3) by (simp add: size_ok_def)
  have keep: "m' b = m b" if "b \<in> region (of_nat a) (if al then 8 else s)" for b
  proof (rule "2.prems"(1))
    have "a \<le> unat b" "unat b < a + (if al then 8 else s)"
      using that s "2.prems"(2) region_of_nat [of a "if al then 8 else s" b] by (auto split: if_splits)
    then show "a \<le> unat b" "unat b < a + bytes ((s, al) # bs)" "\<not> in_payload a ((s, al) # bs) b"
      using s allocated_bounds [of _ _ "a + s" bs] unfolding in_payload_def
      by (fastforce split: if_splits)+
  qed
  have "region (of_nat a) 4 \<subseteq> region (of_nat a :: u32) (if al then 8 else s)"
    using s by (intro region_mono) simp
  then have l0: "load32 m' (of_nat a) = load32 m (of_nat a)"
    using keep by (intro load32_cong) blast
  have l4: "load32 m' (of_nat (a + 4)) = load32 m (of_nat (a + 4))"
  proof (rule load32_cong)
    fix b assume b: "b \<in> region (of_nat (a + 4)) 4"
    then have "b \<in> region (of_nat a) 8"
      using s "2.prems"(2) region_of_nat [of "a + 4" 4 b] region_of_nat [of a 8 b] by simp
    moreover have "region (of_nat a) 8 \<subseteq> region (of_nat a :: u32) (if al then 8 else s)"
      using s by (intro region_mono) simp
    ultimately show "m' b = m b" using keep by blast
  qed
  have "m' b = m b" if "a + s \<le> unat b" "unat b < a + s + bytes bs" "\<not> in_payload (a + s) bs b" for b
    using that by (intro "2.prems"(1)) (auto simp: in_payload_def split: if_splits)
  then have "seg m' (a + s) bs p' q \<longleftrightarrow> seg m (a + s) bs p' q" for p'
    using "2.prems"(2,3) by (intro "2.IH") auto
  then show ?case using l0 l4 by (simp add: hdr_next_def)
qed simp

lemma kheap_wf_payload_write:
  assumes wf: "kheap_wf bs k" and "ld k' = ld k" "kheap k' = kheap k"
    and keep: "\<And>b. kheap_base k \<le> unat b \<Longrightarrow> \<not> in_payload (kheap_base k) bs b \<Longrightarrow> mem k' b = mem k b"
  shows "kheap_wf bs k'"
proof -
  have "kheap_base k + bytes bs \<le> 4294967296" "sizes_ok bs"
    using kernel_heap.wf_facts [OF wf] by (auto intro: less_imp_le)
  then have "seg (mem k') (kheap_base k) bs p q = seg (mem k) (kheap_base k) bs p q" for p q
    using seg_payload_write [of "kheap_base k" bs "mem k'" "mem k"] keep by blast
  then show ?thesis using wf assms(2,3) by (simp add: kheap_wf_def heap_wf_def kheap_base_def)
qed

lemma malloc_region:
  assumes wf: "kheap_wf bs k" and sz: "sz \<noteq> 0" and run: "malloc sz k = Some (q, k')" "q \<noteq> 0"
  obtains bs' where "kheap_wf bs' k'"
    "\<And>b. in_allocated (kheap_base k) bs b \<Longrightarrow> in_allocated (kheap_base k) bs' b \<and> mem k' b = mem k b"
    "unat sz \<le> 4294967280 \<Longrightarrow> unat q + unat sz \<le> kheap_base k + bytes bs \<and> kheap_base k + 8 \<le> unat q \<and>
       8 dvd unat q - kheap_base k"
    "\<And>b. unat sz \<le> 4294967280 \<Longrightarrow> b \<in> region q (unat sz) \<Longrightarrow>
       in_payload (kheap_base k) bs' b \<and> \<not> in_allocated (kheap_base k) bs b"
    "\<And>b. in_payload (kheap_base k) bs b \<Longrightarrow> in_payload (kheap_base k) bs' b"
    "\<exists>p bs''. q = of_nat (p + 8) \<and> mark_free p (kheap_base k) bs' = Some bs'' \<and> coalesce bs'' = bs"
    "\<exists>p. alloc_blocks (unat (alloc_need sz)) (kheap_base k) bs = Some (p, bs')"
proof -
  obtain p s bs' where b: "q = of_nat (p + 8)" "kheap_wf bs' k'"
    "unat (alloc_need sz) \<le> s" "kheap_base k \<le> p" "p + s \<le> kheap_base k + bytes bs"
    "8 dvd p - kheap_base k"
    "set (allocated (kheap_base k) bs') = insert (p, s) (set (allocated (kheap_base k) bs))"
    "\<forall>(p', s') \<in> set (allocated (kheap_base k) bs). p' + s' \<le> p \<or> p + s \<le> p'"
    "\<forall>(p', s') \<in> set (allocated (kheap_base k) bs).
       \<forall>b. p' \<le> unat b \<and> unat b < p' + s' \<longrightarrow> mem k' b = mem k b"
    "\<exists>bs''. mark_free p (kheap_base k) bs' = Some bs'' \<and> coalesce bs'' = bs"
    "alloc_blocks (unat (alloc_need sz)) (kheap_base k) bs = Some (p, bs')"
    by (rule kernel_heap.alloc_block [OF wf sz run]) (rule that; assumption)
  have "0 < unat sz" using sz by (simp add: unat_gt_0)
  then have need: "unat sz + 8 \<le> s" if "unat sz \<le> 4294967280"
    using alloc_need_covers [of sz] that b(3) by linarith
  have lt: "kheap_base k + bytes bs < 4294967296" using kernel_heap.wf_facts [OF wf] by blast
  have q: "unat q = p + 8" if "unat sz \<le> 4294967280"
    unfolding b(1) using b(5) need [OF that] lt by (intro unat_of_nat32) linarith
  have inb: "unat b = p + 8 + unat (b - q) \<and> unat (b - q) < unat sz"
    if "unat sz \<le> 4294967280" "b \<in> region q (unat sz)" for b
  proof -
    have l: "unat (b - q) < unat sz" using that(2) by (simp add: region_def)
    have "unat (q + (b - q)) = unat q + unat (b - q)"
      using l q [OF that(1)] need [OF that(1)] b(5) lt by (intro unat_add_lem [THEN iffD1]) simp
    then show ?thesis using q [OF that(1)] l by simp
  qed
  show thesis
  proof (rule that [OF b(2)])
    show "in_allocated (kheap_base k) bs' b \<and> mem k' b = mem k b" if "in_allocated (kheap_base k) bs b" for b
      using that b(7,9) unfolding in_allocated_def by fastforce
    show "\<exists>p bs''. q = of_nat (p + 8) \<and> mark_free p (kheap_base k) bs' = Some bs'' \<and> coalesce bs'' = bs"
      using b(1,10) by blast
    show "\<exists>p. alloc_blocks (unat (alloc_need sz)) (kheap_base k) bs = Some (p, bs')" using b(11) by blast
    show "in_payload (kheap_base k) bs' b" if "in_payload (kheap_base k) bs b" for b
      using that b(7) unfolding in_payload_def by fastforce
    assume small: "unat sz \<le> 4294967280"
    have "unat q - kheap_base k = (p - kheap_base k) + 8" using q [OF small] b(4) by simp
    then have "8 dvd unat q - kheap_base k" using b(6) by simp
    moreover have "unat q + unat sz \<le> kheap_base k + bytes bs" "kheap_base k + 8 \<le> unat q"
      using q [OF small] b(4,5) need [OF small] by linarith+
    ultimately show "unat q + unat sz \<le> kheap_base k + bytes bs \<and> kheap_base k + 8 \<le> unat q \<and>
        8 dvd unat q - kheap_base k" by blast
    show "in_payload (kheap_base k) bs' b \<and> \<not> in_allocated (kheap_base k) bs b"
      if "b \<in> region q (unat sz)" for b
      using inb [OF small that] b(7,8) need [OF small] unfolding in_allocated_def in_payload_def by fastforce
  qed
qed

text \<open>The same for sizes that do not overflow, as the clients use it.\<close>

lemma malloc_fresh:
  assumes wf: "kheap_wf bs k" and sz: "sz \<noteq> 0" "unat sz \<le> 4294967280"
    and run: "malloc sz k = Some (q, k')" "q \<noteq> 0"
  shows "\<exists>bs'. kheap_wf bs' k' \<and>
    (\<forall>b. in_allocated (kheap_base k) bs b \<longrightarrow> in_allocated (kheap_base k) bs' b \<and> mem k' b = mem k b) \<and>
    unat q + unat sz \<le> kheap_base k + bytes bs \<and> kheap_base k + 8 \<le> unat q \<and>
    (\<forall>b \<in> region q (unat sz). in_payload (kheap_base k) bs' b \<and> \<not> in_allocated (kheap_base k) bs b) \<and>
    (\<exists>p bs''. q = of_nat (p + 8) \<and> mark_free p (kheap_base k) bs' = Some bs'' \<and> coalesce bs'' = bs) \<and>
    (\<exists>p. alloc_blocks (unat (alloc_need sz)) (kheap_base k) bs = Some (p, bs'))"
proof -
  obtain bs' where b: "kheap_wf bs' k'"
    "\<And>b. in_allocated (kheap_base k) bs b \<Longrightarrow> in_allocated (kheap_base k) bs' b \<and> mem k' b = mem k b"
    "unat q + unat sz \<le> kheap_base k + bytes bs \<and> kheap_base k + 8 \<le> unat q"
    "\<And>b. b \<in> region q (unat sz) \<Longrightarrow> in_payload (kheap_base k) bs' b \<and> \<not> in_allocated (kheap_base k) bs b"
    "\<exists>p bs''. q = of_nat (p + 8) \<and> mark_free p (kheap_base k) bs' = Some bs'' \<and> coalesce bs'' = bs"
    "\<exists>p. alloc_blocks (unat (alloc_need sz)) (kheap_base k) bs = Some (p, bs')"
    by (rule malloc_region [OF wf sz(1) run], rule that, assumption) (use sz(2) in auto)
  then show ?thesis by (intro exI [of _ bs']) simp
qed

end
