(* ===== verification/Queue_Create.thy ===== *)
theory Queue_Create
  imports Queue_Fifo Alloc_Frame
begin

text \<open>
  Creation of a data queue: the overflow check of \<open>queue_init\<close>, the buffer, and giving the struct
  back when there is no buffer.
\<close>

text \<open>The check \<open>total / slots != item_size\<close> finds every overflow of \<open>item_size * slots\<close>.\<close>

lemma overflow_check:
  fixes isz slots :: u32
  assumes "slots \<noteq> 0"
  shows "(isz * slots) div slots = isz \<longleftrightarrow> unat isz * unat slots < 4294967296"
proof
  assume "unat isz * unat slots < 4294967296"
  then have "unat (isz * slots) = unat isz * unat slots" by (simp add: unat_word_ariths)
  moreover have "0 < unat slots" using assms by (simp add: unat_gt_0)
  ultimately have "unat ((isz * slots) div slots) = unat isz" by (simp add: unat_div)
  then show "(isz * slots) div slots = isz" by (simp add: word_unat_eq_iff)
next
  assume eq: "(isz * slots) div slots = isz"
  have "unat isz = unat (isz * slots) div unat slots" using arg_cong [OF eq, of unat] by (simp add: unat_div)
  then have "unat isz * unat slots \<le> unat (isz * slots)"
    by (metis div_times_less_eq_dividend)
  then show "unat isz * unat slots < 4294967296" using unat_u32_lt [of "isz * slots"] by linarith
qed

definition new_queue :: "u32 \<Rightarrow> u32 \<Rightarrow> u32 \<Rightarrow> queue" where
  "new_queue isz sz b = \<lparr>q_item_size = isz, q_size = sz, q_slots = sz + 1, q_head = 0, q_tail = 0,
     q_buffer = b, q_send_wait = None, q_recv_wait = None\<rparr>"

lemma slots_unat: "sz + 1 \<noteq> 0 \<Longrightarrow> unat (sz + 1) = unat sz + 1" for sz :: u32
proof -
  assume "sz + 1 \<noteq> 0"
  moreover have "unat (sz + 1) = (unat sz + 1) mod 4294967296" by (simp add: unat_word_ariths)
  ultimately show ?thesis using unat_u32_lt [of sz] by (cases "unat sz + 1 = 4294967296") (auto simp: unat_eq_zero)
qed

lemma new_queue_wf:
  assumes "isz \<noteq> 0" "sz \<noteq> 0" "sz + 1 \<noteq> 0" "unat isz * unat (sz + 1) < 4294967296"
  shows "queue_wf (new_queue isz sz b)" "queue_items m (new_queue isz sz b) = []"
    "queue_region (new_queue isz sz b) = region b (unat (isz * (sz + 1)))"
proof -
  have s: "unat (sz + 1) = unat sz + 1" by (rule slots_unat [OF assms(3)])
  then have "0 < sz + 1" using assms(3) by (simp add: word_gt_0)
  then show "queue_wf (new_queue isz sz b)"
    using assms s by (simp add: queue_wf_def new_queue_def word_gt_0)
  show "queue_items m (new_queue isz sz b) = []"
    by (simp add: queue_items_def new_queue_def ring_slots_def ring_count_def)
  show "queue_region (new_queue isz sz b) = region b (unat (isz * (sz + 1)))"
    using assms(4) by (simp add: queue_region_def new_queue_def unat_word_ariths)
qed

text \<open>\<open>queue_init\<close> on a struct: its two failures and its success.\<close>

lemma queue_init_cases:
  assumes wf: "kheap_wf bs k" and p: "p \<noteq> 0" "isz \<noteq> 0" "sz \<noteq> 0"
  obtains (overflow) k' where "queue_init p isz sz k = Some (- 1, k')" "kheap_wf bs k'" "kheap_base k' = kheap_base k"
      "primask k' = primask k" "sz + 1 \<noteq> 0" "4294967296 \<le> unat isz * unat (sz + 1)"
      "queues k' = (queues k)(p \<mapsto> new_queue isz sz 0)"
  | (full) k' where "queue_init p isz sz k = Some (- 1, k')" "kheap_wf bs k'" "kheap_base k' = kheap_base k"
      "primask k' = primask k" "queues k' = (queues k)(p \<mapsto> new_queue isz sz 0)"
      "4294967296 \<le> unat isz * (unat sz + 1) \<or> (\<forall>(s, al) \<in> set bs. al \<or> s < request_bytes (unat isz * (unat sz + 1)))"
  | (ok) b k1 k' where "queue_init p isz sz k = Some (0, k')" "b \<noteq> 0" "sz + 1 \<noteq> 0" "unat isz * unat (sz + 1) < 4294967296"
      "malloc (isz * (sz + 1)) (set_queue p (new_queue isz sz 0) k) = Some (b, k1)"
      "k' = set_queue p (new_queue isz sz b) k1"
proof -
  let ?k = "set_queue p (new_queue isz sz 0) k" and ?t = "isz * (sz + 1)"
  have wf1: "kheap_wf bs ?k" and b1: "kheap_base ?k = kheap_base k"
    using wf by (simp_all add: set_queue_def kheap_wf_def kheap_base_def)
  consider (over) "sz + 1 \<noteq> 0" "\<not> unat isz * unat (sz + 1) < 4294967296"
    | (zero) "sz + 1 = 0" | (fits) "sz + 1 \<noteq> 0" "unat isz * unat (sz + 1) < 4294967296" by blast
  then show thesis
  proof cases
    case over
    then have "queue_init p isz sz k = Some (- 1, ?k)"
      using p overflow_check [OF over(1), of isz] by (simp add: queue_init_def new_queue_def Let_def)
    then show thesis using over wf1 b1 by (intro overflow [of ?k]) (simp_all add: set_queue_def)
  next
    case zero
    then have "queue_init p isz sz k = Some (- 1, ?k)"
      using p by (simp add: queue_init_def new_queue_def Let_def malloc_def set_queue_def)
    moreover have "unat sz + 1 = 4294967296"
    proof -
      have "(unat sz + 1) mod 4294967296 = 0" using arg_cong [OF zero, of unat] by (simp add: unat_word_ariths)
      then show ?thesis using unat_u32_lt [of sz] by (cases "unat sz + 1 = 4294967296") auto
    qed
    then have "4294967296 \<le> unat isz * (unat sz + 1)" using p(2) by (simp add: unat_gt_0 Suc_leI)
    ultimately show thesis using wf1 b1 by (intro full [of ?k]) (simp_all add: set_queue_def)
  next
    case fits
    have "0 < unat isz * unat (sz + 1)" using p fits(1) by (simp add: unat_gt_0)
    moreover have "unat ?t = unat isz * unat (sz + 1)" using fits(2) by (simp add: unat_word_ariths)
    ultimately have t: "?t \<noteq> 0" by (metis less_irrefl unat_0)
    have total: "unat ?t = unat isz * (unat sz + 1)" 
      using fits(2) unfolding slots_unat [OF fits(1), symmetric] by (simp add: unat_word_ariths(2))
    obtain b k1 where m: "malloc ?t ?k = Some (b, k1)" "primask k1 = primask ?k"
      and null: "b = 0 \<longleftrightarrow> (\<forall>(s, al) \<in> set bs. al \<or> s < request_bytes (unat ?t))"
      using kernel_heap.alloc_returns [OF wf1 t] unfolding alloc_need_request [OF t] by blast
    have run: "queue_init p isz sz k = Some (if b = 0 then - 1 else 0, set_queue p (new_queue isz sz b) k1)"
      using p fits m(1) overflow_check [OF fits(1), of isz]
      by (simp add: queue_init_def new_queue_def Let_def)
    show thesis
    proof (cases "b = 0")
      case True
      have "kheap_wf bs k1" using kernel_heap.alloc_null [OF wf1 t] m(1) True by simp
      then show thesis
        using run True m malloc_fields [OF m(1)] b1 null [unfolded total]
        by (intro full [of "set_queue p (new_queue isz sz b) k1"])
          (simp_all add: set_queue_def kheap_wf_def kheap_base_def)
    next
      case False
      then show thesis using run m(1) fits by (intro ok [of "set_queue p (new_queue isz sz b) k1" b k1]) simp_all
    qed
  qed
qed

lemma QUEUE_SIZEOF_nonzero: "QUEUE_SIZEOF \<noteq> 0" by simp

text \<open>
  The bytes \<open>malloc\<close> provides for a buffer of \<open>n\<close> bytes: all of them, unless the rounding of the request wraps.
\<close>

definition buffer_bytes :: "nat \<Rightarrow> nat" where
  "buffer_bytes n = (if n \<le> 0xFFFFFFF0 then n else 8)"

text \<open>The buffer: a fresh block, apart from the blocks allocated before, whatever was put into them.\<close>

lemma queue_buffer:
  assumes sz: "isz \<noteq> 0" "sz \<noteq> 0" and wf: "kheap_wf bs k" and fits: "sz + 1 \<noteq> 0" "unat isz * unat (sz + 1) < 4294967296"
    and run: "malloc (isz * (sz + 1)) (set_queue p (new_queue isz sz 0) k) = Some (b, k1)" "b \<noteq> 0"
  defines "q \<equiv> new_queue isz sz b"
  defines "k' \<equiv> set_queue p q k1"
  obtains bs' where "kheap_wf bs' k'" "queue_wf q" "queue_contents p k' = []" "unat isz * (unat sz + 1) < 4294967296"
    "\<And>c. in_allocated (kheap_base k) bs c \<Longrightarrow> in_allocated (kheap_base k) bs' c \<and> mem k' c = mem k c"
    "\<And>c. c \<in> region b (buffer_bytes (unat isz * (unat sz + 1))) \<Longrightarrow>
       in_payload (kheap_base k) bs' c \<and> \<not> in_allocated (kheap_base k) bs c"
    "\<And>c. in_payload (kheap_base k) bs c \<Longrightarrow> in_payload (kheap_base k) bs' c"
proof -
  let ?t = "isz * (sz + 1)"
  note q = new_queue_wf [OF sz fits, where b = b, folded q_def]
  have s: "unat (sz + 1) = unat sz + 1" using queue_wf_facts(6) [OF q(1)] by (simp add: q_def new_queue_def)
  have t: "?t \<noteq> 0" "unat ?t = unat isz * (unat sz + 1)"
  proof -
    show "unat ?t = unat isz * (unat sz + 1)" using fits(2) s by (simp add: unat_word_ariths)
    then show "?t \<noteq> 0" using sz(1) by (metis add_eq_0_iff_both_eq_0 mult_eq_0_iff one_neq_zero unat_0 unat_eq_zero)
  qed
  have wf1: "kheap_wf bs (set_queue p (new_queue isz sz 0) k)" and base: "kheap_base (set_queue p (new_queue isz sz 0) k) = kheap_base k"
    using wf by (simp_all add: set_queue_def kheap_wf_def kheap_base_def)
  define w where "w = (if unat ?t \<le> 0xFFFFFFF0 then ?t else 8)"
  have w: "w \<noteq> 0" "unat w \<le> 4294967280" "unat w = buffer_bytes (unat ?t)" using t(1) by (simp_all add: w_def buffer_bytes_def)
  have run': "malloc w (set_queue p (new_queue isz sz 0) k) = Some (b, k1)"
    using run(1) malloc_size_overflow [of ?t "set_queue p (new_queue isz sz 0) k"] by (auto simp: w_def word_less_nat_alt)
  obtain bs' where bs': "kheap_wf bs' k1"
    "\<And>c. in_allocated (kheap_base k) bs c \<Longrightarrow> in_allocated (kheap_base k) bs' c \<and> mem k1 c = mem k c"
    "\<And>c. c \<in> region b (buffer_bytes (unat ?t)) \<Longrightarrow> in_payload (kheap_base k) bs' c \<and> \<not> in_allocated (kheap_base k) bs c"
    "\<And>c. in_payload (kheap_base k) bs c \<Longrightarrow> in_payload (kheap_base k) bs' c"
    using malloc_region [OF wf1 w(1) run' run(2), unfolded base w(3)] w(2) unfolding w(3) by (metis set_queue_simps(3))
  have "kheap_wf bs' k'" "queues k' p = Some q" "mem k' = mem k1"
    using bs'(1) by (simp_all add: k'_def set_queue_def kheap_wf_def)
  then show thesis
    using bs'(2-4) t(2) q s fits(2) by (intro that [of bs']) (simp_all add: queue_contents_def)
qed

text \<open>When \<open>queue_init\<close> fails the struct goes back, and with it the blocks are as before.\<close>

lemma queue_create_undo:
  assumes wf: "kheap_wf bs k" and m: "malloc QUEUE_SIZEOF k = Some (p, k1)" "p \<noteq> 0" and sz: "isz \<noteq> 0" "sz \<noteq> 0"
  obtains a bs' where "kheap_wf bs' k1" "alloc_blocks (unat (alloc_need QUEUE_SIZEOF)) (kheap_base k) bs = Some (a, bs')"
    "\<And>k2. queue_init p isz sz k1 = Some (- 1, k2) \<Longrightarrow> kheap_wf bs' k2 \<Longrightarrow> kheap_base k2 = kheap_base k1 \<Longrightarrow>
       \<exists>k3. z_impl_queue_create isz sz k = Some (0, k3) \<and> kheap_wf bs k3 \<and> primask k3 = primask k2"
proof -
  obtain a bs' where give: "kheap_wf bs' k1" "alloc_blocks (unat (alloc_need QUEUE_SIZEOF)) (kheap_base k) bs = Some (a, bs')"
    "\<And>k2. kheap_wf bs' k2 \<Longrightarrow> kheap_base k2 = kheap_base k \<Longrightarrow>
       \<exists>k3. free p k2 = Some k3 \<and> kheap_wf bs k3 \<and> primask k3 = primask k2"
    using kernel_heap.alloc_release_later [OF wf _ m] by (metis QUEUE_SIZEOF_nonzero)
  have "\<exists>k3. z_impl_queue_create isz sz k = Some (0, k3) \<and> kheap_wf bs k3 \<and> primask k3 = primask k2"
    if "queue_init p isz sz k1 = Some (- 1, k2)" "kheap_wf bs' k2" "kheap_base k2 = kheap_base k1" for k2
  proof -
    let ?k2 = "k2\<lparr>queues := (queues k2)(p := None)\<rparr>"
    have "kheap_wf bs' ?k2" "kheap_base ?k2 = kheap_base k"
      using that malloc_fields(12) [OF m(1)] by (simp_all add: kheap_wf_def kheap_base_def)
    from give(3) [OF this] show ?thesis
      using that m sz by (auto simp: z_impl_queue_create_def queue_release_def)
  qed
  with give(1,2) show thesis by (rule that)
qed

text \<open>A free block with room for two requests has room for the second after the first is served.\<close>

lemma alloc_leaves_room:
  assumes "alloc_blocks n a bs = Some (p, bs')" "(s, False) \<in> set bs" "n + r \<le> s" "16 \<le> r"
  shows "\<exists>s'. (s', False) \<in> set bs' \<and> r \<le> s'"
proof -
  obtain xs t ys where split: "bs = xs @ (t, False) # ys" "bs' = xs @ taken n t @ ys"
    using alloc_blocks_Some [OF assms(1)] by blast
  show ?thesis
  proof (cases "(s, False) \<in> set xs \<union> set ys")
    case True
    then show ?thesis using assms(3) unfolding split(2) by (intro exI [of _ s]) auto
  next
    case False
    then have "s = t" using assms(2) unfolding split(1) by auto
    then show ?thesis using assms(3,4) unfolding split(2) by (intro exI [of _ "s - n"]) (auto simp: taken_def)
  qed
qed

text \<open>
  C24. Creation of a queue returns on every well-formed heap.  It fails only when the size of the buffer
  overflows 32 bits or no free block has room for the struct and the buffer together, and then the blocks of
  the heap are as before: the struct is given back.  When it succeeds the size of the buffer did not overflow,
  the queue is well formed, empty and without waiters, and allocated blocks keep their contents; the struct and
  the buffer are in fresh memory, apart from each other.  The whole buffer is, when it has at most
  \<open>0xFFFFFFF0\<close> bytes; of a larger one, whose request wraps in \<open>malloc\<close>, only the first eight bytes are.
\<close>

theorem queue_create_correct:
  assumes wf: "kheap_wf bs k" and sz: "isz \<noteq> 0" "sz \<noteq> 0"
  shows "\<exists>p k'. z_impl_queue_create isz sz k = Some (p, k') \<and> primask k' = primask k \<and>
    (if p = 0 then kheap_wf bs k' \<and> (4294967296 \<le> unat isz * (unat sz + 1) \<or>
         (\<forall>(s, al) \<in> set bs. al \<or> s < request_bytes 32 + request_bytes (unat isz * (unat sz + 1))))
     else unat isz * (unat sz + 1) < 4294967296 \<and>
       (\<exists>q bs'. kheap_wf bs' k' \<and> queues k' p = Some q \<and> queue_wf q \<and> q_item_size q = isz \<and> q_size q = sz \<and>
          q_send_wait q = None \<and> q_recv_wait q = None \<and> queue_contents p k' = [] \<and>
          (\<forall>b. in_allocated (kheap_base k) bs b \<longrightarrow>
             in_allocated (kheap_base k) bs' b \<and> mem k' b = mem k b) \<and>
          queue_region q = region (q_buffer q) (unat isz * (unat sz + 1)) \<and>
          (let buf = region (q_buffer q) (buffer_bytes (unat isz * (unat sz + 1))) in
             buf \<inter> region p 32 = {} \<and>
             (\<forall>b \<in> buf \<union> region p 32. in_payload (kheap_base k) bs' b \<and> \<not> in_allocated (kheap_base k) bs b))))"
proof -
  let ?n = "unat isz * (unat sz + 1)"
  have QS: "unat QUEUE_SIZEOF = 32" by simp
  note nz = QUEUE_SIZEOF_nonzero
  obtain p k1 where m: "malloc QUEUE_SIZEOF k = Some (p, k1)" "primask k1 = primask k"
    and null: "p = 0 \<longleftrightarrow> (\<forall>(s, al) \<in> set bs. al \<or> s < request_bytes 32)"
    using kernel_heap.alloc_returns [OF wf nz] unfolding alloc_need_request [OF nz] QS by blast
  have pos: "16 \<le> request_bytes ?n"
  proof -
    have "1 \<le> ?n" using sz by (simp add: unat_gt_0 Suc_leI)
    then show ?thesis unfolding request_bytes_def by presburger
  qed
  show ?thesis
  proof (cases "p = 0")
    case True
    then have "kheap_wf bs k1" using kernel_heap.alloc_null [OF wf _ m(1) [unfolded True]] by simp
    moreover have "\<forall>(s, al) \<in> set bs. al \<or> s < request_bytes 32 + request_bytes ?n" using null True by fastforce
    ultimately show ?thesis using True m sz by (intro exI [of _ 0] exI [of _ k1]) (simp add: z_impl_queue_create_def)
  next
    case p: False
    note base = malloc_fields(12) [OF m(1)]
    obtain bs1 where bs1: "kheap_wf bs1 k1"
      "\<And>b. in_allocated (kheap_base k) bs b \<Longrightarrow> in_allocated (kheap_base k) bs1 b \<and> mem k1 b = mem k b"
      "\<And>b. b \<in> region p 32 \<Longrightarrow> in_payload (kheap_base k) bs1 b \<and> \<not> in_allocated (kheap_base k) bs b"
      by (rule malloc_region [OF wf nz m(1) p, unfolded QS], rule that, assumption) simp_all
    obtain a bs2 where undo: "kheap_wf bs2 k1" "alloc_blocks (unat (alloc_need QUEUE_SIZEOF)) (kheap_base k) bs = Some (a, bs2)"
      "\<And>k2. queue_init p isz sz k1 = Some (- 1, k2) \<Longrightarrow> kheap_wf bs2 k2 \<Longrightarrow> kheap_base k2 = kheap_base k1 \<Longrightarrow>
         \<exists>k3. z_impl_queue_create isz sz k = Some (0, k3) \<and> kheap_wf bs k3 \<and> primask k3 = primask k2"
      by (rule queue_create_undo [OF wf m(1) p sz]) blast
    show ?thesis
      using undo(1) p sz
    proof (cases rule: queue_init_cases)
      case (overflow k2)
      then have "4294967296 \<le> ?n" using slots_unat [of sz] by simp
      then show ?thesis using overflow undo(3) [of k2] m(2) by auto
    next
      case (full k2)
      have "al \<or> s < request_bytes 32 + request_bytes ?n"
        if "(s, al) \<in> set bs" "\<not> 4294967296 \<le> ?n" for s al
      proof (cases al)
        case False
        then have free: "(s, False) \<in> set bs" using that(1) by simp
        have "alloc_blocks (request_bytes 32) (kheap_base k) bs = Some (a, bs2)" using undo(2) by (simp add: alloc_need_request QS)
        note room = alloc_leaves_room [OF this free _ pos]
        have "\<forall>(s', al) \<in> set bs2. al \<or> s' < request_bytes ?n" using full(6) that(2) by blast
        then have "\<not> (\<exists>s'. (s', False) \<in> set bs2 \<and> request_bytes ?n \<le> s')" by fastforce
        then show ?thesis using room by (meson not_le)
      qed simp
      then have no: "4294967296 \<le> ?n \<or> (\<forall>(s, al) \<in> set bs. al \<or> s < request_bytes 32 + request_bytes ?n)" by blast
      obtain k3 where "z_impl_queue_create isz sz k = Some (0, k3)" "kheap_wf bs k3" "primask k3 = primask k2"
        using undo(3) [OF full(1-3)] by blast
      then show ?thesis using no full(4) m(2) by (intro exI [of _ 0] exI [of _ k3]) simp
    next
      case (ok b k2 k')
      let ?q = "new_queue isz sz b"
      obtain bs3 where q: "kheap_wf bs3 k'" "queue_wf ?q" "queue_contents p k' = []" "?n < 4294967296"
        "\<And>c. in_allocated (kheap_base k) bs1 c \<Longrightarrow> in_allocated (kheap_base k) bs3 c \<and> mem k' c = mem k1 c"
        "\<And>c. c \<in> region b (buffer_bytes ?n) \<Longrightarrow> in_payload (kheap_base k) bs3 c \<and> \<not> in_allocated (kheap_base k) bs1 c"
        "\<And>c. in_payload (kheap_base k) bs1 c \<Longrightarrow> in_payload (kheap_base k) bs3 c"
        by (rule queue_buffer [OF sz bs1(1) ok(3-5,2), folded ok(6), unfolded base]) blast
      have run: "z_impl_queue_create isz sz k = Some (p, k')" using m(1) p sz ok(1) by (simp add: z_impl_queue_create_def)
      have f: "primask k' = primask k" "queues k' p = Some ?q" "q_item_size ?q = isz" "q_size ?q = sz" "q_buffer ?q = b"
        "q_send_wait ?q = None" "q_recv_wait ?q = None" "queue_region ?q = region b ?n"
        using ok(6) malloc_fields(1) [OF ok(5)] m(2) slots_unat [OF ok(3)] by (simp_all add: set_queue_def new_queue_def queue_region_def)
      have apart: "region b (buffer_bytes ?n) \<inter> region p 32 = {} \<and> (\<forall>c \<in> region b (buffer_bytes ?n) \<union> region p 32.
          in_payload (kheap_base k) bs3 c \<and> \<not> in_allocated (kheap_base k) bs c)"
        using q(6,7) bs1(2,3) in_payload_allocated by blast
      have old: "\<forall>c. in_allocated (kheap_base k) bs c \<longrightarrow> in_allocated (kheap_base k) bs3 c \<and> mem k' c = mem k c"
        using bs1(2) q(5) by simp
      show ?thesis
        unfolding if_not_P [OF p] Let_def
        by (intro exI [of _ p] exI [of _ k'] conjI) (use run p f q(1-4) apart old in \<open>auto intro!: exI [of _ bs3]\<close>)
    qed
  qed
qed

theorem queue_create_correct_witness:
  "(\<exists>p k' q. z_impl_queue_create 4 1 demo_boot = Some (p, k') \<and> p \<noteq> 0 \<and> queues k' p = Some q \<and> queue_wf q \<and> queue_contents p k' = []) \<and>
   (\<exists>k'. z_impl_queue_create 0x10000 0xFFFF demo_boot = Some (0, k') \<and> kheap_wf [(64, False)] k')"
proof
  obtain p k' where r: "z_impl_queue_create 4 1 demo_boot = Some (p, k')"
    "p \<noteq> 0 \<Longrightarrow> \<exists>q. queues k' p = Some q \<and> queue_wf q \<and> queue_contents p k' = []" "p \<noteq> 0"
    using queue_create_correct [OF demo_boot_wf(1), of 4 1] by (auto simp: request_bytes_def split: if_splits)
  then show "\<exists>p k' q. z_impl_queue_create 4 1 demo_boot = Some (p, k') \<and> p \<noteq> 0 \<and> queues k' p = Some q \<and> queue_wf q \<and> queue_contents p k' = []"
    by blast
  obtain p k' where "z_impl_queue_create 0x10000 0xFFFF demo_boot = Some (p, k')"
    "if p = 0 then kheap_wf [(64, False)] k' else (65536 :: nat) * (65535 + 1) < 4294967296"
    using queue_create_correct [OF demo_boot_wf(1), of "0x10000" "0xFFFF"] by (auto split: if_splits)
  then show "\<exists>k'. z_impl_queue_create 0x10000 0xFFFF demo_boot = Some (0, k') \<and> kheap_wf [(64, False)] k'" by (cases "p = 0") auto
qed

end
