(* ===== verification/Task.thy ===== *)
theory Task
  imports Sched_Props Alloc_Frame Libc Blocking
begin

text \<open>
  Tasks, \<open>kernel/task.c\<close>: the pool of task control blocks, the initial stack frame, creation and
  deletion, and the delay.  Stacks live in the kernel heap, rounded to a power of two and aligned to
  their size, with a guard region below.
\<close>

section \<open>The pool\<close>

definition get_free_tcb :: "kernel \<Rightarrow> tcb_ptr option \<times> kernel" where
  "get_free_tcb k = (let (pm, k) = enter_critical k in
     case find (\<lambda>i. \<not> tcb_used k i) [0..<MAX_TASKS] of
       Some i \<Rightarrow> (Some i, exit_critical pm (k\<lparr>tcb_used := (tcb_used k)(i := True)\<rparr>))
     | None \<Rightarrow> (None, exit_critical pm k))"

definition free_tcb :: "tcb_ptr option \<Rightarrow> kernel \<Rightarrow> kernel" where
  "free_tcb t k = (let (pm, k) = enter_critical k in
     case t of
       Some idx \<Rightarrow> exit_critical pm (if idx < MAX_TASKS then k\<lparr>tcb_used := (tcb_used k)(idx := False)\<rparr> else k)
     | None \<Rightarrow> exit_critical pm k)"

text \<open>\<open>memset(tcb, 0, sizeof(*tcb))\<close>: the fields, and the name, which is kept in byte memory.\<close>

definition clear_tcb :: "tcb_ptr \<Rightarrow> kernel \<Rightarrow> kernel" where
  "clear_tcb t k = upd_tcb t (\<lambda>_. zero_tcb) (k\<lparr>mem := memset (mem k) (tcb_name_addr k t) 0 TASK_NAME_MAX_LEN\<rparr>)"

definition task_init :: "kernel \<Rightarrow> kernel" where
  "task_init k =
     scheduler_init ((fold clear_tcb [0..<MAX_TASKS] k)\<lparr>tcb_used := (\<lambda>_. False)\<rparr>)"

section \<open>The initial frame\<close>

text \<open>\<open>*(--sp) = v\<close>, for the words \<open>vs\<close> in turn.\<close>

fun push_words :: "u32 list \<Rightarrow> u32 \<Rightarrow> memory \<Rightarrow> u32 \<times> memory" where
  "push_words [] sp m = (sp, m)"
| "push_words (v # vs) sp m = push_words vs (sp - 4) (store32 m (sp - 4) v)"

definition stack_init :: "u32 \<Rightarrow> u32 \<Rightarrow> u32 \<Rightarrow> u32 \<Rightarrow> memory \<Rightarrow> u32 \<times> memory" where
  "stack_init base ssize task_fn arg m =
     (let top = (base + ssize) AND NOT 7;
          (sp, m) = push_words [0x01000000, task_fn, 0xFFFFFFFD, 0, 0, 0, 0, arg] top m;
          sp = sp - 8 * 4;
          m = fold (\<lambda>i m. store32 m (sp + of_nat (4 * i)) 0) [0..<8] m
      in (sp, m))"

definition next_power_of_two :: "u32 \<Rightarrow> u32" where
  "next_power_of_two v =
     (if v = 0 then 32
      else if v \<le> 32 then 32
      else let v = v - 1;
               v = v OR drop_bit 1 v;
               v = v OR drop_bit 2 v;
               v = v OR drop_bit 4 v;
               v = v OR drop_bit 8 v;
               v = v OR drop_bit 16 v
        in v + 1)"

section \<open>Creation and deletion\<close>

text \<open>The size \<open>task_create\<close> asks \<open>malloc\<close> for, and where the stack starts in the block.\<close>

definition stack_alloc_size :: "u32 \<Rightarrow> u32" where
  "stack_alloc_size sz = sz + PORT_STACK_GUARD_SIZE + (sz - 1)"

definition stack_base_in :: "u32 \<Rightarrow> u32 \<Rightarrow> u32" where
  "stack_base_in a sz = (a + PORT_STACK_GUARD_SIZE + (sz - 1)) AND NOT (sz - 1)"

definition task_create :: "u32 \<Rightarrow> u32 \<Rightarrow> u32 \<Rightarrow> u32 \<Rightarrow> u32 \<Rightarrow> kernel \<Rightarrow> kernel option" where
  "task_create fn name pr stack_sz arg k =
     (if of_nat MAX_TASK_PRIORITIES \<le> pr then Some k
      else if stack_sz = 0 \<or> MAX_TASK_STACK_SIZE < stack_sz then Some k
      else let (t, k) = get_free_tcb k in
        case t of
          None \<Rightarrow> Some k
        | Some t \<Rightarrow> do {
            let sz = next_power_of_two stack_sz;
            (alloc, k) \<leftarrow> malloc (stack_alloc_size sz) k;
            if alloc = 0 then Some (free_tcb (Some t) k)
            else do {
              let base = stack_base_in alloc sz;
              let k = k\<lparr>mem := store32 (mem k) alloc 0xDEADBEEF\<rparr>;
              let k = clear_tcb t k;
              let (sp, m) = stack_init base sz fn arg (mem k);
              let k = upd_tcb t (\<lambda>c. c\<lparr>stack_base := base, stack_size := sz, stack_pointer := sp,
                stack_alloc := alloc, tstate := TASK_READY, priority := pr,
                task_function := fn, task_arg := arg\<rparr>) (k\<lparr>mem := m\<rparr>);
              let k = (if name = 0 then k
                else let m = strncpy (mem k) (tcb_name_addr k t) name (TASK_NAME_MAX_LEN - 1)
                  in k\<lparr>mem := m(tcb_name_addr k t + (TASK_NAME_MAX_LEN - 1) := 0)\<rparr>);
              scheduler_add_task t k
            }
          })"

definition task_delete :: "tcb_ptr option \<Rightarrow> kernel \<Rightarrow> kernel option" where
  "task_delete tcb k = (case tcb of
     None \<Rightarrow> Some k
   | Some t \<Rightarrow> do {
       k \<leftarrow> scheduler_remove_task t k;
       k \<leftarrow> (if stack_alloc (tcb_pool k t) \<noteq> 0 then do {
               k \<leftarrow> free (stack_alloc (tcb_pool k t)) k;
               Some (upd_tcb t (\<lambda>c. c\<lparr>stack_base := 0, stack_alloc := 0\<rparr>) k)
             }
             else Some k);
       Some (free_tcb (Some t) k)
     })"

section \<open>Yield and delay\<close>

definition task_yield :: "kernel \<Rightarrow> kernel" where
  "task_yield k = port_trigger_pendsv k"

definition z_impl_task_delay :: "u32 \<Rightarrow> kernel \<Rightarrow> kernel" where
  "z_impl_task_delay ticks k =
     (if ticks = 0 then k
      else case scheduler_get_current k of
        None \<Rightarrow> k
      | Some cur \<Rightarrow> port_trigger_pendsv (scheduler_sleep cur ticks k))"

end
