(* ===== verification/Task_Props.thy ===== *)
theory Task_Props
  imports Task
begin

text \<open>
  The properties of tasks: rounding a size to a power of two, the pool, where \<open>task_create\<close> puts
  the stack and what the first frame holds, deletion as the inverse of creation, and the length of a
  delay in ticks.
\<close>

section \<open>Powers of two\<close>

text \<open>Bit \<open>i\<close> of \<open>a\<close> tells whether \<open>v\<close> has one of the \<open>n\<close> bits from \<open>i\<close> on.\<close>

definition smears :: "u32 \<Rightarrow> nat \<Rightarrow> u32 \<Rightarrow> bool" where
  "smears v n a \<longleftrightarrow> (\<forall>i. bit a i \<longleftrightarrow> (\<exists>j. i \<le> j \<and> j < i + n \<and> bit v j))"

lemma smears_1: "smears v 1 v"
  unfolding smears_def
proof (intro allI iffI)
  fix i assume "bit v i" then show "\<exists>j. i \<le> j \<and> j < i + 1 \<and> bit v j" by (intro exI [of _ i]) simp
next
  fix i assume "\<exists>j. i \<le> j \<and> j < i + 1 \<and> bit v j"
  then obtain j where "i \<le> j" "j < i + 1" and j: "bit v j" by blast
  then have "j = i" by linarith
  then show "bit v i" using j by simp
qed

lemma smears_step:
  assumes "smears v n a"
  shows "smears v (2 * n) (a OR drop_bit n a)"
  unfolding smears_def
proof
  fix i
  have a: "bit a i \<longleftrightarrow> (\<exists>j. i \<le> j \<and> j < i + n \<and> bit v j)" for i
    using assms by (simp add: smears_def)
  have "bit (a OR drop_bit n a) i \<longleftrightarrow> bit a i \<or> bit a (i + n)"
    by (simp add: bit_simps add.commute)
  also have "\<dots> \<longleftrightarrow> (\<exists>j. (i \<le> j \<and> j < i + n \<or> i + n \<le> j \<and> j < i + 2 * n) \<and> bit v j)"
    unfolding a [of i] a [of "i + n"] by (auto simp: mult_2 add.assoc)
  also have "\<dots> \<longleftrightarrow> (\<exists>j. (i \<le> j \<and> j < i + 2 * n) \<and> bit v j)"
  proof -
    have "i \<le> j \<and> j < i + n \<or> i + n \<le> j \<and> j < i + 2 * n \<longleftrightarrow> i \<le> j \<and> j < i + 2 * n" for j by linarith
    then show ?thesis by presburger
  qed
  finally show "bit (a OR drop_bit n a) i \<longleftrightarrow> (\<exists>j. i \<le> j \<and> j < i + 2 * n \<and> bit v j)"
    by (simp only: conj_assoc)
qed

lemma smear_mask:
  fixes v :: u32
  assumes "2 ^ h \<le> unat v" "unat v < 2 ^ Suc h"
  shows "(let v = v OR drop_bit 1 v; v = v OR drop_bit 2 v; v = v OR drop_bit 4 v;
      v = v OR drop_bit 8 v; v = v OR drop_bit 16 v in v) = mask (Suc h)"
proof -
  define a1 where "a1 = v OR drop_bit 1 v"
  define a2 where "a2 = a1 OR drop_bit 2 a1"
  define a3 where "a3 = a2 OR drop_bit 4 a2"
  define a4 where "a4 = a3 OR drop_bit 8 a3"
  define a5 where "a5 = a4 OR drop_bit 16 a4"
  have "smears v 2 a1" using smears_step [OF smears_1 [of v]] by (simp add: a1_def)
  then have "smears v 4 a2" using smears_step [of v 2 a1] by (simp add: a2_def)
  then have "smears v 8 a3" using smears_step [of v 4 a2] by (simp add: a3_def)
  then have "smears v 16 a4" using smears_step [of v 8 a3] by (simp add: a4_def)
  then have "smears v 32 a5" using smears_step [of v 16 a4] by (simp add: a5_def)
  then have a5: "bit a5 i \<longleftrightarrow> (\<exists>j. i \<le> j \<and> j < i + 32 \<and> bit v j)" for i
    unfolding smears_def by blast
  have top: "bit v h" and above: "\<not> bit v j" if "h < j" for j
  proof -
    have "unat v div 2 ^ h = 1" using assms by (intro div_nat_eqI) simp_all
    then have "bit (unat v) h" by (simp add: bit_iff_odd)
    then show "bit v h" by (simp add: bit_unsigned_iff)
    have "(2 :: nat) ^ Suc h \<le> 2 ^ j" using that by (intro power_increasing) simp_all
    then have "\<not> bit (unat v) j" using assms(2) by (simp add: bit_iff_odd)
    then show "\<not> bit v j" by (auto simp: bit_unsigned_iff dest: bit_imp_le_length)
  qed
  have h: "bit v h" using top [of "Suc h"] by simp
  have lt: "h < 32" using bit_imp_le_length [OF h] by simp
  have "bit a5 i \<longleftrightarrow> bit (mask (Suc h) :: u32) i" if i: "i < 32" for i
  proof -
    have "(\<exists>j. i \<le> j \<and> j < i + 32 \<and> bit v j) \<longleftrightarrow> i \<le> h"
    proof
      assume "\<exists>j. i \<le> j \<and> j < i + 32 \<and> bit v j"
      then obtain j where "i \<le> j" "bit v j" by blast
      then show "i \<le> h" using above [of j] by (meson leI order_trans)
    next
      assume "i \<le> h"
      then show "\<exists>j. i \<le> j \<and> j < i + 32 \<and> bit v j" using h lt by (intro exI [of _ h]) simp
    qed
    then show ?thesis using a5 [of i] i by (simp add: bit_mask_iff less_Suc_eq_le)
  qed
  then have "a5 = mask (Suc h)" by (intro bit_word_eqI) simp
  then show ?thesis by (simp add: a1_def a2_def a3_def a4_def a5_def Let_def)
qed

lemma next_power_of_two_eq:
  "next_power_of_two v = 2 ^ (LEAST n. 5 \<le> n \<and> unat v \<le> 2 ^ n)"
proof (cases "v \<le> 32")
  case True
  then have "unat v \<le> 2 ^ 5" by (simp add: word_le_nat_alt)
  then have "(LEAST n. 5 \<le> n \<and> unat v \<le> 2 ^ n) = 5" by (intro Least_equality) simp_all
  then show ?thesis using True by (simp only:) (simp add: next_power_of_two_def)
next
  case False
  let ?w = "v - 1"
  have v: "32 < unat v" using False by (simp add: word_le_nat_alt)
  then have w: "unat v = Suc (unat ?w)" by (metis Suc_pred' gr_implies_not0 neq0_conv not_less0 unat_gt_0 unat_minus_one unat_0)
  then obtain h where h: "2 ^ h \<le> unat ?w" "unat ?w < 2 ^ Suc h"
    using ex_power_ivl1 [of 2 "unat ?w"] v by (auto simp: less_eq_Suc_le)
  have "(32 :: nat) \<le> unat ?w" using v w by simp
  then have "(2 :: nat) ^ 5 < 2 ^ Suc h" using h(2) by simp
  then have "5 < Suc h" by (simp only: power_strict_increasing_iff)
  have "(LEAST n. 5 \<le> n \<and> unat v \<le> 2 ^ n) = Suc h"
  proof (rule Least_equality)
    show "5 \<le> Suc h \<and> unat v \<le> 2 ^ Suc h" using \<open>5 < Suc h\<close> w h(2) by simp
    fix n assume n: "5 \<le> n \<and> unat v \<le> 2 ^ n"
    show "Suc h \<le> n"
    proof (rule ccontr)
      assume "\<not> Suc h \<le> n"
      then have "(2 :: nat) ^ n \<le> 2 ^ h" by (intro power_increasing) simp_all
      then show False using n w h(1) by linarith
    qed
  qed
  moreover have "next_power_of_two v = mask (Suc h) + 1"
    using smear_mask [OF h] False by (auto simp: next_power_of_two_def Let_def)
  ultimately show ?thesis by (simp add: mask_eq_exp_minus_1)
qed

text \<open>
  C25. The bit tricks compute the least power of two, at least 32, that is not below the size; above
  \<open>2 ^ 31\<close> it is \<open>2 ^ 32\<close>, that is 0 in 32 bits.
\<close>

theorem next_power_of_two_correct:
  "next_power_of_two v = 2 ^ (LEAST n. 5 \<le> n \<and> unat v \<le> 2 ^ n)"
  by (rule next_power_of_two_eq)

section \<open>The initial frame\<close>

definition words_at :: "memory \<Rightarrow> u32 \<Rightarrow> nat \<Rightarrow> u32 list" where
  "words_at m a n = map (\<lambda>i. load32 m (a + of_nat (4 * i))) [0..<n]"

lemma words_at_append:
  "words_at m a (i + j) = words_at m a i @ words_at m (a + of_nat (4 * i)) j"
  by (rule nth_equalityI) (auto simp: words_at_def nth_append algebra_simps)

lemma words_at_cong:
  assumes "\<And>b. b \<in> region a (4 * n) \<Longrightarrow> m b = m' b" "4 * n \<le> 4294967296"
  shows "words_at m a n = words_at m' a n"
proof -
  have "load32 m (a + of_nat (4 * i)) = load32 m' (a + of_nat (4 * i))" if "i < n" for i
  proof (rule load32_cong)
    fix b assume "b \<in> region (a + of_nat (4 * i)) 4"
    moreover have "region a (4 * i + 4) = region a (4 * i) \<union> region (a + of_nat (4 * i)) 4"
      using that assms(2) by (intro region_append) simp
    moreover have "region a (4 * i + 4) \<subseteq> region a (4 * n)" using that by (intro region_mono) simp
    ultimately show "m b = m' b" using assms(1) by blast
  qed
  then show ?thesis by (simp add: words_at_def)
qed

lemma push_words_spec:
  assumes "4 * length vs \<le> x" "x \<le> 4294967296"
  shows "\<exists>m'. push_words vs (of_nat x) m = (of_nat (x - 4 * length vs), m') \<and>
    words_at m' (of_nat (x - 4 * length vs)) (length vs) = rev vs \<and>
    (\<forall>b. b \<notin> region (of_nat (x - 4 * length vs)) (4 * length vs) \<longrightarrow> m' b = m b)"
  using assms
proof (induction vs arbitrary: x m)
  case Nil
  then show ?case by (simp add: words_at_def)
next
  case (Cons v vs)
  let ?y = "x - 4" and ?n = "length vs"
  have y: "(of_nat x :: u32) - 4 = of_nat ?y" using Cons.prems by (simp add: of_nat_diff)
  have le: "4 * ?n \<le> ?y" "?y \<le> 4294967296" using Cons.prems by simp_all
  obtain m' where m': "push_words vs (of_nat ?y) (store32 m (of_nat ?y) v) = (of_nat (?y - 4 * ?n), m')"
    "words_at m' (of_nat (?y - 4 * ?n)) ?n = rev vs"
    "\<forall>b. b \<notin> region (of_nat (?y - 4 * ?n)) (4 * ?n) \<longrightarrow> m' b = store32 m (of_nat ?y) v b"
    using Cons.IH [OF le, of "store32 m (of_nat ?y) v"] by blast
  let ?z = "x - 4 * length (v # vs)"
  have z: "?y - 4 * ?n = ?z" "(of_nat ?z :: u32) + of_nat (4 * ?n) = of_nat ?y"
  proof -
    have "?z + 4 * ?n = ?y" using Cons.prems by simp
    then show "(of_nat ?z :: u32) + of_nat (4 * ?n) = of_nat ?y" by (metis of_nat_add)
  qed simp
  have app: "region (of_nat ?z :: u32) (4 * ?n + 4) = region (of_nat ?z) (4 * ?n) \<union> region (of_nat ?y) 4"
    using region_append [of "4 * ?n" 4 "of_nat ?z"] Cons.prems z(2) by simp
  have "region (of_nat ?z) (4 * ?n) \<inter> region (of_nat ?y :: u32) 4 = {}"
    using Cons.prems by (intro region_disjoint) auto
  then have "load32 m' (of_nat ?y) = load32 (store32 m (of_nat ?y) v) (of_nat ?y)"
    using m'(3) z(1) by (intro load32_cong) (metis IntI empty_iff)
  then have "words_at m' (of_nat ?z) (?n + 1) = rev vs @ [v]"
    using m'(2) z by (subst words_at_append) (simp add: words_at_def)
  moreover have "m' b = m b" if "b \<notin> region (of_nat ?z) (4 * ?n + 4)" for b
    using that app m'(3) z(1) by (simp add: store32_other)
  ultimately show ?case using m'(1) y z(1) by (intro exI [of _ m']) (simp add: add.commute)
qed

lemma zero_words_spec:
  assumes "y + 4 * n \<le> 4294967296"
  shows "words_at (fold (\<lambda>i m. store32 m (of_nat y + of_nat (4 * i)) 0) [0..<n] m) (of_nat y) n = replicate n 0 \<and>
    (\<forall>b. b \<notin> region (of_nat y) (4 * n) \<longrightarrow>
       fold (\<lambda>i m. store32 m (of_nat y + of_nat (4 * i)) 0) [0..<n] m b = m b)"
  using assms
proof (induction n)
  case 0
  then show ?case by (simp add: words_at_def)
next
  case (Suc n)
  let ?m = "fold (\<lambda>i m. store32 m (of_nat y + of_nat (4 * i)) 0) [0..<n] m"
  let ?a = "of_nat y + of_nat (4 * n) :: u32"
  have IH: "words_at ?m (of_nat y) n = replicate n 0"
    "\<forall>b. b \<notin> region (of_nat y) (4 * n) \<longrightarrow> ?m b = m b" using Suc by simp_all
  have "region (of_nat y) (4 * n) \<inter> region (of_nat (y + 4 * n) :: u32) 4 = {}"
    using Suc.prems by (intro region_disjoint) auto
  then have disj: "region (of_nat y) (4 * n) \<inter> region ?a 4 = {}" by simp
  have "words_at (store32 ?m ?a 0) (of_nat y) n = words_at ?m (of_nat y) n"
    using disj Suc.prems by (intro words_at_cong store32_other) auto
  then have w: "words_at (store32 ?m ?a 0) (of_nat y) n = replicate n 0" using IH(1) by (rule trans)
  have "words_at (store32 ?m ?a 0) ?a 1 = [0]" by (simp add: words_at_def)
  then have "words_at (store32 ?m ?a 0) (of_nat y) (n + 1) = replicate n 0 @ [0]"
    using w by (simp only: words_at_append)
  moreover have "region (of_nat y :: u32) (4 * n + 4) = region (of_nat y) (4 * n) \<union> region ?a 4"
    using Suc.prems by (intro region_append) simp
  ultimately show ?case
    using IH(2) by (simp add: store32_other replicate_append_same add.commute)
qed

text \<open>The sixteen words from the saved stack pointer on, R4 to R11 and the hardware frame.\<close>

definition initial_frame :: "u32 \<Rightarrow> u32 \<Rightarrow> u32 list" where
  "initial_frame fn arg = replicate 8 0 @ [arg, 0, 0, 0, 0, 0xFFFFFFFD, fn, 0x01000000]"

lemma stack_init_spec:
  assumes "unat base + unat ssize \<le> 4294967288" "8 dvd unat base + unat ssize" "64 \<le> unat base + unat ssize"
  obtains m' where "stack_init base ssize fn arg m = (base + ssize - 64, m')"
    "words_at m' (base + ssize - 64) 16 = initial_frame fn arg"
    "\<And>b. b \<notin> region (base + ssize - 64) 64 \<Longrightarrow> m' b = m b"
proof -
  let ?x = "unat base + unat ssize"
  let ?vs = "[0x01000000, fn, 0xFFFFFFFD, 0, 0, 0, 0, arg]"
  let ?z = "\<lambda>i m. store32 m (of_nat (?x - 64) + of_nat (4 * i)) 0"
  have x: "base + ssize = of_nat ?x" by simp
  have "unat (base + ssize) = ?x" using assms(1) by (simp add: word_nat)
  then have "unat ((base + ssize) AND - 8) = unat (base + ssize)"
    using assms(2) by (simp add: unat_and_not_7 dvd_eq_mod_eq_0)
  then have top: "(base + ssize) AND NOT 7 = of_nat ?x"
    by (simp add: word_unat_eq_iff)
  obtain m1 where m1: "push_words ?vs (of_nat ?x) m = (of_nat (?x - 32), m1)"
    "words_at m1 (of_nat (?x - 32)) 8 = rev ?vs"
    "\<forall>b. b \<notin> region (of_nat (?x - 32)) 32 \<longrightarrow> m1 b = m b"
  proof -
    have l: "length ?vs = 8" by simp
    have "4 * 8 = (32 :: nat)" by simp
    from push_words_spec [of ?vs ?x m, unfolded l this] assms that show thesis by auto
  qed
  define m2 where "m2 = fold ?z [0..<8] m1"
  have sp: "(of_nat (?x - 32) :: u32) - 8 * 4 = of_nat (?x - 64)" "base + ssize - 64 = of_nat (?x - 64)"
    using assms(3) by (simp_all add: of_nat_diff)
  have m2: "words_at m2 (of_nat (?x - 64)) 8 = replicate 8 0"
    "\<forall>b. b \<notin> region (of_nat (?x - 64)) 32 \<longrightarrow> m2 b = m1 b"
    using zero_words_spec [of "?x - 64" 8 m1] assms(1) unfolding m2_def by simp_all
  have next32: "(of_nat (?x - 64) :: u32) + of_nat (4 * 8) = of_nat (?x - 32)"
    using assms(3) by (simp add: of_nat_diff)
  have "region (of_nat (?x - 64)) 32 \<inter> region (of_nat (?x - 32) :: u32) 32 = {}"
    using assms(1,3) by (intro region_disjoint) auto
  then have "words_at m2 (of_nat (?x - 32)) 8 = words_at m1 (of_nat (?x - 32)) 8"
    using m2(2) by (intro words_at_cong) auto
  then have words: "words_at m2 (of_nat (?x - 64)) (8 + 8) = initial_frame fn arg"
    using m2(1) m1(2) next32 by (subst words_at_append) (simp add: initial_frame_def)
  have "region (of_nat (?x - 64) :: u32) (32 + 32) = region (of_nat (?x - 64)) 32 \<union> region (of_nat (?x - 32)) 32"
    using region_append [of 32 32 "of_nat (?x - 64)"] next32 by simp
  then have "m2 b = m b" if "b \<notin> region (of_nat (?x - 64)) 64" for b
    using that m2(2) m1(3) by simp
  moreover have "stack_init base ssize fn arg m = (of_nat (?x - 64), m2)"
    unfolding stack_init_def top m1(1) Let_def prod.case sp(1) m2_def ..
  ultimately show thesis using words sp(2) by (intro that [of m2]) simp_all
qed

section \<open>Where the stack goes\<close>

lemma stack_layout:
  fixes a sz :: u32
  assumes "sz \<noteq> 0" "sz \<le> 512" "unat a + 2 * 2 ^ 9 + 255 < 4294967296 \<or>
    unat a + unat (stack_alloc_size (next_power_of_two sz)) < 4294967296"
  obtains n where "next_power_of_two sz = 2 ^ n" "unat (next_power_of_two sz) = 2 ^ n" "5 \<le> n" "n \<le> 9"
    "unat sz \<le> 2 ^ n" "unat (stack_alloc_size (next_power_of_two sz)) = 2 * 2 ^ n + 255"
    "unat a + 256 \<le> unat (stack_base_in a (next_power_of_two sz))"
    "unat (stack_base_in a (next_power_of_two sz)) + 2 ^ n \<le> unat a + (2 * 2 ^ n + 255)"
    "2 ^ n dvd unat (stack_base_in a (next_power_of_two sz))"
proof -
  let ?P = "\<lambda>n. 5 \<le> n \<and> unat sz \<le> 2 ^ n"
  define n where "n = (LEAST n. ?P n)"
  have "?P 9" using assms(2) by (simp add: word_le_nat_alt)
  then have n: "5 \<le> n" "unat sz \<le> 2 ^ n" "n \<le> 9"
    unfolding n_def using LeastI [of ?P 9] Least_le [of ?P 9] by blast+
  have S: "next_power_of_two sz = 2 ^ n" by (simp add: next_power_of_two_eq n_def)
  have pow: "(2 :: nat) ^ n \<le> 2 ^ 9" "(2 :: nat) ^ 5 \<le> 2 ^ n" using n by (intro power_increasing; simp)+
  have "(2 :: u32) ^ n = of_nat (2 ^ n)" by simp
  then have uS: "unat (2 ^ n :: u32) = 2 ^ n" using pow(1) by (simp only:) (intro unat_of_nat32, simp)
  have m: "(2 ^ n :: u32) - 1 = mask n" by (simp add: mask_eq_exp_minus_1)
  have um: "unat (2 ^ n - 1 :: u32) = 2 ^ n - 1"
    using uS pow n(3) by (subst unat_minus_one) auto
  have alloc: "unat (stack_alloc_size (2 ^ n)) = 2 * 2 ^ n + 255"
    unfolding stack_alloc_size_def using pow uS um by (simp add: unat_word_ariths)
  have fit: "unat a + 2 * 2 ^ n + 255 < 4294967296" using assms(3) alloc pow S by auto
  let ?t = "unat a + 256 + (2 ^ n - 1)"
  have "unat (a + PORT_STACK_GUARD_SIZE + (2 ^ n - 1)) = ?t"
    using fit um uS pow by (simp add: unat_word_ariths)
  then have B: "unat (stack_base_in a (2 ^ n)) = ?t - ?t mod 2 ^ n"
    unfolding stack_base_in_def m by (simp add: unat_and_not_mask)
  have "?t mod 2 ^ n < 2 ^ n" by simp
  then have "unat a + 256 \<le> unat (stack_base_in a (2 ^ n))" using B by linarith
  moreover have "unat (stack_base_in a (2 ^ n)) + 2 ^ n \<le> unat a + (2 * 2 ^ n + 255)"
  proof -
    have "unat (stack_base_in a (2 ^ n)) \<le> ?t" using B by simp
    then show ?thesis using pow by simp
  qed
  moreover have "2 ^ n dvd unat (stack_base_in a (2 ^ n))" unfolding B by (rule dvd_minus_mod)
  ultimately show thesis using that n S uS alloc by simp
qed

lemma strncpy_copy_outside:
  assumes "strncpy_copy m d s n = (m', d', n')" "Suc n \<le> 4294967296" "b \<notin> region d (Suc n)"
  shows "m' b = m b \<and> n' \<le> n \<and> b \<notin> region d' n'"
  using assms
proof (induction m d s n rule: strncpy_copy.induct)
  case (2 m d s n)
  have r: "region d (Suc (Suc n)) = insert d (region (d + 1) (Suc n))"
    using "2.prems"(2) by (intro region_Suc) simp
  show ?case
  proof (cases "m s = 0")
    case True
    then have "strncpy_copy m d s (Suc n) = (m(d := m s), d + 1, Suc n)" by simp
    then have e: "m' = m(d := m s)" "d' = d + 1" "n' = Suc n" using "2.prems"(1) by simp_all
    show ?thesis using "2.prems"(3) unfolding e r by simp
  next
    case False
    then have "strncpy_copy (m(d := m s)) (d + 1) (s + 1) n = (m', d', n')"
      using "2.prems"(1) by simp
    then have "m' b = (m(d := m s)) b \<and> n' \<le> n \<and> b \<notin> region d' n'"
      using "2.prems"(2,3) False r by (intro "2.IH" [OF refl refl]) (simp_all del: fun_upd_apply)
    then show ?thesis using "2.prems"(3) r by simp
  qed
qed simp

lemma strncpy_outside:
  assumes "b \<notin> region d (Suc (unat n))"
  shows "strncpy m d s n b = m b"
proof -
  obtain m' d' n' where c: "strncpy_copy m d s (unat n) = (m', d', n')" by (metis prod_cases3)
  have "Suc (unat n) \<le> 4294967296" using unat_u32_lt [of n] by linarith
  with strncpy_copy_outside [OF c _ assms] have "m' b = m b" "n' \<le> unat n" "b \<notin> region d' n'" by simp_all
  moreover from this have "n' \<le> 4294967296" using unat_u32_le(2) [of n] by linarith
  ultimately show ?thesis using c by (simp add: strncpy_def memset_loop_bytes)
qed

end
