(* ===== verification/Task_Create.thy ===== *)
theory Task_Create
  imports Task_Props
begin

text \<open>
  Creation and deletion of tasks as wholes: what \<open>task_create\<close> does in every case, that it keeps the
  invariant of the task structures, and that \<open>task_delete\<close> undoes it.
\<close>

section \<open>The invariant of the task structures\<close>

text \<open>
  The ready structure and the wait lists are well formed, and every task on a list has a TCB of the
  pool that is in use.
\<close>

definition task_inv :: "(nat \<Rightarrow> tcb_ptr list) \<Rightarrow> (wait_head \<Rightarrow> tcb_ptr list) \<Rightarrow> kernel \<Rightarrow> bool" where
  "task_inv L W k \<longleftrightarrow> sched_wf L k \<and> prim_inv W k \<and>
     (\<forall>t. (\<exists>pr. t \<in> set (L pr)) \<or> (\<exists>h. t \<in> set (W h)) \<longrightarrow> t < MAX_TASKS \<and> tcb_used k t)"

text \<open>The names of the pool lie below the kernel heap, as in \<open>kernel.ld\<close>.\<close>

definition pool_apart :: "kernel \<Rightarrow> bool" where
  "pool_apart k \<longleftrightarrow> unat (tcb_pool_addr (ld k)) + 68 * MAX_TASKS \<le> kheap_base k"

lemma prim_inv_fresh:
  assumes inv: "prim_inv W k" and t: "\<And>h. t \<notin> set (W h)"
    and pool: "\<And>u. u \<noteq> t \<Longrightarrow> tcb_pool k' u = tcb_pool k u" and heads: "\<And>h. read_head h k' = read_head h k"
    and idle: "tstate (tcb_pool k' t) \<noteq> TASK_WAITING"
  shows "prim_inv W k'"
proof -
  have same: "tcb_pool k' u = tcb_pool k u" if "u \<in> set (W h)" for u h
    using that pool t by metis
  have "chain (wait_nx k') p (W h)" if "read_head h k' = Some p" for h p
    using wait_wf_chain [OF prim_invD(1) [OF inv], of h p] that heads same
      chain_cong [of "W h" "wait_nx k'" "wait_nx k" p] by simp
  then have "wait_wf W k'"
    using wait_wf_none [OF prim_invD(1) [OF inv]] wait_wf_disjoint [OF prim_invD(1) [OF inv]] heads
    unfolding wait_wf_def by auto
  moreover have "timeouts_ok W k'"
    using prim_invD(2) [OF inv] pool idle unfolding timeouts_ok_def by metis
  moreover have "waiting_ok W k'"
    using prim_invD(3) [OF inv] same unfolding waiting_ok_def by simp
  ultimately show ?thesis by (simp add: prim_inv_def)
qed

section \<open>Creation\<close>

lemma get_free_tcb_eq:
  "get_free_tcb k = (if \<forall>i < MAX_TASKS. tcb_used k i then (None, k)
     else (Some (LEAST i. \<not> tcb_used k i), k\<lparr>tcb_used := (tcb_used k)((LEAST i. \<not> tcb_used k i) := True)\<rparr>))"
proof (cases "\<forall>i < MAX_TASKS. tcb_used k i")
  case True
  then have "find (\<lambda>i. \<not> tcb_used k i) [0..<MAX_TASKS] = None" by (simp add: find_None_iff)
  then show ?thesis using True by (simp add: get_free_tcb_def state_defs)
next
  case False
  define t where "t = (LEAST i. \<not> tcb_used k i)"
  obtain i where i: "i < MAX_TASKS" "\<not> tcb_used k i" using False by blast
  have "t \<le> i" unfolding t_def by (rule Least_le) (rule i(2))
  then have "t < MAX_TASKS" using i(1) by (rule le_less_trans)
  moreover have "\<not> tcb_used k t" unfolding t_def by (rule LeastI) (rule i(2))
  moreover have "\<forall>j < t. tcb_used k j" unfolding t_def using not_less_Least by blast
  ultimately have "find (\<lambda>i. \<not> tcb_used k i) [0..<MAX_TASKS] = Some t"
    unfolding find_Some_iff by (intro exI [of _ t]) simp
  then have "get_free_tcb k = (Some t, k\<lparr>tcb_used := (tcb_used k)(t := True)\<rparr>)"
    by (simp add: get_free_tcb_def state_defs)
  then show ?thesis using False unfolding t_def by (simp only: if_False)
qed

text \<open>What is set up before the task is added: the memory of the frame and the name, and the TCB.\<close>

lemma new_task_memory:
  fixes base ssize a nm fn arg name :: u32 and m :: memory
  assumes stack: "unat base + unat ssize \<le> 4294967288" "8 dvd unat base + unat ssize" "64 \<le> unat base + unat ssize"
    and apart: "region (base + ssize - 64) 64 \<inter> region nm 16 = {}"
  defines "M0 \<equiv> memset (store32 m a 0xDEADBEEF) nm 0 TASK_NAME_MAX_LEN"
  defines "M1 \<equiv> snd (stack_init base ssize fn arg M0)"
  defines "M2 \<equiv> (if name = 0 then M1 else (strncpy M1 nm name (TASK_NAME_MAX_LEN - 1))(nm + 15 := 0))"
  shows "fst (stack_init base ssize fn arg M0) = base + ssize - 64"
    "words_at M2 (base + ssize - 64) 16 = initial_frame fn arg"
    "M2 (nm + 15) = 0"
    "\<And>b. b \<notin> region a 4 \<union> region (base + ssize - 64) 64 \<union> region nm 16 \<Longrightarrow> M2 b = m b"
proof -
  obtain m1 where m1: "stack_init base ssize fn arg M0 = (base + ssize - 64, m1)"
    "words_at m1 (base + ssize - 64) 16 = initial_frame fn arg"
    "\<And>b. b \<notin> region (base + ssize - 64) 64 \<Longrightarrow> m1 b = M0 b"
    by (rule stack_init_spec [OF stack, of fn arg M0]) (rule that, assumption+)
  show "fst (stack_init base ssize fn arg M0) = base + ssize - 64" using m1(1) by simp
  have M1: "M1 = m1" using m1(1) by (simp add: M1_def)
  have last: "nm + 15 \<in> region nm 16" using in_region_offset [of 15 16 nm] by simp
  have M2: "M2 b = m1 b" if "b \<notin> region nm 16" for b
  proof -
    have "b \<noteq> nm + 15" using that last by blast
    moreover have "strncpy m1 nm name (TASK_NAME_MAX_LEN - 1) b = m1 b" using that by (intro strncpy_outside) simp
    ultimately show ?thesis by (simp add: M2_def M1)
  qed
  show "words_at M2 (base + ssize - 64) 16 = initial_frame fn arg"
    using m1(2) M2 apart words_at_cong [of "base + ssize - 64" 16 M2 m1] by fastforce
  have M0: "M0 b = (if b \<in> region nm 16 then 0 else store32 m a 0xDEADBEEF b)" for b
    by (simp add: M0_def memset_bytes)
  have "nm + 15 \<notin> region (base + ssize - 64) 64" using last apart by blast
  then show "M2 (nm + 15) = 0" using last m1(3) M0 by (simp add: M2_def M1)
  show "M2 b = m b" if "b \<notin> region a 4 \<union> region (base + ssize - 64) 64 \<union> region nm 16" for b
    using that M2 m1(3) M0 by (simp add: store32_other)
qed

text \<open>The TCB of a new task, before it is linked.\<close>

definition new_tcb :: "u32 \<Rightarrow> u32 \<Rightarrow> u32 \<Rightarrow> u32 \<Rightarrow> u32 \<Rightarrow> u32 \<Rightarrow> tcb" where
  "new_tcb base ssize alloc pr fn arg = zero_tcb\<lparr>stack_base := base, stack_size := ssize,
     stack_pointer := base + ssize - 64, stack_alloc := alloc, tstate := TASK_READY, priority := pr,
     task_function := fn, task_arg := arg\<rparr>"

text \<open>
  The stack of a task: its size is a power of two that covers the request and divides its base, the
  stack and the guard below it are in fresh payload of the heap, and it holds the initial frame.
\<close>

definition stack_placed :: "nat \<Rightarrow> blocks \<Rightarrow> blocks \<Rightarrow> u32 \<Rightarrow> memory \<Rightarrow> tcb \<Rightarrow> bool" where
  "stack_placed hb bs bs' sz m c \<longleftrightarrow>
     (\<exists>n. unat (stack_size c) = 2 ^ n) \<and> unat sz \<le> unat (stack_size c) \<and>
     unat (stack_size c) dvd unat (stack_base c) \<and>
     (\<forall>b \<in> region (stack_base c - PORT_STACK_GUARD_SIZE) (256 + unat (stack_size c)).
        in_payload hb bs' b \<and> \<not> in_allocated hb bs b) \<and>
     words_at m (stack_pointer c) 16 = initial_frame (task_function c) (task_arg c)"

lemma region_within:
  assumes "unat a \<le> unat b" "unat b + n \<le> unat a + N" "unat a + N \<le> 4294967296"
  shows "region b n \<subseteq> region a N"
proof
  fix x assume x: "x \<in> region b n"
  have "x \<in> region (of_nat (unat b)) n" using x by simp
  then have "unat b \<le> unat x \<and> unat x < unat b + n"
    using region_of_nat [of "unat b" n x] assms by simp
  then have "x \<in> region (of_nat (unat a)) N"
    using region_of_nat [of "unat a" N x] assms by simp
  then show "x \<in> region a N" by simp
qed

lemma sched_wf_other:
  assumes wf: "sched_wf L k" and t: "\<And>pr. t \<notin> set (L pr)"
    and pool: "\<And>u. u \<noteq> t \<Longrightarrow> tcb_pool k' u = tcb_pool k u"
    and same: "task_list k' = task_list k" "rr_current k' = rr_current k" "g_priority_mask k' = g_priority_mask k"
  shows "sched_wf L k'"
proof -
  have u: "tcb_pool k' u = tcb_pool k u" if "u \<in> set (L pr)" for u pr using that t pool by metis
  then have "chain (next_nx k') p (L pr) \<longleftrightarrow> chain (next_nx k) p (L pr)" for p pr
    by (intro chain_cong) simp
  then show ?thesis using wf u unfolding sched_wf_def same by simp
qed

lemma tcb_name_below:
  assumes "pool_apart k" "t < MAX_TASKS" "kheap_base k < 4294967296" "b \<in> region (tcb_name_addr k t) 16"
  shows "unat b < kheap_base k"
proof -
  let ?a = "unat (tcb_pool_addr (ld k)) + (68 * t + 16)"
  have le: "?a + 16 \<le> kheap_base k" using assms(1,2) by (simp add: pool_apart_def)
  have "tcb_name_addr k t = of_nat ?a" by (simp add: tcb_name_addr_def)
  then have "unat b < ?a + 16" using assms(3,4) le region_of_nat [of ?a 16 b] by simp
  then show ?thesis using le by linarith
qed

lemma mem_pool_swap: "k\<lparr>tcb_pool := p, mem := m\<rparr> = k\<lparr>mem := m, tcb_pool := p\<rparr>"
  by simp

lemma task_create_run:
  fixes fn arg :: u32
  assumes t: "get_free_tcb k = (Some t, k1)" and run: "malloc (stack_alloc_size (next_power_of_two sz)) k1 = Some (a, k2)"
    and a: "a \<noteq> 0" and args: "unat pr < MAX_TASK_PRIORITIES" "sz \<noteq> 0" "sz \<le> MAX_TASK_STACK_SIZE"
  defines "B \<equiv> stack_base_in a (next_power_of_two sz)" and "nm \<equiv> tcb_name_addr k2 t"
  defines "M0 \<equiv> memset (store32 (mem k2) a 0xDEADBEEF) nm 0 TASK_NAME_MAX_LEN"
  defines "M1 \<equiv> snd (stack_init B (next_power_of_two sz) fn arg M0)"
  assumes sp: "fst (stack_init B (next_power_of_two sz) fn arg M0) = B + next_power_of_two sz - 64"
  shows "task_create fn name pr sz arg k = scheduler_add_task t (k2
    \<lparr>mem := if name = 0 then M1 else (strncpy M1 nm name (TASK_NAME_MAX_LEN - 1))(nm + 15 := 0),
     tcb_pool := (tcb_pool k2)(t := new_tcb B (next_power_of_two sz) a pr fn arg)\<rparr>)"
proof -
  have "\<not> of_nat MAX_TASK_PRIORITIES \<le> pr" "\<not> MAX_TASK_STACK_SIZE < sz"
    using args(1,3) by (simp_all add: word_le_nat_alt word_less_nat_alt)
  moreover have "stack_init B (next_power_of_two sz) fn arg M0 = (B + next_power_of_two sz - 64, M1)"
    using sp by (cases "stack_init B (next_power_of_two sz) fn arg M0") (simp add: M1_def)
  ultimately show ?thesis
    using t run a args(2)
    by (simp add: task_create_def clear_tcb_def upd_tcb_def tcb_name_addr_def new_tcb_def B_def nm_def M0_def
        Let_def mem_pool_swap cong: if_cong)
qed

lemma task_create_alloc:
  assumes inv: "task_inv L W k" "kheap_wf bs k" "pool_apart k"
    and t: "t < MAX_TASKS" "\<not> tcb_used k t" "get_free_tcb k = (Some t, k\<lparr>tcb_used := (tcb_used k)(t := True)\<rparr>)"
    and args: "unat pr < MAX_TASK_PRIORITIES" "stack_sz \<noteq> 0" "stack_sz \<le> MAX_TASK_STACK_SIZE"
    and run: "malloc (stack_alloc_size (next_power_of_two stack_sz)) (k\<lparr>tcb_used := (tcb_used k)(t := True)\<rparr>) =
      Some (a, k2)" "a \<noteq> 0"
  shows "\<exists>k' bs'. task_create fn name pr stack_sz arg k = Some k' \<and> primask k' = primask k \<and>
    kheap_wf bs' k' \<and> task_inv (L(unat pr := t # L (unat pr))) W k' \<and> pendsv k' \<and>
    tcb_used k' = (tcb_used k)(t := True) \<and> mem k' (tcb_name_addr k t + 15) = 0 \<and>
    stack_placed (kheap_base k) bs bs' stack_sz (mem k') (tcb_pool k' t) \<and>
    (\<exists>base ssize nx. tcb_pool k' = (tcb_pool k)(t := (new_tcb base ssize a pr fn arg)\<lparr>next_task := nx\<rparr>)) \<and>
    (\<forall>b. in_allocated (kheap_base k) bs b \<longrightarrow> in_allocated (kheap_base k) bs' b \<and> mem k' b = mem k b) \<and>
    (\<exists>p bs''. a = of_nat (p + 8) \<and> mark_free p (kheap_base k) bs' = Some bs'' \<and> coalesce bs'' = bs) \<and>
    kheap_base k' = kheap_base k \<and>
    (\<exists>p. alloc_blocks (unat (alloc_need (stack_alloc_size (next_power_of_two stack_sz)))) (kheap_base k) bs = Some (p, bs'))"
proof -
  let ?k1 = "k\<lparr>tcb_used := (tcb_used k)(t := True)\<rparr>"
  let ?S = "next_power_of_two stack_sz" and ?nm = "tcb_name_addr k t"
  let ?B = "stack_base_in a ?S"
  have wf1: "kheap_wf bs ?k1" and base1: "kheap_base ?k1 = kheap_base k"
    using inv(2) by (simp_all add: kheap_wf_def kheap_base_def)
  have lt: "kheap_base k + bytes bs < 4294967296" using kernel_heap.wf_facts [OF inv(2)] by blast
  have sz: "unat (stack_alloc_size ?S) \<le> 4294967280" "stack_alloc_size ?S \<noteq> 0"
  proof -
    obtain n where "n \<le> 9" "unat (stack_alloc_size ?S) = 2 * 2 ^ n + 255"
      by (rule stack_layout [of stack_sz 0]) (use args in auto)
    moreover from this have "(2 :: nat) ^ n \<le> 2 ^ 9" by (intro power_increasing) simp_all
    ultimately show "unat (stack_alloc_size ?S) \<le> 4294967280" "stack_alloc_size ?S \<noteq> 0"
      by auto
  qed
  obtain bs' where bs': "kheap_wf bs' k2"
    "\<forall>b. in_allocated (kheap_base k) bs b \<longrightarrow> in_allocated (kheap_base k) bs' b \<and> mem k2 b = mem k b"
    "unat a + unat (stack_alloc_size ?S) \<le> kheap_base k + bytes bs" "kheap_base k + 8 \<le> unat a"
    "\<forall>b \<in> region a (unat (stack_alloc_size ?S)). in_payload (kheap_base k) bs' b \<and> \<not> in_allocated (kheap_base k) bs b"
    "\<exists>p bs''. a = of_nat (p + 8) \<and> mark_free p (kheap_base k) bs' = Some bs'' \<and> coalesce bs'' = bs"
    "\<exists>p. alloc_blocks (unat (alloc_need (stack_alloc_size (next_power_of_two stack_sz)))) (kheap_base k) bs = Some (p, bs')"
    using malloc_fresh [OF wf1 sz(2,1) run, unfolded base1] by (auto simp del: of_nat_add)
  have room: "unat a + unat (stack_alloc_size ?S) < 4294967296" using bs'(3) lt by linarith
  obtain n where n: "?S = 2 ^ n" "unat ?S = 2 ^ n" "5 \<le> n" "unat stack_sz \<le> 2 ^ n"
    "unat (stack_alloc_size ?S) = 2 * 2 ^ n + 255" "unat a + 256 \<le> unat ?B"
    "unat ?B + 2 ^ n \<le> unat a + (2 * 2 ^ n + 255)" "2 ^ n dvd unat ?B"
    by (rule stack_layout [of stack_sz a]) (use args room in auto)
  let ?M0 = "memset (store32 (mem k2) a 0xDEADBEEF) ?nm 0 TASK_NAME_MAX_LEN"
  let ?M1 = "snd (stack_init ?B ?S fn arg ?M0)"
  let ?M2 = "if name = 0 then ?M1 else (strncpy ?M1 ?nm name (TASK_NAME_MAX_LEN - 1))(?nm + 15 := 0)"
  let ?c = "new_tcb ?B ?S a pr fn arg"
  note k2 = malloc_fields [OF run(1)]
  have nm: "tcb_name_addr k2 t = ?nm" using k2(2) by (simp add: tcb_name_addr_def)
  have below: "unat b < kheap_base k" if "b \<in> region ?nm 16" for b
    using tcb_name_below [OF inv(3) t(1) _ that] lt by linarith
  have top: "unat ?B + unat ?S < 4294967296" using n(2,5,7) room by linarith
  have in_block: "region a 4 \<subseteq> region a (unat (stack_alloc_size ?S))"
    "region (?B + ?S - 64) 64 \<subseteq> region a (unat (stack_alloc_size ?S))"
    "region (?B - PORT_STACK_GUARD_SIZE) (256 + unat ?S) \<subseteq> region a (unat (stack_alloc_size ?S))"
  proof -
    show "region a 4 \<subseteq> region a (unat (stack_alloc_size ?S))" using n(5) by (intro region_mono) simp
    have "unat (?B + ?S) = unat ?B + unat ?S" using top by (simp add: unat_add_small)
    then have "unat (?B + ?S - 64) = unat ?B + unat ?S - 64"
      using n(6) by (subst unat_sub_le) (simp_all add: word_le_nat_alt)
    then show "region (?B + ?S - 64) 64 \<subseteq> region a (unat (stack_alloc_size ?S))"
      using n(2,5,6,7) room by (intro region_within) linarith+
    have "unat (?B - PORT_STACK_GUARD_SIZE) = unat ?B - 256"
      using n(6) by (subst unat_sub_le) (simp_all add: word_le_nat_alt)
    then show "region (?B - PORT_STACK_GUARD_SIZE) (256 + unat ?S) \<subseteq> region a (unat (stack_alloc_size ?S))"
      using n(2,5,6,7) room by (intro region_within) linarith+
  qed
  have apart: "region (?B + ?S - 64) 64 \<inter> region ?nm 16 = {}"
  proof (intro equals0I)
    fix b assume b: "b \<in> region (?B + ?S - 64) 64 \<inter> region ?nm 16"
    then have "b \<in> region a (unat (stack_alloc_size ?S))" using in_block(2) by blast
    moreover have "a = of_nat (unat a)" by simp
    ultimately have "unat a \<le> unat b"
      using region_of_nat [of "unat a" "unat (stack_alloc_size ?S)" b] room by simp
    then show False using below [of b] b bs'(4) by simp
  qed
  have stack: "unat ?B + unat ?S \<le> 4294967288" "8 dvd unat ?B + unat ?S" "64 \<le> unat ?B + unat ?S"
  proof -
    have "(2 :: nat) ^ 3 dvd 2 ^ n" using n(3) by (intro le_imp_power_dvd) simp
    then show d: "8 dvd unat ?B + unat ?S" using n(2,8) by (simp add: dvd_trans [of 8 "2 ^ n"])
    show "unat ?B + unat ?S \<le> 4294967288" using d top by presburger
    show "64 \<le> unat ?B + unat ?S" using n(6) by linarith
  qed
  note sp = new_task_memory(1) [OF stack apart, where m = "mem k2" and a = a and fn = fn and arg = arg]
  note M = new_task_memory(2-4) [OF stack apart, where m = "mem k2" and a = a and fn = fn and arg = arg
      and name = name]
  let ?k3 = "k2\<lparr>mem := ?M2, tcb_pool := (tcb_pool k2)(t := ?c)\<rparr>"
  have create: "task_create fn name pr stack_sz arg k = scheduler_add_task t ?k3"
    using task_create_run [OF t(3) run args, of fn arg name] sp unfolding nm by simp
  have fresh: "t \<notin> set (L p)" "t \<notin> set (W h)" for p h using inv(1) t(2) unfolding task_inv_def by blast+
  have old: "sched_wf L k" "prim_inv W k"
    "\<And>u. (\<exists>pr. u \<in> set (L pr)) \<or> (\<exists>h. u \<in> set (W h)) \<Longrightarrow> u < MAX_TASKS \<and> tcb_used k u"
    using inv(1) unfolding task_inv_def by blast+
  have "sched_wf L ?k3"
    by (rule sched_wf_other [OF old(1) fresh(1)]) (simp_all add: k2(3,5,6,8))
  then obtain k' where k': "scheduler_add_task t ?k3 = Some k'" "sched_wf (L(unat pr := t # L (unat pr))) k'"
    "k' = ?k3\<lparr>tcb_pool := tcb_pool k', task_list := (task_list ?k3)(unat pr := Some t),
            g_priority_mask := g_priority_mask ?k3 OR push_bit (unat pr) 1, pendsv := True\<rparr>"
    "tcb_pool k' = (tcb_pool ?k3)(t := (tcb_pool ?k3 t)\<lparr>next_task := task_list ?k3 (unat pr)\<rparr>)"
    by (rule scheduler_add_task_wf [of L ?k3 t "unat pr"]) (use fresh(1) args(1) in \<open>auto simp: new_tcb_def\<close>)
  have f: "mem k' = ?M2" "ld k' = ld k2" "kheap k' = kheap k2" "primask k' = primask k" "pendsv k'"
    "tcb_used k' = (tcb_used k)(t := True)"
    by (subst k'(3), simp add: k2(1,4))+
  have heads: "read_head h k' = read_head h k" for h
  proof -
    have "sems k' = sems k" "mutexes k' = mutexes k" "queues k' = queues k"
      by (subst k'(3), simp add: k2(9-11))+
    then show ?thesis by (cases h) (simp_all add: read_head_def)
  qed
  have pool: "tcb_pool k' = (tcb_pool k)(t := ?c\<lparr>next_task := task_list k (unat pr)\<rparr>)"
    using k'(4) by (simp add: k2(3,5))
  have keep: "mem k' b = mem k2 b" if "b \<notin> region a (unat (stack_alloc_size ?S))" "kheap_base k \<le> unat b" for b
    unfolding f(1) using that in_block(1,2) below [of b] by (intro M(3)) fastforce
  have wf': "kheap_wf bs' k'"
    by (rule kheap_wf_payload_write [OF bs'(1) f(2,3)])
      (use keep bs'(5) k2(12) base1 in \<open>metis\<close>)
  have "prim_inv W k'"
    by (rule prim_inv_fresh [OF old(2) fresh(2) _ heads]) (simp_all add: pool new_tcb_def)
  then have inv': "task_inv (L(unat pr := t # L (unat pr))) W k'"
    using k'(2) old(3) f(6) t(1) unfolding task_inv_def by auto
  have placed: "stack_placed (kheap_base k) bs bs' stack_sz (mem k') (tcb_pool k' t)"
    unfolding stack_placed_def pool f(1)
    using n(2,4,8) M(1) in_block(3) bs'(5) by (auto simp: new_tcb_def)
  have mem: "mem k' b = mem k b" if "in_allocated (kheap_base k) bs b" for b
  proof -
    have "b \<notin> region a (unat (stack_alloc_size ?S))" using that bs'(5) by blast
    moreover have "kheap_base k \<le> unat b"
      using that allocated_bounds unfolding in_allocated_def by fastforce
    ultimately show ?thesis using keep that bs'(2) by simp
  qed
  have tnm: "mem k' (?nm + 15) = 0" unfolding f(1) by (rule M(2))
  show ?thesis
    by (intro exI [of _ k'] exI [of _ bs'] conjI)
      (use create k'(1) f(2,4-6) k2(2) wf' inv' placed mem tnm pool bs'(2,6,7) in \<open>auto simp: kheap_base_def simp del: of_nat_add\<close>)
qed

section \<open>What creation leaves alone\<close>

text \<open>The state without the parts that creation may change.\<close>

definition untasked :: "kernel \<Rightarrow> kernel" where
  "untasked k = k\<lparr>mem := (\<lambda>_. 0), kheap := \<lparr>free_list = 0, heap_inited = False\<rparr>, tcb_pool := (\<lambda>_. zero_tcb),
     tcb_used := (\<lambda>_. False), task_list := (\<lambda>_. None), g_priority_mask := 0, pendsv := False\<rparr>"

lemma untasked_upds [simp]:
  "untasked (k\<lparr>mem := a1\<rparr>) = untasked k" "untasked (k\<lparr>tcb_pool := a2\<rparr>) = untasked k"
  "untasked (k\<lparr>tcb_used := a3\<rparr>) = untasked k" "untasked (k\<lparr>kheap := a4\<rparr>) = untasked k"
  "untasked (upd_tcb t g k) = untasked k" "untasked (clear_tcb t k) = untasked k"
  by (simp_all add: untasked_def upd_tcb_def clear_tcb_def)

lemma get_free_tcb_untasked: "untasked (snd (get_free_tcb k)) = untasked k"
  by (simp add: get_free_tcb_def state_defs untasked_def split: option.split)

lemma free_tcb_untasked: "untasked (free_tcb t k) = untasked k"
  by (simp add: free_tcb_def state_defs untasked_def split: option.split)

lemma malloc_untasked: "malloc sz k = Some (a, k') \<Longrightarrow> untasked k' = untasked k"
  by (erule malloc_frame) (simp add: untasked_def)

lemma add_task_untasked: "scheduler_add_task t k = Some k' \<Longrightarrow> untasked k' = untasked k"
  by (auto simp: scheduler_add_task_def state_defs untasked_def Let_def split: if_splits)

lemma task_create_untasked:
  assumes "task_create fn name pr stack_sz arg k = Some k'" shows "untasked k' = untasked k"
proof (cases "of_nat MAX_TASK_PRIORITIES \<le> pr \<or> stack_sz = 0 \<or> MAX_TASK_STACK_SIZE < stack_sz")
  case True
  then show ?thesis using assms by (auto simp: task_create_def split: if_splits)
next
  case False
  obtain t k1 where k1: "get_free_tcb k = (t, k1)" by (cases "get_free_tcb k")
  have u1: "untasked k1 = untasked k" using get_free_tcb_untasked [of k] k1 by simp
  show ?thesis
  proof (cases t)
    case None
    then show ?thesis using assms False k1 u1 by (auto simp: task_create_def split: if_splits)
  next
    case (Some t')
    let ?sz = "next_power_of_two stack_sz"
    obtain a k2 where k2: "malloc (stack_alloc_size ?sz) k1 = Some (a, k2)"
      using assms False k1 Some
      by (cases "malloc (stack_alloc_size ?sz) k1") (auto simp: task_create_def Let_def split: if_splits)
    have u2: "untasked k2 = untasked k" using malloc_untasked [OF k2] u1 by simp
    show ?thesis
    proof (cases "a = 0")
      case True
      then show ?thesis
        using assms False k1 Some k2 u2 free_tcb_untasked by (auto simp: task_create_def Let_def split: if_splits)
    next
      case a: False
      then obtain k3 where "scheduler_add_task t' k3 = Some k'" "untasked k3 = untasked k2"
        using assms False k1 Some k2
        by (auto simp: task_create_def Let_def split: if_splits prod.splits)
      then show ?thesis using u2 add_task_untasked by simp
    qed
  qed
qed

lemma task_create_same:
  assumes "task_create fn name pr stack_sz arg k = Some k'"
  shows "current_task k' = current_task k" "rr_current k' = rr_current k" "table k' = table k" "sems k' = sems k"
    "mutexes k' = mutexes k" "queues k' = queues k" "kwork_buf k' = kwork_buf k" "kwork_head k' = kwork_head k"
    "kwork_tail k' = kwork_tail k" "kernel_tcb k' = kernel_tcb k" "ld k' = ld k" "mpu k' = mpu k"
    "control k' = control k" "primask k' = primask k"
proof -
  note u = task_create_untasked [OF assms]
  show "current_task k' = current_task k" "rr_current k' = rr_current k" "table k' = table k" "sems k' = sems k"
    "mutexes k' = mutexes k" "queues k' = queues k" "kwork_buf k' = kwork_buf k" "kwork_head k' = kwork_head k"
    "kwork_tail k' = kwork_tail k" "kernel_tcb k' = kernel_tcb k" "ld k' = ld k" "mpu k' = mpu k"
    "control k' = control k" "primask k' = primask k"
    using arg_cong [OF u, of current_task] arg_cong [OF u, of rr_current] arg_cong [OF u, of table]
      arg_cong [OF u, of sems] arg_cong [OF u, of mutexes] arg_cong [OF u, of queues] arg_cong [OF u, of kwork_buf]
      arg_cong [OF u, of kwork_head] arg_cong [OF u, of kwork_tail] arg_cong [OF u, of kernel_tcb]
      arg_cong [OF u, of ld] arg_cong [OF u, of mpu] arg_cong [OF u, of control] arg_cong [OF u, of primask]
    by (simp_all add: untasked_def)
qed

text \<open>With good arguments and a free TCB, \<open>task_create\<close> fails for want of memory or creates the task.\<close>

lemma task_create_cases:
  assumes inv: "task_inv L W k" "kheap_wf bs k" "pool_apart k"
    and args: "unat pr < MAX_TASK_PRIORITIES" "stack_sz \<noteq> 0" "stack_sz \<le> MAX_TASK_STACK_SIZE"
    and avail: "\<not> (\<forall>i < MAX_TASKS. tcb_used k i)"
  obtains (refused) k' where "task_create fn name pr stack_sz arg k = Some k'" "primask k' = primask k"
      "kheap_wf bs k'" "task_inv L W k'" "tcb_used k' = tcb_used k"
      "(\<forall>(s, al) \<in> set bs. al \<or> s < unat (alloc_need (stack_alloc_size (next_power_of_two stack_sz)))) = True"
  | (created) t a k' bs' where "task_create fn name pr stack_sz arg k = Some k'" "primask k' = primask k"
      "kheap_wf bs' k'" "task_inv (L(unat pr := t # L (unat pr))) W k'" "pendsv k'"
      "tcb_used k' = (tcb_used k)(t := True)" "mem k' (tcb_name_addr k t + 15) = 0"
      "stack_placed (kheap_base k) bs bs' stack_sz (mem k') (tcb_pool k' t)"
      "\<exists>base ssize nx. tcb_pool k' = (tcb_pool k)(t := (new_tcb base ssize a pr fn arg)\<lparr>next_task := nx\<rparr>)"
      "\<forall>b. in_allocated (kheap_base k) bs b \<longrightarrow> in_allocated (kheap_base k) bs' b \<and> mem k' b = mem k b"
      "\<exists>p bs''. a = of_nat (p + 8) \<and> mark_free p (kheap_base k) bs' = Some bs'' \<and> coalesce bs'' = bs"
      "kheap_base k' = kheap_base k" "t < MAX_TASKS" "\<not> tcb_used k t" "a \<noteq> 0"
      "(\<forall>(s, al) \<in> set bs. al \<or> s < unat (alloc_need (stack_alloc_size (next_power_of_two stack_sz)))) = False"
      "t = (LEAST i. \<not> tcb_used k i)" "\<exists>p. alloc_blocks (unat (alloc_need (stack_alloc_size (next_power_of_two stack_sz)))) (kheap_base k) bs = Some (p, bs')"
proof -
  let ?sz = "stack_alloc_size (next_power_of_two stack_sz)"
  define t where "t = (LEAST i. \<not> tcb_used k i)"
  let ?k1 = "k\<lparr>tcb_used := (tcb_used k)(t := True)\<rparr>"
  have free: "get_free_tcb k = (Some t, ?k1)" using avail by (simp only: get_free_tcb_eq t_def if_False)
  obtain i where i: "i < MAX_TASKS" "\<not> tcb_used k i" using avail by blast
  have "t \<le> i" unfolding t_def by (rule Least_le) (rule i(2))
  then have t: "t < MAX_TASKS" using i(1) by (rule le_less_trans)
  have unused: "\<not> tcb_used k t" unfolding t_def by (rule LeastI) (rule i(2))
  have wf1: "kheap_wf bs ?k1" using inv(2) by (simp add: kheap_wf_def)
  obtain n where n: "n \<le> 9" "unat ?sz = 2 * 2 ^ n + 255"
    by (rule stack_layout [of stack_sz 0]) (use args in auto)
  then have nz: "?sz \<noteq> 0" by auto
  obtain a k2 where run: "malloc ?sz ?k1 = Some (a, k2)"
    and null: "a = 0 \<longleftrightarrow> (\<forall>(s, al) \<in> set bs. al \<or> s < unat (alloc_need ?sz))"
    by (rule kernel_heap.alloc_returns [OF wf1 nz])
  note k2 = malloc_fields [OF run]
  show thesis
  proof (cases "a = 0")
    case True
    let ?k' = "k2\<lparr>tcb_used := tcb_used k\<rparr>"
    have "(tcb_used k)(t := False) = tcb_used k" using unused by (simp add: fun_upd_idem)
    then have "task_create fn name pr stack_sz arg k = Some ?k'"
      using args free run True t k2(1,4)
      by (simp add: task_create_def free_tcb_def state_defs Let_def word_le_nat_alt word_less_nat_alt)
    moreover have "kheap_wf bs ?k'"
      using kernel_heap.alloc_null [OF wf1 nz run [unfolded True]] by (simp add: kheap_wf_def)
    moreover have "task_inv L W ?k'"
    proof -
      have "sched_wf L ?k' = sched_wf L k" by (rule sched_wf_cong) (simp_all add: k2(3,5,6,8))
      moreover have "read_head h ?k' = read_head h k" for h
        using k2(9-11) by (cases h) (simp_all add: read_head_def)
      then have "prim_inv W ?k' = prim_inv W k" by (intro prim_inv_cong) (simp_all add: k2(3))
      ultimately show ?thesis using inv(1) by (simp add: task_inv_def)
    qed
    moreover have "primask ?k' = primask k" using k2(1) by simp
    ultimately show thesis using null True by (intro refused [of ?k']) simp_all
  next
    case False
    then have no: "(\<forall>(s, al) \<in> set bs. al \<or> s < unat (alloc_need ?sz)) = False" using null by blast
    from task_create_alloc [OF inv t unused free args run False, of fn name arg] obtain k' bs' where k':
      "task_create fn name pr stack_sz arg k = Some k'" "primask k' = primask k"
      "kheap_wf bs' k'" "task_inv (L(unat pr := t # L (unat pr))) W k'" "pendsv k'"
      "tcb_used k' = (tcb_used k)(t := True)" "mem k' (tcb_name_addr k t + 15) = 0"
      "stack_placed (kheap_base k) bs bs' stack_sz (mem k') (tcb_pool k' t)"
      "\<exists>base ssize nx. tcb_pool k' = (tcb_pool k)(t := (new_tcb base ssize a pr fn arg)\<lparr>next_task := nx\<rparr>)"
      "\<forall>b. in_allocated (kheap_base k) bs b \<longrightarrow> in_allocated (kheap_base k) bs' b \<and> mem k' b = mem k b"
      "\<exists>p bs''. a = of_nat (p + 8) \<and> mark_free p (kheap_base k) bs' = Some bs'' \<and> coalesce bs'' = bs"
      "kheap_base k' = kheap_base k" "\<exists>p. alloc_blocks (unat (alloc_need ?sz)) (kheap_base k) bs = Some (p, bs')" by blast
    show thesis by (rule created [OF k'(1-12) t unused False no t_def k'(13)])
  qed
qed

text \<open>
  C26. \<open>task_create\<close> returns in every case and keeps the task invariant.  With bad arguments or no free
  TCB it changes nothing; when the stack cannot be allocated it gives the TCB back; otherwise the
  task is at the head of its priority list, READY, its stack and guard are in fresh payload, aligned
  to the stack's size, and hold the initial frame, its name is terminated, and the contents of all
  other blocks are unchanged.
\<close>

theorem task_create_correct:
  assumes inv: "task_inv L W k" "kheap_wf bs k" "pool_apart k"
  shows "\<exists>k'. task_create fn name pr stack_sz arg k = Some k' \<and> primask k' = primask k \<and>
    (if \<not> (unat pr < MAX_TASK_PRIORITIES \<and> stack_sz \<noteq> 0 \<and> stack_sz \<le> MAX_TASK_STACK_SIZE) \<or>
        (\<forall>i < MAX_TASKS. tcb_used k i) then k' = k
     else if \<forall>(s, al) \<in> set bs. al \<or> s < unat (alloc_need (stack_alloc_size (next_power_of_two stack_sz)))
     then kheap_wf bs k' \<and> task_inv L W k' \<and> tcb_used k' = tcb_used k
     else \<exists>t bs'. t < MAX_TASKS \<and> \<not> tcb_used k t \<and> tcb_used k' = (tcb_used k)(t := True) \<and> pendsv k' \<and>
       kheap_wf bs' k' \<and> task_inv (L(unat pr := t # L (unat pr))) W k' \<and> mem k' (tcb_name_addr k t + 15) = 0 \<and>
       tstate (tcb_pool k' t) = TASK_READY \<and> task_function (tcb_pool k' t) = fn \<and> task_arg (tcb_pool k' t) = arg \<and>
       stack_placed (kheap_base k) bs bs' stack_sz (mem k') (tcb_pool k' t) \<and>
       (\<forall>b. in_allocated (kheap_base k) bs b \<longrightarrow> in_allocated (kheap_base k) bs' b \<and> mem k' b = mem k b))"
proof -
  let ?args = "unat pr < MAX_TASK_PRIORITIES \<and> stack_sz \<noteq> 0 \<and> stack_sz \<le> MAX_TASK_STACK_SIZE"
  let ?full = "\<forall>i < MAX_TASKS. tcb_used k i"
  consider (bad) "\<not> ?args" | (none) "?args" "?full"
    | (ok) "unat pr < MAX_TASK_PRIORITIES" "stack_sz \<noteq> 0" "stack_sz \<le> MAX_TASK_STACK_SIZE" "\<not> ?full" by blast
  then show ?thesis
  proof cases
    case bad
    then have "task_create fn name pr stack_sz arg k = Some k"
      by (auto simp: task_create_def word_le_nat_alt word_less_nat_alt)
    then show ?thesis using bad by simp
  next
    case none
    then have "task_create fn name pr stack_sz arg k = Some k"
      by (auto simp: task_create_def get_free_tcb_eq)
    then show ?thesis using none by simp
  next
    case ok
    then have c: "(\<not> ?args \<or> ?full) = False" by blast
    show ?thesis
    proof (cases rule: task_create_cases [OF inv ok, of fn name arg, case_names refused created])
      case (refused k')
      then show ?thesis unfolding c refused(6) if_True if_False by blast
    next
      case (created t a k' bs')
      have "tstate (tcb_pool k' t) = TASK_READY" "task_function (tcb_pool k' t) = fn" "task_arg (tcb_pool k' t) = arg"
        using created(9) by (auto simp: new_tcb_def)
      then show ?thesis unfolding c created(16) if_False using created(1-8,10,13,14) by blast
    qed
  qed
qed

text \<open>The state at reset with a kernel heap of 4 KB at \<open>0x20008000\<close>; no task exists.\<close>

definition demo_ram :: kernel where
  "demo_ram = boot_kernel (demo_linker\<lparr>heap_end := 0x20009000\<rparr>) (\<lambda>_. 0)"

lemma demo_ram_ok:
  "task_inv (\<lambda>_. []) (\<lambda>_. []) demo_ram" "kheap_wf [(4096, False)] demo_ram" "pool_apart demo_ram"
proof -
  have heads: "read_head h demo_ram = None" for h
    by (cases h) (simp_all add: read_head_def demo_ram_def boot_kernel_def)
  have "sched_wf (\<lambda>_. []) demo_ram" by (simp add: sched_wf_def demo_ram_def boot_kernel_def)
  moreover have "wait_wf (\<lambda>_. []) demo_ram" using heads by (simp add: wait_wf_def)
  then have "prim_inv (\<lambda>_. []) demo_ram"
    by (simp add: prim_inv_def timeouts_ok_def waiting_ok_def demo_ram_def boot_kernel_def zero_tcb_def)
  ultimately show "task_inv (\<lambda>_. []) (\<lambda>_. []) demo_ram" by (simp add: task_inv_def)
  show "kheap_wf [(4096, False)] demo_ram"
    by (simp add: kheap_wf_def heap_wf_def heap_base_def demo_ram_def boot_kernel_def demo_linker_def size_ok_def)
  show "pool_apart demo_ram"
    by (simp add: pool_apart_def kheap_base_def heap_base_def demo_ram_def boot_kernel_def demo_linker_def)
qed

lemma demo_ram_need: "unat (alloc_need (stack_alloc_size (next_power_of_two 512))) = 1288"
proof -
  have "stack_alloc_size (next_power_of_two 512) = 1279"
    by (simp add: stack_alloc_size_def next_power_of_two_def Let_def)
  then show ?thesis by (simp add: alloc_need_covers)
qed

lemma demo_ram_used: "tcb_used demo_ram i = False" by (simp add: demo_ram_def boot_kernel_def)

lemma demo_ram_avail: "\<not> (\<forall>i < MAX_TASKS. tcb_used demo_ram i)"
  unfolding demo_ram_used by (intro notI) (drule spec [of _ 0], simp)

theorem task_create_correct_witness:
  "\<exists>t k'. task_create 0x08004100 0 1 512 7 demo_ram = Some k' \<and> tstate (tcb_pool k' t) = TASK_READY \<and>
     task_inv ((\<lambda>_. [])(1 := [t])) (\<lambda>_. []) k'"
proof -
  have c: "(\<not> (unat (1 :: u32) < MAX_TASK_PRIORITIES \<and> (512 :: u32) \<noteq> 0 \<and> 512 \<le> MAX_TASK_STACK_SIZE) \<or>
      (\<forall>i < MAX_TASKS. tcb_used demo_ram i)) = False"
    using demo_ram_avail by simp
  have n: "(\<forall>(s, al) \<in> set [(4096 :: nat, False)].
      al \<or> s < unat (alloc_need (stack_alloc_size (next_power_of_two 512)))) = False"
    by (simp add: demo_ram_need)
  show ?thesis
    using task_create_correct [OF demo_ram_ok, of "0x08004100" 0 1 512 7, unfolded c n if_False] by auto
qed

end
