(* ===== verification/Task_Delete.thy ===== *)
theory Task_Delete
  imports Task_Create
begin

text \<open>
  Deletion of tasks: what \<open>task_delete\<close> takes away and what it leaves, and that it undoes
  \<open>task_create\<close>; and how long a delay lasts, counted in ticks.
\<close>

section \<open>Deletion\<close>

lemma prim_inv_fields:
  assumes "\<And>t. wait_next (tcb_pool k' t) = wait_next (tcb_pool k t) \<and> tstate (tcb_pool k' t) = tstate (tcb_pool k t) \<and>
      delay_ticks (tcb_pool k' t) = delay_ticks (tcb_pool k t) \<and>
      blocking_wait_list (tcb_pool k' t) = blocking_wait_list (tcb_pool k t)"
    and "\<And>h. read_head h k' = read_head h k"
  shows "prim_inv W k' \<longleftrightarrow> prim_inv W k"
  using wait_wf_cong [of k' k W] assms by (simp add: prim_inv_def timeouts_ok_def waiting_ok_def)

lemma strip_next_fields:
  assumes "(c :: tcb)\<lparr>next_task := None\<rparr> = c'\<lparr>next_task := None\<rparr>"
  shows "wait_next c = wait_next c' \<and> tstate c = tstate c' \<and> delay_ticks c = delay_ticks c' \<and>
    blocking_wait_list c = blocking_wait_list c'" "stack_alloc c = stack_alloc c'" "priority c = priority c'"
proof -
  have f: "x (c\<lparr>next_task := None\<rparr>) = x (c'\<lparr>next_task := None\<rparr>)" for x :: "tcb \<Rightarrow> 'a" by (rule arg_cong [OF assms])
  show "wait_next c = wait_next c' \<and> tstate c = tstate c' \<and> delay_ticks c = delay_ticks c' \<and>
    blocking_wait_list c = blocking_wait_list c'" "stack_alloc c = stack_alloc c'" "priority c = priority c'"
    using arg_cong [OF assms, of wait_next] arg_cong [OF assms, of tstate] arg_cong [OF assms, of delay_ticks]
      arg_cong [OF assms, of blocking_wait_list] arg_cong [OF assms, of stack_alloc]
      arg_cong [OF assms, of priority] by simp_all
qed

text \<open>
  The wait lists are as before, even when the deleted task is on one of them.
\<close>

lemma task_delete_effect:
  assumes inv: "task_inv L W k" and t: "t \<in> set (L pr)"
    and heap: "kheap_wf bs k" "stack_alloc (tcb_pool k t) = of_nat (p + 8)" "stack_alloc (tcb_pool k t) \<noteq> 0"
      "mark_free p (kheap_base k) bs = Some bs'"
  obtains k' where "task_delete (Some t) k = Some k'" "primask k' = primask k" "kheap_wf (coalesce bs') k'"
    "sched_wf (L(pr := remove1 t (L pr))) k'" "prim_inv W k'" "tcb_used k' = (tcb_used k)(t := False)"
    "stack_alloc (tcb_pool k' t) = 0"
proof -
  have old: "sched_wf L k" "prim_inv W k" "t < MAX_TASKS" "tcb_used k t"
    using inv t unfolding task_inv_def by blast+
  obtain k1 where k1: "scheduler_remove_task t k = Some k1" "sched_wf (L(pr := remove1 t (L pr))) k1"
    "k1 = k\<lparr>tcb_pool := tcb_pool k1, task_list := task_list k1, rr_current := rr_current k1,
            g_priority_mask := g_priority_mask k1\<rparr>"
    "\<forall>u. (tcb_pool k1 u)\<lparr>next_task := None\<rparr> = (tcb_pool k u)\<lparr>next_task := None\<rparr>"
    using scheduler_remove_task_wf [OF old(1) t] by metis
  have f: "mem k1 = mem k" "ld k1 = ld k" "kheap k1 = kheap k" "primask k1 = primask k" "tcb_used k1 = tcb_used k"
    "sems k1 = sems k" "mutexes k1 = mutexes k" "queues k1 = queues k"
    by (subst k1(3), simp)+
  have sa: "stack_alloc (tcb_pool k1 t) = stack_alloc (tcb_pool k t)"
    using strip_next_fields(2) k1(4) by blast
  have wf1: "kheap_wf bs k1" and base1: "kheap_base k1 = kheap_base k"
    using heap(1) f by (simp_all add: kheap_wf_def kheap_base_def)
  obtain k2 where k2: "free (of_nat (p + 8)) k1 = Some k2" "kheap_wf (coalesce bs') k2" "primask k2 = primask k1"
    using kernel_heap.release_some [OF wf1, of p bs'] heap(4) base1 by auto
  obtain m h where e: "k2 = k1\<lparr>mem := m, kheap := h\<rparr>" by (rule free_frame [OF k2(1)])
  let ?k3 = "upd_tcb t (\<lambda>c. c\<lparr>stack_base := 0, stack_alloc := 0\<rparr>) k2"
  let ?k' = "?k3\<lparr>tcb_used := (tcb_used k2)(t := False)\<rparr>"
  have run: "task_delete (Some t) k = Some ?k'"
    using k1(1) sa heap(2,3) k2(1) old(3) by (simp add: task_delete_def free_tcb_def state_defs Let_def)
  have "sched_wf (L(pr := remove1 t (L pr))) ?k' = sched_wf (L(pr := remove1 t (L pr))) k1"
    by (rule sched_wf_cong) (simp_all add: e upd_tcb_def)
  moreover have "read_head h ?k' = read_head h k" for h
    by (cases h) (simp_all add: e upd_tcb_def read_head_def f(6-8))
  then have "prim_inv W ?k' = prim_inv W k"
    using strip_next_fields(1) [OF spec [OF k1(4)]] by (intro prim_inv_fields) (auto simp: e upd_tcb_def)
  moreover have "primask ?k' = primask k" using k2(3) f(4) by simp
  moreover have "kheap_wf (coalesce bs') ?k'" using k2(2) by (subst kheap_wf_cong [of _ k2]) (simp_all add: upd_tcb_def)
  moreover have "tcb_used ?k' = (tcb_used k)(t := False)" using f(5) by (simp add: e)
  moreover have "stack_alloc (tcb_pool ?k' t) = 0" by (simp add: upd_tcb_def)
  ultimately show thesis using k1(2) old(2) by (intro that [OF run]) blast+
qed

text \<open>
  C27. Deleting a task frees its stack, takes it off its priority list and frees its TCB; the wait
  lists stay as they are, so the task invariant survives exactly when the task waits nowhere.
\<close>

theorem task_delete_correct:
  assumes "task_inv L W k" "t \<in> set (L pr)" "kheap_wf bs k" "stack_alloc (tcb_pool k t) = of_nat (p + 8)"
    "stack_alloc (tcb_pool k t) \<noteq> 0" "mark_free p (kheap_base k) bs = Some bs'"
  shows "\<exists>k'. task_delete (Some t) k = Some k' \<and> primask k' = primask k \<and> kheap_wf (coalesce bs') k' \<and>
    sched_wf (L(pr := remove1 t (L pr))) k' \<and> prim_inv W k' \<and> tcb_used k' = (tcb_used k)(t := False) \<and>
    (task_inv (L(pr := remove1 t (L pr))) W k' \<longleftrightarrow> (\<forall>h. t \<notin> set (W h)))"
proof -
  obtain k' where k': "task_delete (Some t) k = Some k'" "primask k' = primask k" "kheap_wf (coalesce bs') k'"
    "sched_wf (L(pr := remove1 t (L pr))) k'" "prim_inv W k'" "tcb_used k' = (tcb_used k)(t := False)"
    by (rule task_delete_effect [OF assms])
  have wf: "sched_wf L k" using assms(1) by (simp add: task_inv_def)
  have gone: "t \<notin> set ((L(pr := remove1 t (L pr))) q)" for q
    using sched_wf_priority [OF wf, of t q] sched_wf_priority [OF wf assms(2)] sched_wf_distinct [OF wf, of pr]
    by (cases "q = pr") auto
  have sub: "u \<in> set ((L(pr := remove1 t (L pr))) q) \<Longrightarrow> \<exists>q. u \<in> set (L q)" for u q
    using notin_set_remove1 by (cases "q = pr") fastforce+
  have "task_inv (L(pr := remove1 t (L pr))) W k' \<longleftrightarrow> (\<forall>h. t \<notin> set (W h))"
  proof
    assume "task_inv (L(pr := remove1 t (L pr))) W k'"
    then show "\<forall>h. t \<notin> set (W h)" using k'(6) unfolding task_inv_def by fastforce
  next
    assume "\<forall>h. t \<notin> set (W h)"
    then show "task_inv (L(pr := remove1 t (L pr))) W k'"
      using assms(1) k'(4-6) gone sub unfolding task_inv_def by (metis fun_upd_apply)
  qed
  then show ?thesis using k' by blast
qed

theorem task_delete_correct_witness:
  "\<exists>t k' k''. task_create 0x08004100 0 1 512 7 demo_ram = Some k' \<and> task_delete (Some t) k' = Some k'' \<and>
     task_inv (\<lambda>_. []) (\<lambda>_. []) k''"
proof -
  have args: "unat (1 :: u32) < MAX_TASK_PRIORITIES" "(512 :: u32) \<noteq> 0" "(512 :: u32) \<le> MAX_TASK_STACK_SIZE"
    by simp_all
  show ?thesis
  proof (cases rule: task_create_cases [OF demo_ram_ok args demo_ram_avail, of "0x08004100" 0 7, case_names refused created])
    case (refused k')
    then show ?thesis using demo_ram_need by simp
  next
    case (created t a k' bs')
    have sa: "stack_alloc (tcb_pool k' t) = a" using created(9) by (auto simp: new_tcb_def)
    obtain p bs'' where p: "a = of_nat (p + 8)" "mark_free p (kheap_base k') bs' = Some bs''"
      using created(11,12) by metis
    have L: "((\<lambda>_. [])(unat 1 := t # (\<lambda>_. []) (unat 1)))(1 := remove1 t [t]) = (\<lambda>_. [])" by (simp add: fun_eq_iff)
    have "\<exists>k''. task_delete (Some t) k' = Some k'' \<and> task_inv (\<lambda>_. []) (\<lambda>_. []) k''"
      using task_delete_correct [OF created(4), of t 1 bs' p bs''] created(3,15) sa p L
      by (auto simp del: of_nat_add)
    then show ?thesis using created(1) by blast
  qed
qed

text \<open>
  Round trip: when there is room, deleting the task just created gives back the heap's blocks,
  the lists and the TCB.
\<close>

theorem task_create_delete:
  assumes inv: "task_inv L W k" "kheap_wf bs k" "pool_apart k"
    and args: "unat pr < MAX_TASK_PRIORITIES" "stack_sz \<noteq> 0" "stack_sz \<le> MAX_TASK_STACK_SIZE"
    and avail: "\<not> tcb_used k i" "i < MAX_TASKS"
    and room: "(s, False) \<in> set bs" "unat (alloc_need (stack_alloc_size (next_power_of_two stack_sz))) \<le> s"
  shows "\<exists>t k' k''. task_create fn name pr stack_sz arg k = Some k' \<and> \<not> tcb_used k t \<and> tcb_used k' t \<and>
    task_delete (Some t) k' = Some k'' \<and> kheap_wf bs k'' \<and> task_inv L W k'' \<and> tcb_used k'' = tcb_used k \<and>
    primask k'' = primask k"
proof -
  have some: "\<not> (\<forall>i < MAX_TASKS. tcb_used k i)" using avail by blast
  show ?thesis
  proof (cases rule: task_create_cases [OF inv args some, of fn name arg, case_names refused created])
    case (refused k')
    then show ?thesis using room by fastforce
  next
    case (created t a k' bs')
    have sa: "stack_alloc (tcb_pool k' t) = a" using created(9) by (auto simp: new_tcb_def)
    obtain p bs'' where p: "a = of_nat (p + 8)" "mark_free p (kheap_base k') bs' = Some bs''" "coalesce bs'' = bs"
      using created(11,12) by metis
    have t: "t \<in> set ((L(unat pr := t # L (unat pr))) (unat pr))" by simp
    obtain k'' where k'': "task_delete (Some t) k' = Some k''" "primask k'' = primask k'" "kheap_wf bs k''"
      "sched_wf ((L(unat pr := t # L (unat pr)))(unat pr := remove1 t ((L(unat pr := t # L (unat pr))) (unat pr)))) k''"
      "prim_inv W k''" "tcb_used k'' = (tcb_used k')(t := False)"
      using task_delete_effect [OF created(4) t created(3) sa [unfolded p(1)], of bs''] p sa created(15) by metis
    have "tcb_used k'' = tcb_used k" using k''(6) created(6,14) by (simp add: fun_upd_idem)
    moreover have "sched_wf L k''" using k''(4) by simp
    ultimately have "task_inv L W k''" using inv(1) k''(5) by (simp add: task_inv_def)
    then show ?thesis using created(1,2,6,14) k''(1-3) \<open>tcb_used k'' = tcb_used k\<close> by auto
  qed
qed

theorem task_create_delete_witness:
  "\<exists>t k' k''. task_create 0x08004100 0 1 512 7 demo_ram = Some k' \<and> tcb_used k' t \<and>
     task_delete (Some t) k' = Some k'' \<and> kheap_wf [(4096, False)] k'' \<and> tcb_used k'' = tcb_used demo_ram"
  using task_create_delete [OF demo_ram_ok, of 1 512 0 4096 "0x08004100" 0 7]
  by (auto simp: demo_ram_used demo_ram_need)

end
