(* ===== verification/Task_Delay.thy ===== *)
theory Task_Delay
  imports Task_Delete
begin

text \<open>How long a delay lasts, counted in ticks.\<close>

primrec ticks :: "nat \<Rightarrow> kernel \<Rightarrow> kernel option" where
  "ticks 0 k = Some k"
| "ticks (Suc n) k = do { k \<leftarrow> scheduler_tick k; ticks n k }"

text \<open>A sleeping task after \<open>m\<close> ticks.\<close>

lemma ticks_sleep:
  assumes "sched_wf L k" "wait_wf W k" "timeouts_ok W k" "t \<in> set (all_tasks L)"
    "tstate (tcb_pool k t) = TASK_WAITING" "blocking_wait_list (tcb_pool k t) = None"
    "m \<le> unat (delay_ticks (tcb_pool k t))" "0 < unat (delay_ticks (tcb_pool k t))"
  shows "\<exists>k'. ticks m k = Some k' \<and> tick_count k' = tick_count k + of_nat m \<and>
    unat (delay_ticks (tcb_pool k' t)) = unat (delay_ticks (tcb_pool k t)) - m \<and>
    tstate (tcb_pool k' t) = (if m < unat (delay_ticks (tcb_pool k t)) then TASK_WAITING else TASK_READY)"
  using assms
proof (induction m arbitrary: k W)
  case 0
  then show ?case by simp
next
  case (Suc m)
  let ?W = "\<lambda>h. [t\<leftarrow>W h. \<not> (t \<in> set (all_tasks L) \<and> sync_expires (tcb_pool k t))]"
  obtain k1 where k1: "scheduler_tick k = Some k1" "tick_count k1 = tick_count k + 1" "sched_wf L k1"
    "wait_wf ?W k1" "timeouts_ok ?W k1"
    "\<forall>t. (tcb_pool k1 t)\<lparr>wait_next := None\<rparr> =
       (if t \<in> set (all_tasks L) then tick_tcb (tcb_pool k t) else tcb_pool k t)\<lparr>wait_next := None\<rparr>"
    using scheduler_tick_full [OF Suc.prems(1-3)] by blast
  let ?d = "delay_ticks (tcb_pool k t)"
  have "(tcb_pool k1 t)\<lparr>wait_next := None\<rparr> = (tick_tcb (tcb_pool k t))\<lparr>wait_next := None\<rparr>"
    using k1(6) Suc.prems(4) by simp
  note f = strip_fields(1,2,4) [OF this]
  have pos: "0 < ?d" using Suc.prems(8) by (simp add: word_less_nat_alt)
  show ?case
  proof (cases "?d = 1")
    case True
    then have "m = 0" using Suc.prems(7) by simp
    then show ?thesis using k1(1,2) f Suc.prems(5,6) True by (simp add: tick_tcb_def)
  next
    case False
    have tick: "tick_tcb (tcb_pool k t) = (tcb_pool k t)\<lparr>delay_ticks := ?d - 1\<rparr>"
      using False pos Suc.prems(5) by (simp add: tick_tcb_def)
    have d: "unat (?d - 1) = unat ?d - 1" using pos by (intro unat_minus_one) auto
    have "1 < unat ?d" using False Suc.prems(8) by (metis One_nat_def Suc_lessI unat_1 word_unat_eq_iff)
    then obtain k' where "ticks m k1 = Some k'" "tick_count k' = tick_count k1 + of_nat m"
      "unat (delay_ticks (tcb_pool k' t)) = unat (delay_ticks (tcb_pool k1 t)) - m"
      "tstate (tcb_pool k' t) = (if m < unat (delay_ticks (tcb_pool k1 t)) then TASK_WAITING else TASK_READY)"
    proof -
      have "tstate (tcb_pool k1 t) = TASK_WAITING" "blocking_wait_list (tcb_pool k1 t) = None"
        using f tick Suc.prems(5,6) by simp_all
      moreover have "m \<le> unat (delay_ticks (tcb_pool k1 t))" "0 < unat (delay_ticks (tcb_pool k1 t))"
        using f(2) tick d Suc.prems(7) \<open>1 < unat ?d\<close> by simp_all
      ultimately show thesis using Suc.IH [OF k1(3-5) Suc.prems(4)] that by blast
    qed
    then show ?thesis using k1(1,2) f(2) tick d by (auto simp: add.assoc)
  qed
qed

text \<open>
  C28. A delay of \<open>n\<close> ticks, \<open>n > 0\<close>, suspends the calling task for exactly \<open>n\<close> ticks: it is WAITING
  after any smaller number and READY after \<open>n\<close>.
\<close>

theorem task_delay_exact:
  assumes "sched_wf L k" "wait_wf W k" "timeouts_ok W k" "t \<in> set (L pr)" "current_task k = Some t"
    "blocking_wait_list (tcb_pool k t) = None" "n \<noteq> 0" "m \<le> unat n"
  shows "\<exists>k'. ticks m (z_impl_task_delay n k) = Some k' \<and> pendsv (z_impl_task_delay n k) \<and>
    tick_count k' = tick_count k + of_nat m \<and> unat (delay_ticks (tcb_pool k' t)) = unat n - m \<and>
    tstate (tcb_pool k' t) = (if m < unat n then TASK_WAITING else TASK_READY)"
proof -
  let ?k = "z_impl_task_delay n k"
  have k: "?k = k\<lparr>tcb_pool := (tcb_pool k)(t := (tcb_pool k t)\<lparr>delay_ticks := n, tstate := TASK_WAITING\<rparr>), pendsv := True\<rparr>"
    using assms(5,7)
    by (simp add: z_impl_task_delay_def scheduler_get_current_def scheduler_sleep_def state_defs)
  have sw: "sched_wf L ?k" using assms(1) by (subst sched_wf_cong [of _ k]) (simp_all add: k)
  have "read_head h ?k = read_head h k" for h by (cases h) (simp_all add: k read_head_def)
  then have ww: "wait_wf W ?k" using assms(2) by (subst wait_wf_cong [of _ k]) (simp_all add: k)
  have tm: "timeouts_ok W ?k" using assms(3,6) by (auto simp: timeouts_ok_def k)
  have "t \<in> set (all_tasks L)"
    using assms(1,4) sched_wf_priority [OF assms(1,4)] by (auto simp: all_tasks_def)
  from ticks_sleep [OF sw ww tm this, of m] show ?thesis
    using assms(6,7,8) by (auto simp: k unat_gt_0)
qed

theorem task_delay_exact_witness:
  "\<exists>k'. ticks 3 (z_impl_task_delay 5 (demo_sched\<lparr>current_task := Some 2\<rparr>)) = Some k' \<and>
     tstate (tcb_pool k' 2) = TASK_WAITING \<and> unat (delay_ticks (tcb_pool k' 2)) = 2"
proof -
  let ?k = "demo_sched\<lparr>current_task := Some 2\<rparr>"
  have "sched_wf demo_lists ?k" using demo_sched_wf by (subst sched_wf_cong [of _ demo_sched]) simp_all
  moreover have "wait_wf demo_waits ?k" using demo_waits_wf by (subst wait_wf_cong [of _ demo_sched]) simp_all
  moreover have "timeouts_ok demo_waits ?k" using demo_timeouts by (simp add: timeouts_ok_def)
  moreover have "2 \<in> set (demo_lists 1)" "blocking_wait_list (tcb_pool ?k 2) = None"
    by (simp_all add: demo_sched_simps)
  ultimately show ?thesis using task_delay_exact [of demo_lists ?k demo_waits 2 1 5 3] by auto
qed

end
