(* ===== verification/Uart.thy ===== *)
theory Uart
  imports Kernel_State Libc
begin

text \<open>
  The serial console, \<open>boards/stm32f446/uart.c\<close>.  The transmitter is a device: \<open>uart_out\<close> is the
  sequence of bytes written to its data register, and the wait for its ready bit is taken to end.
  The initialisation is a sequence of writes to the registers of the clock control, the port and the
  UART.
\<close>

section \<open>Initialisation\<close>

text \<open>The peripheral registers \<open>uart_init\<close> programs.\<close>

record uart_regs =
  RCC_AHB1ENR :: u32
  RCC_APB1ENR :: u32
  GPIOA_MODER :: u32
  GPIOA_AFRL :: u32
  USART2_CR1 :: u32
  USART2_CR2 :: u32
  USART2_CR3 :: u32
  USART2_BRR :: u32

definition uart_init :: "uart_regs \<Rightarrow> uart_regs" where
  "uart_init r =
     (let r = r\<lparr>RCC_AHB1ENR := RCC_AHB1ENR r OR push_bit 0 1\<rparr>;
          r = r\<lparr>RCC_APB1ENR := RCC_APB1ENR r OR push_bit 17 1\<rparr>;
          r = r\<lparr>GPIOA_MODER := GPIOA_MODER r AND NOT (push_bit (2*2) 3 OR push_bit (3*2) 3)\<rparr>;
          r = r\<lparr>GPIOA_MODER := GPIOA_MODER r OR (push_bit (2*2) 2 OR push_bit (3*2) 2)\<rparr>;
          r = r\<lparr>GPIOA_AFRL := GPIOA_AFRL r AND NOT (push_bit (4*2) 0xF OR push_bit (4*3) 0xF)\<rparr>;
          r = r\<lparr>GPIOA_AFRL := GPIOA_AFRL r OR (push_bit (4*2) 7 OR push_bit (4*3) 7)\<rparr>;
          r = r\<lparr>USART2_CR1 := 0\<rparr>; r = r\<lparr>USART2_CR2 := 0\<rparr>; r = r\<lparr>USART2_CR3 := 0\<rparr>;
          r = r\<lparr>USART2_BRR := 139\<rparr>
      in r\<lparr>USART2_CR1 := USART2_CR1 r OR (push_bit 3 1 OR push_bit 13 1)\<rparr>)"

section \<open>Output\<close>

definition uart_putc :: "u8 \<Rightarrow> kernel \<Rightarrow> kernel" where
  "uart_putc c k = k\<lparr>uart_out := uart_out k @ [c]\<rparr>"

partial_function (option) uart_loop :: "u32 \<Rightarrow> kernel \<Rightarrow> kernel option" where
  "uart_loop s k =
     (if mem k s \<noteq> 0 then
        let k = (if mem k s = 10 then uart_putc 13 k else k)
        in uart_loop (s + 1) (uart_putc (mem k s) k)
      else Some k)"

definition uart_write :: "u32 \<Rightarrow> kernel \<Rightarrow> kernel option" where
  "uart_write s k = (let (pm, k) = enter_critical k in do {
     k \<leftarrow> uart_loop s k;
     Some (exit_critical pm k)
   })"

text \<open>A line feed is sent as carriage return and line feed.\<close>

definition crlf :: "u8 list \<Rightarrow> u8 list" where
  "crlf s = concat (map (\<lambda>c. if c = 10 then [13, 10] else [c]) s)"

text \<open>
  Writing a string literal, whose bytes are known and whose address is the compiler's choice.
\<close>

definition uart_puts :: "u8 list \<Rightarrow> kernel \<Rightarrow> kernel" where
  "uart_puts s k = k\<lparr>uart_out := uart_out k @ crlf s\<rparr>"

definition string_at :: "memory \<Rightarrow> u32 \<Rightarrow> u8 list \<Rightarrow> bool" where
  "string_at m s cs \<longleftrightarrow> (\<forall>i < length cs. m (s + of_nat i) = cs ! i \<and> cs ! i \<noteq> 0) \<and> m (s + of_nat (length cs)) = 0"

lemma string_at_simps [simp]:
  "string_at m s [] \<longleftrightarrow> m s = 0"
  "string_at m s (c # cs) \<longleftrightarrow> m s = c \<and> c \<noteq> 0 \<and> string_at m (s + 1) cs"
  by (auto simp: string_at_def All_less_Suc2 add.assoc)

lemma uart_loop_string:
  "string_at (mem k) s cs \<Longrightarrow> uart_loop s k = Some (k\<lparr>uart_out := uart_out k @ crlf cs\<rparr>)"
proof (induction cs arbitrary: s k)
  case Nil
  then show ?case by (subst uart_loop.simps) (simp add: crlf_def)
next
  case (Cons c cs)
  let ?k = "k\<lparr>uart_out := uart_out k @ (if c = 10 then [13, 10] else [c])\<rparr>"
  have "uart_loop s k = uart_loop (s + 1) ?k"
    using Cons.prems by (subst uart_loop.simps) (auto simp: uart_putc_def)
  also have "\<dots> = Some (?k\<lparr>uart_out := uart_out ?k @ crlf cs\<rparr>)"
    using Cons.prems by (intro Cons.IH) simp
  finally show ?case by (simp add: crlf_def)
qed

lemma uart_write_puts:
  assumes "string_at (mem k) s cs" shows "uart_write s k = Some (uart_puts cs k)"
proof -
  have "string_at (mem (k\<lparr>primask := 1\<rparr>)) s cs" using assms by simp
  from uart_loop_string [OF this] show ?thesis
    by (simp add: uart_write_def state_defs uart_puts_def)
qed

text \<open>Whatever the string, output is all a write changes.\<close>

lemma uart_loop_frame: "uart_loop s k = Some k' \<Longrightarrow> \<exists>out. k' = k\<lparr>uart_out := out\<rparr>"
proof (induction rule: uart_loop.raw_induct [rotated 1, consumes 1])
  case (1 f s k k')
  note IH = 1(1)
  show ?case
  proof (cases "mem k s = 0")
    case True
    then have "k' = k\<lparr>uart_out := uart_out k\<rparr>" using 1(2) by simp
    then show ?thesis by blast
  next
    case False
    let ?k = "uart_putc (mem k s) (if mem k s = 10 then uart_putc 13 k else k)"
    have "f (s + 1) ?k = Some k'" using 1(2) False by (auto simp: uart_putc_def Let_def split: if_splits)
    from IH [OF this] obtain out where "k' = ?k\<lparr>uart_out := out\<rparr>" by blast
    then have "k' = k\<lparr>uart_out := out\<rparr>" by (simp add: uart_putc_def)
    then show ?thesis by blast
  qed
qed

lemma uart_write_frame:
  assumes "uart_write s k = Some k'" shows "\<exists>out. k' = k\<lparr>uart_out := out\<rparr>"
proof -
  obtain k1 where k1: "uart_loop s (k\<lparr>primask := 1\<rparr>) = Some k1" "k' = exit_critical (primask k) k1"
    using assms by (auto simp: uart_write_def enter_critical_def bind_eq_Some_conv)
  obtain out where "k1 = k\<lparr>primask := 1, uart_out := out\<rparr>" using uart_loop_frame [OF k1(1)] by blast
  then have "k' = k\<lparr>uart_out := out\<rparr>" using k1(2) by (simp add: exit_critical_def)
  then show ?thesis by blast
qed

text \<open>
  \<open>uart_write\<close> of a terminated string ends, sends exactly the string, every line feed preceded by
  a carriage return, and changes nothing else; PRIMASK is restored.
\<close>

theorem uart_write_correct:
  assumes "string_at (mem k) s cs"
  shows "uart_write s k = Some (k\<lparr>uart_out := uart_out k @ crlf cs\<rparr>)"
  using uart_write_puts [OF assms] by (simp add: uart_puts_def)

theorem uart_write_correct_witness:
  "uart_write 0x20004000 (demo_boot\<lparr>mem := (\<lambda>_. 0)(0x20004000 := 72, 0x20004001 := 10)\<rparr>) =
     Some (demo_boot\<lparr>mem := (\<lambda>_. 0)(0x20004000 := 72, 0x20004001 := 10), uart_out := [72, 13, 10]\<rparr>)"
  using uart_write_correct [of "demo_boot\<lparr>mem := (\<lambda>_. 0)(0x20004000 := 72, 0x20004001 := 10)\<rparr>" "0x20004000" "[72, 10]"]
  by (simp add: crlf_def demo_boot_def boot_kernel_def)

end
