(* ===== verification/Port.thy ===== *)
theory Port
  imports Sched_Props Uart
begin

text \<open>
  The Cortex-M4 port, \<open>arch/arm/cortex-m4/port.c\<close> and \<open>context_switch.c\<close>: the memory protection of
  the running task, the privilege level, the switch of context and the start of the first task.
  A call that halts the machine is a value of its own, \<open>Halted\<close>, with the output it leaves.
\<close>

section \<open>Diagnostics\<close>

text \<open>String literals as bytes.\<close>

definition ascii :: "string \<Rightarrow> u8 list" where
  "ascii s = map of_char s"

definition CRLF :: "u8 list" where
  "CRLF = [13, 10]"

text \<open>The text \<open>uart_write_hex\<close> builds in its buffer: \<open>0x\<close> and eight digits.\<close>

definition hex_digit :: "u32 \<Rightarrow> u8" where
  "hex_digit d = ascii ''0123456789abcdef'' ! unat d"

definition hex_text :: "u32 \<Rightarrow> u8 list" where
  "hex_text v = ascii ''0x'' @ map (\<lambda>i. hex_digit (drop_bit ((7 - i) * 4) v AND 0xF)) [0..<8]"

definition uart_write_hex :: "u32 \<Rightarrow> kernel \<Rightarrow> kernel" where
  "uart_write_hex v k = uart_puts (hex_text v) k"

text \<open>
  What \<open>stack_overflow_handler\<close> does before it stops for ever with interrupts masked; no value when
  the task's name is not terminated.
\<close>

definition stack_overflow_handler :: "tcb_ptr \<Rightarrow> kernel \<Rightarrow> kernel option" where
  "stack_overflow_handler t k = (let c = tcb_pool k t in do {
     let k = uart_puts (CRLF @ ascii ''[CREST] *** STACK OVERFLOW ***'' @ CRLF) k;
     let k = uart_puts (ascii ''  task     : '') k;
     k \<leftarrow> uart_write (tcb_name_addr k t) k;
     let k = uart_puts CRLF k;
     let k = uart_puts (ascii ''  sp       : '') k;
     let k = uart_write_hex (stack_pointer c) k;
     let k = uart_puts CRLF k;
     let k = uart_puts (ascii ''  base     : '') k;
     let k = uart_write_hex (stack_base c) k;
     let k = uart_puts CRLF k;
     let k = uart_puts (ascii ''  overflow : '') k;
     let k = uart_write_hex (stack_base c - stack_pointer c) k;
     let k = uart_puts (ascii '' bytes'' @ CRLF) k;
     let k = uart_puts (ascii ''  Halting.'' @ CRLF) k;
     Some (k\<lparr>primask := 1\<rparr>)
   })"

section \<open>Memory protection\<close>

definition MPU_CTRL_ENABLE :: u32 where [simp]: "MPU_CTRL_ENABLE = 1"
definition MPU_CTRL_PRIVDEFENA :: u32 where [simp]: "MPU_CTRL_PRIVDEFENA = 4"
definition MPU_AP_NO_ACCESS :: u32 where [simp]: "MPU_AP_NO_ACCESS = 0"
definition MPU_AP_PRIV_RW_USER_NO :: u32 where [simp]: "MPU_AP_PRIV_RW_USER_NO = 1"
definition MPU_AP_PRIV_RW_USER_RO :: u32 where [simp]: "MPU_AP_PRIV_RW_USER_RO = 2"
definition MPU_AP_PRIV_RW_USER_RW :: u32 where [simp]: "MPU_AP_PRIV_RW_USER_RW = 3"

text \<open>\<open>MPU->RNR = n; MPU->RBAR = base; MPU->RASR = attributes\<close>: RNR selects the region written.\<close>

definition mpu_program :: "u32 \<Rightarrow> u32 \<Rightarrow> u32 \<Rightarrow> kernel \<Rightarrow> kernel" where
  "mpu_program n rbar rasr k = (let m = mpu k; m = m\<lparr>mpu_rnr := n\<rparr>;
       m = m\<lparr>mpu_rbar := (mpu_rbar m)(mpu_rnr m := rbar)\<rparr>;
       m = m\<lparr>mpu_rasr := (mpu_rasr m)(mpu_rnr m := rasr)\<rparr>
     in k\<lparr>mpu := m\<rparr>)"

definition set_mpu_ctrl :: "u32 \<Rightarrow> kernel \<Rightarrow> kernel" where
  "set_mpu_ctrl v k = k\<lparr>mpu := (mpu k)\<lparr>mpu_ctrl := v\<rparr>\<rparr>"

text \<open>The argument is the TCB, or \<open>None\<close> for a null pointer.\<close>

definition port_mpu_configure_for_task :: "tcb_ptr option \<Rightarrow> kernel \<Rightarrow> kernel" where
  "port_mpu_configure_for_task tcb k = (case tcb of None \<Rightarrow> k | Some t \<Rightarrow>
     let c = tcb_pool k t; guard = PORT_STACK_GUARD_SIZE in
     if stack_base c = 0 \<or> stack_size c = 0 then k
     else if guard AND (guard - 1) \<noteq> 0 \<or> guard < 32 then k
     else let guard_base = stack_base c - guard;
              guard_base = guard_base AND NOT (guard - 1);
              (pm, k) = enter_critical k;
              old_ctrl = mpu_ctrl (mpu k);
              k = set_mpu_ctrl 0 k;
              k = mpu_program 0 0x08000000
                    (1 OR push_bit 1 18 OR push_bit 24 MPU_AP_PRIV_RW_USER_RO) k;
              k = mpu_program 1 0x20000000
                    (1 OR push_bit 1 16 OR push_bit 24 MPU_AP_PRIV_RW_USER_NO OR push_bit 28 1) k;
              stack_rbar = stack_base c AND NOT (stack_size c - 1);
              stack_size_field = of_nat (ctz32 (stack_size c)) - 1;
              k = mpu_program 2 stack_rbar
                    (1 OR push_bit 1 stack_size_field OR push_bit 24 MPU_AP_PRIV_RW_USER_RW OR push_bit 28 1) k;
              k = (if user_heap_start (ld k) < user_heap_end (ld k) then
                     let uh_size = user_heap_end (ld k) - user_heap_start (ld k);
                         uh_rbar = user_heap_start (ld k) AND NOT (uh_size - 1);
                         uh_size_field = of_nat (ctz32 uh_size) - 1
                     in mpu_program 3 uh_rbar
                          (1 OR push_bit 1 uh_size_field OR push_bit 24 MPU_AP_PRIV_RW_USER_RW OR push_bit 28 1) k
                   else k);
              guard_size_field = of_nat (ctz32 guard) - 1;
              k = mpu_program 7 guard_base
                    (1 OR push_bit 1 guard_size_field OR push_bit 24 MPU_AP_NO_ACCESS OR push_bit 28 1) k;
              k = set_mpu_ctrl (old_ctrl OR MPU_CTRL_ENABLE OR MPU_CTRL_PRIVDEFENA) k
          in exit_critical pm k)"

section \<open>Privilege\<close>

definition port_set_unprivileged :: "kernel \<Rightarrow> kernel" where
  "port_set_unprivileged k =
     (let k = (case scheduler_get_current k of None \<Rightarrow> k
        | Some cur \<Rightarrow> upd_tcb cur (\<lambda>c. c\<lparr>flags := flags c OR TASK_FLAG_USER\<rparr>) k)
      in k\<lparr>control := control k OR 1\<rparr>)"

definition port_is_privileged :: "kernel \<Rightarrow> bool" where
  "port_is_privileged k \<longleftrightarrow> control k AND 1 = 0"

section \<open>The context switch\<close>

datatype 'a outcome = Resume 'a kernel | Halted kernel

text \<open>
  \<open>port_switch_context\<close>; its result, the new stack pointer, is part of \<open>Resume\<close>.  No value when
  \<open>scheduler_get_next\<close> has none or the name printed on an overflow is not terminated.
\<close>

definition switch_to_next :: "u32 \<Rightarrow> kernel \<Rightarrow> u32 outcome option" where
  "switch_to_next old_sp k = (let cur = scheduler_get_current k in do {
     (next, k) \<leftarrow> scheduler_get_next k;
     case next of
       None \<Rightarrow> (case cur of
           Some c \<Rightarrow> (let k = upd_tcb c (\<lambda>x. x\<lparr>tstate := TASK_RUNNING\<rparr>) k
                     in Some (Resume (stack_pointer (tcb_pool k c)) k))
         | None \<Rightarrow> Some (Resume old_sp k))
     | Some n \<Rightarrow>
         let k = upd_tcb n (\<lambda>x. x\<lparr>tstate := TASK_RUNNING\<rparr>) k;
             k = port_mpu_configure_for_task (Some n) k;
             k = scheduler_set_current (Some n) k;
             k = k\<lparr>control := (if flags (tcb_pool k n) AND TASK_FLAG_USER \<noteq> 0 then 3 else 2)\<rparr>
         in Some (Resume (stack_pointer (tcb_pool k n)) k)
   })"

definition port_switch_context :: "u32 \<Rightarrow> kernel \<Rightarrow> u32 outcome option" where
  "port_switch_context old_sp k = (case scheduler_get_current k of
     None \<Rightarrow> switch_to_next old_sp k
   | Some cur \<Rightarrow>
       let k = upd_tcb cur (\<lambda>c. c\<lparr>stack_pointer := old_sp\<rparr>) k;
           k = upd_tcb cur (\<lambda>c. if tstate c = TASK_RUNNING then c\<lparr>tstate := TASK_READY\<rparr> else c) k
       in if stack_pointer (tcb_pool k cur) < stack_base (tcb_pool k cur)
          then do { k \<leftarrow> stack_overflow_handler cur k; Some (Halted k) }
          else switch_to_next old_sp k)"

end
