(* ===== verification/Mpu.thy ===== *)
theory Mpu
  imports Port
begin

text \<open>
  What the memory protection unit allows after \<open>port_mpu_configure_for_task\<close>.  The unit is read as
  the ARMv7-M architecture describes it: an enabled region of size field \<open>s\<close> matches the addresses
  that agree with its base above the low \<open>s + 1\<close> bits, the highest-numbered matching region decides,
  and an unprivileged access that matches none faults.
\<close>

section \<open>The architecture\<close>

definition rasr_size :: "u32 \<Rightarrow> nat" where
  "rasr_size r = unat (drop_bit 1 r AND 0x1F)"

definition rasr_ap :: "u32 \<Rightarrow> u32" where
  "rasr_ap r = drop_bit 24 r AND 7"

text \<open>Addresses that agree above the low \<open>n\<close> bits.\<close>

definition same_block :: "nat \<Rightarrow> u32 \<Rightarrow> u32 \<Rightarrow> bool" where
  "same_block n a b \<longleftrightarrow> drop_bit n a = drop_bit n b"

definition mpu_hits :: "mpu_regs \<Rightarrow> u32 \<Rightarrow> u32 \<Rightarrow> bool" where
  "mpu_hits m b r \<longleftrightarrow> bit (mpu_rasr m r) 0 \<and> same_block (rasr_size (mpu_rasr m r) + 1) (mpu_rbar m r) b"

definition mpu_permission :: "mpu_regs \<Rightarrow> u32 \<Rightarrow> u32 option" where
  "mpu_permission m b = map_option (\<lambda>r. rasr_ap (mpu_rasr m r)) (find (mpu_hits m b) [7, 6, 5, 4, 3, 2, 1, 0])"

definition user_may_write :: "mpu_regs \<Rightarrow> u32 \<Rightarrow> bool" where
  "user_may_write m b \<longleftrightarrow> \<not> bit (mpu_ctrl m) 0 \<or> mpu_permission m b = Some MPU_AP_PRIV_RW_USER_RW"

definition user_may_read :: "mpu_regs \<Rightarrow> u32 \<Rightarrow> bool" where
  "user_may_read m b \<longleftrightarrow> \<not> bit (mpu_ctrl m) 0 \<or>
     mpu_permission m b \<in> {Some MPU_AP_PRIV_RW_USER_RW, Some MPU_AP_PRIV_RW_USER_RO}"

section \<open>Fields and blocks\<close>

lemma rasr_fields:
  assumes "s < 32" "ap < 8" "xn < 2"
  defines "r \<equiv> 1 OR push_bit 1 s OR push_bit 24 ap OR push_bit 28 xn :: u32"
  shows "bit r 0" "drop_bit 1 r AND 0x1F = s" "rasr_ap r = ap"
proof -
  have small: "take_bit i x = x" if "unat x < 2 ^ i" for i and x :: u32
    using that by (simp add: word_unat_eq_iff unsigned_take_bit_eq take_bit_nat_eq_self)
  have t: "take_bit 5 s = s" "take_bit 3 ap = ap" "take_bit 1 xn = xn"
    using small [of s 5] small [of ap 3] small [of xn 1] assms(1-3) by (simp_all add: word_less_nat_alt)
  have s: "bit s n \<Longrightarrow> n < 5" "bit ap n \<Longrightarrow> n < 3" "bit xn n \<Longrightarrow> n < 1" for n
    using t by (metis bit_take_bit_iff)+
  show "bit r 0" by (simp add: r_def bit_simps)
  have "drop_bit 1 r AND mask 5 = s"
  proof (rule bit_word_eqI)
    fix n assume "n < LENGTH(32)"
    then show "bit (drop_bit 1 r AND mask 5) n \<longleftrightarrow> bit s n"
      using s(1) [of n] by (auto simp: r_def bit_simps mult.commute [of s 2])
  qed
  then show "drop_bit 1 r AND 0x1F = s" by (simp add: mask_eq_exp_minus_1)
  have "drop_bit 24 r AND mask 3 = ap"
  proof (rule bit_word_eqI)
    fix n assume "n < LENGTH(32)"
    then show "bit (drop_bit 24 r AND mask 3) n \<longleftrightarrow> bit ap n"
      using s(1) [of "23 + n"] s(2) [of n] by (auto simp: r_def bit_simps mult.commute [of s 2])
  qed
  then show "rasr_ap r = ap" by (simp add: rasr_ap_def mask_eq_exp_minus_1)
qed

lemma ctz32_power: "n < 32 \<Longrightarrow> ctz32 (2 ^ n) = n"
proof -
  assume n: "n < 32"
  have "[0..<32] = [0..<n] @ [n..<32]" using upt_add_eq_append [of 0 n "32 - n"] n by simp
  then have "[0..<32] = [0..<n] @ n # [Suc n..<32]" using n by (simp only: upt_conv_Cons)
  moreover have "takeWhile (\<lambda>i. \<not> bit (2 ^ n :: u32) i) ([0..<n] @ n # [Suc n..<32]) = [0..<n]"
    using n by (subst takeWhile_append2) (auto simp: bit_simps)
  ultimately show ?thesis by (simp add: ctz32_def)
qed

lemma same_block_align [simp]: "same_block n (a AND NOT (2 ^ n - 1)) b = same_block n a b"
proof -
  have "drop_bit n (a AND NOT (mask n)) = drop_bit n a"
    by (rule bit_word_eqI) (auto simp: bit_simps dest: bit_imp_le_length)
  then show ?thesis by (simp add: same_block_def mask_eq_exp_minus_1)
qed

lemma same_block_refl [simp]: "same_block n a a"
  by (simp add: same_block_def)

text \<open>Blocks read as intervals.\<close>

lemma same_block_nat: "same_block n a b \<longleftrightarrow> unat a div 2 ^ n = unat b div 2 ^ n"
  by (simp add: same_block_def word_unat_eq_iff unat_drop_bit_eq drop_bit_eq_div [symmetric])

lemma same_block_aligned:
  assumes "2 ^ n dvd unat a"
  shows "same_block n a b \<longleftrightarrow> unat a \<le> unat b \<and> unat b < unat a + 2 ^ n"
proof -
  obtain c where c: "unat a = 2 ^ n * c" using assms by (elim dvdE)
  have "unat b div 2 ^ n = c \<longleftrightarrow> 2 ^ n * c \<le> unat b \<and> unat b < 2 ^ n * Suc c"
  proof
    assume "unat b div 2 ^ n = c"
    then show "2 ^ n * c \<le> unat b \<and> unat b < 2 ^ n * Suc c"
      using times_div_less_eq_dividend [of "2 ^ n" "unat b"] dividend_less_times_div [of "2 ^ n" "unat b"] by simp
  next
    assume "2 ^ n * c \<le> unat b \<and> unat b < 2 ^ n * Suc c"
    then show "unat b div 2 ^ n = c" by (intro div_nat_eqI) (simp_all add: mult.commute)
  qed
  then show ?thesis by (auto simp: same_block_nat c)
qed

section \<open>The unit after \<open>port_mpu_configure_for_task\<close>\<close>

text \<open>
  A task whose stack the unit can describe: a power of two of bytes, aligned to its size; and a user
  heap that is a power of two of bytes.
\<close>

definition mpu_describable :: "tcb \<Rightarrow> nat \<Rightarrow> bool" where
  "mpu_describable c n \<longleftrightarrow> 5 \<le> n \<and> n < 32 \<and> stack_size c = 2 ^ n \<and> stack_base c \<noteq> 0"

definition guard_start :: "u32 \<Rightarrow> u32" where
  "guard_start base = (base - PORT_STACK_GUARD_SIZE) AND NOT (PORT_STACK_GUARD_SIZE - 1)"

definition mpu_attr :: "u32 \<Rightarrow> u32 \<Rightarrow> u32 \<Rightarrow> u32" where
  "mpu_attr s ap xn = 1 OR push_bit 1 s OR push_bit 24 ap OR push_bit 28 xn"

lemma mpu_attr_fields:
  "s < 32 \<Longrightarrow> ap < 8 \<Longrightarrow> xn < 2 \<Longrightarrow> bit (mpu_attr s ap xn) 0"
  "s < 32 \<Longrightarrow> ap < 8 \<Longrightarrow> xn < 2 \<Longrightarrow> rasr_size (mpu_attr s ap xn) = unat s"
  "s < 32 \<Longrightarrow> ap < 8 \<Longrightarrow> xn < 2 \<Longrightarrow> rasr_ap (mpu_attr s ap xn) = ap"
  using rasr_fields [of s ap xn] by (simp_all only: mpu_attr_def rasr_size_def)

lemma configure_eq:
  assumes "mpu_describable (tcb_pool k t) n" "user_heap_end (ld k) - user_heap_start (ld k) = 2 ^ u" "u < 32"
    "user_heap_start (ld k) < user_heap_end (ld k)"
  defines "m \<equiv> mpu (port_mpu_configure_for_task (Some t) k)"
  shows "mpu_rasr m 7 = mpu_attr 7 0 1" "mpu_rbar m 7 = guard_start (stack_base (tcb_pool k t))"
    "mpu_rasr m 3 = mpu_attr (of_nat u - 1) 3 1" "mpu_rbar m 3 = user_heap_start (ld k) AND NOT (2 ^ u - 1)"
    "mpu_rasr m 2 = mpu_attr (of_nat n - 1) 3 1" "mpu_rbar m 2 = stack_base (tcb_pool k t) AND NOT (2 ^ n - 1)"
    "mpu_rasr m 1 = mpu_attr 16 1 1" "mpu_rbar m 1 = 0x20000000"
    "mpu_rasr m 0 = mpu_attr 18 2 0" "mpu_rbar m 0 = 0x08000000"
    "r \<in> {4, 5, 6} \<Longrightarrow> mpu_rasr m r = mpu_rasr (mpu k) r"
    "mpu_ctrl m = mpu_ctrl (mpu k) OR 5"
    "port_mpu_configure_for_task (Some t) k = k\<lparr>mpu := m\<rparr>"
proof -
  have n: "n < 32" "stack_size (tcb_pool k t) = 2 ^ n" "stack_base (tcb_pool k t) \<noteq> 0"
    using assms(1) by (simp_all add: mpu_describable_def)
  then have nz: "stack_size (tcb_pool k t) \<noteq> 0" by simp
  have g: "ctz32 256 = 8" using ctz32_power [of 8] by simp
  note defs = port_mpu_configure_for_task_def Let_def n g ctz32_power assms(2-4) mpu_program_def set_mpu_ctrl_def
    enter_critical_def exit_critical_def mpu_attr_def guard_start_def
  let ?base = "stack_base (tcb_pool k t)" and ?s = "user_heap_start (ld k)"
  let ?m = "(mpu k)\<lparr>mpu_ctrl := mpu_ctrl (mpu k) OR 5, mpu_rnr := 7,
     mpu_rbar := (mpu_rbar (mpu k))(0 := 0x08000000, 1 := 0x20000000, 2 := ?base AND NOT (2 ^ n - 1),
       3 := ?s AND NOT (2 ^ u - 1), 7 := guard_start ?base),
     mpu_rasr := (mpu_rasr (mpu k))(0 := mpu_attr 18 2 0, 1 := mpu_attr 16 1 1, 2 := mpu_attr (of_nat n - 1) 3 1,
       3 := mpu_attr (of_nat u - 1) 3 1, 7 := mpu_attr 7 0 1)\<rparr>"
  have e: "port_mpu_configure_for_task (Some t) k = k\<lparr>mpu := ?m\<rparr>"
    using nz by (simp add: defs)
  have "m = ?m" by (simp only: m_def e) simp
  then show "mpu_rasr m 7 = mpu_attr 7 0 1" "mpu_rbar m 7 = guard_start ?base"
    "mpu_rasr m 3 = mpu_attr (of_nat u - 1) 3 1" "mpu_rbar m 3 = ?s AND NOT (2 ^ u - 1)"
    "mpu_rasr m 2 = mpu_attr (of_nat n - 1) 3 1" "mpu_rbar m 2 = ?base AND NOT (2 ^ n - 1)"
    "mpu_rasr m 1 = mpu_attr 16 1 1" "mpu_rbar m 1 = 0x20000000"
    "mpu_rasr m 0 = mpu_attr 18 2 0" "mpu_rbar m 0 = 0x08000000"
    "r \<in> {4, 5, 6} \<Longrightarrow> mpu_rasr m r = mpu_rasr (mpu k) r"
    "mpu_ctrl m = mpu_ctrl (mpu k) OR 5"
    "port_mpu_configure_for_task (Some t) k = k\<lparr>mpu := m\<rparr>"
    using e by auto
qed

text \<open>The permission of an address of RAM.\<close>

lemma mpu_ram_permission:
  assumes t: "mpu_describable (tcb_pool k t) n" and u: "user_heap_end (ld k) - user_heap_start (ld k) = 2 ^ u"
    "5 \<le> u" "u < 32" "user_heap_start (ld k) < user_heap_end (ld k)"
    and off: "\<And>r. r \<in> {4, 5, 6} \<Longrightarrow> \<not> bit (mpu_rasr (mpu k) r) 0" and b: "same_block 17 0x20000000 b"
  defines "m \<equiv> mpu (port_mpu_configure_for_task (Some t) k)"
  shows "mpu_permission m b = Some
    (if same_block 8 (guard_start (stack_base (tcb_pool k t))) b then MPU_AP_NO_ACCESS
     else if same_block u (user_heap_start (ld k)) b \<or> same_block n (stack_base (tcb_pool k t)) b
     then MPU_AP_PRIV_RW_USER_RW else MPU_AP_PRIV_RW_USER_NO)"
    "bit (mpu_ctrl m) 0"
proof -
  note eq = configure_eq [OF t u(1,3,4), folded m_def]
  have "5 \<le> n" "n < 32" using t by (simp_all add: mpu_describable_def)
  then have su: "of_nat u - 1 = (of_nat (u - 1) :: u32)" "of_nat n - 1 = (of_nat (n - 1) :: u32)"
    using u(2) by (simp_all add: of_nat_diff)
  have sz: "unat (of_nat (u - 1) :: u32) = u - 1" "unat (of_nat (n - 1) :: u32) = n - 1"
    using u(3) \<open>n < 32\<close> by (simp_all add: unat_of_nat32)
  have lt: "(of_nat (u - 1) :: u32) < 32" "(of_nat (n - 1) :: u32) < 32"
    using u(3) \<open>n < 32\<close> by (auto simp: word_less_nat_alt sz simp del: One_nat_def)
  have rest: "mpu_hits m b 4 = False" "mpu_hits m b 5 = False" "mpu_hits m b 6 = False"
    using off eq(11) by (simp_all add: mpu_hits_def)
  have h7: "mpu_hits m b 7 = same_block 8 (guard_start (stack_base (tcb_pool k t))) b"
    by (simp add: mpu_hits_def eq(1,2) mpu_attr_fields)
  have a: "mpu_rasr m 3 = mpu_attr (of_nat (u - 1)) 3 1" "mpu_rasr m 2 = mpu_attr (of_nat (n - 1)) 3 1"
    by (simp_all only: eq(3,5) su)
  have f: "bit (mpu_attr (of_nat (u - 1)) 3 1) 0" "rasr_size (mpu_attr (of_nat (u - 1)) 3 1) = u - 1"
      "rasr_ap (mpu_attr (of_nat (u - 1)) 3 1) = 3"
    "bit (mpu_attr (of_nat (n - 1)) 3 1) 0" "rasr_size (mpu_attr (of_nat (n - 1)) 3 1) = n - 1"
      "rasr_ap (mpu_attr (of_nat (n - 1)) 3 1) = 3"
    using mpu_attr_fields [OF lt(1), of 3 1] mpu_attr_fields [OF lt(2), of 3 1] sz by auto
  have pred: "u - 1 + 1 = u" "n - 1 + 1 = n" using u(2) \<open>5 \<le> n\<close> by simp_all
  have h3: "mpu_hits m b 3 = same_block u (user_heap_start (ld k)) b"
    by (simp only: mpu_hits_def eq(4) a f pred same_block_align simp_thms)
  have h2: "mpu_hits m b 2 = same_block n (stack_base (tcb_pool k t)) b"
    by (simp only: mpu_hits_def eq(6) a f pred same_block_align simp_thms)
  have h1: "mpu_hits m b 1" using b by (simp add: mpu_hits_def eq(7,8) mpu_attr_fields)
  show "mpu_permission m b = Some
    (if same_block 8 (guard_start (stack_base (tcb_pool k t))) b then MPU_AP_NO_ACCESS
     else if same_block u (user_heap_start (ld k)) b \<or> same_block n (stack_base (tcb_pool k t)) b
     then MPU_AP_PRIV_RW_USER_RW else MPU_AP_PRIV_RW_USER_NO)"
    using h1 by (simp add: mpu_permission_def rest h7 h3 h2 eq(1,7) a f mpu_attr_fields del: One_nat_def)
  have "bit (5 :: u32) 0" by simp
  then show "bit (mpu_ctrl m) 0" by (simp add: eq(12) bit_or_iff)
qed

text \<open>
  Isolation.  After the unit is set up for a task, unprivileged code may access a byte of RAM exactly
  when it is outside the guard block below the stack and in the task's stack block or the block of the
  user heap; the unit is on.
\<close>

theorem mpu_isolates:
  assumes "mpu_describable (tcb_pool k t) n" "2 ^ n dvd unat (stack_base (tcb_pool k t))"
    and "user_heap_end (ld k) - user_heap_start (ld k) = 2 ^ u" "5 \<le> u" "u < 32" "user_heap_start (ld k) < user_heap_end (ld k)"
    and "\<not> bit (mpu_rasr (mpu k) 4) 0" "\<not> bit (mpu_rasr (mpu k) 5) 0" "\<not> bit (mpu_rasr (mpu k) 6) 0"
    and "0x20000000 \<le> unat b" "unat b < 0x20020000"
  defines "m \<equiv> mpu (port_mpu_configure_for_task (Some t) k)" and "base \<equiv> stack_base (tcb_pool k t)"
  shows "user_may_write m b = user_may_read m b \<and>
    (user_may_write m b \<longleftrightarrow> \<not> same_block 8 (guard_start base) b \<and>
       (same_block u (user_heap_start (ld k)) b \<or> unat base \<le> unat b \<and> unat b < unat base + 2 ^ n))"
proof -
  have "same_block 17 0x20000000 b" using assms(10,11) by (subst same_block_aligned) simp_all
  moreover have "\<not> bit (mpu_rasr (mpu k) r) 0" if "r \<in> {4, 5, 6}" for r using that assms(7-9) by auto
  ultimately have "mpu_permission m b = Some
    (if same_block 8 (guard_start base) b then MPU_AP_NO_ACCESS
     else if same_block u (user_heap_start (ld k)) b \<or> same_block n base b
     then MPU_AP_PRIV_RW_USER_RW else MPU_AP_PRIV_RW_USER_NO)" "bit (mpu_ctrl m) 0"
    using mpu_ram_permission [OF assms(1,3-6)] unfolding m_def base_def by blast+
  then show ?thesis
    using same_block_aligned [OF assms(2)] by (auto simp: user_may_write_def user_may_read_def base_def)
qed

text \<open>A task with a stack of 512 bytes at \<open>0x20009000\<close>, and the user heap of 16 KB at \<open>0x20000C00\<close>.\<close>

definition demo_mpu :: kernel where
  "demo_mpu = boot_kernel \<lparr>heap_start = 0x20004C00, heap_end = 0x2001F000, user_heap_start = 0x20000C00,
     user_heap_end = 0x20004C00, tcb_pool_addr = 0x20000100\<rparr> (\<lambda>_. 0)
     \<lparr>tcb_pool := (\<lambda>_. zero_tcb)(0 := zero_tcb\<lparr>stack_base := 0x20009000, stack_size := 512\<rparr>)\<rparr>"

lemma demo_mpu_simps:
  "tcb_pool demo_mpu 0 = zero_tcb\<lparr>stack_base := 0x20009000, stack_size := 512\<rparr>"
  "user_heap_start (ld demo_mpu) = 0x20000C00" "user_heap_end (ld demo_mpu) = 0x20004C00"
  "mpu_rasr (mpu demo_mpu) r = 0" "tcb_pool_addr (ld demo_mpu) = 0x20000100"
  by (simp_all add: demo_mpu_def boot_kernel_def)

theorem mpu_isolates_witness:
  "user_may_write (mpu (port_mpu_configure_for_task (Some 0) demo_mpu)) 0x20009100 \<and>
   \<not> user_may_write (mpu (port_mpu_configure_for_task (Some 0) demo_mpu)) 0x20008F00 \<and>
   \<not> user_may_write (mpu (port_mpu_configure_for_task (Some 0) demo_mpu)) 0x2000A000"
proof -
  have "mpu_describable (tcb_pool demo_mpu 0) 9" by (simp add: mpu_describable_def demo_mpu_simps)
  note iso = mpu_isolates [OF this, of 14, unfolded demo_mpu_simps, THEN conjunct2]
  have g: "guard_start 0x20009000 = 0x20008F00" by (simp add: guard_start_def)
  show ?thesis
    using iso [of "0x20009100"] iso [of "0x20008F00"] iso [of "0x2000A000"]
    by (simp add: g same_block_nat)
qed

lemma guard_block: "same_block 8 (guard_start base) b = same_block 8 (base - 256) b"
  using same_block_align [of 8 "base - 256" b] by (simp add: guard_start_def)

text \<open>
  C31. The layout of \<open>kernel.ld\<close> puts the user heap of 16 KB right behind the kernel's static data, not at a
  multiple of its size; masking its base then opens the first 16 KB of RAM, the kernel's data included, to
  unprivileged code, whichever task runs, and closes the part of the user heap above them.
\<close>

theorem mpu_exposes_kernel_data:
  assumes "mpu_describable (tcb_pool k t) n" "2 ^ n dvd unat (stack_base (tcb_pool k t))"
    and "0x20000000 < unat (user_heap_start (ld k))" "unat (user_heap_start (ld k)) < 0x20004000"
    and "user_heap_end (ld k) = user_heap_start (ld k) + 0x4000"
    and "unat (user_heap_end (ld k)) + 512 \<le> unat (stack_base (tcb_pool k t))"
    and "\<not> bit (mpu_rasr (mpu k) 4) 0" "\<not> bit (mpu_rasr (mpu k) 5) 0" "\<not> bit (mpu_rasr (mpu k) 6) 0"
    and "0x20000000 \<le> unat b" "unat b < unat (user_heap_end (ld k))"
  shows "user_may_write (mpu (port_mpu_configure_for_task (Some t) k)) b \<longleftrightarrow> unat b < 0x20004000"
proof -
  let ?s = "user_heap_start (ld k)" and ?base = "stack_base (tcb_pool k t)"
  have e: "unat (user_heap_end (ld k)) = unat ?s + 0x4000"
    using assms(4) by (simp add: assms(5) word_nat)
  have "same_block 14 ?s b \<longleftrightarrow> unat b < 0x20004000"
  proof -
    have "unat ?s div 2 ^ 14 = 0x8000" using assms(3,4) by (intro div_nat_eqI) simp_all
    moreover have "unat b div 2 ^ 14 = 0x8000 \<longleftrightarrow> unat b < 0x20004000"
      using assms(10) dividend_less_times_div [of "2 ^ 14" "unat b"] by (auto intro!: div_nat_eqI)
    ultimately show ?thesis by (simp add: same_block_nat)
  qed
  moreover have "\<not> same_block 8 (guard_start ?base) b"
  proof -
    have "unat (?base - 256) = unat ?base - 256" using assms(6) by (simp add: word_nat word_le_nat_alt)
    then have "unat b < unat (?base - 256) - 255" using assms(6,11) by simp
    then have "unat (?base - 256) div 2 ^ 8 \<noteq> unat b div 2 ^ 8"
      using dividend_less_times_div [of "2 ^ 8" "unat b"] times_div_less_eq_dividend [of "2 ^ 8" "unat (?base - 256)"] by auto
    then show ?thesis unfolding guard_block by (simp add: same_block_nat)
  qed
  moreover have "unat b < 0x20020000" using e assms(4,11) by simp
  moreover have "user_heap_end (ld k) - ?s = 2 ^ 14" "?s < user_heap_end (ld k)"
    using e assms(5) by (simp_all add: word_less_nat_alt)
  moreover have "same_block 17 0x20000000 b" using assms(10) \<open>unat b < 0x20020000\<close> by (subst same_block_aligned) simp_all
  moreover have "\<not> bit (mpu_rasr (mpu k) r) 0" if "r \<in> {4, 5, 6}" for r using that assms(7-9) by auto
  moreover have "\<not> same_block n ?base b" using assms(6,11) same_block_aligned [OF assms(2)] by simp
  ultimately show ?thesis
    using mpu_ram_permission [OF assms(1), of 14 b] by (simp add: user_may_write_def)
qed

theorem mpu_exposes_kernel_data_witness:
  "user_may_write (mpu (port_mpu_configure_for_task (Some 0) demo_mpu)) (tcb_pool_addr (ld demo_mpu)) \<and>
   \<not> user_may_write (mpu (port_mpu_configure_for_task (Some 0) demo_mpu)) (user_heap_end (ld demo_mpu) - 1)"
proof -
  have "mpu_describable (tcb_pool demo_mpu 0) 9" by (simp add: mpu_describable_def demo_mpu_simps)
  note ex = mpu_exposes_kernel_data [OF this, unfolded demo_mpu_simps]
  show ?thesis
    using ex [of "0x20000100"] ex [of "0x20004BFF"] by (simp add: demo_mpu_simps)
qed

end
