(* ===== verification/Context.thy ===== *)
theory Context
  imports Port Task_Create
begin

text \<open>
  The switch of context as a whole, \<open>arch/arm/cortex-m4/context_switch.c\<close>, and the start of the first
  task, \<open>port_start_first_task\<close> in \<open>port.c\<close>: which task runs next, that its registers come back as they
  were, and the state in which the first task is entered.
\<close>

section \<open>The code\<close>

text \<open>The registers of the thread the handlers touch.\<close>

record cpu =
  R0 :: u32
  R1 :: u32
  R2 :: u32
  R3 :: u32
  R12 :: u32
  LR :: u32
  PC :: u32
  R4_11 :: "u32 list"
  PSP :: u32

text \<open>\<open>STMDB\<close> of the registers \<open>ws\<close>, whose lowest address is \<open>a\<close>.\<close>

definition store_words :: "u32 list \<Rightarrow> u32 \<Rightarrow> memory \<Rightarrow> memory" where
  "store_words ws a m = fold (\<lambda>i m. store32 m (a + of_nat (4 * i)) (ws ! i)) [0..<length ws] m"

text \<open>
  The wrapper saves R4 to R11 below the process stack pointer, and loads them from the stack pointer
  \<open>port_switch_context\<close> returns; the other registers are in the frame the processor pushes and pops.
\<close>

definition PendSV_Handler :: "cpu \<Rightarrow> kernel \<Rightarrow> cpu outcome option" where
  "PendSV_Handler c k = (let r0 = PSP c - 32; k = k\<lparr>mem := store_words (R4_11 c) r0 (mem k)\<rparr> in do {
     s \<leftarrow> port_switch_context r0 k;
     Some (case s of
         Resume r0 k \<Rightarrow> Resume (c\<lparr>R4_11 := words_at (mem k) r0 8, PSP := r0 + 32\<rparr>) k
       | Halted k \<Rightarrow> Halted k)
   })"

record systick =
  SYST_CSR :: u32
  SYST_RVR :: u32
  SYST_CVR :: u32

definition systick_init :: "systick \<Rightarrow> systick" where
  "systick_init s = s\<lparr>SYST_RVR := 16000 - 1, SYST_CVR := 0,
     SYST_CSR := push_bit 2 1 OR push_bit 1 1 OR push_bit 0 1\<rparr>"

text \<open>
  The first task is entered by loading its registers from its stack; the last word popped is the PC.
  There is no value when no task is READY: the function then loops for ever.
\<close>

definition enter_first_task :: "u32 \<Rightarrow> memory \<Rightarrow> cpu" where
  "enter_first_task sp m = \<lparr>
     R0 = load32 m (sp + 32), R1 = load32 m (sp + 36), R2 = load32 m (sp + 40), R3 = load32 m (sp + 44),
     R12 = load32 m (sp + 48), LR = load32 m (sp + 52), PC = load32 m (sp + 56),
     R4_11 = words_at m sp 8, PSP = sp + 60\<rparr>"

definition port_start_first_task :: "systick \<Rightarrow> kernel \<Rightarrow> (systick \<times> cpu \<times> kernel) option" where
  "port_start_first_task st k = do {
     (first, k) \<leftarrow> (case scheduler_get_current k of
         Some t \<Rightarrow> Some (Some t, k)
       | None \<Rightarrow> scheduler_get_next k);
     t \<leftarrow> first;
     let k = port_mpu_configure_for_task (Some t) k;
     let k = scheduler_set_current (Some t) k;
     let k = upd_tcb t (\<lambda>c. c\<lparr>tstate := TASK_RUNNING\<rparr>) k;
     let st = systick_init st;
     let sp = stack_pointer (tcb_pool k t);
     let k = k\<lparr>control := 2\<rparr>;
     let k = k\<lparr>primask := 0\<rparr>;
     Some (st, enter_first_task sp (mem k), k)
   }"

section \<open>Saving and loading words\<close>

lemma in_region_add:
  assumes "x + n \<le> 4294967296" "x < 4294967296"
  shows "b \<in> region (a + of_nat x) n \<longleftrightarrow> x \<le> unat (b - a) \<and> unat (b - a) < x + n"
proof -
  have "b \<in> region (a + of_nat x) n \<longleftrightarrow> (b - a) \<in> region (of_nat x) n"
    by (simp add: region_def diff_diff_eq)
  then show ?thesis using region_of_nat [OF assms] by blast
qed

lemma store_words_spec:
  assumes "4 * length ws \<le> 4294967296"
  shows "words_at (store_words ws a m) a (length ws) = ws"
    "b \<notin> region a (4 * length ws) \<Longrightarrow> store_words ws a m b = m b"
proof -
  let ?f = "\<lambda>i m. store32 m (a + of_nat (4 * i)) (ws ! i)"
  have "n \<le> length ws \<Longrightarrow> words_at (fold ?f [0..<n] m) a n = take n ws \<and>
      (\<forall>b. b \<notin> region a (4 * n) \<longrightarrow> fold ?f [0..<n] m b = m b)" for n
  proof (induction n)
    case 0
    then show ?case by (simp add: words_at_def)
  next
    case (Suc n)
    let ?m = "fold ?f [0..<n] m" and ?a = "a + of_nat (4 * n) :: u32"
    have IH: "words_at ?m a n = take n ws" "\<forall>b. b \<notin> region a (4 * n) \<longrightarrow> ?m b = m b" using Suc by simp_all
    have split: "region a (4 * n + 4) = region a (4 * n) \<union> region ?a 4"
      using Suc.prems assms by (intro region_append) simp
    have "region a (4 * n) \<inter> region ?a 4 = {}"
      using Suc.prems assms in_region_add [of "4 * n" 4 _ a] by (auto simp: region_def simp del: of_nat_mult)
    then have "words_at (store32 ?m ?a (ws ! n)) a n = words_at ?m a n"
      using Suc.prems assms by (intro words_at_cong store32_other) auto
    moreover have "words_at (store32 ?m ?a (ws ! n)) ?a 1 = [ws ! n]" by (simp add: words_at_def)
    ultimately have "words_at (store32 ?m ?a (ws ! n)) a (n + 1) = take n ws @ [ws ! n]"
      by (simp only: words_at_append IH)
    then show ?case
      using split IH(2) Suc.prems by (simp add: store32_other take_Suc_conv_app_nth add.commute)
  qed
  from this [of "length ws"]
  show "words_at (store_words ws a m) a (length ws) = ws"
    "b \<notin> region a (4 * length ws) \<Longrightarrow> store_words ws a m b = m b"
    by (simp_all add: store_words_def)
qed

section \<open>The choice of the next task\<close>

definition only_mpu :: "kernel \<Rightarrow> kernel \<Rightarrow> bool" where
  "only_mpu k k' \<longleftrightarrow> (\<exists>m. k' = k\<lparr>mpu := m\<rparr>)"

lemma only_mpu_steps [intro!, simp]:
  "only_mpu k k" "only_mpu k k' \<Longrightarrow> only_mpu k (mpu_program n a b k')" "only_mpu k k' \<Longrightarrow> only_mpu k (set_mpu_ctrl v k')"
proof -
  have "k = k\<lparr>mpu := mpu k\<rparr>" by simp
  then show "only_mpu k k" unfolding only_mpu_def by blast
qed (auto simp: only_mpu_def mpu_program_def set_mpu_ctrl_def Let_def)

lemma only_mpu_critical:
  assumes "only_mpu (k\<lparr>primask := 1\<rparr>) k'" shows "\<exists>m. exit_critical (primask k) k' = k\<lparr>mpu := m\<rparr>"
proof -
  obtain m where m: "k' = k\<lparr>primask := 1, mpu := m\<rparr>" using assms unfolding only_mpu_def by blast
  have "exit_critical (primask k) k' = k\<lparr>mpu := m\<rparr>" by (simp add: m exit_critical_def)
  then show ?thesis by blast
qed

lemma configure_frame: "\<exists>m. port_mpu_configure_for_task x k = k\<lparr>mpu := m\<rparr>"
proof -
  have same: "\<exists>m. k = k\<lparr>mpu := m\<rparr>" by (intro exI [of _ "mpu k"]) simp
  show ?thesis
    unfolding port_mpu_configure_for_task_def Let_def enter_critical_def
    by (auto intro: same intro!: only_mpu_critical split: option.split)
qed

text \<open>The state when \<open>port_switch_context\<close> has saved the running task.\<close>

definition switched_out :: "tcb_ptr \<Rightarrow> u32 \<Rightarrow> kernel \<Rightarrow> kernel" where
  "switched_out c sp k = upd_tcb c (\<lambda>x. x\<lparr>stack_pointer := sp,
     tstate := (if tstate x = TASK_RUNNING then TASK_READY else tstate x)\<rparr>) k"

lemma mpu_step_fields [simp]:
  "mpu (mpu_program n a b k) = (mpu k)\<lparr>mpu_rnr := n, mpu_rbar := (mpu_rbar (mpu k))(n := a),
     mpu_rasr := (mpu_rasr (mpu k))(n := b)\<rparr>"
  "ld (mpu_program n a b k) = ld k"
  "mpu (set_mpu_ctrl v k) = (mpu k)\<lparr>mpu_ctrl := v\<rparr>" "ld (set_mpu_ctrl v k) = ld k"
  by (simp_all add: mpu_program_def set_mpu_ctrl_def Let_def)

lemma configure_cong:
  assumes "stack_base (tcb_pool k' t) = stack_base (tcb_pool k t)" "stack_size (tcb_pool k' t) = stack_size (tcb_pool k t)"
    "ld k' = ld k" "mpu k' = mpu k"
  shows "mpu (port_mpu_configure_for_task (Some t) k') = mpu (port_mpu_configure_for_task (Some t) k)"
  unfolding port_mpu_configure_for_task_def Let_def enter_critical_def exit_critical_def
  by (simp add: assms)

lemma switched_out_simps [simp]:
  "task_list (switched_out c sp k) = task_list k" "rr_current (switched_out c sp k) = rr_current k"
  "g_priority_mask (switched_out c sp k) = g_priority_mask k" "current_task (switched_out c sp k) = current_task k"
  "mem (switched_out c sp k) = mem k" "ld (switched_out c sp k) = ld k" "mpu (switched_out c sp k) = mpu k"
  "tcb_pool (switched_out c sp k) = (tcb_pool k)(c := (tcb_pool k c)\<lparr>stack_pointer := sp,
     tstate := (if tstate (tcb_pool k c) = TASK_RUNNING then TASK_READY else tstate (tcb_pool k c))\<rparr>)"
  by (simp_all add: switched_out_def upd_tcb_def)

lemma switched_out_wf: "sched_wf L k \<Longrightarrow> sched_wf L (switched_out c sp k)"
  by (subst sched_wf_cong [of _ k]) simp_all

lemma port_switch_out:
  assumes "current_task k = Some c"
  shows "port_switch_context sp k =
    (if sp < stack_base (tcb_pool k c) then do { k \<leftarrow> stack_overflow_handler c (switched_out c sp k); Some (Halted k) }
     else switch_to_next sp (switched_out c sp k))"
proof -
  have "upd_tcb c (\<lambda>x. if tstate x = TASK_RUNNING then x\<lparr>tstate := TASK_READY\<rparr> else x)
      (upd_tcb c (\<lambda>x. x\<lparr>stack_pointer := sp\<rparr>) k) = switched_out c sp k"
    by (simp add: switched_out_def upd_tcb_def)
  then show ?thesis
    using assms by (simp add: port_switch_context_def scheduler_get_current_def Let_def)
qed

text \<open>Both outcomes of the switch when the stack has not overflowed.\<close>

lemma port_switch_cases:
  assumes wf: "sched_wf L k" and cur: "current_task k = Some c" and ok: "stack_base (tcb_pool k c) \<le> sp"
  defines "k0 \<equiv> switched_out c sp k"
  obtains (switch) t pr k' where "top_ready L k0 pr" "t \<in> set (L pr)" "ready k0 t"
      "find (ready k0) (rr_ring L k0 pr) = Some t"
      "port_switch_context sp k = Some (Resume (stack_pointer (tcb_pool k0 t)) k')" "sched_wf L k'"
      "k' = k0\<lparr>rr_current := (rr_current k0)(pr := rr_current k' pr), current_task := Some t,
         tcb_pool := (tcb_pool k0)(t := (tcb_pool k0 t)\<lparr>tstate := TASK_RUNNING\<rparr>),
         mpu := mpu (port_mpu_configure_for_task (Some t) k0),
         control := (if flags (tcb_pool k0 t) AND TASK_FLAG_USER \<noteq> 0 then 3 else 2)\<rparr>"
      "rr_ring L k' pr = tl (dropWhile (Not \<circ> ready k0) (rr_ring L k0 pr)) @ takeWhile (Not \<circ> ready k0) (rr_ring L k0 pr) @ [t]"
  | (stay) "\<forall>pr. \<forall>u \<in> set (L pr). \<not> ready k0 u"
      "port_switch_context sp k = Some (Resume sp (upd_tcb c (\<lambda>x. x\<lparr>tstate := TASK_RUNNING\<rparr>) k0))"
      "sched_wf L (upd_tcb c (\<lambda>x. x\<lparr>tstate := TASK_RUNNING\<rparr>) k0)"
proof -
  have go: "port_switch_context sp k = switch_to_next sp k0"
    using leD [OF ok] by (simp add: port_switch_out [OF cur] k0_def)
  have wf0: "sched_wf L k0" using wf by (simp add: k0_def switched_out_wf)
  have cur0: "scheduler_get_current k0 = Some c" using cur by (simp add: scheduler_get_current_def k0_def)
  have sp0: "stack_pointer (tcb_pool k0 c) = sp" by (simp add: k0_def)
  show thesis
  proof (cases "\<exists>pr. top_ready L k0 pr")
    case True
    then obtain pr where top: "top_ready L k0 pr" by blast
    obtain as t bs k1 where r: "scheduler_get_next k0 = Some (Some t, k1)" "rr_ring L k0 pr = as @ t # bs"
      "ready k0 t" "\<forall>u \<in> set as. \<not> ready k0 u" "rr_ring L k1 pr = bs @ as @ [t]" "sched_wf L k1"
      "k1 = k0\<lparr>rr_current := (rr_current k0)(pr := rr_current k1 pr)\<rparr>"
      by (rule scheduler_get_next_some [OF wf0 top])
    let ?k2 = "upd_tcb t (\<lambda>x. x\<lparr>tstate := TASK_RUNNING\<rparr>) k1"
    obtain m where m: "port_mpu_configure_for_task (Some t) ?k2 = ?k2\<lparr>mpu := m\<rparr>" using configure_frame by blast
    have fields: "tcb_pool k1 = tcb_pool k0" "ld k1 = ld k0" "mpu k1 = mpu k0"
      using arg_cong [OF r(7), of tcb_pool] arg_cong [OF r(7), of ld] arg_cong [OF r(7), of mpu] by simp_all
    have "mpu (port_mpu_configure_for_task (Some t) ?k2) = mpu (port_mpu_configure_for_task (Some t) k0)"
      by (rule configure_cong) (simp_all add: upd_tcb_def fields)
    then have mpu: "m = mpu (port_mpu_configure_for_task (Some t) k0)" using m by simp
    define k' where "k' = ?k2\<lparr>mpu := m, current_task := Some t,
      control := (if flags (tcb_pool k0 t) AND TASK_FLAG_USER \<noteq> 0 then 3 else 2)\<rparr>"
    have "port_switch_context sp k = Some (Resume (stack_pointer (tcb_pool k0 t)) k')"
      using r(1) m fields by (simp add: go switch_to_next_def Let_def scheduler_set_current_def k'_def upd_tcb_def)
    moreover have "t \<in> set (L pr)" using r(2) rr_ring_set [of L k0 pr] by auto
    moreover have "find (ready k0) (rr_ring L k0 pr) = Some t"
      using r(2-4) by (simp add: find_dropWhile dropWhile_append2 o_def)
    moreover have "sched_wf L k'" using r(6) by (subst sched_wf_cong [of _ k1]) (simp_all add: k'_def upd_tcb_def)
    moreover have "rr_ring L k' pr = rr_ring L k1 pr"
      by (simp add: rr_ring_def k'_def upd_tcb_def)
    then have "rr_ring L k' pr = tl (dropWhile (Not \<circ> ready k0) (rr_ring L k0 pr)) @ takeWhile (Not \<circ> ready k0) (rr_ring L k0 pr) @ [t]"
      using r(2-5) by (simp add: dropWhile_append2 takeWhile_append2)
    moreover have "k' = k0\<lparr>rr_current := (rr_current k0)(pr := rr_current k' pr), current_task := Some t,
         tcb_pool := (tcb_pool k0)(t := (tcb_pool k0 t)\<lparr>tstate := TASK_RUNNING\<rparr>),
         mpu := mpu (port_mpu_configure_for_task (Some t) k0),
         control := (if flags (tcb_pool k0 t) AND TASK_FLAG_USER \<noteq> 0 then 3 else 2)\<rparr>"
    proof -
      have "rr_current k' pr = rr_current k1 pr" by (simp add: k'_def upd_tcb_def)
      then show ?thesis unfolding k'_def mpu by (subst r(7)) (simp add: upd_tcb_def)
    qed
    ultimately show thesis using switch top r(3) by blast
  next
    case False
    then have none: "\<forall>pr. \<not> top_ready L k0 pr" by blast
    have "\<forall>pr. \<forall>u \<in> set (L pr). \<not> ready k0 u"
      using scheduler_get_next_none(2) [OF wf0 none] sched_wf_priority [OF wf0] by blast
    moreover have "port_switch_context sp k = Some (Resume sp (upd_tcb c (\<lambda>x. x\<lparr>tstate := TASK_RUNNING\<rparr>) k0))"
      by (simp add: go switch_to_next_def scheduler_get_next_none(1) [OF wf0 none] cur0 upd_tcb_def Let_def sp0)
    moreover have "sched_wf L (upd_tcb c (\<lambda>x. x\<lparr>tstate := TASK_RUNNING\<rparr>) k0)"
      using wf0 by (subst sched_wf_cong [of _ k0]) (simp_all add: upd_tcb_def)
    ultimately show thesis by (rule stay)
  qed
qed

lemma top_ready_unique: "top_ready L k pr \<Longrightarrow> top_ready L k pr' \<Longrightarrow> pr = pr'"
  unfolding top_ready_def by (metis linorder_neqE_nat)

text \<open>Two tasks of priority 1, the second of them running; the task of priority 0 waits.\<close>

definition demo_ctx :: kernel where
  "demo_ctx = demo_sched\<lparr>current_task := Some 2, tcb_pool := (tcb_pool demo_sched)(2 := (tcb_pool demo_sched 2)\<lparr>tstate := TASK_RUNNING\<rparr>)\<rparr>"

lemma demo_ctx_facts:
  "sched_wf demo_lists demo_ctx" "current_task demo_ctx = Some 2" "stack_base (tcb_pool demo_ctx t) = 0"
  "rr_ring demo_lists demo_ctx 1 = [1, 2]"
  "tstate (tcb_pool demo_ctx t) = (if t = 0 then TASK_WAITING else if t = 2 then TASK_RUNNING else TASK_READY)"
  using demo_sched_wf
  by (subst sched_wf_cong [of _ demo_sched]) (simp_all add: demo_ctx_def rr_ring_def demo_sched_simps)

lemma demo_ctx_out:
  "ready (switched_out 2 sp demo_ctx) t \<longleftrightarrow> t \<noteq> 0" "top_ready demo_lists (switched_out 2 sp demo_ctx) 1"
  "rr_ring demo_lists (switched_out 2 sp demo_ctx) 1 = [1, 2]"
  "find (ready (switched_out 2 sp demo_ctx)) [1, 2] = Some 1"
proof -
  show r: "ready (switched_out 2 sp demo_ctx) t \<longleftrightarrow> t \<noteq> 0" for t using demo_ctx_facts(5) [of t] demo_ctx_facts(5) [of 2] by simp
  have lists: "demo_lists 0 = [0]" "demo_lists 1 = [2, 1]" by (simp_all add: demo_lists_def)
  show "top_ready demo_lists (switched_out 2 sp demo_ctx) 1"
    unfolding top_ready_def r using lists by (auto simp del: One_nat_def)
  show "rr_ring demo_lists (switched_out 2 sp demo_ctx) 1 = [1, 2]"
    using demo_ctx_facts(4) by (simp add: rr_ring_def del: One_nat_def)
  show "find (ready (switched_out 2 sp demo_ctx)) [1, 2] = Some 1" unfolding List.find.simps r by simp
qed

text \<open>
  C32. A switch of context saves the stack pointer of the running task, which becomes READY if it was RUNNING.
  When the stack pointer is below the stack it halts with a report.  Otherwise the task that runs next is
  the first READY one, in ring order, of the highest priority that has one: it is RUNNING and current, the MPU
  is set up for it, the privilege level is its own, and nothing else changes but the cursor.  When no task is
  READY the same task goes on, as RUNNING, even if it was WAITING.
\<close>

theorem port_switch_correct:
  fixes sp :: u32
  assumes "sched_wf L k" "current_task k = Some c"
  defines "k0 \<equiv> switched_out c sp k"
  shows "if sp < stack_base (tcb_pool k c)
    then port_switch_context sp k = map_option Halted (stack_overflow_handler c k0)
    else (\<exists>t pr k'. top_ready L k0 pr \<and> find (ready k0) (rr_ring L k0 pr) = Some t \<and>
        port_switch_context sp k = Some (Resume (stack_pointer (tcb_pool k0 t)) k') \<and> sched_wf L k' \<and>
        k' = k0\<lparr>rr_current := (rr_current k0)(pr := rr_current k' pr), current_task := Some t,
          tcb_pool := (tcb_pool k0)(t := (tcb_pool k0 t)\<lparr>tstate := TASK_RUNNING\<rparr>),
          mpu := mpu (port_mpu_configure_for_task (Some t) k0),
          control := (if flags (tcb_pool k0 t) AND TASK_FLAG_USER \<noteq> 0 then 3 else 2)\<rparr>) \<or>
      (\<forall>pr. \<forall>u \<in> set (L pr). \<not> ready k0 u) \<and>
        port_switch_context sp k = Some (Resume sp (upd_tcb c (\<lambda>x. x\<lparr>tstate := TASK_RUNNING\<rparr>) k0))"
proof (cases "sp < stack_base (tcb_pool k c)")
  case True
  then show ?thesis by (cases "stack_overflow_handler c k0") (simp_all add: port_switch_out [OF assms(2)] k0_def)
next
  case False
  then have ok: "stack_base (tcb_pool k c) \<le> sp" by simp
  show ?thesis
  proof (cases rule: port_switch_cases [OF assms(1,2) ok, case_names switch stay])
    case (switch t pr k')
    show ?thesis unfolding if_not_P [OF False] k0_def
      by (intro disjI1 exI [of _ t] exI [of _ pr] exI [of _ k'] conjI switch(1,4-7))
  next
    case stay
    show ?thesis unfolding if_not_P [OF False] k0_def by (intro disjI2 conjI stay(1,2))
  qed
qed

theorem port_switch_correct_witness:
  "\<exists>k'. port_switch_context 0x20009000 demo_ctx = Some (Resume (stack_pointer (tcb_pool demo_ctx 1)) k') \<and>
     current_task k' = Some 1 \<and> tstate (tcb_pool k' 1) = TASK_RUNNING \<and> tstate (tcb_pool k' 2) = TASK_READY"
proof -
  let ?out = "switched_out 2 0x20009000 demo_ctx"
  have "\<not> (\<forall>pr. \<forall>u \<in> set (demo_lists pr). \<not> ready ?out u)"
    using demo_ctx_out(2) unfolding top_ready_def by blast
  then obtain t pr k' where r: "top_ready demo_lists ?out pr" "find (ready ?out) (rr_ring demo_lists ?out pr) = Some t"
    "port_switch_context 0x20009000 demo_ctx = Some (Resume (stack_pointer (tcb_pool ?out t)) k')"
    "k' = ?out\<lparr>rr_current := (rr_current ?out)(pr := rr_current k' pr), current_task := Some t,
       tcb_pool := (tcb_pool ?out)(t := (tcb_pool ?out t)\<lparr>tstate := TASK_RUNNING\<rparr>),
       mpu := mpu (port_mpu_configure_for_task (Some t) ?out),
       control := (if flags (tcb_pool ?out t) AND TASK_FLAG_USER \<noteq> 0 then 3 else 2)\<rparr>"
    using port_switch_correct [OF demo_ctx_facts(1,2), of "0x20009000"] by (auto simp: demo_ctx_facts(3))
  have "pr = 1" by (rule top_ready_unique [OF r(1) demo_ctx_out(2)])
  then have t: "t = 1" using r(2) demo_ctx_out(3,4) by simp
  have "current_task k' = Some 1 \<and> tstate (tcb_pool k' 1) = TASK_RUNNING \<and> tstate (tcb_pool k' 2) = TASK_READY"
    unfolding t by (subst (1 2 3) r(4) [unfolded t]) (simp add: demo_ctx_facts(5) switched_out_def upd_tcb_def)
  then show ?thesis using r(3) t by auto
qed

section \<open>Registers across a switch\<close>

lemma PendSV_cases:
  assumes "sched_wf L k" "current_task k = Some c" "stack_base (tcb_pool k c) \<le> PSP r - 32" "length (R4_11 r) = 8"
  obtains t k' where "PendSV_Handler r k = Some (Resume (r\<lparr>R4_11 := words_at (mem k') (stack_pointer (tcb_pool k' t)) 8,
      PSP := stack_pointer (tcb_pool k' t) + 32\<rparr>) k')"
    "current_task k' = Some t" "mem k' = store_words (R4_11 r) (PSP r - 32) (mem k)" "sched_wf L k'"
    "\<forall>u. stack_pointer (tcb_pool k' u) = (if u = c then PSP r - 32 else stack_pointer (tcb_pool k u))"
proof -
  let ?sp = "PSP r - 32" and ?k = "k\<lparr>mem := store_words (R4_11 r) (PSP r - 32) (mem k)\<rparr>"
  have wf: "sched_wf L ?k" using assms(1) by (subst sched_wf_cong [of _ k]) simp_all
  have cur: "current_task ?k = Some c" and ok: "stack_base (tcb_pool ?k c) \<le> ?sp" using assms(2,3) by simp_all
  show thesis
  proof (cases rule: port_switch_cases [OF wf cur ok, case_names switch stay])
    case (switch t pr k')
    have p: "stack_pointer (tcb_pool k' t) = stack_pointer (tcb_pool (switched_out c ?sp ?k) t)"
      "current_task k' = Some t" "mem k' = mem ?k"
      "\<forall>u. stack_pointer (tcb_pool k' u) = (if u = c then ?sp else stack_pointer (tcb_pool k u))"
      by (subst switch(7), simp)+
    show ?thesis by (rule that [of k' t]) (use switch(5,6) p in \<open>simp_all add: PendSV_Handler_def Let_def\<close>)
  next
    case stay
    let ?k' = "upd_tcb c (\<lambda>x. x\<lparr>tstate := TASK_RUNNING\<rparr>) (switched_out c ?sp ?k)"
    have p: "stack_pointer (tcb_pool ?k' u) = (if u = c then ?sp else stack_pointer (tcb_pool k u))" "current_task ?k' = Some c"
      "mem ?k' = mem ?k" for u
      using cur by (simp_all add: upd_tcb_def)
    show ?thesis
      by (rule that [of ?k' c]) (use stay(2,3) p in \<open>simp_all add: PendSV_Handler_def Let_def\<close>)
  qed
qed

lemma PendSV_switch:
  assumes "sched_wf L k" "current_task k = Some c" "stack_base (tcb_pool k c) \<le> PSP r - 32" "length (R4_11 r) = 8"
    and top: "top_ready L (switched_out c (PSP r - 32) k) pr"
      "find (ready (switched_out c (PSP r - 32) k)) (rr_ring L k pr) = Some t"
  obtains r' k' where "PendSV_Handler r k = Some (Resume r' k')" "current_task k' = Some t" "sched_wf L k'"
    "tcb_pool k' = (tcb_pool (switched_out c (PSP r - 32) k))(t := (tcb_pool (switched_out c (PSP r - 32) k) t)\<lparr>tstate := TASK_RUNNING\<rparr>)"
    "rr_ring L k' pr = tl (dropWhile (Not \<circ> ready (switched_out c (PSP r - 32) k)) (rr_ring L k pr)) @
       takeWhile (Not \<circ> ready (switched_out c (PSP r - 32) k)) (rr_ring L k pr) @ [t]"
proof -
  let ?sp = "PSP r - 32" and ?k = "k\<lparr>mem := store_words (R4_11 r) (PSP r - 32) (mem k)\<rparr>"
  let ?saved = "switched_out c ?sp ?k"
  have wf: "sched_wf L ?k" using assms(1) by (subst sched_wf_cong [of _ k]) simp_all
  have cur: "current_task ?k = Some c" and ok: "stack_base (tcb_pool ?k c) \<le> ?sp" using assms(2,3) by simp_all
  have pool: "tcb_pool ?saved = tcb_pool (switched_out c ?sp k)" by simp
  have ring: "rr_ring L ?saved = rr_ring L k" by (simp add: rr_ring_def fun_eq_iff)
  have t0: "top_ready L ?saved pr" using top(1) unfolding top_ready_def pool .
  show thesis
  proof (cases rule: port_switch_cases [OF wf cur ok, case_names switch stay])
    case (switch u pr' k')
    have "pr' = pr" by (rule top_ready_unique [OF switch(1) t0])
    then have "u = t" using switch(4) top(2) unfolding pool ring by simp
    have p: "current_task k' = Some u" "tcb_pool k' = (tcb_pool ?saved)(u := (tcb_pool ?saved u)\<lparr>tstate := TASK_RUNNING\<rparr>)"
      by (subst switch(7), simp)+
    have res: "\<exists>r'. PendSV_Handler r k = Some (Resume r' k')"
      by (simp add: PendSV_Handler_def Let_def switch(5))
    note p' = p [unfolded pool \<open>u = t\<close>] and ring' = switch(8) [unfolded pool ring \<open>pr' = pr\<close> \<open>u = t\<close>]
    show ?thesis using res that [OF _ p'(1) switch(6) p'(2) ring'] by blast
  next
    case stay
    then show ?thesis using t0 unfolding top_ready_def by blast
  qed
qed

text \<open>
  C33. A task that is switched out and later switched in again finds R4 to R11 and its stack pointer as they
  were, whatever ran between, as long as the 32 bytes saved below its stack pointer are left alone.
\<close>

theorem context_switch_restores:
  assumes "sched_wf L k" "current_task k = Some a" "stack_base (tcb_pool k a) \<le> PSP r - 32" "length (R4_11 r) = 8"
    and "PendSV_Handler r k = Some (Resume r1 k1)"
    and "stack_pointer (tcb_pool k2 a) = stack_pointer (tcb_pool k1 a)" "\<forall>x \<in> region (PSP r - 32) 32. mem k2 x = mem k1 x"
    and "sched_wf L' k2" "current_task k2 = Some b" "b \<noteq> a" "stack_base (tcb_pool k2 b) \<le> PSP r2 - 32" "length (R4_11 r2) = 8"
    and "region (PSP r2 - 32) 32 \<inter> region (PSP r - 32) 32 = {}"
    and "PendSV_Handler r2 k2 = Some (Resume r3 k3)" "current_task k3 = Some a"
  shows "R4_11 r3 = R4_11 r \<and> PSP r3 = PSP r"
proof -
  obtain t1 where k1: "mem k1 = store_words (R4_11 r) (PSP r - 32) (mem k)" "stack_pointer (tcb_pool k1 a) = PSP r - 32"
    by (rule PendSV_cases [OF assms(1-4)]) (use assms(5) in auto)
  have k3: "mem k3 = store_words (R4_11 r2) (PSP r2 - 32) (mem k2)"
    "stack_pointer (tcb_pool k3 a) = stack_pointer (tcb_pool k2 a)"
    "r3 = r2\<lparr>R4_11 := words_at (mem k3) (stack_pointer (tcb_pool k3 a)) 8, PSP := stack_pointer (tcb_pool k3 a) + 32\<rparr>"
    by (rule PendSV_cases [OF assms(8,9,11,12)]; use assms(10,14,15) in auto)+
  have sp: "stack_pointer (tcb_pool k3 a) = PSP r - 32" using k1(2) k3(2) assms(6) by simp
  have "mem k3 x = store_words (R4_11 r) (PSP r - 32) (mem k) x" if "x \<in> region (PSP r - 32) 32" for x
  proof -
    have "x \<notin> region (PSP r2 - 32) (4 * length (R4_11 r2))" using that assms(12,13) by auto
    then have "mem k3 x = mem k2 x" using k3(1) store_words_spec(2) [of "R4_11 r2"] assms(12) by simp
    then show ?thesis using that assms(7) k1(1) by simp
  qed
  then have "words_at (mem k3) (PSP r - 32) 8 = words_at (store_words (R4_11 r) (PSP r - 32) (mem k)) (PSP r - 32) 8"
    by (intro words_at_cong) simp_all
  also have "\<dots> = R4_11 r" using store_words_spec(1) [of "R4_11 r"] assms(4) by simp
  finally show ?thesis using k3(3) sp by simp
qed

definition demo_cpu :: "u32 \<Rightarrow> u32 \<Rightarrow> cpu" where
  "demo_cpu sp x = \<lparr>R0 = 0, R1 = 0, R2 = 0, R3 = 0, R12 = 0, LR = 0, PC = 0, R4_11 = [x, 1, 2, 3, 4, 5, 6, 7], PSP = sp\<rparr>"

theorem context_switch_restores_witness:
  "\<exists>r1 k1 r3 k3. PendSV_Handler (demo_cpu 0x20009020 42) demo_ctx = Some (Resume r1 k1) \<and> current_task k1 = Some 1 \<and>
     PendSV_Handler (demo_cpu 0x2000A020 99) k1 = Some (Resume r3 k3) \<and> current_task k3 = Some 2 \<and>
     R4_11 r3 = [42, 1, 2, 3, 4, 5, 6, 7] \<and> PSP r3 = 0x20009020"
proof -
  note wf = demo_ctx_facts(1) and c = demo_ctx_facts(2-4) and st = demo_ctx_facts(5)
  have cpu: "PSP (demo_cpu sp x) = sp" "length (R4_11 (demo_cpu sp x)) = 8" for sp x by (simp_all add: demo_cpu_def)
  have lists: "demo_lists 0 = [0]" "demo_lists 1 = [2, 1]" by (simp_all add: demo_lists_def)
  let ?out = "switched_out 2 (PSP (demo_cpu 0x20009020 42) - 32) demo_ctx"
  note out = demo_ctx_out [of "PSP (demo_cpu 0x20009020 42) - 32"]
  note r0 = out(1) and top = out(2) and find = out(4) [folded demo_ctx_facts(4)]
  have ring: "tl (dropWhile (Not \<circ> ready ?out) [1, 2]) @ takeWhile (Not \<circ> ready ?out) [1, 2] @ [1] = [2, 1]"
    using r0 by simp
  obtain r1 k1 where k1: "PendSV_Handler (demo_cpu 0x20009020 42) demo_ctx = Some (Resume r1 k1)" "current_task k1 = Some 1"
    "sched_wf demo_lists k1" "tcb_pool k1 = (tcb_pool ?out)(1 := (tcb_pool ?out 1)\<lparr>tstate := TASK_RUNNING\<rparr>)"
    "rr_ring demo_lists k1 1 = [2, 1]"
    by (rule PendSV_switch [OF wf c(1) _ _ top find, unfolded c(3) ring]) (simp_all add: c cpu)
  let ?k2 = "switched_out 1 (PSP (demo_cpu 0x2000A020 99) - 32) k1"
  have r2: "ready ?k2 t \<longleftrightarrow> t \<noteq> 0" for t using st [of t] by (auto simp: k1(4))
  have top2: "top_ready demo_lists ?k2 1" unfolding top_ready_def r2 using lists by (auto simp del: One_nat_def)
  have find2: "find (ready ?k2) (rr_ring demo_lists k1 1) = Some 2" unfolding k1(5) r2 by simp
  have b: "stack_base (tcb_pool k1 1) = 0" by (simp add: k1(4) c)
  obtain r3 k3 where k3: "PendSV_Handler (demo_cpu 0x2000A020 99) k1 = Some (Resume r3 k3)" "current_task k3 = Some 2"
    by (rule PendSV_switch [OF k1(3,2) _ _ top2 find2]) (simp_all add: b cpu del: One_nat_def)
  have "region (0x2000A000 :: u32) 32 \<inter> region 0x20009000 32 = {}"
    using region_disjoint [of "0x20009000" 32 "0x2000A000" 32] by auto
  then have "R4_11 r3 = R4_11 (demo_cpu 0x20009020 42) \<and> PSP r3 = PSP (demo_cpu 0x20009020 42)"
    using context_switch_restores [OF wf c(1) _ _ k1(1) refl _ k1(3,2) _ _ _ _ k3] by (simp add: cpu c b del: One_nat_def)
  then show ?thesis using k1(1,2) k3 by (auto simp: demo_cpu_def)
qed

section \<open>The first task\<close>

lemma words_at_nth: "i < n \<Longrightarrow> words_at m a n ! i = load32 m (a + of_nat (4 * i))"
  by (simp add: words_at_def)

lemma words_at_take: "words_at m a n = take n (words_at m a (n + j))"
  by (simp add: words_at_append) (simp add: words_at_def)

lemma enter_initial_frame:
  assumes "words_at m sp 16 = initial_frame fn arg"
  shows "enter_first_task sp m = \<lparr>R0 = arg, R1 = 0, R2 = 0, R3 = 0, R12 = 0, LR = 0xFFFFFFFD, PC = fn,
    R4_11 = replicate 8 0, PSP = sp + 60\<rparr>"
proof -
  have w: "load32 m (sp + of_nat (4 * i)) = initial_frame fn arg ! i" if "i < 16" for i
    using words_at_nth [OF that, of m sp] assms by simp
  have "words_at m sp 8 = take 8 (initial_frame fn arg)"
    using words_at_take [of m sp 8 8] assms by simp
  then show ?thesis
    using w [of 8] w [of 9] w [of 10] w [of 11] w [of 12] w [of 13] w [of 14]
    by (simp add: enter_first_task_def initial_frame_def nth_append)
qed

lemma port_start_run:
  assumes "sched_wf L k" "current_task k = None" "top_ready L k pr" "find (ready k) (rr_ring L k pr) = Some t"
  obtains k' m where "port_start_first_task st k =
      Some (\<lparr>SYST_CSR = 7, SYST_RVR = 15999, SYST_CVR = 0\<rparr>, enter_first_task (stack_pointer (tcb_pool k t)) (mem k), k')"
    "k' = k\<lparr>rr_current := (rr_current k)(pr := rr_current k' pr), tcb_pool := (tcb_pool k)(t := (tcb_pool k t)\<lparr>tstate := TASK_RUNNING\<rparr>),
       mpu := m, current_task := Some t, control := 2, primask := 0\<rparr>" "sched_wf L k'"
proof -
  obtain as u bs k1 where r: "scheduler_get_next k = Some (Some u, k1)" "rr_ring L k pr = as @ u # bs"
    "ready k u" "\<forall>u \<in> set as. \<not> ready k u" "sched_wf L k1"
    "k1 = k\<lparr>rr_current := (rr_current k)(pr := rr_current k1 pr)\<rparr>"
    by (rule scheduler_get_next_some [OF assms(1,3)])
  have u: "u = t" using assms(4) r(2-4) by (simp add: find_dropWhile dropWhile_append2 o_def)
  have f: "tcb_pool k1 = tcb_pool k" "mem k1 = mem k"
    using arg_cong [OF r(6), of tcb_pool] arg_cong [OF r(6), of mem] by simp_all
  obtain m where m: "port_mpu_configure_for_task (Some t) k1 = k1\<lparr>mpu := m\<rparr>" using configure_frame by blast
  let ?k' = "(upd_tcb t (\<lambda>c. c\<lparr>tstate := TASK_RUNNING\<rparr>) (k1\<lparr>mpu := m, current_task := Some t\<rparr>))\<lparr>control := 2, primask := 0\<rparr>"
  have "systick_init st = \<lparr>SYST_CSR = 7, SYST_RVR = 15999, SYST_CVR = 0\<rparr>" by (simp add: systick_init_def)
  then have "port_start_first_task st k =
      Some (\<lparr>SYST_CSR = 7, SYST_RVR = 15999, SYST_CVR = 0\<rparr>, enter_first_task (stack_pointer (tcb_pool k t)) (mem k), ?k')"
    using r(1) m u f assms(2)
    by (simp add: port_start_first_task_def scheduler_get_current_def scheduler_set_current_def upd_tcb_def)
  moreover have "?k' = k\<lparr>rr_current := (rr_current k)(pr := rr_current ?k' pr), tcb_pool := (tcb_pool k)(t := (tcb_pool k t)\<lparr>tstate := TASK_RUNNING\<rparr>),
       mpu := m, current_task := Some t, control := 2, primask := 0\<rparr>"
    by (subst r(6)) (simp add: upd_tcb_def f)
  moreover have "sched_wf L ?k'" using r(5) by (subst sched_wf_cong [of _ k1]) (simp_all add: upd_tcb_def)
  ultimately show thesis by (rule that)
qed

text \<open>
  C34. Entry of the first task: with no task running, the first READY task of the highest priority is
  entered at its function with its argument in R0, privileged, with interrupts enabled and the tick
  running.  The last word of its frame, the xPSR, is not popped: the stack pointer is then 4 below the top
  of the stack, so that it is not a multiple of 8 as the calling convention wants it.
\<close>

theorem first_task_entry:
  assumes "sched_wf L k" "current_task k = None" "top_ready L k pr" "find (ready k) (rr_ring L k pr) = Some t"
    and "words_at (mem k) (stack_pointer (tcb_pool k t)) 16 = initial_frame fn arg" "8 dvd unat (stack_pointer (tcb_pool k t))"
  shows "\<exists>c k'. port_start_first_task st k = Some (\<lparr>SYST_CSR = 7, SYST_RVR = 15999, SYST_CVR = 0\<rparr>, c, k') \<and>
    PC c = fn \<and> R0 c = arg \<and> PSP c = stack_pointer (tcb_pool k t) + 60 \<and> unat (PSP c) mod 8 = 4 \<and>
    current_task k' = Some t \<and> tstate (tcb_pool k' t) = TASK_RUNNING \<and>
    port_is_privileged k' \<and> primask k' = 0"
proof -
  let ?sp = "stack_pointer (tcb_pool k t)"
  obtain k' m where run: "port_start_first_task st k =
      Some (\<lparr>SYST_CSR = 7, SYST_RVR = 15999, SYST_CVR = 0\<rparr>, enter_first_task ?sp (mem k), k')"
    and k': "k' = k\<lparr>rr_current := (rr_current k)(pr := rr_current k' pr), tcb_pool := (tcb_pool k)(t := (tcb_pool k t)\<lparr>tstate := TASK_RUNNING\<rparr>),
       mpu := m, current_task := Some t, control := 2, primask := 0\<rparr>"
    by (rule port_start_run [OF assms(1-4)])
  have "current_task k' = Some t" "tstate (tcb_pool k' t) = TASK_RUNNING" "port_is_privileged k'" "primask k' = 0"
    by (subst k', simp add: port_is_privileged_def)+
  moreover have "unat (?sp + 60) mod 8 = 4"
  proof -
    have "unat (?sp + 60) mod 8 = (unat ?sp + 60) mod 8" by (simp add: unat_word_ariths mod_mod_cancel)
    also have "\<dots> = 4" using assms(6) by (simp add: mod_add_eq [symmetric])
    finally show ?thesis .
  qed
  ultimately show ?thesis using run enter_initial_frame [OF assms(5)] by auto
qed

theorem first_task_entry_witness:
  "\<exists>t k' st' c k''. task_create 0x08004100 0 1 512 7 demo_ram = Some k' \<and>
     port_start_first_task \<lparr>SYST_CSR = 0, SYST_RVR = 0, SYST_CVR = 0\<rparr> k' = Some (st', c, k'') \<and> PC c = 0x08004100 \<and> R0 c = 7 \<and> current_task k'' = Some t"
proof -
  have args: "unat (1 :: u32) < MAX_TASK_PRIORITIES" "(512 :: u32) \<noteq> 0" "(512 :: u32) \<le> MAX_TASK_STACK_SIZE"
    by simp_all
  show ?thesis
  proof (cases rule: task_create_cases [OF demo_ram_ok args demo_ram_avail, of "0x08004100" 0 7, case_names refused created])
    case (refused k')
    then show ?thesis using demo_ram_need by simp
  next
    case (created t a k' bs')
    have wf: "sched_wf ((\<lambda>_. [])(1 := [t])) k'" using created(4) by (simp add: task_inv_def)
    obtain base ssize nx where pool: "tcb_pool k' t = (new_tcb base ssize a 1 0x08004100 7)\<lparr>next_task := nx\<rparr>"
      using created(9) by auto
    then have rdy: "ready k' t" by (simp add: new_tcb_def)
    have "rr_current k' 1 = None"
      using task_create_same(2) [OF created(1)] by (simp add: demo_ram_def boot_kernel_def)
    then have ring: "rr_ring ((\<lambda>_. [])(1 := [t])) k' 1 = [t]" by (simp add: rr_ring_def)
    have top: "top_ready ((\<lambda>_. [])(1 := [t])) k' 1" using rdy by (simp add: top_ready_def)
    have cur: "current_task k' = None"
      using task_create_same(1) [OF created(1)] by (simp add: demo_ram_def boot_kernel_def)
    obtain n where n: "unat ssize = 2 ^ n" "512 \<le> unat ssize" "2 ^ n dvd unat base"
      "words_at (mem k') (base + ssize - 64) 16 = initial_frame 0x08004100 7"
      using created(8) unfolding stack_placed_def by (auto simp: pool new_tcb_def)
    have "3 \<le> n"
    proof (rule ccontr)
      assume "\<not> 3 \<le> n"
      then have "(2 :: nat) ^ n \<le> 2 ^ 3" by (intro power_increasing) simp_all
      then show False using n(1,2) by simp
    qed
    then have "2 ^ 3 dvd (2 :: nat) ^ n" by (rule le_imp_power_dvd)
    then have d: "8 dvd unat base" "8 dvd unat ssize" using n(1,3) dvd_trans by auto
    have add: "8 dvd unat (x + y)" if "8 dvd unat x" "8 dvd unat y" for x y :: u32
      using that by (simp add: unat_word_ariths dvd_mod_iff)
    have "8 dvd unat (base + ssize + 4294967232)" using d by (intro add) simp_all
    moreover have "(4294967232 :: u32) = - 64" by simp
    ultimately have al: "8 dvd unat (base + ssize - 64)" by (simp only: diff_conv_add_uminus)
    have "\<exists>c k''. port_start_first_task \<lparr>SYST_CSR = 0, SYST_RVR = 0, SYST_CVR = 0\<rparr> k' =
        Some (\<lparr>SYST_CSR = 7, SYST_RVR = 15999, SYST_CVR = 0\<rparr>, c, k'') \<and> PC c = 0x08004100 \<and> R0 c = 7 \<and>
        current_task k'' = Some t"
      using first_task_entry [OF wf cur top, of t "0x08004100" 7 "\<lparr>SYST_CSR = 0, SYST_RVR = 0, SYST_CVR = 0\<rparr>"] n(4) al ring rdy
      by (auto simp: pool new_tcb_def)
    then show ?thesis using created(1) by blast
  qed
qed

end
