(* ===== verification/Semaphore.thy ===== *)
theory Semaphore
  imports Blocking Alloc_Contract
begin

text \<open>
  Counting semaphores, \<open>kernel/semaphore.c\<close>: creation, the blocking take of privileged tasks (in
  two halves), the non-blocking take of the kernel worker on behalf of a caller, and give.
\<close>

section \<open>The code\<close>

definition z_impl_sem_create :: "u32 \<Rightarrow> kernel \<Rightarrow> (u32 \<times> kernel) option" where
  "z_impl_sem_create initial_count k = do {
     (s, k) \<leftarrow> malloc 8 k;
     if s = 0 then Some (0, k)
     else Some (s, set_sem s
       \<lparr>sem_count = (if 0 \<le> sint initial_count then initial_count else 0), sem_wait_list = None\<rparr> k)
   }"

definition z_impl_sem_take_timeout :: "u32 \<Rightarrow> u32 \<Rightarrow> kernel \<Rightarrow> (call \<times> kernel) option" where
  "z_impl_sem_take_timeout p timeout_ms k = do {
     let (pm, k) = enter_critical k;
     s \<leftarrow> sems k p;
     if 0 < sint (sem_count s) then
       Some (Return 0, exit_critical pm (set_sem p (s\<lparr>sem_count := sem_count s - 1\<rparr>) k))
     else if timeout_ms = 0 then Some (Return (- 1), exit_critical pm k)
     else do {
       cur \<leftarrow> scheduler_get_current k;
       let k = set_waiting cur k;
       k \<leftarrow> wait_push (SemWait p) cur k;
       let k = set_timeout (SemWait p) cur timeout_ms k;
       Some (Suspend, port_trigger_pendsv (exit_critical pm k))
     }
   }"

definition z_impl_sem_try_take_timeout ::
  "u32 \<Rightarrow> tcb_ptr option \<Rightarrow> u32 \<Rightarrow> kernel \<Rightarrow> (u32 \<times> kernel) option" where
  "z_impl_sem_try_take_timeout p caller timeout_ms k = do {
     let (pm, k) = enter_critical k;
     s \<leftarrow> sems k p;
     if 0 < sint (sem_count s) then
       Some (0, exit_critical pm (set_sem p (s\<lparr>sem_count := sem_count s - 1\<rparr>) k))
     else if timeout_ms = 0 then Some (- 1, exit_critical pm k)
     else do {
       t \<leftarrow> caller;
       k \<leftarrow> wait_push (SemWait p) t k;
       let k = set_timeout (SemWait p) t timeout_ms k;
       Some (- 1, exit_critical pm k)
     }
   }"

definition z_impl_sem_give :: "u32 \<Rightarrow> kernel \<Rightarrow> kernel option" where
  "z_impl_sem_give p k = do {
     let (pm, k) = enter_critical k;
     s \<leftarrow> sems k p;
     case sem_wait_list s of
       Some waiter \<Rightarrow>
         Some (scheduler_wake_task waiter 0 (exit_critical pm (wait_pop (SemWait p) waiter k)))
     | None \<Rightarrow> Some (exit_critical pm (set_sem p (s\<lparr>sem_count := sem_count s + 1\<rparr>) k))
   }"

section \<open>Lemmas\<close>

lemma read_head_sem [simp]: "sems k p = Some s \<Longrightarrow> read_head (SemWait p) k = Some (sem_wait_list s)"
  by (simp add: read_head_def)

lemma set_sem_simps [simp]:
  "tcb_pool (set_sem p s k) = tcb_pool k" "primask (set_sem p s k) = primask k"
  "mem (set_sem p s k) = mem k" "sems (set_sem p s k) = (sems k)(p \<mapsto> s)"
  "mutexes (set_sem p s k) = mutexes k" "queues (set_sem p s k) = queues k"
  by (simp_all add: set_sem_def)

lemma prim_inv_set_sem:
  assumes "prim_inv W k" "sems k p = Some s" "sem_wait_list s' = sem_wait_list s"
  shows "prim_inv W (set_sem p s' k)"
  using assms
  by (subst prim_inv_cong [of _ k]) (auto simp: read_head_def set_sem_def split: wait_head.splits)

text \<open>The semaphore's own invariant: no negative count, and no waiter while there is a token.\<close>

definition sem_ok :: "u32 \<Rightarrow> (wait_head \<Rightarrow> tcb_ptr list) \<Rightarrow> kernel \<Rightarrow> bool" where
  "sem_ok p W k \<longleftrightarrow> (case sems k p of None \<Rightarrow> False
     | Some s \<Rightarrow> 0 \<le> sint (sem_count s) \<and> (W (SemWait p) \<noteq> [] \<longrightarrow> sem_count s = 0))"

lemma sint_dec: "0 < sint (x :: u32) \<Longrightarrow> sint (x - 1) = sint x - 1"
proof -
  assume a: "0 < sint x"
  have "sint x < 2147483648" using sint_lt [of x] by simp
  then show ?thesis using a by (simp add: sint_word_ariths signed_take_bit_int_eq_self)
qed

lemma sint_inc: "sint (x :: u32) < 2147483647 \<Longrightarrow> sint (x + 1) = sint x + 1"
proof -
  assume a: "sint x < 2147483647"
  have "- 2147483648 \<le> sint x" using sint_ge [of x] by simp
  then show ?thesis using a by (simp add: sint_word_ariths signed_take_bit_int_eq_self)
qed

lemma sint_0_iff: "sint (x :: u32) = 0 \<longleftrightarrow> x = 0"
proof
  assume "sint x = 0"
  then have "(of_int (sint x) :: u32) = of_int 0" by (rule arg_cong)
  then show "x = 0" by simp
qed simp

lemma sem_ok_sems: "sems k' p = sems k p \<Longrightarrow> sem_ok p W k' = sem_ok p W k"
  by (simp add: sem_ok_def)

text \<open>Blocking on a semaphore keeps its count.\<close>

lemma sem_ok_block:
  assumes "sem_ok p W k" "sems k p = Some s" "\<not> 0 < sint (sem_count s)" "prims_same k k'"
  shows "sem_ok p (W(SemWait p := xs)) k'" "map_option sem_count (sems k' p) = Some (sem_count s)"
proof -
  have same: "map_option sem_count (sems k' p) = map_option sem_count (sems k p)"
    using assms(4) by (simp add: prims_same_def)
  then show "map_option sem_count (sems k' p) = Some (sem_count s)" using assms(2) by simp
  obtain s' where s': "sems k' p = Some s'" "sem_count s' = sem_count s"
    using same assms(2) by (cases "sems k' p") auto
  have "sint (sem_count s) = 0" using assms(1-3) by (simp add: sem_ok_def)
  then have "sem_count s = 0" by (simp only: sint_0_iff)
  then show "sem_ok p (W(SemWait p := xs)) k'" using s' by (simp add: sem_ok_def)
qed

lemma sem_ok_take:
  assumes "sem_ok p W k" "sems k p = Some s" "0 < sint (sem_count s)"
  shows "sem_ok p W (set_sem p (s\<lparr>sem_count := sem_count s - 1\<rparr>) k)"
  using assms sint_dec [OF assms(3)] by (auto simp: sem_ok_def)

section \<open>Properties\<close>

text \<open>
  C17. A privileged take, in every case: with a token it returns 0 at once and takes it; without
  one and with timeout 0 it returns \<open>-1\<close> and changes nothing; otherwise the task is put in front
  of the wait list, WAITING, with its timeout (none for \<open>CREST_WAIT_FOREVER\<close>), the count is
  unchanged, and a switch is requested.  PRIMASK is restored, and the invariants of waiting tasks
  and of the semaphore are kept.
\<close>

theorem sem_take_correct:
  assumes inv: "prim_inv W k" and ok: "sem_ok p W k" and s: "sems k p = Some s"
    and cur: "current_task k = Some t" "\<And>h. t \<notin> set (W h)" "blocking_wait_list (tcb_pool k t) = None"
  shows "\<exists>r k'. z_impl_sem_take_timeout p timeout_ms k = Some (r, k') \<and>
    primask k' = primask k \<and> mem k' = mem k \<and>
    (if 0 < sint (sem_count s) then r = Return 0 \<and> prim_inv W k' \<and> sem_ok p W k' \<and>
       map_option (\<lambda>s. sint (sem_count s)) (sems k' p) = Some (sint (sem_count s) - 1)
     else if timeout_ms = 0 then r = Return (- 1) \<and> k' = k
     else r = Suspend \<and> pendsv k' \<and> prim_inv (W(SemWait p := t # W (SemWait p))) k' \<and>
       sem_ok p (W(SemWait p := t # W (SemWait p))) k' \<and>
       map_option sem_count (sems k' p) = Some (sem_count s) \<and>
       tstate (tcb_pool k' t) = TASK_WAITING \<and>
       delay_ticks (tcb_pool k' t) = (if timeout_ms = CREST_WAIT_FOREVER then 0 else timeout_ms))"
proof -
  consider (token) "0 < sint (sem_count s)" | (poll) "\<not> 0 < sint (sem_count s)" "timeout_ms = 0"
    | (block) "\<not> 0 < sint (sem_count s)" "timeout_ms \<noteq> 0" by blast
  then show ?thesis
  proof cases
    case token
    let ?s = "s\<lparr>sem_count := sem_count s - 1\<rparr>"
    have "z_impl_sem_take_timeout p timeout_ms k = Some (Return 0, set_sem p ?s k)"
      using token s by (simp add: z_impl_sem_take_timeout_def state_defs)
    moreover have "prim_inv W (set_sem p ?s k)" using prim_inv_set_sem [OF inv s] by simp
    ultimately show ?thesis using token sem_ok_take [OF ok s token] sint_dec [OF token] by simp
  next
    case poll
    then show ?thesis using s by (simp add: z_impl_sem_take_timeout_def state_defs)
  next
    case block
    have h: "read_head (SemWait p) k \<noteq> None" using s by (simp add: read_head_def)
    obtain k1 k' where k': "wait_push (SemWait p) t (set_waiting t (k\<lparr>primask := 1\<rparr>)) = Some k1"
      "k' = (set_timeout (SemWait p) t timeout_ms k1)\<lparr>primask := primask k, pendsv := True\<rparr>"
      "prim_inv (W(SemWait p := t # W (SemWait p))) k'" "prims_same k k'" "mem k' = mem k" "tstate (tcb_pool k' t) = TASK_WAITING"
      "delay_ticks (tcb_pool k' t) = (if timeout_ms = CREST_WAIT_FOREVER then 0 else timeout_ms)"
      by (rule lifo.suspend [OF inv h cur(2,3) block(2)], rule that; assumption)
    have "z_impl_sem_take_timeout p timeout_ms k = Some (Suspend, k')"
      using block s cur k'(1)
      by (simp add: z_impl_sem_take_timeout_def enter_critical_def exit_critical_def port_trigger_pendsv_def
          scheduler_get_current_def k'(2))
    moreover have "primask k' = primask k" "pendsv k'" by (simp_all add: k'(2))
    ultimately show ?thesis using k'(3,5-7) sem_ok_block [OF ok s block(1) k'(4)] block by auto
  qed
qed

text \<open>A sample state: task 1 waits for the empty semaphore at \<open>0x20008008\<close>, task 0 runs.\<close>

definition demo_sem :: kernel where
  "demo_sem = demo_boot\<lparr>
     tcb_pool := (tcb_pool demo_boot)
       (0 := zero_tcb\<lparr>tstate := TASK_RUNNING\<rparr>,
        1 := zero_tcb\<lparr>tstate := TASK_WAITING, flags := TASK_FLAG_SVC_BLOCKED, stack_pointer := 0x20008100\<rparr>),
     current_task := Some 0,
     sems := [0x20008008 \<mapsto> \<lparr>sem_count = 0, sem_wait_list = Some 1\<rparr>]\<rparr>"

definition demo_sem_waits :: "wait_head \<Rightarrow> tcb_ptr list" where
  "demo_sem_waits = (\<lambda>_. [])(SemWait 0x20008008 := [1])"

lemma demo_sem_inv: "prim_inv demo_sem_waits demo_sem" "sem_ok 0x20008008 demo_sem_waits demo_sem"
proof -
  have heads: "read_head h demo_sem = (if h = SemWait 0x20008008 then Some (Some 1) else None)" for h
    by (cases h) (simp_all add: read_head_def demo_sem_def demo_boot_def boot_kernel_def)
  then have "wait_wf demo_sem_waits demo_sem"
    by (auto simp: wait_wf_def demo_sem_waits_def demo_sem_def zero_tcb_def split: if_splits)
  moreover have "timeouts_ok demo_sem_waits demo_sem" "waiting_ok demo_sem_waits demo_sem"
    by (auto simp: timeouts_ok_def waiting_ok_def demo_sem_waits_def demo_sem_def zero_tcb_def
        demo_boot_def boot_kernel_def)
  ultimately show "prim_inv demo_sem_waits demo_sem" by (simp add: prim_inv_def)
  show "sem_ok 0x20008008 demo_sem_waits demo_sem"
    by (simp add: sem_ok_def demo_sem_def)
qed

lemma demo_sem_fields [simp]:
  "sems demo_sem 0x20008008 = Some \<lparr>sem_count = 0, sem_wait_list = Some 1\<rparr>"
  "current_task demo_sem = Some 0" "primask demo_sem = 0" "0 \<notin> set (demo_sem_waits h)"
  "demo_sem_waits (SemWait 0x20008008) = [1]"
  "blocking_wait_list (tcb_pool demo_sem 0) = None" "tstate (tcb_pool demo_sem 0) = TASK_RUNNING"
  by (simp_all add: demo_sem_def demo_sem_waits_def zero_tcb_def demo_boot_def boot_kernel_def)

theorem sem_take_correct_witness:
  "\<exists>k'. z_impl_sem_take_timeout 0x20008008 5 demo_sem = Some (Suspend, k') \<and>
     prim_inv (demo_sem_waits(SemWait 0x20008008 := [0, 1])) k' \<and> delay_ticks (tcb_pool k' 0) = 5"
proof -
  have t: "\<And>h. 0 \<notin> set (demo_sem_waits h)" by simp
  show ?thesis
    using sem_take_correct [OF demo_sem_inv demo_sem_fields(1,2) t demo_sem_fields(6), of 5] by auto
qed

text \<open>
  The worker's take on behalf of a WAITING caller has the same cases, and leaves the
  caller's state to the caller: 0 with a token, \<open>-1\<close> without change for timeout 0, and otherwise
  \<open>-1\<close> with the caller in front of the wait list.
\<close>

theorem sem_try_take_correct:
  assumes inv: "prim_inv W k" and ok: "sem_ok p W k" and s: "sems k p = Some s"
    and cur: "tstate (tcb_pool k t) = TASK_WAITING" "\<And>h. t \<notin> set (W h)"
  shows "\<exists>r k'. z_impl_sem_try_take_timeout p (Some t) timeout_ms k = Some (r, k') \<and>
    primask k' = primask k \<and> mem k' = mem k \<and>
    (if 0 < sint (sem_count s) then r = 0 \<and> k' = set_sem p (s\<lparr>sem_count := sem_count s - 1\<rparr>) k \<and>
       prim_inv W k' \<and> sem_ok p W k'
     else if timeout_ms = 0 then r = - 1 \<and> k' = k
     else r = - 1 \<and> prim_inv (W(SemWait p := t # W (SemWait p))) k' \<and>
       sem_ok p (W(SemWait p := t # W (SemWait p))) k' \<and>
       flags (tcb_pool k' t) = flags (tcb_pool k t) \<and>
       delay_ticks (tcb_pool k' t) = (if timeout_ms = CREST_WAIT_FOREVER then 0 else timeout_ms))"
proof -
  consider (token) "0 < sint (sem_count s)" | (poll) "\<not> 0 < sint (sem_count s)" "timeout_ms = 0"
    | (block) "\<not> 0 < sint (sem_count s)" "timeout_ms \<noteq> 0" by blast
  then show ?thesis
  proof cases
    case token
    let ?s = "s\<lparr>sem_count := sem_count s - 1\<rparr>"
    have "z_impl_sem_try_take_timeout p (Some t) timeout_ms k = Some (0, set_sem p ?s k)"
      using token s by (simp add: z_impl_sem_try_take_timeout_def state_defs)
    moreover have "prim_inv W (set_sem p ?s k)" using prim_inv_set_sem [OF inv s] by simp
    ultimately show ?thesis using token sem_ok_take [OF ok s token] by simp
  next
    case poll
    then show ?thesis using s by (simp add: z_impl_sem_try_take_timeout_def state_defs)
  next
    case block
    have h: "read_head (SemWait p) k \<noteq> None" using s by (simp add: read_head_def)
    obtain k1 k' where k': "wait_push (SemWait p) t (k\<lparr>primask := 1\<rparr>) = Some k1"
      "k' = (set_timeout (SemWait p) t timeout_ms k1)\<lparr>primask := primask k\<rparr>"
      "prim_inv (W(SemWait p := t # W (SemWait p))) k'" "prims_same k k'" "mem k' = mem k"
      "flags (tcb_pool k' t) = flags (tcb_pool k t)"
      "delay_ticks (tcb_pool k' t) = (if timeout_ms = CREST_WAIT_FOREVER then 0 else timeout_ms)"
      by (rule lifo.enqueue [OF inv h cur(2,1) block(2)], rule that; assumption)
    have "z_impl_sem_try_take_timeout p (Some t) timeout_ms k = Some (- 1, k')"
      using block s k'(1) by (simp add: z_impl_sem_try_take_timeout_def enter_critical_def exit_critical_def k'(2))
    moreover have "primask k' = primask k" by (simp add: k'(2))
    ultimately show ?thesis using k'(3,5-7) sem_ok_block [OF ok s block(1) k'(4)] block by auto
  qed
qed

theorem sem_try_take_correct_witness:
  "\<exists>k'. z_impl_sem_try_take_timeout 0x20008008 (Some 2)
      CREST_WAIT_FOREVER (upd_tcb 2 (\<lambda>c. c\<lparr>tstate := TASK_WAITING\<rparr>) demo_sem) = Some (- 1, k') \<and>
     prim_inv (demo_sem_waits(SemWait 0x20008008 := [2, 1])) k'"
proof -
  let ?k = "upd_tcb 2 (\<lambda>c. c\<lparr>tstate := TASK_WAITING\<rparr>) demo_sem"
  have t: "\<And>h. 2 \<notin> set (demo_sem_waits h)" by (simp add: demo_sem_waits_def)
  have inv: "prim_inv demo_sem_waits ?k"
    using demo_sem_inv(1) t by (intro prim_inv_other) (simp_all add: demo_sem_def demo_boot_def boot_kernel_def zero_tcb_def)
  have ok: "sem_ok 0x20008008 demo_sem_waits ?k" using demo_sem_inv(2) by (simp add: sem_ok_def)
  have s: "sems ?k 0x20008008 = Some \<lparr>sem_count = 0, sem_wait_list = Some 1\<rparr>" by simp
  have w: "tstate (tcb_pool ?k 2) = TASK_WAITING" by simp
  show ?thesis using sem_try_take_correct [OF inv ok s w t, of CREST_WAIT_FOREVER] by auto
qed

text \<open>
  C18. Give: with waiters, the token goes to the task that blocked last (the list is a stack): it
  leaves the list, becomes READY without timeout, gets 0 in its saved R0 when it is blocked in a
  system call, and its privileged take will return 0; the count stays 0.  Without waiters the
  count grows by one (below the largest int).
\<close>

theorem sem_give_correct:
  assumes inv: "prim_inv W k" and ok: "sem_ok p W k" and s: "sems k p = Some s"
    and max: "sint (sem_count s) < 2147483647"
  shows "\<exists>k'. z_impl_sem_give p k = Some k' \<and> primask k' = primask k \<and>
    (case W (SemWait p) of
       [] \<Rightarrow> k' = set_sem p (s\<lparr>sem_count := sem_count s + 1\<rparr>) k \<and> prim_inv W k' \<and> sem_ok p W k' \<and>
         sint (sem_count s + 1) = sint (sem_count s) + 1
     | t # ts \<Rightarrow> prim_inv (W(SemWait p := ts)) k' \<and> sem_ok p (W(SemWait p := ts)) k' \<and>
         map_option sem_count (sems k' p) = Some (sem_count s) \<and> pendsv k' \<and>
         tstate (tcb_pool k' t) = TASK_READY \<and> delay_ticks (tcb_pool k' t) = 0 \<and>
         mem k' = deliver 0 (tcb_pool k t) (mem k) \<and>
         (flags (tcb_pool k t) AND TASK_FLAG_TIMED_OUT = 0 \<longrightarrow> fst (timed_resume t k') = 0))"
proof -
  have head: "read_head (SemWait p) k = Some (sem_wait_list s)" using s by (simp add: read_head_def)
  show ?thesis
  proof (cases "W (SemWait p)")
    case Nil
    then have none: "sem_wait_list s = None" by (rule waiters_head(1) [OF inv head])
    let ?k' = "set_sem p (s\<lparr>sem_count := sem_count s + 1\<rparr>) k"
    have run: "z_impl_sem_give p k = Some ?k'"
      using none s by (simp add: z_impl_sem_give_def state_defs)
    moreover have "prim_inv W ?k'" using prim_inv_set_sem [OF inv s] by simp
    moreover have "sem_ok p W ?k'" using ok s Nil sint_inc [OF max] by (simp add: sem_ok_def)
    ultimately show ?thesis using Nil sint_inc [OF max] by simp
  next
    case (Cons t ts)
    note pop = wait_pop_first [OF inv head Cons]
    let ?k1 = "(wait_pop (SemWait p) t (k\<lparr>primask := 1\<rparr>))\<lparr>primask := primask k\<rparr>"
    let ?k' = "scheduler_wake_task t 0 ?k1"
    have run: "z_impl_sem_give p k = Some ?k'"
      using pop(1) s by (simp add: z_impl_sem_give_def enter_critical_def exit_critical_def)
    have "prim_inv (W(SemWait p := ts)) ?k1" using pop(3) by (subst prim_inv_cong) simp_all
    then have inv': "prim_inv (W(SemWait p := ts)) ?k'" using pop(2) by (rule wake_inv)
    have sem: "sems ?k' p = Some (s\<lparr>sem_wait_list := wait_next (tcb_pool k t)\<rparr>)"
      using s by (simp add: wait_pop_def write_head_def set_sem_def upd_tcb_def)
    have "sem_count s = 0" using ok s Cons by (simp add: sem_ok_def)
    then have ok': "sem_ok p (W(SemWait p := ts)) ?k'" using sem by (simp add: sem_ok_def)
    have mask: "(f AND NOT 2) AND 4 = f AND 4" for f :: u32
      by (rule bit_word_eqI) (auto simp: bit_simps bit_1_iff)
    show ?thesis
      using run inv' ok' sem Cons mask by (simp add: timed_resume_def deliver_def saved_r0_def)
  qed
qed

theorem sem_give_correct_witness:
  "\<exists>k'. z_impl_sem_give 0x20008008 demo_sem = Some k' \<and> prim_inv (\<lambda>_. []) k' \<and>
     tstate (tcb_pool k' 1) = TASK_READY \<and> load32 (mem k') 0x20008120 = 0"
proof -
  have c: "tcb_pool demo_sem 1 = zero_tcb\<lparr>tstate := TASK_WAITING, flags := TASK_FLAG_SVC_BLOCKED,
      stack_pointer := 0x20008100\<rparr>" by (simp add: demo_sem_def)
  have W: "demo_sem_waits(SemWait 0x20008008 := []) = (\<lambda>_. [])" by (auto simp: demo_sem_waits_def)
  have "sint (sem_count \<lparr>sem_count = 0, sem_wait_list = Some (1 :: nat)\<rparr>) < 2147483647" by simp
  from sem_give_correct [OF demo_sem_inv demo_sem_fields(1) this] show ?thesis
    by (auto simp: W c [unfolded One_nat_def] deliver_def saved_r0_def)
qed

end
