(* ===== verification/Mutex.thy ===== *)
theory Mutex
  imports Blocking Alloc_Contract
begin

text \<open>
  Mutexes, \<open>kernel/mutex.c\<close>: creation, the blocking lock of privileged tasks, the non-blocking
  lock of the kernel worker on behalf of a caller, and the two unlocks.
\<close>

section \<open>The code\<close>

definition z_impl_mutex_create :: "kernel \<Rightarrow> (u32 \<times> kernel) option" where
  "z_impl_mutex_create k = do {
     (m, k) \<leftarrow> malloc 8 k;
     if m = 0 then Some (0, k)
     else Some (m, set_mutex m \<lparr>mtx_owner = None, mtx_wait_list = None\<rparr> k)
   }"

definition z_impl_mutex_lock_timeout :: "u32 \<Rightarrow> u32 \<Rightarrow> kernel \<Rightarrow> (call \<times> kernel) option" where
  "z_impl_mutex_lock_timeout p timeout_ms k = do {
     let (pm, k) = enter_critical k;
     m \<leftarrow> mutexes k p;
     if mtx_owner m = scheduler_get_current k then Some (Return 0, exit_critical pm k)
     else if mtx_owner m = None then
       Some (Return 0, exit_critical pm (set_mutex p (m\<lparr>mtx_owner := scheduler_get_current k\<rparr>) k))
     else if timeout_ms = 0 then Some (Return (- 1), exit_critical pm k)
     else do {
       cur \<leftarrow> scheduler_get_current k;
       let k = set_waiting cur k;
       k \<leftarrow> wait_push (MutexWait p) cur k;
       let k = set_timeout (MutexWait p) cur timeout_ms k;
       Some (Suspend, port_trigger_pendsv (exit_critical pm k))
     }
   }"

definition z_impl_mutex_try_lock_timeout ::
  "u32 \<Rightarrow> tcb_ptr option \<Rightarrow> u32 \<Rightarrow> kernel \<Rightarrow> (u32 \<times> kernel) option" where
  "z_impl_mutex_try_lock_timeout p caller timeout_ms k = do {
     let (pm, k) = enter_critical k;
     m \<leftarrow> mutexes k p;
     if mtx_owner m = caller then Some (0, exit_critical pm k)
     else if mtx_owner m = None then
       Some (0, exit_critical pm (set_mutex p (m\<lparr>mtx_owner := caller\<rparr>) k))
     else if timeout_ms = 0 then Some (- 1, exit_critical pm k)
     else do {
       t \<leftarrow> caller;
       k \<leftarrow> wait_push (MutexWait p) t k;
       let k = set_timeout (MutexWait p) t timeout_ms k;
       Some (- 1, exit_critical pm k)
     }
   }"

text \<open>
  \<open>z_impl_mutex_unlock\<close> and \<open>z_impl_mutex_unlock_for\<close> have the same body after the owner is
  known.
\<close>

definition z_impl_mutex_unlock_for :: "u32 \<Rightarrow> tcb_ptr option \<Rightarrow> kernel \<Rightarrow> kernel option" where
  "z_impl_mutex_unlock_for p owner k = do {
     let (pm, k) = enter_critical k;
     m \<leftarrow> mutexes k p;
     if mtx_owner m \<noteq> owner then Some (exit_critical pm k)
     else case mtx_wait_list m of
       Some waiter \<Rightarrow> do {
         let k = wait_pop (MutexWait p) waiter k;
         m \<leftarrow> mutexes k p;
         let k = set_mutex p (m\<lparr>mtx_owner := Some waiter\<rparr>) k;
         Some (scheduler_wake_task waiter 0 (exit_critical pm k))
       }
     | None \<Rightarrow>
         Some (port_trigger_pendsv (exit_critical pm (set_mutex p (m\<lparr>mtx_owner := None\<rparr>) k)))
   }"

definition z_impl_mutex_unlock :: "u32 \<Rightarrow> kernel \<Rightarrow> kernel option" where
  "z_impl_mutex_unlock p k = z_impl_mutex_unlock_for p (scheduler_get_current k) k"

section \<open>Lemmas\<close>

lemma set_mutex_simps [simp]:
  "tcb_pool (set_mutex p s k) = tcb_pool k" "primask (set_mutex p s k) = primask k"
  "mem (set_mutex p s k) = mem k" "mutexes (set_mutex p s k) = (mutexes k)(p \<mapsto> s)"
  "sems (set_mutex p s k) = sems k" "queues (set_mutex p s k) = queues k"
  by (simp_all add: set_mutex_def)

lemma prim_inv_set_mutex:
  assumes "prim_inv W k" "mutexes k p = Some s" "mtx_wait_list s' = mtx_wait_list s"
  shows "prim_inv W (set_mutex p s' k)"
  using assms
  by (subst prim_inv_cong [of _ k]) (auto simp: read_head_def set_mutex_def split: wait_head.splits)

text \<open>A free mutex has no waiters, and the owner does not wait for it.\<close>

definition mutex_ok :: "u32 \<Rightarrow> (wait_head \<Rightarrow> tcb_ptr list) \<Rightarrow> kernel \<Rightarrow> bool" where
  "mutex_ok p W k \<longleftrightarrow> (case mutexes k p of None \<Rightarrow> False
     | Some m \<Rightarrow> (case mtx_owner m of
         None \<Rightarrow> W (MutexWait p) = [] | Some t \<Rightarrow> t \<notin> set (W (MutexWait p))))"

lemma mutex_ok_block:
  assumes "mutex_ok p W k" "mutexes k p = Some m" "mtx_owner m \<noteq> None" "mtx_owner m \<noteq> Some t"
    "prims_same k k'"
  shows "mutex_ok p (W(MutexWait p := t # W (MutexWait p))) k'"
    "map_option mtx_owner (mutexes k' p) = Some (mtx_owner m)"
proof -
  have same: "map_option mtx_owner (mutexes k' p) = map_option mtx_owner (mutexes k p)"
    using assms(5) by (simp add: prims_same_def)
  then show "map_option mtx_owner (mutexes k' p) = Some (mtx_owner m)" using assms(2) by simp
  obtain m' where m': "mutexes k' p = Some m'" "mtx_owner m' = mtx_owner m"
    using same assms(2) by (cases "mutexes k' p") auto
  then show "mutex_ok p (W(MutexWait p := t # W (MutexWait p))) k'"
    using assms(1-4) by (auto simp: mutex_ok_def)
qed

section \<open>Properties\<close>

text \<open>
  C19. A privileged lock, in every case: the owner gets 0 again without a change (the lock is
  reentrant and not counted); a free mutex is taken; with timeout 0 a held mutex gives \<open>-1\<close> and
  no change; otherwise the task goes in front of the wait list, WAITING with its timeout, and the
  owner stays.
\<close>

theorem mutex_lock_correct:
  assumes inv: "prim_inv W k" and ok: "mutex_ok p W k" and m: "mutexes k p = Some m"
    and cur: "current_task k = Some t" "\<And>h. t \<notin> set (W h)" "blocking_wait_list (tcb_pool k t) = None"
  shows "\<exists>r k'. z_impl_mutex_lock_timeout p timeout_ms k = Some (r, k') \<and>
    primask k' = primask k \<and> mem k' = mem k \<and>
    (if mtx_owner m = Some t then r = Return 0 \<and> k' = k
     else if mtx_owner m = None then r = Return 0 \<and> k' = set_mutex p (m\<lparr>mtx_owner := Some t\<rparr>) k \<and>
       prim_inv W k' \<and> mutex_ok p W k'
     else if timeout_ms = 0 then r = Return (- 1) \<and> k' = k
     else r = Suspend \<and> pendsv k' \<and> prim_inv (W(MutexWait p := t # W (MutexWait p))) k' \<and>
       mutex_ok p (W(MutexWait p := t # W (MutexWait p))) k' \<and>
       map_option mtx_owner (mutexes k' p) = Some (mtx_owner m) \<and>
       tstate (tcb_pool k' t) = TASK_WAITING \<and>
       delay_ticks (tcb_pool k' t) = (if timeout_ms = CREST_WAIT_FOREVER then 0 else timeout_ms))"
proof -
  consider (mine) "mtx_owner m = Some t" | (free) "mtx_owner m = None"
    | (poll) "mtx_owner m \<noteq> Some t" "mtx_owner m \<noteq> None" "timeout_ms = 0"
    | (block) "mtx_owner m \<noteq> Some t" "mtx_owner m \<noteq> None" "timeout_ms \<noteq> 0" by blast
  then show ?thesis
  proof cases
    case mine
    then show ?thesis
      using m cur by (simp add: z_impl_mutex_lock_timeout_def scheduler_get_current_def state_defs)
  next
    case free
    let ?k' = "set_mutex p (m\<lparr>mtx_owner := Some t\<rparr>) k"
    have "z_impl_mutex_lock_timeout p timeout_ms k = Some (Return 0, ?k')"
      using m cur free by (simp add: z_impl_mutex_lock_timeout_def scheduler_get_current_def state_defs)
    moreover have "prim_inv W ?k'" using prim_inv_set_mutex [OF inv m] by simp
    moreover have "mutex_ok p W ?k'" using cur(2) by (simp add: mutex_ok_def)
    ultimately show ?thesis using free by simp
  next
    case poll
    then show ?thesis
      using m cur by (auto simp: z_impl_mutex_lock_timeout_def scheduler_get_current_def state_defs)
  next
    case block
    have h: "read_head (MutexWait p) k \<noteq> None" using m by (simp add: read_head_def)
    obtain k1 k' where k': "wait_push (MutexWait p) t (set_waiting t (k\<lparr>primask := 1\<rparr>)) = Some k1"
      "k' = (set_timeout (MutexWait p) t timeout_ms k1)\<lparr>primask := primask k, pendsv := True\<rparr>"
      "prim_inv (W(MutexWait p := t # W (MutexWait p))) k'" "prims_same k k'" "mem k' = mem k" "tstate (tcb_pool k' t) = TASK_WAITING"
      "delay_ticks (tcb_pool k' t) = (if timeout_ms = CREST_WAIT_FOREVER then 0 else timeout_ms)"
      by (rule lifo.suspend [OF inv h cur(2,3) block(3)], rule that; assumption)
    have "z_impl_mutex_lock_timeout p timeout_ms k = Some (Suspend, k')"
      using block m cur k'(1)
      by (simp add: z_impl_mutex_lock_timeout_def enter_critical_def exit_critical_def port_trigger_pendsv_def
          scheduler_get_current_def k'(2))
    moreover have "primask k' = primask k" "pendsv k'" by (simp_all add: k'(2))
    ultimately show ?thesis using k'(3,5-7) mutex_ok_block [OF ok m block(2,1) k'(4)] block by auto
  qed
qed

text \<open>A sample state: task 0 runs and owns the mutex at \<open>0x20008008\<close>, task 1 waits for it.\<close>

definition demo_mutex :: kernel where
  "demo_mutex = demo_boot\<lparr>
     tcb_pool := (tcb_pool demo_boot)
       (0 := zero_tcb\<lparr>tstate := TASK_RUNNING\<rparr>,
        1 := zero_tcb\<lparr>tstate := TASK_WAITING, flags := TASK_FLAG_SVC_BLOCKED, stack_pointer := 0x20008100\<rparr>,
        2 := zero_tcb\<lparr>tstate := TASK_WAITING, flags := TASK_FLAG_SVC_BLOCKED, stack_pointer := 0x20008200\<rparr>),
     current_task := Some 0,
     mutexes := [0x20008008 \<mapsto> \<lparr>mtx_owner = Some 0, mtx_wait_list = Some 1\<rparr>]\<rparr>"

definition demo_mutex_waits :: "wait_head \<Rightarrow> tcb_ptr list" where
  "demo_mutex_waits = (\<lambda>_. [])(MutexWait 0x20008008 := [1])"

lemma demo_mutex_fields [simp]:
  "mutexes demo_mutex 0x20008008 = Some \<lparr>mtx_owner = Some 0, mtx_wait_list = Some 1\<rparr>"
  "current_task demo_mutex = Some 0" "primask demo_mutex = 0"
  "t \<noteq> 1 \<Longrightarrow> t \<notin> set (demo_mutex_waits h)"
  "demo_mutex_waits (MutexWait 0x20008008) = [1]"
  "blocking_wait_list (tcb_pool demo_mutex t) = None" "tstate (tcb_pool demo_mutex 2) = TASK_WAITING"
  by (simp_all add: demo_mutex_def demo_mutex_waits_def zero_tcb_def demo_boot_def boot_kernel_def)

lemma demo_mutex_inv:
  "prim_inv demo_mutex_waits demo_mutex" "mutex_ok 0x20008008 demo_mutex_waits demo_mutex"
proof -
  have heads: "read_head h demo_mutex = (if h = MutexWait 0x20008008 then Some (Some 1) else None)" for h
    by (cases h) (simp_all add: read_head_def demo_mutex_def demo_boot_def boot_kernel_def)
  then have "wait_wf demo_mutex_waits demo_mutex"
    by (auto simp: wait_wf_def demo_mutex_waits_def demo_mutex_def zero_tcb_def split: if_splits)
  moreover have "timeouts_ok demo_mutex_waits demo_mutex" "waiting_ok demo_mutex_waits demo_mutex"
    by (auto simp: timeouts_ok_def waiting_ok_def demo_mutex_waits_def demo_mutex_def zero_tcb_def
        demo_boot_def boot_kernel_def)
  ultimately show "prim_inv demo_mutex_waits demo_mutex" by (simp add: prim_inv_def)
  show "mutex_ok 0x20008008 demo_mutex_waits demo_mutex" by (simp add: mutex_ok_def)
qed

theorem mutex_lock_correct_witness:
  "\<exists>k'. z_impl_mutex_lock_timeout 0x20008008 0 demo_mutex = Some (Return 0, k') \<and> k' = demo_mutex"
proof -
  have t: "\<And>h. 0 \<notin> set (demo_mutex_waits h)" by simp
  show ?thesis
    using mutex_lock_correct [OF demo_mutex_inv demo_mutex_fields(1,2) t demo_mutex_fields(6), of 0] by auto
qed

text \<open>
  The worker's lock on behalf of a WAITING caller: 0 exactly when the caller owns the mutex
  afterwards; \<open>-1\<close> with timeout 0 changes nothing, and otherwise leaves the caller in front of the
  wait list of the unchanged owner.
\<close>

theorem mutex_try_lock_correct:
  assumes inv: "prim_inv W k" and ok: "mutex_ok p W k" and m: "mutexes k p = Some m"
    and cur: "tstate (tcb_pool k t) = TASK_WAITING" "\<And>h. t \<notin> set (W h)"
  shows "\<exists>r k'. z_impl_mutex_try_lock_timeout p (Some t) timeout_ms k = Some (r, k') \<and>
    primask k' = primask k \<and> mem k' = mem k \<and>
    (r = 0 \<longleftrightarrow> map_option mtx_owner (mutexes k' p) = Some (Some t)) \<and>
    (if mtx_owner m = Some t then k' = k
     else if mtx_owner m = None then k' = set_mutex p (m\<lparr>mtx_owner := Some t\<rparr>) k \<and>
       prim_inv W k' \<and> mutex_ok p W k'
     else if timeout_ms = 0 then r = - 1 \<and> k' = k
     else r = - 1 \<and> prim_inv (W(MutexWait p := t # W (MutexWait p))) k' \<and>
       mutex_ok p (W(MutexWait p := t # W (MutexWait p))) k' \<and>
       map_option mtx_owner (mutexes k' p) = Some (mtx_owner m) \<and>
       delay_ticks (tcb_pool k' t) = (if timeout_ms = CREST_WAIT_FOREVER then 0 else timeout_ms))"
proof -
  consider (mine) "mtx_owner m = Some t" | (free) "mtx_owner m = None"
    | (poll) "mtx_owner m \<noteq> Some t" "mtx_owner m \<noteq> None" "timeout_ms = 0"
    | (block) "mtx_owner m \<noteq> Some t" "mtx_owner m \<noteq> None" "timeout_ms \<noteq> 0" by blast
  then show ?thesis
  proof cases
    case mine
    then show ?thesis using m by (simp add: z_impl_mutex_try_lock_timeout_def state_defs)
  next
    case free
    let ?k' = "set_mutex p (m\<lparr>mtx_owner := Some t\<rparr>) k"
    have "z_impl_mutex_try_lock_timeout p (Some t) timeout_ms k = Some (0, ?k')"
      using m free by (simp add: z_impl_mutex_try_lock_timeout_def state_defs)
    moreover have "prim_inv W ?k'" using prim_inv_set_mutex [OF inv m] by simp
    moreover have "mutex_ok p W ?k'" using cur(2) by (simp add: mutex_ok_def)
    ultimately show ?thesis using free by simp
  next
    case poll
    then show ?thesis using m by (auto simp: z_impl_mutex_try_lock_timeout_def state_defs)
  next
    case block
    have h: "read_head (MutexWait p) k \<noteq> None" using m by (simp add: read_head_def)
    obtain k1 k' where k': "wait_push (MutexWait p) t (k\<lparr>primask := 1\<rparr>) = Some k1"
      "k' = (set_timeout (MutexWait p) t timeout_ms k1)\<lparr>primask := primask k\<rparr>"
      "prim_inv (W(MutexWait p := t # W (MutexWait p))) k'" "prims_same k k'" "mem k' = mem k"
      "delay_ticks (tcb_pool k' t) = (if timeout_ms = CREST_WAIT_FOREVER then 0 else timeout_ms)"
      by (rule lifo.enqueue [OF inv h cur(2,1) block(3)], rule that; assumption)
    have "z_impl_mutex_try_lock_timeout p (Some t) timeout_ms k = Some (- 1, k')"
      using block m k'(1) by (simp add: z_impl_mutex_try_lock_timeout_def enter_critical_def exit_critical_def k'(2))
    moreover have "primask k' = primask k" "(- 1 :: u32) \<noteq> 0" by (simp_all add: k'(2))
    ultimately show ?thesis using k'(3,5,6) mutex_ok_block [OF ok m block(2,1) k'(4)] block by auto
  qed
qed

theorem mutex_try_lock_correct_witness:
  "\<exists>k'. z_impl_mutex_try_lock_timeout 0x20008008 (Some 2) 7 demo_mutex = Some (- 1, k') \<and>
     prim_inv (demo_mutex_waits(MutexWait 0x20008008 := [2, 1])) k' \<and> delay_ticks (tcb_pool k' 2) = 7"
proof -
  have t: "\<And>h. 2 \<notin> set (demo_mutex_waits h)" by simp
  show ?thesis
    using mutex_try_lock_correct [OF demo_mutex_inv demo_mutex_fields(1,7) t, of 7] by auto
qed

text \<open>
  C20. Unlock by a task that does not own the mutex changes nothing.  By the owner it hands the
  mutex to the task that blocked last, which becomes owner, READY without timeout, and gets 0 as
  its result; without waiters the mutex becomes free.  The invariants are kept in every case.
\<close>

theorem mutex_unlock_correct:
  assumes inv: "prim_inv W k" and ok: "mutex_ok p W k" and m: "mutexes k p = Some m"
  shows "\<exists>k'. z_impl_mutex_unlock_for p (Some o') k = Some k' \<and> primask k' = primask k \<and>
    (if mtx_owner m \<noteq> Some o' then k' = k
     else case W (MutexWait p) of
       [] \<Rightarrow> map_option mtx_owner (mutexes k' p) = Some None \<and> mem k' = mem k \<and> pendsv k' \<and>
         prim_inv W k' \<and> mutex_ok p W k'
     | t # ts \<Rightarrow> map_option mtx_owner (mutexes k' p) = Some (Some t) \<and> pendsv k' \<and>
         tstate (tcb_pool k' t) = TASK_READY \<and> delay_ticks (tcb_pool k' t) = 0 \<and>
         mem k' = deliver 0 (tcb_pool k t) (mem k) \<and>
         prim_inv (W(MutexWait p := ts)) k' \<and> mutex_ok p (W(MutexWait p := ts)) k')"
proof -
  have head: "read_head (MutexWait p) k = Some (mtx_wait_list m)" using m by (simp add: read_head_def)
  consider (other) "mtx_owner m \<noteq> Some o'" | (free) "mtx_owner m = Some o'" "W (MutexWait p) = []"
    | (hand) t ts where "mtx_owner m = Some o'" "W (MutexWait p) = t # ts"
    by (cases "W (MutexWait p)") auto
  then show ?thesis
  proof cases
    case other
    then show ?thesis using m by (simp add: z_impl_mutex_unlock_for_def state_defs)
  next
    case free
    have none: "mtx_wait_list m = None" by (rule waiters_head(1) [OF inv head free(2)])
    let ?k1 = "set_mutex p (m\<lparr>mtx_owner := None\<rparr>) k"
    have run: "z_impl_mutex_unlock_for p (Some o') k = Some (?k1\<lparr>pendsv := True\<rparr>)"
      using none m free by (simp add: z_impl_mutex_unlock_for_def state_defs)
    have "prim_inv W ?k1" using prim_inv_set_mutex [OF inv m] by simp
    then have "prim_inv W (?k1\<lparr>pendsv := True\<rparr>)" by (subst prim_inv_cong [of _ ?k1]) simp_all
    moreover have "mutex_ok p W (?k1\<lparr>pendsv := True\<rparr>)" using free by (simp add: mutex_ok_def)
    ultimately show ?thesis using run free by simp
  next
    case hand
    note pop = wait_pop_first [OF inv head hand(2)]
    let ?W = "W(MutexWait p := ts)" and ?k1 = "wait_pop (MutexWait p) t (k\<lparr>primask := 1\<rparr>)"
    let ?m = "m\<lparr>mtx_wait_list := wait_next (tcb_pool k t)\<rparr>"
    have m1: "mutexes ?k1 p = Some ?m"
      using m by (simp add: wait_pop_def write_head_def set_mutex_def upd_tcb_def)
    let ?k2 = "set_mutex p (?m\<lparr>mtx_owner := Some t\<rparr>) ?k1"
    let ?k' = "scheduler_wake_task t 0 (?k2\<lparr>primask := primask k\<rparr>)"
    have run: "z_impl_mutex_unlock_for p (Some o') k = Some ?k'"
      using pop(1) m m1 hand by (simp add: z_impl_mutex_unlock_for_def enter_critical_def exit_critical_def)
    have "prim_inv ?W ?k2" using prim_inv_set_mutex [OF pop(3) m1] by simp
    then have "prim_inv ?W (?k2\<lparr>primask := primask k\<rparr>)" by (subst prim_inv_cong [of _ ?k2]) simp_all
    then have inv': "prim_inv ?W ?k'" using pop(2) by (rule wake_inv)
    have "t \<notin> set ts" using pop(2) [of "MutexWait p"] by simp
    then have ok': "mutex_ok p ?W ?k'" by (simp add: mutex_ok_def)
    show ?thesis using run inv' ok' hand by (simp add: deliver_def saved_r0_def)
  qed
qed

theorem mutex_unlock_correct_witness:
  "\<exists>k'. z_impl_mutex_unlock_for 0x20008008 (Some 0) demo_mutex = Some k' \<and>
     map_option mtx_owner (mutexes k' 0x20008008) = Some (Some 1) \<and>
     tstate (tcb_pool k' 1) = TASK_READY \<and> prim_inv (\<lambda>_. []) k'"
proof -
  have "demo_mutex_waits(MutexWait 0x20008008 := []) = (\<lambda>_. [])" by (auto simp: demo_mutex_waits_def)
  with mutex_unlock_correct [OF demo_mutex_inv demo_mutex_fields(1), of 0] show ?thesis by auto
qed

end
