(* ===== verification/Kwork.thy ===== *)
theory Kwork
  imports Task_Delay Queue_Create Semaphore Mutex Kobject Uart
begin

text \<open>
  The kernel worker, \<open>kernel/kwork.c\<close>: the ring of work items the SVC handler fills, the dispatch of
  one item to the primitive it asks for, the delivery of results, and the loop of the worker task.
  The ring is the second interpretation of the bounded FIFO contract.
\<close>

section \<open>The ring of work items\<close>

definition kwork_push :: "work_item \<Rightarrow> kernel \<Rightarrow> u32 \<times> kernel" where
  "kwork_push item k =
     (let (pm, k) = enter_critical k; nxt = (kwork_tail k + 1) mod KWORK_QUEUE_SIZE in
      if nxt = kwork_head k then (- 1, exit_critical pm k)
      else let k = k\<lparr>kwork_buf := (kwork_buf k)(kwork_tail k := item)\<rparr>;
               k = k\<lparr>kwork_tail := nxt\<rparr>;
               k = (case kernel_tcb k of
                 Some t \<Rightarrow> if tstate (tcb_pool k t) = TASK_WAITING
                   then upd_tcb t (\<lambda>c. c\<lparr>tstate := TASK_READY\<rparr>) k else k
               | None \<Rightarrow> k)
           in (0, exit_critical pm k))"

definition kwork_pop_locked :: "kernel \<Rightarrow> work_item option \<times> kernel" where
  "kwork_pop_locked k =
     (if kwork_head k = kwork_tail k then (None, k)
      else (Some (kwork_buf k (kwork_head k)),
            k\<lparr>kwork_head := (kwork_head k + 1) mod KWORK_QUEUE_SIZE\<rparr>))"

section \<open>Dispatch\<close>

definition SYSCALL_DELAY :: u32 where [simp]: "SYSCALL_DELAY = 0"
definition SYSCALL_QUEUE_SEND :: u32 where [simp]: "SYSCALL_QUEUE_SEND = 1"
definition SYSCALL_QUEUE_RECV :: u32 where [simp]: "SYSCALL_QUEUE_RECV = 2"
definition SYSCALL_SEM_POST :: u32 where [simp]: "SYSCALL_SEM_POST = 3"
definition SYSCALL_SEM_WAIT :: u32 where [simp]: "SYSCALL_SEM_WAIT = 4"
definition SYSCALL_MUTEX_LOCK :: u32 where [simp]: "SYSCALL_MUTEX_LOCK = 5"
definition SYSCALL_MUTEX_UNLOCK :: u32 where [simp]: "SYSCALL_MUTEX_UNLOCK = 6"
definition SYSCALL_UART_WRITE :: u32 where [simp]: "SYSCALL_UART_WRITE = 7"
definition SYSCALL_QUEUE_CREATE :: u32 where [simp]: "SYSCALL_QUEUE_CREATE = 8"
definition SYSCALL_SEM_CREATE :: u32 where [simp]: "SYSCALL_SEM_CREATE = 9"
definition SYSCALL_MUTEX_CREATE :: u32 where [simp]: "SYSCALL_MUTEX_CREATE = 10"

definition complete :: "tcb_ptr option \<Rightarrow> u32 \<Rightarrow> kernel \<Rightarrow> kernel" where
  "complete task result k = (case task of None \<Rightarrow> k | Some t \<Rightarrow> scheduler_wake_task t result k)"

text \<open>The cases of the switch, one definition each.\<close>

definition dispatch_delay :: "work_item \<Rightarrow> kernel \<Rightarrow> kernel option" where
  "dispatch_delay w k = (case wi_caller w of
     None \<Rightarrow> Some k
   | Some t \<Rightarrow>
       let k = k\<lparr>mem := store32 (mem k) (saved_r0 (tcb_pool k t)) 0\<rparr>;
           k = upd_tcb t (\<lambda>c. c\<lparr>flags := flags c AND NOT TASK_FLAG_SVC_BLOCKED\<rparr>) k
       in Some (scheduler_sleep t (wi_arg0 w) k))"

text \<open>With timeout 0 neither \<open>z_impl_queue_push\<close> nor \<open>z_impl_queue_pop\<close> suspends.\<close>

definition dispatch_queue_send :: "work_item \<Rightarrow> kernel \<Rightarrow> kernel option" where
  "dispatch_queue_send w k = (let (q, k) = k_obj_get (wi_arg0 w) KOBJ_QUEUE k in
     if q = 0 then Some (complete (wi_caller w) (- 1) k)
     else do {
       (r, k) \<leftarrow> z_impl_queue_push q (wi_arg1 w) 0 k;
       case r of Return r \<Rightarrow> Some (complete (wi_caller w) r k) | Suspend \<Rightarrow> None
     })"

definition dispatch_queue_recv :: "work_item \<Rightarrow> kernel \<Rightarrow> kernel option" where
  "dispatch_queue_recv w k = (let (q, k) = k_obj_get (wi_arg0 w) KOBJ_QUEUE k in
     if q = 0 then Some (complete (wi_caller w) (- 1) k)
     else do {
       (r, k) \<leftarrow> z_impl_queue_pop q (wi_arg1 w) 0 k;
       case r of Return r \<Rightarrow> Some (complete (wi_caller w) r k) | Suspend \<Rightarrow> None
     })"

definition dispatch_sem_post :: "work_item \<Rightarrow> kernel \<Rightarrow> kernel option" where
  "dispatch_sem_post w k = (let (s, k) = k_obj_get (wi_arg0 w) KOBJ_SEM k in
     if s = 0 then Some (complete (wi_caller w) (- 1) k)
     else do {
       k \<leftarrow> z_impl_sem_give s k;
       Some (complete (wi_caller w) 0 k)
     })"

definition dispatch_sem_wait :: "work_item \<Rightarrow> kernel \<Rightarrow> kernel option" where
  "dispatch_sem_wait w k = (let (s, k) = k_obj_get (wi_arg0 w) KOBJ_SEM k in
     if s = 0 then Some (complete (wi_caller w) (- 1) k)
     else let timeout_ms = wi_arg1 w in do {
       (r, k) \<leftarrow> z_impl_sem_try_take_timeout s (wi_caller w) timeout_ms k;
       Some (if r = 0 then complete (wi_caller w) 0 k
             else if timeout_ms = 0 then complete (wi_caller w) (- 1) k
             else k)
     })"

definition dispatch_mutex_lock :: "work_item \<Rightarrow> kernel \<Rightarrow> kernel option" where
  "dispatch_mutex_lock w k = (let (m, k) = k_obj_get (wi_arg0 w) KOBJ_MUTEX k in
     if m = 0 then Some (complete (wi_caller w) (- 1) k)
     else let timeout_ms = wi_arg1 w in do {
       (r, k) \<leftarrow> z_impl_mutex_try_lock_timeout m (wi_caller w) timeout_ms k;
       Some (if 0 \<le> sint r then complete (wi_caller w) 0 k
             else if timeout_ms = 0 then complete (wi_caller w) (- 1) k
             else k)
     })"

definition dispatch_mutex_unlock :: "work_item \<Rightarrow> kernel \<Rightarrow> kernel option" where
  "dispatch_mutex_unlock w k = (let (m, k) = k_obj_get (wi_arg0 w) KOBJ_MUTEX k in
     if m = 0 then Some (complete (wi_caller w) (- 1) k)
     else do {
       k \<leftarrow> z_impl_mutex_unlock_for m (wi_caller w) k;
       Some (complete (wi_caller w) 0 k)
     })"

definition dispatch_uart_write :: "work_item \<Rightarrow> kernel \<Rightarrow> kernel option" where
  "dispatch_uart_write w k = do {
     k \<leftarrow> uart_write (wi_arg0 w) k;
     Some (complete (wi_caller w) 0 k)
   }"

text \<open>The handle a creation answers with: \<open>KOBJ_INVALID\<close> when there is no object.\<close>

definition new_handle :: "u32 \<Rightarrow> kobj_type \<Rightarrow> kernel \<Rightarrow> u32 \<times> kernel" where
  "new_handle p ty k = (if p \<noteq> 0 then k_obj_alloc p ty k else (KOBJ_INVALID, k))"

definition dispatch_queue_create :: "work_item \<Rightarrow> kernel \<Rightarrow> kernel option" where
  "dispatch_queue_create w k = do {
     (q, k) \<leftarrow> z_impl_queue_create (wi_arg0 w) (wi_arg1 w) k;
     let (h, k) = new_handle q KOBJ_QUEUE k;
     Some (complete (wi_caller w) h k)
   }"

definition dispatch_sem_create :: "work_item \<Rightarrow> kernel \<Rightarrow> kernel option" where
  "dispatch_sem_create w k = do {
     (s, k) \<leftarrow> z_impl_sem_create (wi_arg0 w) k;
     let (h, k) = new_handle s KOBJ_SEM k;
     Some (complete (wi_caller w) h k)
   }"

definition dispatch_mutex_create :: "work_item \<Rightarrow> kernel \<Rightarrow> kernel option" where
  "dispatch_mutex_create w k = do {
     (m, k) \<leftarrow> z_impl_mutex_create k;
     let (h, k) = new_handle m KOBJ_MUTEX k;
     Some (complete (wi_caller w) h k)
   }"

definition dispatch :: "work_item \<Rightarrow> kernel \<Rightarrow> kernel option" where
  "dispatch w k =
     (if wi_id w = SYSCALL_DELAY then dispatch_delay w k
      else if wi_id w = SYSCALL_QUEUE_SEND then dispatch_queue_send w k
      else if wi_id w = SYSCALL_QUEUE_RECV then dispatch_queue_recv w k
      else if wi_id w = SYSCALL_SEM_POST then dispatch_sem_post w k
      else if wi_id w = SYSCALL_SEM_WAIT then dispatch_sem_wait w k
      else if wi_id w = SYSCALL_MUTEX_LOCK then dispatch_mutex_lock w k
      else if wi_id w = SYSCALL_MUTEX_UNLOCK then dispatch_mutex_unlock w k
      else if wi_id w = SYSCALL_UART_WRITE then dispatch_uart_write w k
      else if wi_id w = SYSCALL_QUEUE_CREATE then dispatch_queue_create w k
      else if wi_id w = SYSCALL_SEM_CREATE then dispatch_sem_create w k
      else if wi_id w = SYSCALL_MUTEX_CREATE then dispatch_mutex_create w k
      else Some (complete (wi_caller w) (- 1) k))"

section \<open>The worker task\<close>

definition kernel_task_start :: "kernel \<Rightarrow> kernel" where
  "kernel_task_start k = k\<lparr>kernel_tcb := scheduler_get_current k\<rparr>"

text \<open>The inner loop: take items one by one, each in a critical section of its own, and dispatch them.\<close>

definition kwork_take :: "kernel \<Rightarrow> work_item option \<times> kernel" where
  "kwork_take k = (let (pm, k) = enter_critical k; (got, k) = kwork_pop_locked k
     in (got, exit_critical pm k))"

partial_function (option) kwork_drain :: "kernel \<Rightarrow> kernel option" where
  "kwork_drain k = (case kwork_take k of
     (None, k) \<Rightarrow> Some k
   | (Some w, k) \<Rightarrow> do { k \<leftarrow> dispatch w k; kwork_drain k })"

text \<open>One round of the outer loop of \<open>kernel_task_fn\<close>.\<close>

definition kernel_task_round :: "kernel \<Rightarrow> kernel option" where
  "kernel_task_round k = do {
     k \<leftarrow> kwork_drain k;
     t \<leftarrow> kernel_tcb k;
     Some (port_trigger_pendsv (upd_tcb t (\<lambda>c. c\<lparr>tstate := TASK_WAITING\<rparr>) k))
   }"

end
