(* ===== verification/Kwork_Props.thy ===== *)
theory Kwork_Props
  imports Kwork Ring
begin

text \<open>
  The ring of work items as a bounded FIFO of 15 items, and what \<open>dispatch\<close> does with requests it must
  refuse and with a delay.
\<close>

section \<open>The ring\<close>

definition kwork_items :: "kernel \<Rightarrow> work_item list" where
  "kwork_items k = map (kwork_buf k) (ring_slots KWORK_QUEUE_SIZE (kwork_head k) (kwork_tail k))"

definition kwork_wf :: "kernel \<Rightarrow> bool" where
  "kwork_wf k \<longleftrightarrow> kwork_head k < KWORK_QUEUE_SIZE \<and> kwork_tail k < KWORK_QUEUE_SIZE"

lemma kwork_wfD: "kwork_wf k \<Longrightarrow> kwork_head k < KWORK_QUEUE_SIZE" "kwork_wf k \<Longrightarrow> kwork_tail k < KWORK_QUEUE_SIZE"
  by (simp_all add: kwork_wf_def)

lemma kwork_items_length: "length (kwork_items k) = ring_count KWORK_QUEUE_SIZE (kwork_head k) (kwork_tail k)"
  by (simp add: kwork_items_def)

lemma kwork_items_bound: "kwork_wf k \<Longrightarrow> length (kwork_items k) \<le> KWORK_QUEUE_SIZE - 1"
  using ring_count_bound [OF kwork_wfD] unfolding kwork_items_length by fastforce

lemma kwork_items_cong:
  "kwork_buf k' = kwork_buf k \<Longrightarrow> kwork_head k' = kwork_head k \<Longrightarrow> kwork_tail k' = kwork_tail k \<Longrightarrow>
   kwork_items k' = kwork_items k \<and> kwork_wf k' = kwork_wf k"
  by (simp add: kwork_items_def kwork_wf_def)

text \<open>The state after a successful push.\<close>

definition kwork_pushed :: "work_item \<Rightarrow> kernel \<Rightarrow> kernel" where
  "kwork_pushed w k = k\<lparr>kwork_buf := (kwork_buf k)(kwork_tail k := w),
     kwork_tail := (kwork_tail k + 1) mod KWORK_QUEUE_SIZE,
     tcb_pool := (case kernel_tcb k of None \<Rightarrow> tcb_pool k
       | Some t \<Rightarrow> (tcb_pool k)(t := (tcb_pool k t)\<lparr>tstate :=
           (if tstate (tcb_pool k t) = TASK_WAITING then TASK_READY else tstate (tcb_pool k t))\<rparr>))\<rparr>"

lemma kwork_push_eq:
  assumes "kwork_wf k"
  shows "kwork_push w k = (if length (kwork_items k) = KWORK_QUEUE_SIZE - 1 then (- 1, k) else (0, kwork_pushed w k))"
  using ring_full [OF kwork_wfD [OF assms]]
  by (auto simp: kwork_push_def kwork_pushed_def kwork_items_length state_defs Let_def split: option.split)

lemma kwork_pushed_items:
  assumes "kwork_wf k" "length (kwork_items k) \<noteq> KWORK_QUEUE_SIZE - 1"
  shows "kwork_items (kwork_pushed w k) = kwork_items k @ [w]" "kwork_wf (kwork_pushed w k)"
proof -
  note lt = kwork_wfD [OF assms(1)]
  have "Suc (kwork_tail k) mod KWORK_QUEUE_SIZE \<noteq> kwork_head k"
    using ring_full [OF lt] assms(2) unfolding kwork_items_length by blast
  from ring_push [OF lt this]
  have "ring_slots KWORK_QUEUE_SIZE (kwork_head k) ((kwork_tail k + 1) mod KWORK_QUEUE_SIZE) =
      ring_slots KWORK_QUEUE_SIZE (kwork_head k) (kwork_tail k) @ [kwork_tail k]" by simp
  then show "kwork_items (kwork_pushed w k) = kwork_items k @ [w]"
    using ring_tail_free [OF lt] by (auto simp: kwork_items_def kwork_pushed_def)
  show "kwork_wf (kwork_pushed w k)" using lt by (simp add: kwork_wf_def kwork_pushed_def)
qed

lemma kwork_pop_eq:
  assumes "kwork_wf k"
  shows "kwork_pop_locked k = (case kwork_items k of [] \<Rightarrow> (None, k)
     | w # ws \<Rightarrow> (Some w, k\<lparr>kwork_head := (kwork_head k + 1) mod KWORK_QUEUE_SIZE\<rparr>))"
    "kwork_items k = w # ws \<Longrightarrow>
       kwork_items (k\<lparr>kwork_head := (kwork_head k + 1) mod KWORK_QUEUE_SIZE\<rparr>) = ws \<and>
       kwork_wf (k\<lparr>kwork_head := (kwork_head k + 1) mod KWORK_QUEUE_SIZE\<rparr>)"
proof -
  note lt = kwork_wfD [OF assms]
  have pop: "kwork_head k \<noteq> kwork_tail k \<Longrightarrow> kwork_items k = kwork_buf k (kwork_head k) #
      kwork_items (k\<lparr>kwork_head := (kwork_head k + 1) mod KWORK_QUEUE_SIZE\<rparr>)"
    using ring_pop [OF lt] by (simp add: kwork_items_def)
  have e: "kwork_items k = [] \<longleftrightarrow> kwork_head k = kwork_tail k"
    using ring_empty [OF lt] by (simp add: kwork_items_def)
  show "kwork_pop_locked k = (case kwork_items k of [] \<Rightarrow> (None, k)
     | w # ws \<Rightarrow> (Some w, k\<lparr>kwork_head := (kwork_head k + 1) mod KWORK_QUEUE_SIZE\<rparr>))"
    using pop e by (cases "kwork_head k = kwork_tail k") (simp_all add: kwork_pop_locked_def)
  show "kwork_items k = w # ws \<Longrightarrow>
       kwork_items (k\<lparr>kwork_head := (kwork_head k + 1) mod KWORK_QUEUE_SIZE\<rparr>) = ws \<and>
       kwork_wf (k\<lparr>kwork_head := (kwork_head k + 1) mod KWORK_QUEUE_SIZE\<rparr>)"
    using pop e lt by (cases "kwork_head k = kwork_tail k") (auto simp: kwork_wf_def)
qed

lemma kwork_take_eq: "kwork_take k = kwork_pop_locked k"
  by (simp add: kwork_take_def kwork_pop_locked_def state_defs)

text \<open>Push and pop as the operations of a bounded FIFO.\<close>

definition kwork_put :: "work_item \<Rightarrow> kernel \<Rightarrow> kernel option" where
  "kwork_put w k = (case kwork_push w k of (r, k') \<Rightarrow> if r = 0 then Some k' else None)"

definition kwork_get :: "kernel \<Rightarrow> (work_item \<times> kernel) option" where
  "kwork_get k = (case kwork_take k of (None, _) \<Rightarrow> None | (Some w, k') \<Rightarrow> Some (w, k'))"

interpretation kwork_ring: bounded_fifo kwork_items "\<lambda>_. KWORK_QUEUE_SIZE - 1" kwork_wf "\<lambda>_ _. True"
  "\<lambda>w _. w" kwork_put kwork_get
proof unfold_locales
  fix s s' :: kernel and w x assume wf: "kwork_wf s"
  show "length (kwork_items s) \<le> KWORK_QUEUE_SIZE - 1" by (rule kwork_items_bound [OF wf])
  show "kwork_put w s = None \<longleftrightarrow> length (kwork_items s) = KWORK_QUEUE_SIZE - 1"
    by (simp add: kwork_put_def kwork_push_eq [OF wf])
  show "kwork_get s = None \<longleftrightarrow> kwork_items s = []"
    by (cases "kwork_items s") (simp_all add: kwork_get_def kwork_take_eq kwork_pop_eq(1) [OF wf])
  show "kwork_wf s' \<and> kwork_items s' = kwork_items s @ [w] \<and> KWORK_QUEUE_SIZE - 1 = KWORK_QUEUE_SIZE - 1 \<and>
      (\<forall>j::work_item. True \<longrightarrow> True)" if "kwork_put w s = Some s'"
    using that kwork_pushed_items [OF wf, of w]
    by (simp add: kwork_put_def kwork_push_eq [OF wf] split: if_splits)
  show "kwork_wf s' \<and> kwork_items s = x # kwork_items s' \<and> KWORK_QUEUE_SIZE - 1 = KWORK_QUEUE_SIZE - 1 \<and>
      (\<forall>j::work_item. True \<longrightarrow> True)" if "kwork_get s = Some (x, s')"
    using that kwork_pop_eq(2) [OF wf]
    by (cases "kwork_items s") (auto simp: kwork_get_def kwork_take_eq kwork_pop_eq(1) [OF wf])
qed

text \<open>
  A push on a full ring of 15 items is refused with \<open>-1\<close> and changes nothing; otherwise the item is
  appended, 0 returned and the worker, if it is waiting, made READY; no other task changes.
\<close>

theorem kwork_push_correct:
  assumes "kwork_wf k"
  shows "if length (kwork_items k) = 15 then kwork_push w k = (- 1, k)
    else \<exists>k'. kwork_push w k = (0, k') \<and> kwork_wf k' \<and> kwork_items k' = kwork_items k @ [w] \<and>
      primask k' = primask k \<and> kernel_tcb k' = kernel_tcb k \<and>
      (\<forall>t. tcb_pool k' t = (if kernel_tcb k = Some t \<and> tstate (tcb_pool k t) = TASK_WAITING
         then (tcb_pool k t)\<lparr>tstate := TASK_READY\<rparr> else tcb_pool k t))"
  using kwork_push_eq [OF assms, of w] kwork_pushed_items [OF assms, of w]
  by (auto simp: kwork_pushed_def split: option.splits)

theorem kwork_push_correct_witness:
  "kwork_push (kwork_buf demo_boot 3) demo_boot = (0, demo_boot\<lparr>kwork_tail := 1\<rparr>) \<and> kwork_items (snd (kwork_push (kwork_buf demo_boot 3) demo_boot)) = [kwork_buf demo_boot 3]"
proof -
  have e: "kwork_wf demo_boot" "kwork_items demo_boot = []"
    by (simp_all add: kwork_wf_def kwork_items_def ring_slots_def ring_count_def demo_boot_def boot_kernel_def)
  have "kwork_push (kwork_buf demo_boot 3) demo_boot = (0, demo_boot\<lparr>kwork_tail := 1\<rparr>)"
    by (simp add: kwork_push_def state_defs demo_boot_def boot_kernel_def fun_eq_iff)
  then show ?thesis using kwork_push_correct [OF e(1), of "kwork_buf demo_boot 3"] e(2) by auto
qed

text \<open>
  The ring is first in, first out: in any sequence of pushes and takes from a good state the items taken
  are, in order, those that were in the ring and then those pushed, and the rest is still in it.
\<close>

theorem kwork_first_in_first_out:
  assumes "kwork_wf k" "fifo_run (\<lambda>w _. w) kwork_put kwork_get ops k = (ins, outs, k')"
  shows "kwork_wf k' \<and> kwork_items k @ ins = outs @ kwork_items k' \<and> length (kwork_items k') \<le> 15"
  using kwork_ring.run_fifo [OF assms(1) _ assms(2)] by simp

theorem kwork_first_in_first_out_witness:
  "\<exists>ins outs k'. fifo_run (\<lambda>w _. w) kwork_put kwork_get [None, Some w, None] demo_boot = (ins, outs, k') \<and>
     ins = outs @ kwork_items k'"
proof -
  obtain ins outs k' where run: "fifo_run (\<lambda>w _. w) kwork_put kwork_get [None, Some w, None] demo_boot = (ins, outs, k')"
    by (metis prod_cases3)
  have e: "kwork_wf demo_boot" "kwork_items demo_boot = []"
    by (simp_all add: kwork_wf_def kwork_items_def ring_slots_def ring_count_def demo_boot_def boot_kernel_def)
  show ?thesis using kwork_first_in_first_out [OF e(1) run] run e(2) by auto
qed

section \<open>Requests that are refused\<close>

text \<open>The type of the object a request names by its first argument.\<close>

definition request_type :: "u32 \<Rightarrow> kobj_type option" where
  "request_type i =
     (if i = SYSCALL_QUEUE_SEND \<or> i = SYSCALL_QUEUE_RECV then Some KOBJ_QUEUE
      else if i = SYSCALL_SEM_POST \<or> i = SYSCALL_SEM_WAIT then Some KOBJ_SEM
      else if i = SYSCALL_MUTEX_LOCK \<or> i = SYSCALL_MUTEX_UNLOCK then Some KOBJ_MUTEX else None)"

text \<open>An unknown request, or one whose handle is not live with the type it needs.\<close>

definition refused :: "work_item \<Rightarrow> kernel \<Rightarrow> bool" where
  "refused w k \<longleftrightarrow> 10 < wi_id w \<or> (case request_type (wi_id w) of None \<Rightarrow> False
     | Some ty \<Rightarrow> case kobj_live k (wi_arg0 w) of None \<Rightarrow> True | Some (p, ty') \<Rightarrow> ty' \<noteq> ty)"

lemma k_obj_get_refused:
  assumes "request_type (wi_id w) = Some ty" "refused w k" "\<not> 10 < wi_id w"
  shows "k_obj_get (wi_arg0 w) ty k = (0, k)"
  using assms by (auto simp: k_obj_get_live refused_def split: option.splits)

lemma dispatch_refused: "refused w k \<Longrightarrow> dispatch w k = Some (complete (wi_caller w) (- 1) k)"
proof -
  assume r: "refused w k"
  show ?thesis
  proof (cases "10 < wi_id w")
    case True
    then show ?thesis by (auto simp: dispatch_def)
  next
    case False
    then have "request_type (wi_id w) \<noteq> None" using r by (auto simp: refused_def split: option.splits)
    then consider ty where "request_type (wi_id w) = Some ty" "k_obj_get (wi_arg0 w) ty k = (0, k)"
      using k_obj_get_refused r False by blast
    then show ?thesis
      by cases (auto simp: request_type_def dispatch_def dispatch_queue_send_def dispatch_queue_recv_def
          dispatch_sem_post_def dispatch_sem_wait_def dispatch_mutex_lock_def dispatch_mutex_unlock_def
          split: if_splits)
  qed
qed

text \<open>
  C29. A request with an unknown number, or whose handle is stale, invalid or of the wrong type, is answered
  with \<open>-1\<close> in the caller's saved R0: the caller is READY again, and nothing else changes.
\<close>

theorem dispatch_refuses:
  assumes "refused w k" "wi_caller w = Some t"
  shows "dispatch w k = Some (k\<lparr>tcb_pool := (tcb_pool k)(t := (tcb_pool k t)
      \<lparr>flags := flags (tcb_pool k t) AND NOT TASK_FLAG_SVC_BLOCKED, tstate := TASK_READY\<rparr>),
    mem := deliver (- 1) (tcb_pool k t) (mem k), pendsv := True\<rparr>)"
  using dispatch_refused [OF assms(1)] assms(2)
  by (simp add: complete_def scheduler_wake_task_eq upd_tcb_def)

theorem dispatch_refuses_witness:
  "dispatch \<lparr>wi_id = SYSCALL_SEM_WAIT, wi_arg0 = 0x10000, wi_arg1 = 5, wi_arg2 = 0, wi_arg3 = 0, wi_caller = Some 0\<rparr>
     demo_sched = Some (demo_sched\<lparr>tcb_pool := (tcb_pool demo_sched)(0 := (tcb_pool demo_sched 0)\<lparr>flags := 0, tstate := TASK_READY\<rparr>),
       mem := store32 (mem demo_sched) 0x20008120 (- 1), pendsv := True\<rparr>)"
proof -
  have "table demo_sched i = \<lparr>obj_ptr = 0, obj_type = KOBJ_QUEUE, in_use = False, gen = 0\<rparr>" for i
    by (simp add: demo_sched_simps)
  then show ?thesis
    by (subst dispatch_refuses [of _ _ 0])
      (simp_all add: refused_def request_type_def kobj_live_def deliver_def saved_r0_def demo_sched_simps Let_def)
qed

section \<open>The delay\<close>

text \<open>A WAITING task that counts no ticks stays so.\<close>

lemma ticks_stay:
  assumes "sched_wf L k" "wait_wf W k" "timeouts_ok W k" "tstate (tcb_pool k t) = TASK_WAITING"
    "delay_ticks (tcb_pool k t) = 0"
  shows "\<exists>k'. ticks n k = Some k' \<and> tstate (tcb_pool k' t) = TASK_WAITING"
  using assms
proof (induction n arbitrary: k W)
  case 0
  then show ?case by simp
next
  case (Suc n)
  obtain k1 W1 where k1: "scheduler_tick k = Some k1" "sched_wf L k1" "wait_wf W1 k1" "timeouts_ok W1 k1"
    "\<forall>t. (tcb_pool k1 t)\<lparr>wait_next := None\<rparr> =
       (if t \<in> set (all_tasks L) then tick_tcb (tcb_pool k t) else tcb_pool k t)\<lparr>wait_next := None\<rparr>"
    using scheduler_tick_full [OF Suc.prems(1-3)] by blast
  have "tick_tcb (tcb_pool k t) = tcb_pool k t" using Suc.prems(5) by (simp add: tick_tcb_def)
  then have "(tcb_pool k1 t)\<lparr>wait_next := None\<rparr> = (tcb_pool k t)\<lparr>wait_next := None\<rparr>" using k1(5) by simp
  note f = strip_fields(1,2,4) [OF this]
  show ?case using Suc.IH [OF k1(2-4)] f Suc.prems(4,5) k1(1) by simp
qed

text \<open>
  C30. A delay of 0 ticks differs between the two paths: a privileged \<open>task_delay(0)\<close> returns at once,
  and a request of the same delay through the worker makes the caller WAITING for ever, whatever the
  number of ticks.
\<close>

theorem delay_zero_sleeps:
  assumes "sched_wf L k" "wait_wf W k" "timeouts_ok W k"
    and "wi_id w = SYSCALL_DELAY" "wi_caller w = Some t" "wi_arg0 w = 0"
  shows "z_impl_task_delay 0 k = k \<and> (\<exists>k1. dispatch w k = Some k1 \<and>
    (\<forall>n. \<exists>k'. ticks n k1 = Some k' \<and> tstate (tcb_pool k' t) = TASK_WAITING))"
proof -
  let ?c = "tcb_pool k t"
  let ?k = "k\<lparr>mem := store32 (mem k) (saved_r0 ?c) 0, tcb_pool := (tcb_pool k)(t := ?c\<lparr>flags := flags ?c AND NOT TASK_FLAG_SVC_BLOCKED,
      delay_ticks := 0, tstate := TASK_WAITING\<rparr>)\<rparr>"
  have d: "dispatch w k = Some ?k"
    using assms(4-6) by (simp add: dispatch_def dispatch_delay_def scheduler_sleep_def state_defs)
  have sw: "sched_wf L ?k" using assms(1) by (subst sched_wf_cong [of _ k]) simp_all
  have "read_head h ?k = read_head h k" for h by (cases h) (simp_all add: read_head_def)
  then have ww: "wait_wf W ?k" using assms(2) by (subst wait_wf_cong [of _ k]) simp_all
  have tm: "timeouts_ok W ?k" using assms(3) by (auto simp: timeouts_ok_def)
  show ?thesis using ticks_stay [OF sw ww tm, of t] d by (simp add: z_impl_task_delay_def)
qed

theorem delay_zero_sleeps_witness:
  "\<exists>k1 k'. dispatch \<lparr>wi_id = SYSCALL_DELAY, wi_arg0 = 0, wi_arg1 = 0, wi_arg2 = 0, wi_arg3 = 0, wi_caller = Some 1\<rparr>
     demo_sched = Some k1 \<and> ticks 1000000 k1 = Some k' \<and> tstate (tcb_pool k' 1) = TASK_WAITING"
  using delay_zero_sleeps [OF demo_sched_wf demo_waits_wf demo_timeouts,
      of "\<lparr>wi_id = SYSCALL_DELAY, wi_arg0 = 0, wi_arg1 = 0, wi_arg2 = 0, wi_arg3 = 0, wi_caller = Some 1\<rparr>" 1]
  by fastforce

end
