(* ===== verification/Syscall.thy ===== *)
theory Syscall
  imports Context Kwork_Props
begin

text \<open>
  The path of a system call: the wrappers of \<open>kernel/syscall_api.c\<close>, the trap
  \<open>port_syscall_invoke\<close> in \<open>port.c\<close>, and the SVC handler in \<open>arch/arm/cortex-m4/syscall.c\<close>, which
  turns the trapped registers into a work item.  What the worker does with the item is in \<open>Kwork\<close>.
\<close>

section \<open>The SVC handler\<close>

text \<open>\<open>frame\<close> is the address of the registers the processor pushed.\<close>

definition svc_handler_c :: "u32 \<Rightarrow> kernel \<Rightarrow> kernel" where
  "svc_handler_c frame k =
     (let i = load32 (mem k) (frame + 16) in
      case scheduler_get_current k of
        None \<Rightarrow> k
      | Some caller \<Rightarrow>
          let w = \<lparr>wi_id = i, wi_arg0 = load32 (mem k) frame, wi_arg1 = load32 (mem k) (frame + 4),
                wi_arg2 = load32 (mem k) (frame + 8), wi_arg3 = load32 (mem k) (frame + 12),
                wi_caller = Some caller\<rparr>;
              (pm, k) = enter_critical k;
              k = upd_tcb caller (\<lambda>c. c\<lparr>flags := flags c OR TASK_FLAG_SVC_BLOCKED\<rparr>) k;
              k = upd_tcb caller (\<lambda>c. c\<lparr>tstate := TASK_WAITING\<rparr>) k;
              k = exit_critical pm k;
              (r, k) = kwork_push w k
          in if r \<noteq> 0 then
               let (pm2, k) = enter_critical k;
                   k = upd_tcb caller (\<lambda>c. c\<lparr>flags := flags c AND NOT TASK_FLAG_SVC_BLOCKED\<rparr>) k;
                   k = upd_tcb caller (\<lambda>c. c\<lparr>tstate := TASK_READY\<rparr>) k;
                   k = k\<lparr>mem := store32 (mem k) frame (- 1)\<rparr>
               in exit_critical pm2 k
             else port_trigger_pendsv k)"

text \<open>Bit 2 of EXC_RETURN says which stack holds the frame.\<close>

definition SVC_Handler :: "u32 \<Rightarrow> u32 \<Rightarrow> u32 \<Rightarrow> kernel \<Rightarrow> kernel" where
  "SVC_Handler lr msp psp k = svc_handler_c (if lr AND 4 = 0 then msp else psp) k"

text \<open>
  The registers at the \<open>svc\<close> instruction: the C call put the number and three arguments into R0 to R3
  and the fourth on the stack, from where it is not fetched.
\<close>

definition port_syscall_invoke :: "u32 \<Rightarrow> u32 \<Rightarrow> u32 \<Rightarrow> u32 \<Rightarrow> u32 \<Rightarrow> cpu \<Rightarrow> cpu" where
  "port_syscall_invoke i arg0 arg1 arg2 arg3 c =
     (let c = c\<lparr>R0 := i, R1 := arg0, R2 := arg1, R3 := arg2\<rparr>;
          c = c\<lparr>R12 := R0 c\<rparr>; c = c\<lparr>R0 := R1 c\<rparr>; c = c\<lparr>R1 := R2 c\<rparr>
      in c\<lparr>R2 := R3 c\<rparr>)"

section \<open>The wrappers\<close>

text \<open>
  A wrapper either runs the implementation, \<open>Called\<close> with its result (0 for a void function), or traps
  with a number and four arguments and returns what it finds in R0 afterwards.
\<close>

datatype api = Called call kernel | Trapped u32 u32 u32 u32 u32

definition k_uart_write :: "u32 \<Rightarrow> kernel \<Rightarrow> api option" where
  "k_uart_write s k =
     (if port_is_privileged k then do { k \<leftarrow> uart_write s k; Some (Called (Return 0) k) }
      else Some (Trapped SYSCALL_UART_WRITE s 0 0 0))"

definition task_delay :: "u32 \<Rightarrow> kernel \<Rightarrow> api option" where
  "task_delay n k =
     (if port_is_privileged k then Some (Called (Return 0) (z_impl_task_delay n k))
      else Some (Trapped SYSCALL_DELAY n 0 0 0))"

definition queue_create :: "u32 \<Rightarrow> u32 \<Rightarrow> kernel \<Rightarrow> api option" where
  "queue_create item_size num_items k =
     (if port_is_privileged k then do {
        (q, k) \<leftarrow> z_impl_queue_create item_size num_items k;
        if q = 0 then Some (Called (Return KOBJ_INVALID) k)
        else let (h, k) = k_obj_alloc q KOBJ_QUEUE k in Some (Called (Return h) k)
      }
      else Some (Trapped SYSCALL_QUEUE_CREATE item_size num_items 0 0))"

definition queue_push :: "u32 \<Rightarrow> u32 \<Rightarrow> u32 \<Rightarrow> kernel \<Rightarrow> api option" where
  "queue_push handle item timeout_ms k =
     (if port_is_privileged k then
        let (q, k) = k_obj_get handle KOBJ_QUEUE k in
        if q = 0 then Some (Called (Return (- 1)) k)
        else do { (r, k) \<leftarrow> z_impl_queue_push q item timeout_ms k; Some (Called r k) }
      else Some (Trapped SYSCALL_QUEUE_SEND handle item timeout_ms 0))"

definition queue_pop :: "u32 \<Rightarrow> u32 \<Rightarrow> u32 \<Rightarrow> kernel \<Rightarrow> api option" where
  "queue_pop handle item timeout_ms k =
     (if port_is_privileged k then
        let (q, k) = k_obj_get handle KOBJ_QUEUE k in
        if q = 0 then Some (Called (Return (- 1)) k)
        else do { (r, k) \<leftarrow> z_impl_queue_pop q item timeout_ms k; Some (Called r k) }
      else Some (Trapped SYSCALL_QUEUE_RECV handle item timeout_ms 0))"

definition sem_create :: "u32 \<Rightarrow> kernel \<Rightarrow> api option" where
  "sem_create initial_count k =
     (if port_is_privileged k then do {
        (s, k) \<leftarrow> z_impl_sem_create initial_count k;
        if s = 0 then Some (Called (Return KOBJ_INVALID) k)
        else let (h, k) = k_obj_alloc s KOBJ_SEM k in Some (Called (Return h) k)
      }
      else Some (Trapped SYSCALL_SEM_CREATE initial_count 0 0 0))"

definition sem_give :: "u32 \<Rightarrow> kernel \<Rightarrow> api option" where
  "sem_give handle k =
     (if port_is_privileged k then
        let (s, k) = k_obj_get handle KOBJ_SEM k in
        if s \<noteq> 0 then do { k \<leftarrow> z_impl_sem_give s k; Some (Called (Return 0) k) }
        else Some (Called (Return 0) k)
      else Some (Trapped SYSCALL_SEM_POST handle 0 0 0))"

definition sem_take :: "u32 \<Rightarrow> u32 \<Rightarrow> kernel \<Rightarrow> api option" where
  "sem_take handle timeout_ms k =
     (if port_is_privileged k then
        let (s, k) = k_obj_get handle KOBJ_SEM k in
        if s = 0 then Some (Called (Return (- 1)) k)
        else do { (r, k) \<leftarrow> z_impl_sem_take_timeout s timeout_ms k; Some (Called r k) }
      else Some (Trapped SYSCALL_SEM_WAIT handle timeout_ms 0 0))"

definition mutex_create :: "kernel \<Rightarrow> api option" where
  "mutex_create k =
     (if port_is_privileged k then do {
        (m, k) \<leftarrow> z_impl_mutex_create k;
        if m = 0 then Some (Called (Return KOBJ_INVALID) k)
        else let (h, k) = k_obj_alloc m KOBJ_MUTEX k in Some (Called (Return h) k)
      }
      else Some (Trapped SYSCALL_MUTEX_CREATE 0 0 0 0))"

definition mutex_lock :: "u32 \<Rightarrow> u32 \<Rightarrow> kernel \<Rightarrow> api option" where
  "mutex_lock handle timeout_ms k =
     (if port_is_privileged k then
        let (m, k) = k_obj_get handle KOBJ_MUTEX k in
        if m = 0 then Some (Called (Return (- 1)) k)
        else do { (r, k) \<leftarrow> z_impl_mutex_lock_timeout m timeout_ms k; Some (Called r k) }
      else Some (Trapped SYSCALL_MUTEX_LOCK handle timeout_ms 0 0))"

definition mutex_unlock :: "u32 \<Rightarrow> kernel \<Rightarrow> api option" where
  "mutex_unlock handle k =
     (if port_is_privileged k then
        let (m, k) = k_obj_get handle KOBJ_MUTEX k in
        if m \<noteq> 0 then do { k \<leftarrow> z_impl_mutex_unlock m k; Some (Called (Return 0) k) }
        else Some (Called (Return 0) k)
      else Some (Trapped SYSCALL_MUTEX_UNLOCK handle 0 0 0))"

section \<open>From the trap to the work item\<close>

text \<open>The processor pushes eight registers below the process stack pointer.\<close>

definition exception_entry :: "cpu \<Rightarrow> u32 \<Rightarrow> memory \<Rightarrow> u32 \<times> memory" where
  "exception_entry c psr m =
     (PSP c - 32, store_words [R0 c, R1 c, R2 c, R3 c, R12 c, LR c, PC c, psr] (PSP c - 32) m)"

definition trapped_item :: "u32 \<Rightarrow> u32 \<Rightarrow> u32 \<Rightarrow> u32 \<Rightarrow> tcb_ptr \<Rightarrow> work_item" where
  "trapped_item i a0 a1 a2 t = \<lparr>wi_id = i, wi_arg0 = a0, wi_arg1 = a1, wi_arg2 = a2, wi_arg3 = a2, wi_caller = Some t\<rparr>"

definition svc_blocked :: "tcb \<Rightarrow> tcb" where
  "svc_blocked c = c\<lparr>flags := flags c OR TASK_FLAG_SVC_BLOCKED, tstate := TASK_WAITING\<rparr>"

lemma svc_blocked_simps [simp]:
  "tstate (svc_blocked c) = TASK_WAITING" "flags (svc_blocked c) = flags c OR TASK_FLAG_SVC_BLOCKED"
  "delay_ticks (svc_blocked c) = delay_ticks c" "blocking_wait_list (svc_blocked c) = blocking_wait_list c"
  "wait_next (svc_blocked c) = wait_next c" "next_task (svc_blocked c) = next_task c"
  "priority (svc_blocked c) = priority c" "stack_pointer (svc_blocked c) = stack_pointer c"
  "stack_base (svc_blocked c) = stack_base c"
  by (simp_all add: svc_blocked_def)

lemma or_and_not: "(f OR 2) AND NOT 2 = f AND NOT (2 :: u32)"
  by (rule bit_word_eqI) (auto simp: bit_simps)

text \<open>The handler, given the five words of the frame it reads.\<close>

lemma svc_handler_eq:
  assumes "current_task k = Some c" "kwork_wf k"
    and "load32 (mem k) (f + 16) = i" "load32 (mem k) f = a0" "load32 (mem k) (f + 4) = a1"
      "load32 (mem k) (f + 8) = a2" "load32 (mem k) (f + 12) = a3"
  defines "w \<equiv> \<lparr>wi_id = i, wi_arg0 = a0, wi_arg1 = a1, wi_arg2 = a2, wi_arg3 = a3, wi_caller = Some c\<rparr>"
  shows "svc_handler_c f k = (if length (kwork_items k) = 15
      then k\<lparr>tcb_pool := (tcb_pool k)(c := (tcb_pool k c)\<lparr>flags := flags (tcb_pool k c) AND NOT TASK_FLAG_SVC_BLOCKED,
          tstate := TASK_READY\<rparr>), mem := store32 (mem k) f (- 1)\<rparr>
      else (kwork_pushed w (k\<lparr>tcb_pool := (tcb_pool k)(c := svc_blocked (tcb_pool k c))\<rparr>))\<lparr>pendsv := True\<rparr>)"
proof -
  let ?k = "k\<lparr>tcb_pool := (tcb_pool k)(c := svc_blocked (tcb_pool k c))\<rparr>"
  have items: "kwork_items ?k = kwork_items k" "kwork_wf ?k" using kwork_items_cong [of ?k k] assms(2) by simp_all
  have pre: "exit_critical (primask k) (upd_tcb c (\<lambda>c. c\<lparr>tstate := TASK_WAITING\<rparr>)
      (upd_tcb c (\<lambda>c. c\<lparr>flags := flags c OR TASK_FLAG_SVC_BLOCKED\<rparr>) (k\<lparr>primask := 1\<rparr>))) = ?k"
    by (simp add: state_defs svc_blocked_def)
  note push = kwork_push_eq [OF items(2), of w, unfolded items]
  show ?thesis
    using assms(1) push
    by (simp add: svc_handler_c_def scheduler_get_current_def Let_def enter_critical_def pre assms(3-7)
        w_def [symmetric])
      (simp add: state_defs or_and_not [simplified] svc_blocked_def)
qed

lemma invoke_regs:
  "port_syscall_invoke i a0 a1 a2 a3 c = c\<lparr>R0 := a0, R1 := a1, R2 := a2, R3 := a2, R12 := i\<rparr>"
  by (simp add: port_syscall_invoke_def Let_def)

lemma trap_frame:
  assumes "exception_entry (port_syscall_invoke i a0 a1 a2 a3 c) psr m = (f, m')"
  shows "load32 m' (f + 16) = i" "load32 m' f = a0" "load32 m' (f + 4) = a1" "load32 m' (f + 8) = a2"
    "load32 m' (f + 12) = a2" "f = PSP c - 32"
proof -
  let ?ws = "[a0, a1, a2, a2, i, LR c, PC c, psr]"
  have f: "f = PSP c - 32" and m': "m' = store_words ?ws f m"
    using assms by (auto simp: exception_entry_def invoke_regs)
  have len: "length ?ws = 8" by simp
  have "words_at m' f 8 = ?ws" using store_words_spec(1) [of ?ws f m, unfolded len] m' by simp
  then have w: "load32 m' (f + of_nat (4 * j)) = ?ws ! j" if "j < 8" for j
    using words_at_nth [OF that, of m' f] by simp
  show "load32 m' (f + 16) = i" "load32 m' f = a0" "load32 m' (f + 4) = a1" "load32 m' (f + 8) = a2"
    "load32 m' (f + 12) = a2" "f = PSP c - 32"
    using w [of 0] w [of 1] w [of 2] w [of 3] w [of 4] f by simp_all
qed

text \<open>
  C35. A trap puts the request into the ring exactly as the wrapper issued it, the fourth argument excepted,
  in whose place the third stands again: the caller waits, marked as blocked in a system call, the worker is
  READY if it was waiting, a switch is pending, and no other task changes.  When the ring is full the caller
  goes on with \<open>-1\<close> in the place of R0.
\<close>

theorem svc_request_queued:
  assumes "current_task k = Some t" "kwork_wf k" "kernel_tcb k \<noteq> Some t"
    and "exception_entry (port_syscall_invoke i a0 a1 a2 a3 c) psr (mem k) = (f, m)"
  defines "k' \<equiv> svc_handler_c f (k\<lparr>mem := m\<rparr>)"
  shows "if length (kwork_items k) = 15
    then kwork_items k' = kwork_items k \<and> tstate (tcb_pool k' t) = TASK_READY \<and> load32 (mem k') f = - 1
    else kwork_items k' = kwork_items k @ [trapped_item i a0 a1 a2 t] \<and> kwork_wf k' \<and>
      pendsv k' \<and> mem k' = m \<and> primask k' = primask k \<and>
      (\<forall>u. tcb_pool k' u = (if u = t then svc_blocked (tcb_pool k t)
         else if kernel_tcb k = Some u \<and> tstate (tcb_pool k u) = TASK_WAITING
         then (tcb_pool k u)\<lparr>tstate := TASK_READY\<rparr> else tcb_pool k u))"
proof -
  let ?k = "k\<lparr>mem := m\<rparr>"
  let ?b = "?k\<lparr>tcb_pool := (tcb_pool ?k)(t := svc_blocked (tcb_pool ?k t))\<rparr>"
  note fr = trap_frame [OF assms(4)]
  have items: "kwork_items ?k = kwork_items k" "kwork_wf ?k" "kwork_items ?b = kwork_items k" "kwork_wf ?b"
    using kwork_items_cong [of ?k k] kwork_items_cong [of ?b k] assms(2) by simp_all
  have full: "kwork_items (k\<lparr>tcb_pool := p, mem := m'\<rparr>) = kwork_items k" for p m'
    using kwork_items_cong [of "k\<lparr>tcb_pool := p, mem := m'\<rparr>" k] by simp
  have eq: "k' = (if length (kwork_items k) = 15
      then ?k\<lparr>tcb_pool := (tcb_pool k)(t := (tcb_pool k t)\<lparr>flags := flags (tcb_pool k t) AND NOT TASK_FLAG_SVC_BLOCKED,
          tstate := TASK_READY\<rparr>), mem := store32 m f (- 1)\<rparr>
      else (kwork_pushed (trapped_item i a0 a1 a2 t) ?b)\<lparr>pendsv := True\<rparr>)"
    unfolding k'_def trapped_item_def
    by (subst svc_handler_eq [of ?k t f i a0 a1 a2 a2]) (simp_all add: assms(1) items fr(1-5))
  show ?thesis
  proof (cases "length (kwork_items k) = 15")
    case True
    then show ?thesis using eq full by simp
  next
    case False
    have pushed: "kwork_items (kwork_pushed w ?b) = kwork_items k @ [w]" "kwork_wf (kwork_pushed w ?b)" for w
      using kwork_pushed_items [OF items(4)] items(3) False by simp_all
    have "kwork_items (j\<lparr>pendsv := True\<rparr>) = kwork_items j" "kwork_wf (j\<lparr>pendsv := True\<rparr>) = kwork_wf j" for j
      using kwork_items_cong [of "j\<lparr>pendsv := True\<rparr>" j] by simp_all
    then show ?thesis
      using eq False pushed assms(3) by (auto simp: kwork_pushed_def split: option.splits)
  qed
qed

text \<open>A task that traps to ask for a semaphore of count 3.\<close>

theorem svc_request_queued_witness:
  "kwork_items (svc_handler_c 0x20009000 (demo_ctx\<lparr>mem := snd (exception_entry
       (port_syscall_invoke SYSCALL_SEM_CREATE 3 0 0 0 (demo_cpu 0x20009020 0)) 0x01000000 (mem demo_ctx))\<rparr>)) =
     [trapped_item SYSCALL_SEM_CREATE 3 0 0 2]"
proof -
  let ?e = "exception_entry (port_syscall_invoke SYSCALL_SEM_CREATE 3 0 0 0 (demo_cpu 0x20009020 0)) 0x01000000 (mem demo_ctx)"
  have e: "?e = (0x20009000, snd ?e)" by (simp add: exception_entry_def invoke_regs demo_cpu_def)
  have k: "current_task demo_ctx = Some 2" "kernel_tcb demo_ctx \<noteq> Some 2" "kwork_wf demo_ctx" "kwork_items demo_ctx = []"
    by (simp_all add: demo_ctx_def demo_sched_simps kwork_wf_def kwork_items_def ring_slots_def ring_count_def)
  show ?thesis using svc_request_queued [OF k(1,3,2) e] k(4) by (simp del: SYSCALL_SEM_CREATE_def)
qed

section \<open>Both paths agree\<close>

text \<open>The worker answers the caller \<open>t\<close> with the result of a privileged call that returned.\<close>

definition answered :: "tcb_ptr \<Rightarrow> api option \<Rightarrow> kernel option" where
  "answered t s = do { s \<leftarrow> s; case s of Called (Return r) k \<Rightarrow> Some (complete (Some t) r k) | _ \<Rightarrow> None }"

lemma answered_simps [simp]:
  "answered t None = None" "answered t (Some (Called (Return r) k)) = Some (complete (Some t) r k)"
  "answered t (Some (Called Suspend k)) = None"
  by (simp_all add: answered_def)

lemma answered_bind:
  "answered t (do { (x, k) \<leftarrow> f; g x k }) = do { (x, k) \<leftarrow> f; answered t (g x k) }"
  "answered t (do { k \<leftarrow> f'; g' k }) = do { k \<leftarrow> f'; answered t (g' k) }"
  by (cases f; auto) (cases f'; auto)

text \<open>What the worker does in the state \<open>k\<close> for a call the task \<open>t\<close> trapped.\<close>

definition served :: "tcb_ptr \<Rightarrow> api option \<Rightarrow> kernel \<Rightarrow> kernel option" where
  "served t s k = (case s of Some (Trapped i a0 a1 a2 a3) \<Rightarrow> dispatch (trapped_item i a0 a1 a2 t) k | _ \<Rightarrow> None)"

lemma if_pair: "(if c then (a, k) else f) = (x, k') \<longleftrightarrow> (c \<and> x = a \<and> k' = k \<or> \<not> c \<and> f = (x, k'))"
  by auto

lemma served_creates:
  assumes "port_is_privileged k" "\<not> port_is_privileged u"
  shows "served t (queue_create x y u) k = answered t (queue_create x y k)"
    "served t (sem_create x u) k = answered t (sem_create x k)"
    "served t (mutex_create u) k = answered t (mutex_create k)"
  using assms
  by (auto simp: served_def trapped_item_def dispatch_def queue_create_def dispatch_queue_create_def
      sem_create_def dispatch_sem_create_def mutex_create_def dispatch_mutex_create_def
      new_handle_def answered_bind Let_def split: prod.splits intro!: Option.bind_cong)

lemma served_queues:
  assumes "port_is_privileged k" "\<not> port_is_privileged u"
  shows "served t (queue_push h p tm u) k = answered t (queue_push h p 0 k)"
    "served t (queue_pop h p tm u) k = answered t (queue_pop h p 0 k)"
  using assms
  by (auto simp: served_def trapped_item_def dispatch_def queue_push_def dispatch_queue_send_def
      queue_pop_def dispatch_queue_recv_def answered_bind Let_def split: prod.splits call.splits intro!: Option.bind_cong)

lemma served_others:
  assumes "port_is_privileged k" "\<not> port_is_privileged u"
  shows "served t (k_uart_write s u) k = answered t (k_uart_write s k)"
    "served t (sem_give h u) k = (if fst (k_obj_get h KOBJ_SEM k) = 0 then Some (complete (Some t) (- 1) k) else answered t (sem_give h k))"
    "sem_take h tm k = Some (Called (Return r) k') \<Longrightarrow> served t (sem_take h tm u) k = Some (complete (Some t) r k')"
  using assms k_obj_get_live [of h KOBJ_SEM k]
  by (auto simp: served_def trapped_item_def dispatch_def k_uart_write_def dispatch_uart_write_def
      sem_give_def dispatch_sem_post_def answered_bind sem_take_def dispatch_sem_wait_def z_impl_sem_take_timeout_def
      z_impl_sem_try_take_timeout_def enter_critical_def Let_def bind_eq_Some_conv split: prod.splits if_split_asm)

text \<open>
  A call made by the task \<open>t\<close>, whoever the current task is: the owner of a mutex is the task that calls, and the
  worker passes the caller of the request instead.
\<close>

definition called_by :: "tcb_ptr \<Rightarrow> (kernel \<Rightarrow> api option) \<Rightarrow> kernel \<Rightarrow> api option" where
  "called_by t f k = map_option (\<lambda>s. case s of Called r k' \<Rightarrow> Called r (k'\<lparr>current_task := current_task k\<rparr>) | Trapped i a b c d \<Rightarrow> s)
     (f (k\<lparr>current_task := Some t\<rparr>))"

lemma current_task_commutes:
  "wait_pop h w (k\<lparr>current_task := c\<rparr>) = (wait_pop h w k)\<lparr>current_task := c\<rparr>"
  "scheduler_wake_task w r (k\<lparr>current_task := c\<rparr>) = (scheduler_wake_task w r k)\<lparr>current_task := c\<rparr>"
  "set_mutex p x (k\<lparr>current_task := c\<rparr>) = (set_mutex p x k)\<lparr>current_task := c\<rparr>"
  "exit_critical pm (k\<lparr>current_task := c\<rparr>) = (exit_critical pm k)\<lparr>current_task := c\<rparr>"
  by (auto simp: wait_pop_def write_head_def scheduler_wake_task_def state_defs Let_def split: wait_head.split option.split)

lemma unlock_commutes:
  "z_impl_mutex_unlock_for p t (k\<lparr>current_task := c\<rparr>) = map_option (\<lambda>k. k\<lparr>current_task := c\<rparr>) (z_impl_mutex_unlock_for p t k)"
proof (cases "mutexes k p")
  case (Some m)
  have e: "k\<lparr>current_task := c, primask := 1\<rparr> = (k\<lparr>primask := 1\<rparr>)\<lparr>current_task := c\<rparr>" by simp
  show ?thesis
  proof (cases "mtx_wait_list m")
    case None
    then show ?thesis
      using Some by (simp add: z_impl_mutex_unlock_for_def enter_critical_def exit_critical_def port_trigger_pendsv_def set_mutex_def)
  next
    case (Some w)
    have "\<exists>m'. mutexes (wait_pop (MutexWait p) w (k\<lparr>primask := 1\<rparr>)) p = Some m'"
      using \<open>mutexes k p = Some m\<close> by (simp add: wait_pop_def write_head_def set_mutex_def upd_tcb_def)
    then obtain m' where "mutexes (wait_pop (MutexWait p) w (k\<lparr>primask := 1\<rparr>)) p = Some m'" by blast
    then show ?thesis
      using Some \<open>mutexes k p = Some m\<close>
      by (simp add: z_impl_mutex_unlock_for_def enter_critical_def Let_def e current_task_commutes del: kernel.update_convs)
  qed
qed (simp add: z_impl_mutex_unlock_for_def enter_critical_def)

lemma served_mutexes:
  assumes "port_is_privileged k" "\<not> port_is_privileged u"
  shows "called_by t (mutex_lock h tm) k = Some (Called (Return r) k') \<Longrightarrow> served t (mutex_lock h tm u) k = Some (complete (Some t) r k')"
    "served t (mutex_unlock h u) k =
       (if fst (k_obj_get h KOBJ_MUTEX k) = 0 then Some (complete (Some t) (- 1) k) else answered t (called_by t (mutex_unlock h) k))"
proof -
  obtain m where m: "k_obj_get h KOBJ_MUTEX k = (m, k)" "k_obj_get h KOBJ_MUTEX (k\<lparr>current_task := Some t\<rparr>) = (m, k\<lparr>current_task := Some t\<rparr>)"
    by (simp add: k_obj_get_live kobj_live_def)
  have p: "port_is_privileged (k\<lparr>current_task := Some t\<rparr>)" using assms(1) by (simp add: port_is_privileged_def)
  show "served t (mutex_lock h tm u) k = Some (complete (Some t) r k')" if "called_by t (mutex_lock h tm) k = Some (Called (Return r) k')"
    using that assms p m
    by (auto simp: served_def trapped_item_def dispatch_def called_by_def mutex_lock_def dispatch_mutex_lock_def z_impl_mutex_lock_timeout_def
      z_impl_mutex_try_lock_timeout_def scheduler_get_current_def state_defs Let_def bind_eq_Some_conv split: if_split_asm option.split_asm)
  show "served t (mutex_unlock h u) k =
       (if fst (k_obj_get h KOBJ_MUTEX k) = 0 then Some (complete (Some t) (- 1) k) else answered t (called_by t (mutex_unlock h) k))"
    using assms p m unlock_commutes [of m "Some t" "current_task k" k]
    by (cases "z_impl_mutex_unlock_for m (Some t) k") (auto simp: served_def trapped_item_def dispatch_def called_by_def mutex_unlock_def dispatch_mutex_unlock_def z_impl_mutex_unlock_def
      scheduler_get_current_def unlock_commutes answered_def split: option.splits)
qed

text \<open>
  C36. The two paths agree.  Except for a delay, what the worker does for a trapped call is what the wrapper
  does in a privileged task, with the result in the caller's R0: for the three creations and for a write to the
  UART always; for a queue operation the worker does what the wrapper does with timeout 0, whatever timeout
  the caller gave, so that from user mode it never blocks; a take of a semaphore and a lock of a mutex that return
  without blocking do the same on both paths; and so do a give and an unlock of a live handle, while a dead one,
  which a privileged caller is not told about, is answered with -1.
\<close>

theorem paths_agree:
  assumes "port_is_privileged k" "\<not> port_is_privileged u"
  shows "served t (queue_create x y u) k = answered t (queue_create x y k) \<and>
    served t (sem_create n u) k = answered t (sem_create n k) \<and>
    served t (mutex_create u) k = answered t (mutex_create k) \<and>
    served t (k_uart_write s u) k = answered t (k_uart_write s k) \<and>
    served t (queue_push h p tm u) k = answered t (queue_push h p 0 k) \<and>
    served t (queue_pop h p tm u) k = answered t (queue_pop h p 0 k) \<and>
    (\<forall>r k'. sem_take h tm k = Some (Called (Return r) k') \<longrightarrow> served t (sem_take h tm u) k = Some (complete (Some t) r k')) \<and>
    (\<forall>r k'. called_by t (mutex_lock h tm) k = Some (Called (Return r) k') \<longrightarrow>
       served t (mutex_lock h tm u) k = Some (complete (Some t) r k')) \<and>
    served t (sem_give h u) k = (if fst (k_obj_get h KOBJ_SEM k) = 0
      then Some (complete (Some t) (- 1) k) else answered t (sem_give h k)) \<and>
    served t (mutex_unlock h u) k = (if fst (k_obj_get h KOBJ_MUTEX k) = 0
      then Some (complete (Some t) (- 1) k) else answered t (called_by t (mutex_unlock h) k))"
  by (intro conjI allI impI served_creates [OF assms] served_queues [OF assms] served_others [OF assms] served_mutexes [OF assms]) assumption+

theorem paths_agree_witness:
  "served 1 (queue_push 5 0x20009000 100 (demo_ctx\<lparr>control := 3\<rparr>)) demo_ctx = answered 1 (queue_push 5 0x20009000 0 demo_ctx) \<and>
   queue_push 5 0x20009000 100 (demo_ctx\<lparr>control := 3\<rparr>) = Some (Trapped SYSCALL_QUEUE_SEND 5 0x20009000 100 0)"
proof -
  have p: "port_is_privileged demo_ctx" "\<not> port_is_privileged (demo_ctx\<lparr>control := 3\<rparr>)"
    by (simp_all add: port_is_privileged_def demo_ctx_def demo_sched_simps)
  then show ?thesis using paths_agree [OF p] by (simp add: queue_push_def)
qed

end
