(* ===== verification/Snprintf.thy ===== *)
theory Snprintf
  imports Port
begin

text \<open>
  Formatted output into a buffer, \<open>vsnprintf\<close> of \<open>kernel/libc_stubs.c\<close>: the emitter that counts and
  truncates, the printing of numbers, and the loop over the format.  The variable arguments are a list
  of 32-bit words, which is what they are on the target; taking one from an empty list has no value.
\<close>

section \<open>The emitter\<close>

text \<open>The variables \<open>dst\<close>, \<open>avail\<close> and \<open>total\<close>, and the memory.\<close>

record emitter =
  em_mem :: memory
  em_dst :: u32
  em_avail :: u32
  em_total :: u32

definition emit_char :: "u8 \<Rightarrow> emitter \<Rightarrow> emitter" where
  "emit_char c e =
     (let e = (if 0 < em_avail e
               then e\<lparr>em_mem := (em_mem e)(em_dst e := c), em_dst := em_dst e + 1, em_avail := em_avail e - 1\<rparr>
               else e)
      in e\<lparr>em_total := em_total e + 1\<rparr>)"

definition emit_bytes :: "u8 list \<Rightarrow> emitter \<Rightarrow> emitter" where
  "emit_bytes cs e = fold emit_char cs e"

partial_function (option) emit_loop :: "u32 \<Rightarrow> emitter \<Rightarrow> emitter option" where
  "emit_loop s e =
     (if em_mem e s \<noteq> 0 then emit_loop (s + 1) (emit_char (em_mem e s) e) else Some e)"

definition emit_string :: "u32 \<Rightarrow> emitter \<Rightarrow> emitter option" where
  "emit_string s e = (if s = 0 then Some (emit_bytes (ascii ''(null)'') e) else emit_loop s e)"

text \<open>The digits as they are put into \<open>buf\<close>, least first; the first argument is the room left.\<close>

fun unsigned_digits :: "nat \<Rightarrow> u32 \<Rightarrow> u32 \<Rightarrow> u8 list \<Rightarrow> u8 list" where
  "unsigned_digits 0 val base digits = []"
| "unsigned_digits (Suc n) val base digits =
     (if val = 0 then []
      else digits ! unat (val mod base) # unsigned_digits n (val div base) base digits)"

definition emit_unsigned :: "u32 \<Rightarrow> u32 \<Rightarrow> u8 list \<Rightarrow> emitter \<Rightarrow> emitter" where
  "emit_unsigned val base digits e =
     (let buf = (if val = 0 then [of_char (CHR ''0'')] else unsigned_digits 32 val base digits)
      in emit_bytes (rev buf) e)"

section \<open>The format\<close>

definition va_arg :: "u32 list \<Rightarrow> (u32 \<times> u32 list) option" where
  "va_arg ap = (case ap of [] \<Rightarrow> None | v # ap \<Rightarrow> Some (v, ap))"

definition decimal_digits :: "u8 list" where "decimal_digits = ascii ''0123456789''"
definition lower_digits :: "u8 list" where "lower_digits = ascii ''0123456789abcdef''"
definition upper_digits :: "u8 list" where "upper_digits = ascii ''0123456789ABCDEF''"

text \<open>
  The switch on the conversion character.  \<open>int\<close>, \<open>long\<close> and pointers are all 32 bits wide, so that the
  modifier \<open>l\<close> makes no difference to what is taken from the arguments.
\<close>

definition convert :: "u8 \<Rightarrow> u32 list \<Rightarrow> emitter \<Rightarrow> (u32 list \<times> emitter) option" where
  "convert spec ap e =
     (if spec = of_char (CHR ''s'') then do {
        (s, ap) \<leftarrow> va_arg ap; e \<leftarrow> emit_string s e; Some (ap, e) }
      else if spec = of_char (CHR ''c'') then do {
        (c, ap) \<leftarrow> va_arg ap; Some (ap, emit_char (ucast c) e) }
      else if spec = of_char (CHR ''d'') \<or> spec = of_char (CHR ''i'') then do {
        (v, ap) \<leftarrow> va_arg ap;
        let (v, e) = (if sint v < 0 then (- v, emit_char (of_char (CHR ''-'')) e) else (v, e));
        Some (ap, emit_unsigned v 10 decimal_digits e) }
      else if spec = of_char (CHR ''u'') then do {
        (v, ap) \<leftarrow> va_arg ap; Some (ap, emit_unsigned v 10 decimal_digits e) }
      else if spec = of_char (CHR ''x'') then do {
        (v, ap) \<leftarrow> va_arg ap; Some (ap, emit_unsigned v 16 lower_digits e) }
      else if spec = of_char (CHR ''X'') then do {
        (v, ap) \<leftarrow> va_arg ap; Some (ap, emit_unsigned v 16 upper_digits e) }
      else if spec = of_char (CHR ''p'') then do {
        (v, ap) \<leftarrow> va_arg ap;
        let e = emit_char (of_char (CHR ''0'')) e;
        let e = emit_char (of_char (CHR ''x'')) e;
        Some (ap, emit_unsigned v 16 lower_digits e) }
      else
        let e = emit_char (of_char (CHR ''%'')) e
        in Some (ap, emit_char spec e))"

partial_function (option) format_loop :: "u32 \<Rightarrow> u32 list \<Rightarrow> emitter \<Rightarrow> emitter option" where
  "format_loop f ap e =
     (let c = em_mem e f in
      if c = 0 then Some e
      else if c \<noteq> of_char (CHR ''%'') then format_loop (f + 1) ap (emit_char c e)
      else let f = f + 1 in
        if em_mem e f = of_char (CHR ''%'') then format_loop (f + 1) ap (emit_char (of_char (CHR ''%'')) e)
        else let f = (if em_mem e f = of_char (CHR ''l'') then f + 1 else f) in do {
          (ap, e) \<leftarrow> convert (em_mem e f) ap e;
          format_loop (f + 1) ap e
        })"

definition vsnprintf :: "u32 \<Rightarrow> u32 \<Rightarrow> u32 \<Rightarrow> u32 list \<Rightarrow> memory \<Rightarrow> (u32 \<times> memory) option" where
  "vsnprintf str sz format ap m = do {
     e \<leftarrow> format_loop format ap
           \<lparr>em_mem = m, em_dst = str, em_avail = (if 0 < sz then sz - 1 else 0), em_total = 0\<rparr>;
     let m = (if 0 < sz then (em_mem e)(em_dst e := 0) else em_mem e);
     Some (em_total e, m)
   }"

definition snprintf :: "u32 \<Rightarrow> u32 \<Rightarrow> u32 \<Rightarrow> u32 list \<Rightarrow> memory \<Rightarrow> (u32 \<times> memory) option" where
  "snprintf str sz format args m = vsnprintf str sz format args m"

section \<open>No byte outside the buffer is written\<close>

text \<open>
  The emitter writes inside a buffer that starts at \<open>a\<close> and holds \<open>n\<close> characters: it stands behind
  what it has written, and with what is left the room makes \<open>n\<close>.
\<close>

definition emits_in :: "u32 \<Rightarrow> nat \<Rightarrow> memory \<Rightarrow> emitter \<Rightarrow> bool" where
  "emits_in a n m e \<longleftrightarrow> unat (em_dst e - a) + unat (em_avail e) = n \<and>
     (\<forall>b. b \<notin> region a n \<longrightarrow> em_mem e b = m b)"

lemma emit_char_in:
  assumes "emits_in a n m e" "n < 4294967296" shows "emits_in a n m (emit_char c e)"
proof (cases "0 < em_avail e")
  case True
  then have av: "0 < unat (em_avail e)" by (simp add: word_less_nat_alt)
  then have d: "unat (em_dst e - a) < n" using assms(1) by (simp add: emits_in_def)
  then have "em_dst e \<in> region a n" by (simp add: region_def)
  moreover have "unat (em_dst e + 1 - a) = unat (em_dst e - a) + 1"
  proof -
    have "unat (em_dst e - a + 1) = unat (em_dst e - a) + 1" using d assms(2) by (simp add: unat_word_ariths)
    then show ?thesis by (simp only: diff_add_eq)
  qed
  moreover have "unat (em_avail e - 1) = unat (em_avail e) - 1" using True by (intro unat_minus_one) auto
  ultimately show ?thesis
    using assms(1) True av by (auto simp: emits_in_def emit_char_def)
next
  case False
  then show ?thesis using assms(1) by (simp add: emits_in_def emit_char_def)
qed

lemma emit_bytes_in:
  "emits_in a n m e \<Longrightarrow> n < 4294967296 \<Longrightarrow> emits_in a n m (emit_bytes cs e)"
  unfolding emit_bytes_def by (induction cs arbitrary: e) (simp_all add: emit_char_in)

lemma emit_loop_in:
  "emit_loop s e = Some e' \<Longrightarrow> emits_in a n m e \<Longrightarrow> n < 4294967296 \<Longrightarrow> emits_in a n m e'"
proof (induction rule: emit_loop.raw_induct [rotated 1, consumes 1])
  case (1 f s e e')
  then show ?case by (auto split: if_splits intro: emit_char_in)
qed

lemma emit_unsigned_in:
  "emits_in a n m e \<Longrightarrow> n < 4294967296 \<Longrightarrow> emits_in a n m (emit_unsigned v base ds e)"
  by (simp add: emit_unsigned_def Let_def emit_bytes_in)

lemma convert_in:
  assumes "convert spec ap e = Some (ap', e')" "emits_in a n m e" "n < 4294967296"
  shows "emits_in a n m e'"
  using assms
  by (auto simp: convert_def emit_string_def bind_eq_Some_conv Let_def split: if_splits prod.splits
      intro!: emit_unsigned_in emit_char_in emit_bytes_in intro: emit_loop_in)

lemma format_loop_in:
  "format_loop f ap e = Some e' \<Longrightarrow> emits_in a n m e \<Longrightarrow> n < 4294967296 \<Longrightarrow> emits_in a n m e'"
proof (induction rule: format_loop.raw_induct [rotated 1, consumes 1])
  case (1 g f ap e e')
  then show ?case
    by (auto simp: Let_def bind_eq_Some_conv split: if_splits) (blast intro: 1(1) emit_char_in convert_in)+
qed

text \<open>
  C37. Whatever the format and the arguments, \<open>vsnprintf\<close> writes no byte outside its buffer.
\<close>

theorem vsnprintf_bounded:
  assumes "vsnprintf str sz format ap m = Some (r, m')" "b \<notin> region str (unat sz)"
  shows "m' b = m b"
proof -
  let ?e = "\<lparr>em_mem = m, em_dst = str, em_avail = (if 0 < sz then sz - 1 else 0), em_total = 0\<rparr>"
  obtain e where e: "format_loop format ap ?e = Some e"
    "m' = (if 0 < sz then (em_mem e)(em_dst e := 0) else em_mem e)"
    using assms(1) by (auto simp: vsnprintf_def bind_eq_Some_conv)
  have "emits_in str (unat sz - 1) m ?e"
    using unat_minus_one [of sz] by (cases "sz = 0") (simp_all add: emits_in_def word_gt_0)
  moreover have "unat sz - 1 < 4294967296" using unat_u32_lt [of sz] by linarith
  ultimately have "emits_in str (unat sz - 1) m e" by (rule format_loop_in [OF e(1)])
  then have d: "unat (em_dst e - str) \<le> unat sz - 1" and same: "\<forall>b. b \<notin> region str (unat sz - 1) \<longrightarrow> em_mem e b = m b"
    by (simp_all add: emits_in_def)
  have "em_dst e \<in> region str (unat sz)" if "0 < sz" using d that by (simp add: region_def word_less_nat_alt)
  moreover have "b \<notin> region str (unat sz - 1)" using assms(2) region_mono [of "unat sz - 1" "unat sz" str] by auto
  ultimately show ?thesis using same assms(2) e(2) by auto
qed

theorem vsnprintf_bounded_witness:
  "\<exists>m'. vsnprintf 0x20009000 1 0x08000000 [] ((\<lambda>_. 0)(0x08000000 := 65)) = Some (1, m') \<and> m' 0x20009001 = 0"
proof -
  let ?m = "(\<lambda>_. 0)(0x08000000 := 65) :: memory"
  have run: "vsnprintf 0x20009000 1 0x08000000 [] ?m = Some (1, ?m(0x20009000 := 0))"
    unfolding vsnprintf_def by (subst format_loop.simps, subst format_loop.simps) (simp add: emit_char_def Let_def)
  have "0x20009001 \<notin> region 0x20009000 (unat (1 :: u32))" by (simp add: region_def)
  from vsnprintf_bounded [OF run this] run show ?thesis by simp
qed

section \<open>Numbers\<close>

text \<open>The usual notation of a number, most significant digit first.\<close>

function number :: "nat \<Rightarrow> u8 list \<Rightarrow> nat \<Rightarrow> u8 list" where
  "number b ds n = (if n < b \<or> b < 2 then [ds ! n] else number b ds (n div b) @ [ds ! (n mod b)])"
  by pat_completeness auto
termination by (relation "measure (\<lambda>(b, ds, n). n)") auto

declare number.simps [simp del]

lemma unsigned_digits_number:
  assumes "2 \<le> base" "unat v < 2 ^ n" "v \<noteq> 0"
  shows "rev (unsigned_digits n v base ds) = number (unat base) ds (unat v)"
  using assms(2,3)
proof (induction n arbitrary: v)
  case 0
  then show ?case by (simp add: unat_gt_0 [symmetric])
next
  case (Suc n)
  have b: "2 \<le> unat base" using assms(1) by (simp add: word_le_nat_alt)
  have q: "unat (v div base) = unat v div unat base" "unat (v mod base) = unat v mod unat base"
    by (simp_all add: unat_div unat_mod)
  have "unat v div unat base \<le> unat v div 2" using b by (intro div_le_mono2) auto
  then have lt: "unat (v div base) < 2 ^ n" using Suc.prems(1) q(1) by simp
  show ?case
  proof (cases "v div base = 0")
    case True
    then have "unat v div unat base = 0" using q(1) by simp
    then have "unat v < unat base" using b by (simp add: div_eq_0_iff)
    then show ?thesis using Suc.prems(2) True q by (cases n) (simp_all add: number.simps)
  next
    case False
    then have "\<not> unat v < unat base" using q(1) by (metis div_less word_unat_eq_iff unat_0)
    then show ?thesis
      using Suc.IH [OF lt False] Suc.prems(2) q b by (simp add: number.simps [of "unat base" ds "unat v"])
  qed
qed

lemma emit_unsigned_number:
  assumes "2 \<le> base" "ds ! 0 = of_char (CHR ''0'')"
  shows "emit_unsigned v base ds e = emit_bytes (number (unat base) ds (unat v)) e"
proof (cases "v = 0")
  case True
  have "0 < unat base" using assms(1) by (auto simp: word_le_nat_alt)
  then show ?thesis using True assms(2) by (simp add: emit_unsigned_def number.simps)
next
  case False
  have "unat v < 2 ^ 32" by simp
  then show ?thesis using unsigned_digits_number [OF assms(1) _ False, of 32 ds] False by (simp add: emit_unsigned_def)
qed

text \<open>Reading decimal digits.\<close>

definition decimal_value :: "u8 list \<Rightarrow> nat" where
  "decimal_value cs = foldl (\<lambda>a c. a * 10 + (unat c - 48)) 0 cs"

lemma decimal_digit: "d < 10 \<Longrightarrow> decimal_digits ! d = of_nat (48 + d)"
  by (auto simp: decimal_digits_def ascii_def less_Suc_eq numeral_eq_Suc)

lemma number_decimal:
  "decimal_value (number 10 decimal_digits n) = n \<and> (\<forall>c \<in> set (number 10 decimal_digits n). 48 \<le> c \<and> c \<le> 57) \<and>
   number 10 decimal_digits n \<noteq> [] \<and> (hd (number 10 decimal_digits n) = 48 \<longrightarrow> n = 0)"
proof (induction n rule: less_induct)
  case (less n)
  have dig: "unat (decimal_digits ! d) = 48 + d" if "d < 10" for d
    unfolding decimal_digit [OF that] unat_of_nat using that by (simp add: take_bit_nat_eq_self)
  then have rng: "48 \<le> decimal_digits ! d \<and> decimal_digits ! d \<le> 57 \<and> (decimal_digits ! d = 48 \<longrightarrow> d = 0)" if "d < 10" for d
    using that by (auto simp: word_le_nat_alt word_unat_eq_iff)
  show ?case
  proof (cases "n < 10")
    case True
    then show ?thesis using dig rng by (simp add: number.simps decimal_value_def)
  next
    case False
    then have "n div 10 < n" "n div 10 \<noteq> 0" by auto
    from less.IH [OF this(1)] this(2) show ?thesis
      using False dig [of "n mod 10"] rng [of "n mod 10"]
      by (subst (1 2 3 4) number.simps) (auto simp: decimal_value_def)
  qed
qed

text \<open>
  Decimal output reads back: the characters printed for an unsigned number are decimal digits without a
  leading zero, and their value is the number.
\<close>

theorem decimal_output_reads_back:
  "\<exists>cs. emit_unsigned v 10 decimal_digits e = emit_bytes cs e \<and> decimal_value cs = unat v \<and>
     \<not> (\<exists>c \<in> set cs. \<not> (48 \<le> c \<and> c \<le> 57)) \<and> cs \<noteq> [] \<and> (v = 0 \<or> hd cs \<noteq> 48)"
proof -
  have "emit_unsigned v 10 decimal_digits e = emit_bytes (number 10 decimal_digits (unat v)) e"
    by (subst emit_unsigned_number) (simp_all add: decimal_digits_def ascii_def)
  then show ?thesis using number_decimal [of "unat v"] by (intro exI [of _ "number 10 decimal_digits (unat v)"]) (auto simp: word_unat_eq_iff [of v 0])
qed

section \<open>The output of a format\<close>

text \<open>The memory with the bytes \<open>bs\<close> at \<open>a\<close>.\<close>

definition put_bytes :: "u32 \<Rightarrow> u8 list \<Rightarrow> memory \<Rightarrow> memory" where
  "put_bytes a bs m = (\<lambda>b. if unat (b - a) < length bs then bs ! unat (b - a) else m b)"

lemma put_bytes_snoc:
  assumes "length bs < 4294967296"
  shows "put_bytes a (bs @ [c]) m = (put_bytes a bs m)(a + of_nat (length bs) := c)"
proof
  fix b
  have "b = a + of_nat (length bs) \<longleftrightarrow> unat (b - a) = length bs"
  proof -
    have "b = a + of_nat (length bs) \<longleftrightarrow> b - a = of_nat (length bs)" by (auto simp: diff_eq_eq add.commute)
    also have "\<dots> \<longleftrightarrow> unat (b - a) = length bs"
      using assms by (simp only: word_unat_eq_iff unat_of_nat32)
    finally show ?thesis .
  qed
  then show "put_bytes a (bs @ [c]) m b = ((put_bytes a bs m)(a + of_nat (length bs) := c)) b"
    by (auto simp: put_bytes_def nth_append)
qed

text \<open>The emitter after the characters \<open>out\<close>, into a buffer with room for \<open>n\<close>.\<close>

definition emitted :: "u32 \<Rightarrow> nat \<Rightarrow> memory \<Rightarrow> u8 list \<Rightarrow> emitter \<Rightarrow> bool" where
  "emitted a n m out e \<longleftrightarrow> em_total e = of_nat (length out) \<and> em_avail e = of_nat (n - length out) \<and>
     em_dst e = a + of_nat (length (take n out)) \<and> em_mem e = put_bytes a (take n out) m"

lemma emit_char_emitted:
  assumes "emitted a n m out e" "n < 4294967296" shows "emitted a n m (out @ [c]) (emit_char c e)"
proof (cases "length out < n")
  case True
  have "em_avail e = of_nat (n - length out)" using assms(1) by (simp only: emitted_def)
  moreover have "unat (of_nat (n - length out) :: u32) = n - length out" using assms(2) by (intro unat_of_nat32) simp
  ultimately have "0 < em_avail e" using True by (simp only: word_less_nat_alt unat_0 zero_less_diff)
  moreover have "(of_nat (n - length out) :: u32) - 1 = of_nat (n - Suc (length out))"
    using True by (simp add: of_nat_diff)
  ultimately show ?thesis
    using assms True by (simp add: emitted_def emit_char_def put_bytes_snoc)
next
  case False
  then show ?thesis using assms by (simp add: emitted_def emit_char_def)
qed

lemma emit_bytes_emitted:
  "emitted a n m out e \<Longrightarrow> n < 4294967296 \<Longrightarrow> emitted a n m (out @ cs) (emit_bytes cs e)"
  unfolding emit_bytes_def
  by (induction cs arbitrary: out e) (use emit_char_emitted in fastforce)+

text \<open>A terminated string that does not overlap the buffer.\<close>

definition string_apart :: "u32 \<Rightarrow> nat \<Rightarrow> memory \<Rightarrow> u32 \<Rightarrow> u8 list \<Rightarrow> bool" where
  "string_apart a n m s cs \<longleftrightarrow> string_at m s cs \<and> length cs < 4294967295 \<and> region s (length cs + 1) \<inter> region a n = {}"

lemma string_apart_read:
  assumes "string_apart a n m s cs" "emitted a n m out e" "i \<le> length cs"
  shows "em_mem e (s + of_nat i) = (if i < length cs then cs ! i else 0)"
proof -
  have "s + of_nat i \<in> region s (length cs + 1)"
    using assms(1,3) by (intro in_region_offset) (simp_all add: string_apart_def)
  then have "s + of_nat i \<notin> region a n" using assms(1) by (auto simp: string_apart_def)
  then have "em_mem e (s + of_nat i) = m (s + of_nat i)"
    using assms(2) by (auto simp: emitted_def put_bytes_def region_def)
  then show ?thesis using assms(1,3) by (auto simp: string_apart_def string_at_def le_less)
qed

lemma string_apart_nz: "string_apart a n m s cs \<Longrightarrow> i < length cs \<Longrightarrow> cs ! i \<noteq> 0"
  by (simp add: string_apart_def string_at_def)

lemma emit_loop_emitted:
  assumes str: "string_apart a n m s cs" and n: "n < 4294967296"
  shows "emitted a n m out e \<Longrightarrow> i \<le> length cs \<Longrightarrow>
    \<exists>e'. emit_loop (s + of_nat i) e = Some e' \<and> emitted a n m (out @ drop i cs) e'"
proof (induction "length cs - i" arbitrary: i out e)
  case 0
  then show ?case using string_apart_read [OF str 0(2,3)] by (subst emit_loop.simps) simp
next
  case (Suc j)
  then have i: "i < length cs" by simp
  have c: "em_mem e (s + of_nat i) = cs ! i" "cs ! i \<noteq> 0"
    using string_apart_read [OF str Suc(3,4)] string_apart_nz [OF str i] i by simp_all
  have "emitted a n m (out @ [cs ! i]) (emit_char (cs ! i) e)" by (rule emit_char_emitted [OF Suc(3) n])
  moreover have "j = length cs - Suc i" using Suc(2) by simp
  ultimately obtain e' where
    "emit_loop (s + of_nat (Suc i)) (emit_char (cs ! i) e) = Some e'" "emitted a n m ((out @ [cs ! i]) @ drop (Suc i) cs) e'"
    using Suc(1) [of "Suc i" "out @ [cs ! i]" "emit_char (cs ! i) e"] i by auto
  moreover have "drop i cs = cs ! i # drop (Suc i) cs" using i by (rule Cons_nth_drop_Suc [symmetric])
  moreover have "emit_loop (s + of_nat i) e = emit_loop (s + of_nat (Suc i)) (emit_char (cs ! i) e)"
    by (subst emit_loop.simps) (simp add: c algebra_simps)
  ultimately show ?case by simp
qed

text \<open>
  What a format prints: \<open>strs p\<close> is the string at \<open>p\<close>.  There is no value when the arguments or the format
  end too early or a string is not known.
\<close>

definition printed_number :: "nat \<Rightarrow> u8 list \<Rightarrow> u32 \<Rightarrow> u8 list" where
  "printed_number b ds v = number b ds (unat v)"

definition conversion :: "(u32 \<Rightarrow> u8 list option) \<Rightarrow> u8 \<Rightarrow> u32 list \<Rightarrow> (u8 list \<times> u32 list) option" where
  "conversion strs spec ap =
     (if spec = of_char (CHR ''s'') then (case ap of [] \<Rightarrow> None
        | p # ap \<Rightarrow> if p = 0 then Some (ascii ''(null)'', ap) else map_option (\<lambda>cs. (cs, ap)) (strs p))
      else if spec \<in> set (ascii ''cdiuxXp'') then (case ap of [] \<Rightarrow> None
        | v # ap \<Rightarrow> Some
            (if spec = of_char (CHR ''c'') then [ucast v]
             else if spec \<in> set (ascii ''di'')
             then if sint v < 0 then of_char (CHR ''-'') # printed_number 10 decimal_digits (- v)
                  else printed_number 10 decimal_digits v
             else if spec = of_char (CHR ''u'') then printed_number 10 decimal_digits v
             else if spec = of_char (CHR ''x'') then printed_number 16 lower_digits v
             else if spec = of_char (CHR ''X'') then printed_number 16 upper_digits v
             else ascii ''0x'' @ printed_number 16 lower_digits v, ap))
      else Some ([of_char (CHR ''%''), spec], ap))"

fun render :: "(u32 \<Rightarrow> u8 list option) \<Rightarrow> u8 list \<Rightarrow> u32 list \<Rightarrow> u8 list option" where
  "render strs [] ap = Some []"
| "render strs [c] ap = (if c = of_char (CHR ''%'') then None else Some [c])"
| "render strs (c # d # f) ap =
     (if c \<noteq> of_char (CHR ''%'') then map_option ((#) c) (render strs (d # f) ap)
      else if d = of_char (CHR ''%'') then map_option ((#) d) (render strs f ap)
      else if d = of_char (CHR ''l'') then (case f of [] \<Rightarrow> None
        | d # f \<Rightarrow> do { (out, ap) \<leftarrow> conversion strs d ap; map_option ((@) out) (render strs f ap) })
      else do { (out, ap) \<leftarrow> conversion strs d ap; map_option ((@) out) (render strs f ap) })"

lemma digit_zero [simp]:
  "decimal_digits ! 0 = 48" "lower_digits ! 0 = 48" "upper_digits ! 0 = 48"
  by (simp_all add: decimal_digits_def lower_digits_def upper_digits_def ascii_def)

lemma emit_printed [simp]:
  "emit_unsigned v 10 decimal_digits e = emit_bytes (printed_number 10 decimal_digits v) e"
  "emit_unsigned v 16 lower_digits e = emit_bytes (printed_number 16 lower_digits v) e"
  "emit_unsigned v 16 upper_digits e = emit_bytes (printed_number 16 upper_digits v) e"
  by (subst emit_unsigned_number; simp add: printed_number_def)+

lemma emit_bytes_Cons: "emit_bytes cs (emit_char c e) = emit_bytes (c # cs) e"
  by (simp add: emit_bytes_def)

lemma emit_char_bytes: "emit_char c e = emit_bytes [c] e"
  by (simp add: emit_bytes_def)

lemma convert_emitted:
  assumes e: "emitted a n m out e" and n: "n < 4294967296"
    and strs: "\<And>p cs. strs p = Some cs \<Longrightarrow> string_apart a n m p cs"
    and conv: "conversion strs spec ap = Some (cs, ap')"
  shows "\<exists>e'. convert spec ap e = Some (ap', e') \<and> emitted a n m (out @ cs) e'"
proof (cases "spec = of_char (CHR ''s'')")
  case True
  obtain p where p: "ap = p # ap'" using conv True by (auto simp: conversion_def split: list.splits if_splits)
  show ?thesis
  proof (cases "p = 0")
    case z: True
    then show ?thesis
      using conv True p emit_bytes_emitted [OF e n, of "ascii ''(null)''"]
      by (simp add: conversion_def convert_def va_arg_def emit_string_def)
  next
    case False
    then have "strs p = Some cs" using conv True p by (auto simp: conversion_def)
    from emit_loop_emitted [OF strs [OF this] n e, of 0] obtain e' where "emit_loop p e = Some e'" "emitted a n m (out @ cs) e'"
      by auto
    then show ?thesis using True p False by (simp add: convert_def va_arg_def emit_string_def)
  qed
next
  case False
  have "convert spec ap e = Some (ap', emit_bytes cs e)"
  proof (cases "spec \<in> set (ascii ''cdiuxXp'')")
    case True
    then obtain v where v: "ap = v # ap'" using conv False by (auto simp: conversion_def split: list.splits)
    from True consider "spec = 99" | "spec = 100" | "spec = 105" | "spec = 117" | "spec = 120" | "spec = 88" | "spec = 112"
      by (auto simp: ascii_def)
    then show ?thesis
      using conv v
      by cases (auto simp: conversion_def convert_def va_arg_def ascii_def emit_bytes_Cons emit_char_bytes [symmetric] Let_def)
  next
    case other: False
    then show ?thesis using conv False by (auto simp: conversion_def convert_def ascii_def emit_bytes_def)
  qed
  then show ?thesis using emit_bytes_emitted [OF e n, of cs] by auto
qed

lemma format_loop_render:
  assumes n: "n < 4294967296" and fs: "string_apart a n m f fs"
    and strs: "\<And>p cs. strs p = Some cs \<Longrightarrow> string_apart a n m p cs"
  shows "render strs (drop i fs) ap = Some res \<Longrightarrow> emitted a n m out e \<Longrightarrow> i \<le> length fs \<Longrightarrow>
    \<exists>e'. format_loop (f + of_nat i) ap e = Some e' \<and> emitted a n m (out @ res) e'"
proof (induction "length fs - i" arbitrary: i ap res out e rule: less_induct)
  case less
  note read = string_apart_read [OF fs less.prems(2)]
  have at: "em_mem e (f + of_nat i) = (if i < length fs then fs ! i else 0)" using read less.prems(3) by simp
  show ?case
  proof (cases "i < length fs")
    case False
    then show ?thesis
      using less.prems at by (subst format_loop.simps) (auto simp: Let_def)
  next
    case i: True
    have nz: "fs ! i \<noteq> 0" by (rule string_apart_nz [OF fs i])
    have d: "drop i fs = fs ! i # drop (Suc i) fs" using i by (rule Cons_nth_drop_Suc [symmetric])
    have step: "f + of_nat i + 1 = f + of_nat (Suc i)" "f + of_nat (Suc i) + 1 = f + of_nat (Suc (Suc i))" by (simp_all add: algebra_simps)
    have IH: "\<exists>e'. format_loop (f + of_nat j) ap' e1 = Some e' \<and> emitted a n m (out1 @ res') e'"
      if "i < j" "j \<le> length fs" "render strs (drop j fs) ap' = Some res'" "emitted a n m out1 e1" for j ap' res' out1 e1
      using that i by (intro less.hyps) auto
    show ?thesis
    proof (cases "fs ! i = 37")
      case False
      then obtain res' where t: "res = fs ! i # res'" "render strs (drop (Suc i) fs) ap = Some res'"
        using less.prems(1) d by (cases "drop (Suc i) fs") auto
      show ?thesis
        using IH [OF _ _ t(2) emit_char_emitted [OF less.prems(2) n, of "fs ! i"]] i at nz False t(1)
        by (subst format_loop.simps) (simp add: Let_def step del: of_nat_Suc)
    next
      case pc: True
      have "drop (Suc i) fs \<noteq> []" using less.prems(1) d pc by (cases "drop (Suc i) fs") auto
      then have i1: "Suc i < length fs" by simp
      have d1: "drop (Suc i) fs = fs ! Suc i # drop (Suc (Suc i)) fs" using i1 by (rule Cons_nth_drop_Suc [symmetric])
      have at1: "em_mem e (f + of_nat (Suc i)) = fs ! Suc i" using read [of "Suc i"] i1 by simp
      have conv: "\<exists>e'. (do { (ap, e) \<leftarrow> convert (fs ! j) ap e; format_loop (f + of_nat (Suc j)) ap e }) = Some e' \<and>
          emitted a n m (out @ res) e'"
        if j: "i < j" "j < length fs"
          and r: "do { (cs, ap) \<leftarrow> conversion strs (fs ! j) ap; map_option ((@) cs) (render strs (drop (Suc j) fs) ap) } = Some res" for j
      proof -
        obtain cs ap1 res' where c: "conversion strs (fs ! j) ap = Some (cs, ap1)"
          "render strs (drop (Suc j) fs) ap1 = Some res'" "res = cs @ res'"
          using r by (auto simp: bind_eq_Some_conv)
        obtain e1 where e1: "convert (fs ! j) ap e = Some (ap1, e1)" "emitted a n m (out @ cs) e1"
          using convert_emitted [OF less.prems(2) n strs c(1)] by blast
        show ?thesis using IH [OF _ _ c(2) e1(2)] j e1(1) c(3) by simp
      qed
      consider (percent) "fs ! Suc i = 37" | (long) "fs ! Suc i = 108" | (plain) "fs ! Suc i \<noteq> 37" "fs ! Suc i \<noteq> 108" by blast
      then show ?thesis
      proof cases
        case percent
        then obtain res' where t: "res = 37 # res'" "render strs (drop (Suc (Suc i)) fs) ap = Some res'"
          using less.prems(1) d d1 pc by auto
        show ?thesis
          using IH [OF _ _ t(2) emit_char_emitted [OF less.prems(2) n, of 37]] i1 at at1 i pc percent t(1)
          by (subst format_loop.simps) (simp add: Let_def step del: of_nat_Suc)
      next
        case long
        have "drop (Suc (Suc i)) fs \<noteq> []" using less.prems(1) d d1 pc long by (cases "drop (Suc (Suc i)) fs") auto
        then have i2: "Suc (Suc i) < length fs" by simp
        have d2: "drop (Suc (Suc i)) fs = fs ! Suc (Suc i) # drop (Suc (Suc (Suc i))) fs"
          using i2 by (rule Cons_nth_drop_Suc [symmetric])
        have at2: "em_mem e (f + of_nat (Suc (Suc i))) = fs ! Suc (Suc i)" using read [of "Suc (Suc i)"] i2 by simp
        have step2: "f + of_nat (Suc (Suc i)) + 1 = f + of_nat (Suc (Suc (Suc i)))" by (simp add: algebra_simps)
        show ?thesis
          using conv [of "Suc (Suc i)"] i2 at at1 at2 i pc long less.prems(1) d d1 d2
          by (subst format_loop.simps) (simp add: Let_def step step2 del: of_nat_Suc)
      next
        case plain
        show ?thesis
          using conv [of "Suc i"] i1 at at1 i pc plain less.prems(1) d d1
          by (subst format_loop.simps) (simp add: Let_def step del: of_nat_Suc)
      qed
    qed
  qed
qed

text \<open>\<open>vsnprintf\<close> prints what \<open>render\<close> gives, as much of it as fits.\<close>

lemma vsnprintf_render:
  assumes "sz \<noteq> 0" "string_apart str (unat sz) m format fs" "render strs fs ap = Some res"
    and strs: "\<And>p cs. strs p = Some cs \<Longrightarrow> string_apart str (unat sz) m p cs"
  shows "vsnprintf str sz format ap m =
    Some (of_nat (length res), put_bytes str (take (unat sz - 1) res @ [0]) m)"
proof -
  let ?n = "unat sz - 1" and ?e = "\<lparr>em_mem = m, em_dst = str, em_avail = sz - 1, em_total = 0\<rparr>"
  have n: "?n < 4294967296" using unat_u32_lt [of sz] by linarith
  have apart: "string_apart str ?n m p cs" if "string_apart str (unat sz) m p cs" for p cs
    using that region_mono [of ?n "unat sz" str] by (auto simp: string_apart_def)
  have "sz - 1 = of_nat ?n" using unat_minus_one [OF assms(1)] by (metis unsigned_word_eqI unat_of_nat32 n)
  then have e: "emitted str ?n m [] ?e" by (simp add: emitted_def put_bytes_def)
  obtain e' where run: "format_loop format ap ?e = Some e'" "emitted str ?n m res e'"
    using format_loop_render [OF n apart [OF assms(2)], of strs 0 ap res "[]" ?e] apart strs assms(3) e by auto
  have "put_bytes str (take ?n res @ [0]) m = (em_mem e')(em_dst e' := 0)"
    using run(2) n by (subst put_bytes_snoc) (auto simp: emitted_def)
  then show ?thesis using run assms(1) by (simp add: vsnprintf_def emitted_def word_gt_0)
qed

text \<open>
  C38. \<open>vsnprintf\<close> prints what the format says: for a terminated format and strings that do not overlap the
  buffer it ends, returns the length of the whole output, and leaves in the buffer as much of the output as
  fits, terminated; the rest of memory is unchanged.
\<close>

theorem vsnprintf_correct:
  assumes "sz \<noteq> 0" "string_apart str (unat sz) m format fs" "render strs fs ap = Some res"
    and strs: "\<And>p cs. strs p = Some cs \<Longrightarrow> string_apart str (unat sz) m p cs"
  shows "vsnprintf str sz format ap m =
    Some (of_nat (length res), put_bytes str (take (unat sz - 1) res @ [0]) m)"
  by (rule vsnprintf_render [OF assms])

text \<open>\<open>snprintf(buf, 6, "%s=%d", "ab", -42)\<close>, which needs one character more than there is room for.\<close>

definition demo_text :: memory where
  "demo_text = put_bytes 0x08000000 (ascii ''%s=%d'') (put_bytes 0x08001000 (ascii ''ab'') (\<lambda>_. 0))"

theorem vsnprintf_correct_witness:
  "vsnprintf 0x20009000 6 0x08000000 [0x08001000, - 42] demo_text =
     Some (6, put_bytes 0x20009000 (ascii ''ab=-4'' @ [0]) demo_text)"
proof -
  let ?strs = "[0x08001000 \<mapsto> ascii ''ab'']"
  have len: "length (ascii ''%s=%d'') + 1 = 6" "length (ascii ''ab'') + 1 = 3" by (simp_all add: ascii_def)
  have n: "number 10 decimal_digits 42 = [52, 50]"
    by (simp add: number.simps decimal_digits_def ascii_def)
  have r: "render ?strs (ascii ''%s=%d'') [0x08001000, - 42] = Some (ascii ''ab=-42'')"
    by (simp add: ascii_def conversion_def printed_number_def n)
  have f: "string_apart 0x20009000 (unat (6 :: u32)) demo_text 0x08000000 (ascii ''%s=%d'')"
    using region_disjoint [of "0x08000000" 6 "0x20009000" 6]
    unfolding string_apart_def len by (simp add: ascii_def demo_text_def put_bytes_def)
  have s: "string_apart 0x20009000 6 demo_text 0x08001000 (ascii ''ab'')"
    using region_disjoint [of "0x08001000" 3 "0x20009000" 6]
    unfolding string_apart_def len by (simp add: ascii_def demo_text_def put_bytes_def)
  have "string_apart 0x20009000 (unat (6 :: u32)) demo_text p cs" if "?strs p = Some cs" for p cs
    using that s by (auto split: if_splits)
  from vsnprintf_correct [OF _ f r this] show ?thesis by (simp add: ascii_def)
qed

end
