(* ===== verification/Wakeups.thy ===== *)
theory Wakeups
  imports Syscall
begin

text \<open>
  What a kernel operation may do to tasks other than the one it works for.  A task that waits for
  nothing is left alone; a task on a wait list, or asleep, stays so or becomes READY; no task is made
  RUNNING.  Every operation a request can reach is shown to be of this kind, so that the step relation of
  the whole kernel needs one argument for all of them.
\<close>

section \<open>Tasks that wait for nothing\<close>

definition resting :: "(wait_head \<Rightarrow> tcb_ptr list) \<Rightarrow> kernel \<Rightarrow> tcb_ptr \<Rightarrow> bool" where
  "resting W k t \<longleftrightarrow> delay_ticks (tcb_pool k t) = 0 \<and> blocking_wait_list (tcb_pool k t) = None \<and>
     (\<forall>h. t \<notin> set (W h))"

text \<open>The wait lists are in order and only WAITING tasks wait.\<close>

definition settled :: "(wait_head \<Rightarrow> tcb_ptr list) \<Rightarrow> kernel \<Rightarrow> bool" where
  "settled W k \<longleftrightarrow> prim_inv W k \<and> (\<forall>t. tstate (tcb_pool k t) \<noteq> TASK_WAITING \<longrightarrow> resting W k t)"

text \<open>The lists of the scheduler, its current task and the ring of the worker are as before.\<close>

definition kept :: "kernel \<Rightarrow> kernel \<Rightarrow> bool" where
  "kept k k' \<longleftrightarrow> tick_kept k k' \<and>
     (\<forall>t. next_task (tcb_pool k' t) = next_task (tcb_pool k t) \<and> priority (tcb_pool k' t) = priority (tcb_pool k t))"

text \<open>An operation on behalf of the tasks \<open>U\<close>.\<close>

definition moves :: "tcb_ptr set \<Rightarrow> (wait_head \<Rightarrow> tcb_ptr list) \<Rightarrow> kernel \<Rightarrow>
    (wait_head \<Rightarrow> tcb_ptr list) \<Rightarrow> kernel \<Rightarrow> bool" where
  "moves U W k W' k' \<longleftrightarrow> settled W' k' \<and> kept k k' \<and>
     (\<forall>t. t \<notin> U \<longrightarrow> (if resting W k t
        then tstate (tcb_pool k' t) = tstate (tcb_pool k t) \<and> resting W' k' t
        else tstate (tcb_pool k' t) \<noteq> TASK_RUNNING))"

lemma settledD:
  "settled W k \<Longrightarrow> prim_inv W k" "settled W k \<Longrightarrow> tstate (tcb_pool k t) \<noteq> TASK_WAITING \<Longrightarrow> resting W k t"
  by (simp_all add: settled_def)

lemma restingD:
  "resting W k t \<Longrightarrow> delay_ticks (tcb_pool k t) = 0" "resting W k t \<Longrightarrow> blocking_wait_list (tcb_pool k t) = None"
  "resting W k t \<Longrightarrow> t \<notin> set (W h)"
  by (simp_all add: resting_def)

lemma kept_refl [simp]: "kept k k"
  by (simp add: kept_def tick_kept_def)

lemma kept_trans: "kept k k1 \<Longrightarrow> kept k1 k2 \<Longrightarrow> kept k k2"
  by (simp add: kept_def tick_kept_def)

lemma movesD:
  assumes "moves U W k W' k'"
  shows "settled W' k'" "kept k k'" "t \<notin> U \<Longrightarrow> resting W k t \<Longrightarrow> tstate (tcb_pool k' t) = tstate (tcb_pool k t)"
    "t \<notin> U \<Longrightarrow> resting W k t \<Longrightarrow> resting W' k' t"
    "t \<notin> U \<Longrightarrow> \<not> resting W k t \<Longrightarrow> tstate (tcb_pool k' t) \<noteq> TASK_RUNNING"
  using assms by (auto simp: moves_def)

lemma moves_refl: "settled W k \<Longrightarrow> moves U W k W k"
  by (auto simp: moves_def settled_def)

lemma moves_trans:
  assumes "moves U W k W1 k1" "moves U W1 k1 W2 k2" shows "moves U W k W2 k2"
  using assms kept_trans by (auto simp: moves_def split: if_splits) metis+

lemma moves_mono:
  assumes "moves U W k W' k'" "U \<subseteq> V" shows "moves V W k W' k'"
  using assms by (auto simp: moves_def)

text \<open>A task that waited may be left out of the exceptions.\<close>

lemma moves_waiter:
  assumes "moves (insert t U) W k W' k'" "\<not> resting W k t" "tstate (tcb_pool k' t) \<noteq> TASK_RUNNING"
  shows "moves U W k W' k'"
  using assms by (auto simp: moves_def)

section \<open>The steps operations are made of\<close>

lemma resting_cong: "tcb_pool k' = tcb_pool k \<Longrightarrow> resting W k' = resting W k"
  by (simp add: resting_def fun_eq_iff)

lemma moves_same:
  assumes "settled W k" "tcb_pool k' = tcb_pool k" "tick_kept k k'" "prim_inv W k'"
  shows "moves U W k W k'"
  using assms resting_cong [OF assms(2), of W] by (auto simp: moves_def settled_def kept_def)

lemma moves_heads:
  assumes "settled W k" "tcb_pool k' = tcb_pool k" "tick_kept k k'" "\<And>h. read_head h k' = read_head h k"
  shows "moves U W k W k'"
  using assms prim_inv_cong [of k' k W] settledD(1) by (intro moves_same) auto

text \<open>A change of one task that waits for nothing.\<close>

lemma moves_upd:
  assumes s: "settled W k" and t: "t \<in> U" "resting W k t"
    and f: "wait_next (f (tcb_pool k t)) = wait_next (tcb_pool k t)" "next_task (f (tcb_pool k t)) = next_task (tcb_pool k t)"
      "priority (f (tcb_pool k t)) = priority (tcb_pool k t)" "blocking_wait_list (f (tcb_pool k t)) = None"
      "tstate (f (tcb_pool k t)) \<noteq> TASK_WAITING \<Longrightarrow> delay_ticks (f (tcb_pool k t)) = 0"
  shows "moves U W k W (upd_tcb t f k)"
proof -
  have "prim_inv W (upd_tcb t f k)"
    using f restingD(3) [OF t(2)] by (intro prim_inv_other settledD(1) [OF s]) simp_all
  moreover have "resting W (upd_tcb t f k) u" if "tstate (tcb_pool (upd_tcb t f k) u) \<noteq> TASK_WAITING" for u
    using that settledD(2) [OF s, of u] f(4,5) restingD(3) [OF t(2)] by (cases "u = t") (auto simp: resting_def)
  ultimately have "settled W (upd_tcb t f k)" by (simp add: settled_def)
  moreover have "kept k (upd_tcb t f k)" using f(2,3) by (simp add: kept_def tick_kept_def upd_tcb_def)
  ultimately show ?thesis using t(1) settledD(2) [OF s] by (auto simp: moves_def resting_def)
qed

text \<open>Waking the first task of a list.\<close>

lemma tick_kept_simps [simp]:
  "tick_kept k k" "tick_kept k (k1\<lparr>primask := v1\<rparr>) = tick_kept k k1" "tick_kept k (k1\<lparr>mem := v2\<rparr>) = tick_kept k k1"
  "tick_kept k (k1\<lparr>uart_out := v3\<rparr>) = tick_kept k k1" "tick_kept k (k1\<lparr>table := v4\<rparr>) = tick_kept k k1"
  "tick_kept k (k1\<lparr>tcb_pool := v5\<rparr>) = tick_kept k k1" "tick_kept k (k1\<lparr>kheap := v6\<rparr>) = tick_kept k k1"
  "tick_kept k (k1\<lparr>tick_count := v7\<rparr>) = tick_kept k k1" "tick_kept k (k1\<lparr>control := v8\<rparr>) = tick_kept k k1"
  "tick_kept k (k1\<lparr>queues := v9\<rparr>) = tick_kept k k1" "tick_kept k (set_sem p s k1) = tick_kept k k1"
  "tick_kept k (set_mutex p m k1) = tick_kept k k1" "tick_kept k (set_queue p q k1) = tick_kept k k1"
  "tick_kept k (upd_tcb t f k1) = tick_kept k k1" "tick_kept k (write_head h x k1) = tick_kept k k1"
  "tick_kept k k1 \<Longrightarrow> tick_kept k (k1\<lparr>pendsv := True\<rparr>)"
  by (auto simp: tick_kept_def write_head_def state_defs split: wait_head.splits option.splits)

lemma tick_kept_trans: "tick_kept k k1 \<Longrightarrow> tick_kept k1 k2 \<Longrightarrow> tick_kept k k2"
  by (simp add: tick_kept_def)

lemma moves_pop:
  assumes s: "settled W k" and h: "read_head h k = Some (Some t)"
  shows "moves {t} W k (W(h := tl (W h))) (wait_pop h t k)" "resting (W(h := tl (W h))) (wait_pop h t k) t"
    "\<not> resting W k t" "tstate (tcb_pool (wait_pop h t k) t) = TASK_WAITING"
proof -
  obtain ts where ts: "W h = t # ts" "\<forall>g. t \<notin> set ((W(h := ts)) g)" "prim_inv (W(h := ts)) (wait_pop h t k)"
    by (rule wait_pop_inv [OF settledD(1) [OF s] h])
  show rt: "resting (W(h := tl (W h))) (wait_pop h t k) t" using ts(1,2) by (simp add: resting_def)
  have "t \<in> set (W h)" using ts(1) by simp
  then show nt: "\<not> resting W k t" unfolding resting_def by blast
  have "tstate (tcb_pool k t) = TASK_WAITING" using settledD(2) [OF s, of t] nt by blast
  then show "tstate (tcb_pool (wait_pop h t k) t) = TASK_WAITING" by simp
  have sub: "\<forall>g. u \<notin> set (W g) \<longrightarrow> u \<notin> set ((W(h := ts)) g)" for u
    using ts(1) by auto
  have rest: "resting (W(h := ts)) (wait_pop h t k) u" if "resting W k u" "u \<noteq> t" for u
    using that sub [of u] by (simp add: resting_def)
  have "kept k (wait_pop h t k)"
    by (simp add: kept_def wait_pop_def)
  moreover have "settled (W(h := ts)) (wait_pop h t k)"
    using ts(3) rest settledD(2) [OF s] rt ts(1) unfolding settled_def by (auto split: if_splits)
  ultimately show "moves {t} W k (W(h := tl (W h))) (wait_pop h t k)"
    using rest ts(1) settledD(2) [OF s] by (auto simp: moves_def)
qed

lemma tick_kept_wake: "tick_kept k (scheduler_wake_task t r k)"
  by (simp add: tick_kept_def)

lemma moves_wake:
  assumes s: "settled W k" and t: "t \<in> U" "resting W k t"
  shows "moves U W k W (scheduler_wake_task t r k)"
proof -
  let ?f = "\<lambda>c. c\<lparr>flags := flags c AND NOT TASK_FLAG_SVC_BLOCKED, tstate := TASK_READY\<rparr>"
  have m: "moves U W k W (upd_tcb t ?f k)"
    using restingD [OF t(2)] by (intro moves_upd s t) simp_all
  have "moves U W (upd_tcb t ?f k) W (scheduler_wake_task t r k)"
    by (rule moves_heads [OF movesD(1) [OF m]]) (simp_all add: tick_kept_def)
  then show ?thesis by (rule moves_trans [OF m])
qed

lemma moves_wake_first:
  assumes s: "settled W k" and h: "read_head h k = Some w"
  shows "moves {} W k (W(h := tl (W h))) (wake_first h w pm k)"
proof (cases w)
  case None
  have "W h = []" using wait_wf_chain [OF prim_invD(1) [OF settledD(1) [OF s]] h] None by simp
  then have "W(h := tl (W h)) = W" by (simp add: fun_upd_idem)
  moreover have "moves {} W k W (exit_critical pm k)" using s by (intro moves_heads) (simp_all add: exit_critical_def)
  ultimately show ?thesis using None by (simp add: wake_first_def)
next
  case (Some t)
  let ?W = "W(h := tl (W h))" and ?k = "exit_critical pm (wait_pop h t k)"
  note pop = moves_pop [OF s h [unfolded Some]]
  have m: "moves {t} ?W (wait_pop h t k) ?W ?k"
    by (rule moves_heads [OF movesD(1) [OF pop(1)]]) (simp_all add: exit_critical_def)
  have "resting ?W ?k t" using pop(2) by (subst resting_cong [of _ "wait_pop h t k"]) (simp_all add: exit_critical_def)
  then have "moves {t} ?W ?k ?W (scheduler_wake_task t 0 ?k)" by (intro moves_wake movesD(1) [OF m]) simp_all
  then have "moves {t} W k ?W (scheduler_wake_task t 0 ?k)" by (intro moves_trans [OF pop(1)] moves_trans [OF m])
  then show ?thesis using pop(3) Some by (auto simp: wake_first_def intro: moves_waiter)
qed

text \<open>A WAITING task is put on a list.\<close>

lemma moves_block:
  assumes s: "settled W k" and t: "t \<in> U" "resting W k t" "tstate (tcb_pool k t) = TASK_WAITING"
    and k1: "wait_frame k k1" "prim_inv (W(h := ws)) (set_timeout h t timeout_ms k1)" "set ws = insert t (set (W h))"
  shows "moves U W k (W(h := ws)) (set_timeout h t timeout_ms k1)"
    "tstate (tcb_pool (set_timeout h t timeout_ms k1) t) = TASK_WAITING"
proof -
  let ?W = "W(h := ws)" and ?k = "set_timeout h t timeout_ms k1"
  note same = strip_fields [OF wait_frame_strip [OF k1(1)]]
  have e: "k1\<lparr>tcb_pool := tcb_pool k, sems := sems k, mutexes := mutexes k, queues := queues k\<rparr> = k"
    using k1(1) unfolding wait_frame_def by blast
  have "tick_kept k k1"
    unfolding tick_kept_def
    using arg_cong [OF e, of task_list] arg_cong [OF e, of rr_current] arg_cong [OF e, of g_priority_mask]
      arg_cong [OF e, of current_task] arg_cong [OF e, of kernel_tcb] arg_cong [OF e, of kwork_buf]
      arg_cong [OF e, of kwork_head] arg_cong [OF e, of kwork_tail] arg_cong [OF e, of pendsv] by simp
  then have "kept k ?k" using same(6,7) by (simp add: kept_def tick_kept_def set_timeout_def)
  moreover have rest: "resting ?W ?k u" if "resting W k u" "u \<noteq> t" for u
    using that same(2,4) [of u] k1(3) by (simp add: resting_def set_timeout_def)
  moreover have st: "tstate (tcb_pool ?k u) = tstate (tcb_pool k u)" for u
    using same(1) [of u] by (auto simp: set_timeout_def)
  moreover have "settled ?W ?k"
    using k1(2) rest settledD(2) [OF s] st t(3) unfolding settled_def by metis
  ultimately show "moves U W k ?W ?k" using t(1) settledD(2) [OF s] by (auto simp: moves_def)
  show "tstate (tcb_pool ?k t) = TASK_WAITING" using st t(3) by simp
qed

lemma moves_wait_push:
  assumes s: "settled W k" and t: "t \<in> U" "resting W k t" "tstate (tcb_pool k t) = TASK_WAITING" and tm: "timeout_ms \<noteq> 0"
    and run: "wait_push h t k = Some k1"
  shows "moves U W k (W(h := t # W h)) (set_timeout h t timeout_ms k1)"
    "tstate (tcb_pool (set_timeout h t timeout_ms k1) t) = TASK_WAITING"
proof -
  have h: "read_head h k \<noteq> None" using run by (auto simp: wait_push_def bind_eq_Some_conv)
  have "wait_frame k k1 \<and> prim_inv (W(h := t # W h)) (set_timeout h t timeout_ms k1)"
    by (rule lifo.block_inv [OF settledD(1) [OF s] h restingD(3) [OF t(2)] t(3) tm]) (use run in auto)
  then show "moves U W k (W(h := t # W h)) (set_timeout h t timeout_ms k1)"
    "tstate (tcb_pool (set_timeout h t timeout_ms k1) t) = TASK_WAITING"
    using moves_block [OF s t] by auto
qed

lemma moves_wait_append:
  assumes s: "settled W k" and t: "t \<in> U" "resting W k t" "tstate (tcb_pool k t) = TASK_WAITING" and tm: "timeout_ms \<noteq> 0"
    and run: "wait_append h t k = Some k1" and h: "read_head h k \<noteq> None"
  shows "moves U W k (W(h := W h @ [t])) (set_timeout h t timeout_ms k1)"
    "tstate (tcb_pool (set_timeout h t timeout_ms k1) t) = TASK_WAITING"
proof -
  have "wait_frame k k1 \<and> prim_inv (W(h := W h @ [t])) (set_timeout h t timeout_ms k1)"
    by (rule fifo.block_inv [OF settledD(1) [OF s] h restingD(3) [OF t(2)] t(3) tm]) (use run in auto)
  then show "moves U W k (W(h := W h @ [t])) (set_timeout h t timeout_ms k1)"
    "tstate (tcb_pool (set_timeout h t timeout_ms k1) t) = TASK_WAITING"
    using moves_block [OF s t] by auto
qed

lemma moves_set_waiting:
  assumes "settled W k" "t \<in> U" "resting W k t"
  shows "moves U W k W (set_waiting t k)" "resting W (set_waiting t k) t" "tstate (tcb_pool (set_waiting t k) t) = TASK_WAITING"
proof -
  note r = restingD [OF assms(3)]
  show "moves U W k W (set_waiting t k)" unfolding set_waiting_def by (intro moves_upd assms) (simp_all add: r)
  show "resting W (set_waiting t k) t" using r by (simp add: resting_def set_waiting_def)
  show "tstate (tcb_pool (set_waiting t k) t) = TASK_WAITING" by (simp add: set_waiting_def)
qed

section \<open>Composition\<close>

lemma moves_then:
  assumes "moves U W k W' k1" "tcb_pool k' = tcb_pool k1" "tick_kept k1 k'" "\<And>h. read_head h k' = read_head h k1"
  shows "moves U W k W' k'"
  by (rule moves_trans [OF assms(1) moves_heads [OF movesD(1) [OF assms(1)] assms(2-4)]])

lemma settled_critical [simp]: "settled W (k\<lparr>primask := v\<rparr>) = settled W k" "resting W (k\<lparr>primask := v\<rparr>) = resting W k"
proof -
  show r: "resting W (k\<lparr>primask := v\<rparr>) = resting W k" by (rule resting_cong) simp
  show "settled W (k\<lparr>primask := v\<rparr>) = settled W k"
    unfolding settled_def r using prim_inv_cong [of "k\<lparr>primask := v\<rparr>" k W] by simp
qed

lemma moves_critical: "moves U W (k\<lparr>primask := v\<rparr>) W' k' = moves U W k W' k'"
  by (simp add: moves_def kept_def tick_kept_def)

text \<open>What a call made by the running task \<open>c\<close> does.\<close>

definition call_moves :: "tcb_ptr \<Rightarrow> (wait_head \<Rightarrow> tcb_ptr list) \<Rightarrow> kernel \<Rightarrow> call \<Rightarrow> kernel \<Rightarrow> bool" where
  "call_moves c W k r k' \<longleftrightarrow> (case r of Return _ \<Rightarrow> \<exists>W'. moves {} W k W' k'
     | Suspend \<Rightarrow> \<exists>W'. moves {c} W k W' k' \<and> tstate (tcb_pool k' c) = TASK_WAITING \<and> pendsv k')"

lemma call_movesI [intro]:
  "moves {} W k W' k' \<Longrightarrow> call_moves c W k (Return x) k'"
  "moves {c} W k W' k' \<Longrightarrow> tstate (tcb_pool k' c) = TASK_WAITING \<Longrightarrow> pendsv k' \<Longrightarrow> call_moves c W k Suspend k'"
  by (auto simp: call_moves_def)

section \<open>Semaphores and mutexes\<close>

lemma heads_set_sem:
  "sems k p = Some s \<Longrightarrow> sem_wait_list s' = sem_wait_list s \<Longrightarrow> read_head h (set_sem p s' k) = read_head h k"
  by (auto simp: read_head_def set_sem_def split: wait_head.splits)

lemma heads_set_mutex:
  "mutexes k p = Some m \<Longrightarrow> mtx_wait_list m' = mtx_wait_list m \<Longrightarrow> read_head h (set_mutex p m' k) = read_head h k"
  by (auto simp: read_head_def set_mutex_def split: wait_head.splits)

lemma heads_set_queue:
  "queues k p = Some q \<Longrightarrow> q_send_wait q' = q_send_wait q \<Longrightarrow> q_recv_wait q' = q_recv_wait q \<Longrightarrow>
   read_head h (set_queue p q' k) = read_head h k"
  by (auto simp: read_head_def set_queue_def split: wait_head.splits)

lemma moves_set_sem:
  "settled W k \<Longrightarrow> sems k p = Some s \<Longrightarrow> sem_wait_list s' = sem_wait_list s \<Longrightarrow>
   moves U W k W (exit_critical pm (set_sem p s' k))"
  by (intro moves_heads) (simp_all add: heads_set_sem exit_critical_def)

lemma moves_set_mutex:
  "settled W k \<Longrightarrow> mutexes k p = Some m \<Longrightarrow> mtx_wait_list m' = mtx_wait_list m \<Longrightarrow>
   moves U W k W (exit_critical pm (set_mutex p m' k))"
  by (intro moves_heads) (simp_all add: heads_set_mutex exit_critical_def)

lemma moves_exit: "settled W k \<Longrightarrow> moves U W k W (exit_critical pm k)"
  by (intro moves_heads) (simp_all add: exit_critical_def)

text \<open>The running task blocks on a stack of waiters.\<close>

lemma moves_self_block:
  assumes s: "settled W k" and c: "resting W k c" and tm: "timeout_ms \<noteq> 0" and run: "wait_push h c (set_waiting c k) = Some k1"
  shows "call_moves c W k Suspend (port_trigger_pendsv (exit_critical pm (set_timeout h c timeout_ms k1)))"
proof -
  note w = moves_set_waiting [OF s singletonI c]
  note b = moves_wait_push [OF movesD(1) [OF w(1)] singletonI w(2,3) tm run]
  have "moves {c} W k (W(h := c # W h)) (set_timeout h c timeout_ms k1)" by (rule moves_trans [OF w(1) b(1)])
  then have "moves {c} W k (W(h := c # W h)) (port_trigger_pendsv (exit_critical pm (set_timeout h c timeout_ms k1)))"
    by (rule moves_then) (simp_all add: exit_critical_def port_trigger_pendsv_def)
  then show ?thesis by (rule call_movesI(2)) (use b(2) in \<open>simp_all add: exit_critical_def port_trigger_pendsv_def\<close>)
qed

lemma sem_take_moves:
  assumes run: "z_impl_sem_take_timeout p timeout_ms k = Some (r, k')" and s: "settled W k" and c: "current_task k = Some c" "resting W k c"
  shows "call_moves c W k r k'"
proof -
  let ?k = "k\<lparr>primask := 1\<rparr>"
  have s0: "settled W ?k" and c0: "resting W ?k c" using s c(2) by simp_all
  have "call_moves c W ?k r k'"
    using run c(1)
    by (auto simp: z_impl_sem_take_timeout_def enter_critical_def scheduler_get_current_def bind_eq_Some_conv
        intro!: call_movesI(1) moves_set_sem [OF s0] moves_exit [OF s0] moves_self_block [OF s0 c0] split: if_splits)
  then show ?thesis by (simp add: call_moves_def moves_critical split: call.splits)
qed

lemma mutex_lock_moves:
  assumes run: "z_impl_mutex_lock_timeout p timeout_ms k = Some (r, k')" and s: "settled W k" and c: "current_task k = Some c" "resting W k c"
  shows "call_moves c W k r k'"
proof -
  let ?k = "k\<lparr>primask := 1\<rparr>"
  have s0: "settled W ?k" and c0: "resting W ?k c" using s c(2) by simp_all
  have "call_moves c W ?k r k'"
    using run c(1)
    by (auto simp: z_impl_mutex_lock_timeout_def enter_critical_def scheduler_get_current_def bind_eq_Some_conv
        intro!: call_movesI(1) moves_set_mutex [OF s0] moves_exit [OF s0] moves_self_block [OF s0 c0] split: if_splits)
  then show ?thesis by (simp add: call_moves_def moves_critical split: call.splits)
qed

text \<open>The worker acts for a caller that is WAITING and on no list.\<close>

definition caller_moves :: "tcb_ptr \<Rightarrow> (wait_head \<Rightarrow> tcb_ptr list) \<Rightarrow> kernel \<Rightarrow> bool \<Rightarrow> kernel \<Rightarrow> bool" where
  "caller_moves u W k finished k' \<longleftrightarrow> (if finished then \<exists>W'. moves {} W k W' k'
     else \<exists>W'. moves {u} W k W' k' \<and> tstate (tcb_pool k' u) = TASK_WAITING)"

lemma caller_movesI: "moves {} W k W k' \<Longrightarrow> caller_moves u W k True k'"
  by (auto simp: caller_moves_def)

lemma moves_caller_block:
  assumes s: "settled W k" and u: "resting W k u" "tstate (tcb_pool k u) = TASK_WAITING" and tm: "timeout_ms \<noteq> 0"
    and run: "wait_push h u k = Some k1"
  shows "caller_moves u W k False (exit_critical pm (set_timeout h u timeout_ms k1))"
proof -
  note b = moves_wait_push [OF s singletonI u tm run]
  have "moves {u} W k (W(h := u # W h)) (exit_critical pm (set_timeout h u timeout_ms k1))"
    by (rule moves_then [OF b(1)]) (simp_all add: exit_critical_def)
  then show ?thesis using b(2) by (auto simp: exit_critical_def caller_moves_def)
qed

lemma sem_try_take_moves:
  assumes run: "z_impl_sem_try_take_timeout p (Some u) timeout_ms k = Some (r, k')" and s: "settled W k"
    and u: "resting W k u" "tstate (tcb_pool k u) = TASK_WAITING"
  shows "caller_moves u W k (r = 0 \<or> timeout_ms = 0) k'"
proof -
  let ?k = "k\<lparr>primask := 1\<rparr>"
  have s0: "settled W ?k" and u0: "resting W ?k u" "tstate (tcb_pool ?k u) = TASK_WAITING" using s u by simp_all
  have "caller_moves u W ?k (r = 0 \<or> timeout_ms = 0) k'"
    using run
    by (auto simp: z_impl_sem_try_take_timeout_def enter_critical_def bind_eq_Some_conv
        intro!: caller_movesI moves_set_sem [OF s0] moves_exit [OF s0] moves_caller_block [OF s0 u0] split: if_splits)
  then show ?thesis unfolding caller_moves_def moves_critical .
qed

lemma mutex_try_lock_moves:
  assumes run: "z_impl_mutex_try_lock_timeout p (Some u) timeout_ms k = Some (r, k')" and s: "settled W k"
    and u: "resting W k u" "tstate (tcb_pool k u) = TASK_WAITING"
  shows "caller_moves u W k (0 \<le> sint r \<or> timeout_ms = 0) k'"
proof -
  let ?k = "k\<lparr>primask := 1\<rparr>"
  have s0: "settled W ?k" and u0: "resting W ?k u" "tstate (tcb_pool ?k u) = TASK_WAITING" using s u by simp_all
  have "caller_moves u W ?k (0 \<le> sint r \<or> timeout_ms = 0) k'"
    using run
    by (auto simp: z_impl_mutex_try_lock_timeout_def enter_critical_def bind_eq_Some_conv
        intro!: caller_movesI moves_set_mutex [OF s0] moves_exit [OF s0] moves_caller_block [OF s0 u0] split: if_splits)
  then show ?thesis unfolding caller_moves_def moves_critical .
qed

lemma sem_give_moves:
  assumes run: "z_impl_sem_give p k = Some k'" and s: "settled W k"
  shows "\<exists>W'. moves {} W k W' k'"
proof -
  let ?k = "k\<lparr>primask := 1\<rparr>"
  have s0: "settled W ?k" using s by simp
  obtain x where x: "sems k p = Some x" using run by (auto simp: z_impl_sem_give_def enter_critical_def bind_eq_Some_conv)
  have "\<exists>W'. moves {} W ?k W' k'"
  proof (cases "sem_wait_list x")
    case None
    then have "k' = exit_critical (primask k) (set_sem p (x\<lparr>sem_count := sem_count x + 1\<rparr>) ?k)"
      using run x by (simp add: z_impl_sem_give_def enter_critical_def)
    then have "moves {} W ?k W k'" using x by (auto intro!: moves_set_sem [OF s0])
    then show ?thesis by blast
  next
    case (Some t)
    then have "k' = wake_first (SemWait p) (Some t) (primask k) ?k"
      using run x by (simp add: z_impl_sem_give_def enter_critical_def wake_first_def)
    moreover have "read_head (SemWait p) ?k = Some (Some t)" using x Some by (simp add: read_head_def)
    ultimately show ?thesis using moves_wake_first [OF s0] by blast
  qed
  then show ?thesis by (simp add: moves_critical)
qed

lemma mutex_unlock_moves:
  assumes run: "z_impl_mutex_unlock_for p owner k = Some k'" and s: "settled W k"
  shows "\<exists>W'. moves {} W k W' k'"
proof -
  let ?k = "k\<lparr>primask := 1\<rparr>"
  have s0: "settled W ?k" using s by simp
  obtain m where m: "mutexes k p = Some m"
    using run by (auto simp: z_impl_mutex_unlock_for_def enter_critical_def bind_eq_Some_conv)
  have "\<exists>W'. moves {} W ?k W' k'"
  proof (cases "mtx_owner m = owner")
    case False
    then have "k' = exit_critical (primask k) ?k" using run m by (simp add: z_impl_mutex_unlock_for_def enter_critical_def)
    then show ?thesis using moves_exit [OF s0] by blast
  next
    case own: True
    show ?thesis
    proof (cases "mtx_wait_list m")
      case None
      let ?k1 = "exit_critical (primask k) (set_mutex p (m\<lparr>mtx_owner := None\<rparr>) ?k)"
      have k': "k' = port_trigger_pendsv ?k1"
        using run m own None by (simp add: z_impl_mutex_unlock_for_def enter_critical_def)
      have "moves {} W ?k W ?k1" using m by (intro moves_set_mutex [OF s0]) simp_all
      then have "moves {} W ?k W k'" unfolding k' by (rule moves_then) (simp_all add: port_trigger_pendsv_def)
      then show ?thesis by blast
    next
      case (Some t)
      let ?W = "W(MutexWait p := tl (W (MutexWait p)))" and ?k1 = "wait_pop (MutexWait p) t ?k"
      have h: "read_head (MutexWait p) ?k = Some (Some t)" using m Some by (simp add: read_head_def)
      note pop = moves_pop [OF s0 h]
      obtain m1 where m1: "mutexes ?k1 p = Some m1"
        "k' = scheduler_wake_task t 0 (exit_critical (primask k) (set_mutex p (m1\<lparr>mtx_owner := Some t\<rparr>) ?k1))"
        using run m own Some by (auto simp: z_impl_mutex_unlock_for_def enter_critical_def bind_eq_Some_conv Let_def)
      let ?k2 = "exit_critical (primask k) (set_mutex p (m1\<lparr>mtx_owner := Some t\<rparr>) ?k1)"
      have m2: "moves {t} ?W ?k1 ?W ?k2" using m1(1) by (intro moves_set_mutex movesD(1) [OF pop(1)]) simp_all
      have "resting ?W ?k2 t" using pop(2) by (subst resting_cong [of _ ?k1]) (simp_all add: exit_critical_def)
      then have "moves {t} ?W ?k2 ?W k'" unfolding m1(2) by (intro moves_wake movesD(1) [OF m2]) simp_all
      then have "moves {t} W ?k ?W k'" by (rule moves_trans [OF pop(1) moves_trans [OF m2]])
      moreover have "tstate (tcb_pool k' t) \<noteq> TASK_RUNNING" unfolding m1(2) by simp
      ultimately have "moves {} W ?k ?W k'" using pop(3) by (blast intro: moves_waiter [of t])
      then show ?thesis by blast
    qed
  qed
  then show ?thesis by (simp add: moves_critical)
qed

section \<open>Queues\<close>

lemma moves_queue_block:
  assumes s: "settled W k" and c: "current_task k = Some c" "resting W k c" and tm: "timeout_ms \<noteq> 0"
    and h: "read_head h k \<noteq> None" and run: "queue_block h pm timeout_ms k = Some (r, k')"
  shows "r = Suspend \<and> call_moves c W k r k'"
proof -
  note w = moves_set_waiting [OF s singletonI c(2)]
  obtain k1 where k1: "wait_append h c (set_waiting c k) = Some k1" "r = Suspend"
    "k' = port_trigger_pendsv (exit_critical pm (set_timeout h c timeout_ms k1))"
    using run c(1) by (auto simp: queue_block_def scheduler_get_current_def bind_eq_Some_conv)
  have h1: "read_head h (set_waiting c k) \<noteq> None" using h by (simp add: set_waiting_def)
  note b = moves_wait_append [OF movesD(1) [OF w(1)] singletonI w(2,3) tm k1(1) h1]
  have "moves {c} W k (W(h := W h @ [c])) (set_timeout h c timeout_ms k1)" by (rule moves_trans [OF w(1) b(1)])
  then have "moves {c} W k (W(h := W h @ [c])) k'"
    unfolding k1(3) by (rule moves_then) (simp_all add: exit_critical_def port_trigger_pendsv_def)
  then have "call_moves c W k Suspend k'"
    by (rule call_movesI(2)) (use b(2) k1(3) in \<open>simp_all add: exit_critical_def port_trigger_pendsv_def\<close>)
  then show ?thesis using k1(2) by simp
qed

text \<open>A change of the indices and a wake-up of the first task on one of the two lists.\<close>

lemma moves_queue_wake:
  assumes s: "settled W k" and q: "queues k p = Some q" "q_send_wait q' = q_send_wait q" "q_recv_wait q' = q_recv_wait q"
    and h: "read_head h k = Some w"
  shows "\<exists>W'. moves {} W k W' (wake_first h w pm (set_queue p q' (k\<lparr>mem := m\<rparr>)))"
proof -
  let ?k = "set_queue p q' (k\<lparr>mem := m\<rparr>)"
  have heads: "read_head g ?k = read_head g k" for g using heads_set_queue [of "k\<lparr>mem := m\<rparr>" p q q' g] q by simp
  have m: "moves {} W k W ?k" by (rule moves_heads [OF s]) (simp_all add: heads)
  have "moves {} W ?k (W(h := tl (W h))) (wake_first h w pm ?k)"
    using h by (intro moves_wake_first movesD(1) [OF m]) (simp add: heads)
  then show ?thesis using moves_trans [OF m] by blast
qed

lemma queue_body_moves:
  assumes s: "settled W k" and c: "timeout_ms \<noteq> 0 \<Longrightarrow> current_task k = Some c \<and> resting W k c"
  shows "queue_push_body p item timeout_ms pm k = Some (r, k') \<Longrightarrow> call_moves c W k r k' \<and> (r = Suspend \<longrightarrow> timeout_ms \<noteq> 0)"
    "queue_pop_body p item timeout_ms pm k = Some (r, k') \<Longrightarrow> call_moves c W k r k' \<and> (r = Suspend \<longrightarrow> timeout_ms \<noteq> 0)"
proof -
  assume run: "queue_push_body p item timeout_ms pm k = Some (r, k')"
  then obtain q where q: "queues k p = Some q" by (auto simp: queue_push_body_def bind_eq_Some_conv)
  let ?nxt = "(q_tail q + 1) mod q_slots q"
  consider (space) "?nxt \<noteq> q_head q" | (full) "?nxt = q_head q" "timeout_ms = 0" | (block) "?nxt = q_head q" "timeout_ms \<noteq> 0"
    by blast
  then show "call_moves c W k r k' \<and> (r = Suspend \<longrightarrow> timeout_ms \<noteq> 0)"
  proof cases
    case space
    then have "r = Return 0 \<and> k' = wake_first (QueueRecvWait p) (q_recv_wait q) pm (set_queue p (q\<lparr>q_tail := ?nxt\<rparr>)
        (k\<lparr>mem := memcpy (mem k) (slot_addr q (q_tail q)) item (q_item_size q)\<rparr>))"
      using run q by (auto simp: queue_push_body_def Let_def split: if_splits)
    moreover have "\<exists>W'. moves {} W k W' k'"
      unfolding calculation [THEN conjunct2] using q by (intro moves_queue_wake [OF s q]) simp_all
    ultimately show ?thesis by (auto simp: call_moves_def)
  next
    case full
    then show ?thesis using run q moves_exit [OF s, of "{}" pm]
      by (auto simp: queue_push_body_def Let_def split: if_splits)
  next
    case block
    then have blk: "queue_block (QueueSendWait p) pm timeout_ms k = Some (r, k')"
      using run q by (auto simp: queue_push_body_def Let_def split: if_splits)
    note cur = c [OF block(2), THEN conjunct1] c [OF block(2), THEN conjunct2]
    show ?thesis using moves_queue_block [OF s cur block(2) _ blk] q block(2) by auto
  qed
next
  assume run: "queue_pop_body p item timeout_ms pm k = Some (r, k')"
  then obtain q where q: "queues k p = Some q" by (auto simp: queue_pop_body_def bind_eq_Some_conv)
  consider (some) "q_head q \<noteq> q_tail q" | (empty) "q_head q = q_tail q" "timeout_ms = 0" | (block) "q_head q = q_tail q" "timeout_ms \<noteq> 0"
    by blast
  then show "call_moves c W k r k' \<and> (r = Suspend \<longrightarrow> timeout_ms \<noteq> 0)"
  proof cases
    case some
    then have "r = Return 0 \<and> k' = wake_first (QueueSendWait p) (q_send_wait q) pm (set_queue p (q\<lparr>q_head := (q_head q + 1) mod q_slots q\<rparr>)
        (k\<lparr>mem := memcpy (mem k) item (slot_addr q (q_head q)) (q_item_size q)\<rparr>))"
      using run q by (auto simp: queue_pop_body_def Let_def split: if_splits)
    moreover have "\<exists>W'. moves {} W k W' k'"
      unfolding calculation [THEN conjunct2] using q by (intro moves_queue_wake [OF s q]) simp_all
    ultimately show ?thesis by (auto simp: call_moves_def)
  next
    case empty
    then show ?thesis using run q moves_exit [OF s, of "{}" pm]
      by (auto simp: queue_pop_body_def Let_def split: if_splits)
  next
    case block
    then have blk: "queue_block (QueueRecvWait p) pm timeout_ms k = Some (r, k')"
      using run q by (auto simp: queue_pop_body_def Let_def split: if_splits)
    note cur = c [OF block(2), THEN conjunct1] c [OF block(2), THEN conjunct2]
    show ?thesis using moves_queue_block [OF s cur block(2) _ blk] q block(2) by auto
  qed
qed

lemma queue_moves:
  assumes s: "settled W k" and c: "timeout_ms \<noteq> 0 \<Longrightarrow> current_task k = Some c \<and> resting W k c"
    and run: "z_impl_queue_push p item timeout_ms k = Some (r, k') \<or> z_impl_queue_pop p item timeout_ms k = Some (r, k')"
  shows "call_moves c W k r k' \<and> (r = Suspend \<longrightarrow> timeout_ms \<noteq> 0)"
proof -
  let ?k = "k\<lparr>primask := 1\<rparr>"
  have s0: "settled W ?k" and c0: "timeout_ms \<noteq> 0 \<Longrightarrow> current_task ?k = Some c \<and> resting W ?k c" using s c by simp_all
  have "queue_push_body p item timeout_ms (primask k) ?k = Some (r, k') \<or> queue_pop_body p item timeout_ms (primask k) ?k = Some (r, k')"
    using run by (simp add: z_impl_queue_push_def z_impl_queue_pop_def enter_critical_def)
  then have "call_moves c W ?k r k' \<and> (r = Suspend \<longrightarrow> timeout_ms \<noteq> 0)"
    by (rule disjE) (rule queue_body_moves [of W ?k timeout_ms c, OF s0 c0], assumption+)+
  then show ?thesis by (simp add: call_moves_def moves_critical split: call.splits)
qed

section \<open>New objects\<close>

text \<open>An operation leaves the objects there are in place: no creation reuses the memory of one.\<close>

definition objects_kept :: "kernel \<Rightarrow> kernel \<Rightarrow> bool" where
  "objects_kept k k' \<longleftrightarrow> sems k \<subseteq>\<^sub>m sems k' \<and> mutexes k \<subseteq>\<^sub>m mutexes k' \<and> queues k \<subseteq>\<^sub>m queues k'"

lemma moves_new_heads:
  assumes s: "settled W k" and pool: "tcb_pool k' = tcb_pool k" and kept: "tick_kept k k'"
    and heads: "\<And>h. read_head h k' = read_head h k \<or> read_head h k = None \<and> read_head h k' = Some None"
  shows "moves U W k W k'"
proof (rule moves_same [OF s pool kept])
  note inv = settledD(1) [OF s]
  have "wait_wf W k'"
    unfolding wait_wf_def
  proof (intro conjI allI impI)
    fix h p assume h: "read_head h k' = Some p"
    show "chain (wait_nx k') p (W h)"
      using heads [of h] h wait_wf_chain [OF prim_invD(1) [OF inv]] wait_wf_none [OF prim_invD(1) [OF inv]] pool by auto
  next
    show "W h = []" if "read_head h k' = None" for h
      using heads [of h] that wait_wf_none [OF prim_invD(1) [OF inv]] by auto
  qed (rule wait_wf_disjoint [OF prim_invD(1) [OF inv]])
  then show "prim_inv W k'" using inv pool by (simp add: prim_inv_def timeouts_ok_def waiting_ok_def)
qed

lemma heads_new_sem:
  assumes "objects_kept k (set_sem p s k)" "sem_wait_list s = None"
  shows "read_head h (set_sem p s k) = read_head h k \<or> read_head h k = None \<and> read_head h (set_sem p s k) = Some None"
  using assms by (cases "sems k p") (force simp: objects_kept_def map_le_def read_head_def set_sem_def split: wait_head.splits)+

lemma heads_new_mutex:
  assumes "objects_kept k (set_mutex p m k)" "mtx_wait_list m = None"
  shows "read_head h (set_mutex p m k) = read_head h k \<or> read_head h k = None \<and> read_head h (set_mutex p m k) = Some None"
  using assms by (cases "mutexes k p") (force simp: objects_kept_def map_le_def read_head_def set_mutex_def split: wait_head.splits)+

lemma heads_new_queue:
  assumes "objects_kept k (set_queue p q k)" "q_send_wait q = None" "q_recv_wait q = None"
  shows "read_head h (set_queue p q k) = read_head h k \<or> read_head h k = None \<and> read_head h (set_queue p q k) = Some None"
  using assms by (cases "queues k p") (force simp: objects_kept_def map_le_def read_head_def set_queue_def split: wait_head.splits)+

lemma sem_create_moves:
  assumes run: "z_impl_sem_create n k = Some (p, k')" and s: "settled W k" and kept: "objects_kept k k'"
  shows "moves {} W k W k'"
proof -
  obtain q k1 where q: "malloc 8 k = Some (q, k1)"
    "k' = (if q = 0 then k1 else set_sem q \<lparr>sem_count = (if 0 \<le> sint n then n else 0), sem_wait_list = None\<rparr> k1)"
    using run by (auto simp: z_impl_sem_create_def bind_eq_Some_conv split: if_splits)
  obtain m h where k1: "k1 = k\<lparr>mem := m, kheap := h\<rparr>" by (rule malloc_frame [OF q(1)])
  have m: "moves {} W k W k1" unfolding k1 by (rule moves_heads [OF s]) simp_all
  show ?thesis
  proof (cases "q = 0")
    case False
    have "objects_kept k1 k'" using kept unfolding k1 by (simp add: objects_kept_def)
    then have "moves {} W k1 W k'"
      using q(2) False heads_new_sem by (intro moves_new_heads [OF movesD(1) [OF m]]) simp_all
    then show ?thesis by (rule moves_trans [OF m])
  qed (use m q(2) in simp)
qed

lemma mutex_create_moves:
  assumes run: "z_impl_mutex_create k = Some (p, k')" and s: "settled W k" and kept: "objects_kept k k'"
  shows "moves {} W k W k'"
proof -
  obtain q k1 where q: "malloc 8 k = Some (q, k1)"
    "k' = (if q = 0 then k1 else set_mutex q \<lparr>mtx_owner = None, mtx_wait_list = None\<rparr> k1)"
    using run by (auto simp: z_impl_mutex_create_def bind_eq_Some_conv split: if_splits)
  obtain m h where k1: "k1 = k\<lparr>mem := m, kheap := h\<rparr>" by (rule malloc_frame [OF q(1)])
  have m: "moves {} W k W k1" unfolding k1 by (rule moves_heads [OF s]) simp_all
  show ?thesis
  proof (cases "q = 0")
    case False
    have "objects_kept k1 k'" using kept unfolding k1 by (simp add: objects_kept_def)
    then have "moves {} W k1 W k'"
      using q(2) False heads_new_mutex by (intro moves_new_heads [OF movesD(1) [OF m]]) simp_all
    then show ?thesis by (rule moves_trans [OF m])
  qed (use m q(2) in simp)
qed

text \<open>\<open>queue_init\<close> leaves an empty queue without waiters, whatever it returns.\<close>

lemma queue_init_frame:
  assumes "queue_init p isz sz k = Some (r, k')" "p \<noteq> 0" "isz \<noteq> 0" "sz \<noteq> 0"
  obtains q m h where "k' = set_queue p q (k\<lparr>mem := m, kheap := h\<rparr>)" "q_send_wait q = None" "q_recv_wait q = None"
proof -
  let ?q = "\<lparr>q_item_size = isz, q_size = sz, q_slots = sz + 1, q_head = 0, q_tail = 0,
      q_buffer = 0, q_send_wait = None, q_recv_wait = None\<rparr> :: queue"
  show thesis
  proof (cases "sz + 1 \<noteq> 0 \<and> (isz * (sz + 1)) div (sz + 1) \<noteq> isz")
    case True
    then have "k' = set_queue p ?q (k\<lparr>mem := mem k, kheap := kheap k\<rparr>)"
      using assms by (simp add: queue_init_def Let_def)
    then show thesis by (rule that) simp_all
  next
    case False
    then obtain b k1 where b: "malloc (isz * (sz + 1)) (set_queue p ?q k) = Some (b, k1)" "k' = set_queue p (?q\<lparr>q_buffer := b\<rparr>) k1"
      using assms by (auto simp: queue_init_def Let_def bind_eq_Some_conv split: if_splits)
    obtain m h where "k1 = (set_queue p ?q k)\<lparr>mem := m, kheap := h\<rparr>" by (rule malloc_frame [OF b(1)])
    then have "k' = set_queue p (?q\<lparr>q_buffer := b\<rparr>) (k\<lparr>mem := m, kheap := h\<rparr>)" using b(2) by (simp add: set_queue_def)
    then show thesis by (rule that) simp_all
  qed
qed

lemma queue_create_moves:
  assumes run: "z_impl_queue_create isz sz k = Some (p, k')" and s: "settled W k" and kept: "objects_kept k k'"
  shows "moves {} W k W k'"
proof (cases "isz = 0 \<or> sz = 0")
  case True
  then show ?thesis using run s by (auto simp: z_impl_queue_create_def intro: moves_refl)
next
  case False
  then obtain q k1 where q: "malloc QUEUE_SIZEOF k = Some (q, k1)"
    using run by (auto simp: z_impl_queue_create_def bind_eq_Some_conv)
  obtain m h where k1: "k1 = k\<lparr>mem := m, kheap := h\<rparr>" by (rule malloc_frame [OF q])
  have m1: "moves {} W k W k1" unfolding k1 by (rule moves_heads [OF s]) simp_all
  show ?thesis
  proof (cases "q = 0")
    case True
    then show ?thesis using run q False m1 by (simp add: z_impl_queue_create_def)
  next
    case nz: False
    obtain r k2 where r: "queue_init q isz sz k1 = Some (r, k2)"
      using run q False nz by (auto simp: z_impl_queue_create_def bind_eq_Some_conv)
    obtain x m' h' where k2: "k2 = set_queue q x (k1\<lparr>mem := m', kheap := h'\<rparr>)" "q_send_wait x = None" "q_recv_wait x = None"
      by (rule queue_init_frame [OF r nz]) (use False in auto)
    let ?k1 = "k1\<lparr>mem := m', kheap := h'\<rparr>"
    have m2: "moves {} W k W ?k1" by (rule moves_then [OF m1]) simp_all
    show ?thesis
    proof (cases "r = 0")
      case True
      then have "k' = k2" using run q r False nz by (simp add: z_impl_queue_create_def)
      then have "objects_kept ?k1 k2" using kept unfolding k1 by (simp add: objects_kept_def)
      then have "moves {} W ?k1 W k2"
        using heads_new_queue [of ?k1 q x] k2 by (intro moves_new_heads [OF movesD(1) [OF m2]]) simp_all
      then show ?thesis using moves_trans [OF m2] \<open>k' = k2\<close> by blast
    next
      case bad: False
      then have "queue_release q k2 = Some k'"
        using run q r False nz by (auto simp: z_impl_queue_create_def bind_eq_Some_conv split: if_splits)
      then have "free q (k2\<lparr>queues := (queues k2)(q := None)\<rparr>) = Some k'" by (simp add: queue_release_def)
      then obtain m3 h3 where k': "k' = k2\<lparr>queues := (queues k2)(q := None), mem := m3, kheap := h3\<rparr>"
        by (rule free_frame)
      have "queues k q = None"
        using kept unfolding k' by (cases "queues k q") (force simp: objects_kept_def map_le_def)+
      then have "queues k' = queues ?k1" unfolding k' k2(1) k1 by (simp add: set_queue_def fun_eq_iff)
      then have "read_head g k' = read_head g ?k1" for g
        unfolding k' k2(1) by (cases g) (simp_all add: read_head_def set_queue_def)
      then show ?thesis by (intro moves_then [OF m2]) (simp_all add: k' k2(1))
    qed
  qed
qed

lemma moves_new_handle: "settled W k \<Longrightarrow> moves U W k W (snd (new_handle p ty k))" "settled W k \<Longrightarrow> moves U W k W (snd (k_obj_alloc p ty k))"
proof -
  have t: "\<exists>t. snd (k_obj_alloc p ty k) = k\<lparr>table := t\<rparr>"
  proof -
    have "\<exists>t. k = k\<lparr>table := t\<rparr>" by (intro exI [of _ "table k"]) simp
    then show ?thesis
      by (auto simp: k_obj_alloc_def enter_critical_def exit_critical_def Let_def split: option.split)
  qed
  then have a: "settled W k \<Longrightarrow> moves U W k W (snd (k_obj_alloc p ty k))" by (auto intro!: moves_heads)
  then show "settled W k \<Longrightarrow> moves U W k W (snd (k_obj_alloc p ty k))" .
  show "settled W k \<Longrightarrow> moves U W k W (snd (new_handle p ty k))"
    using a by (simp add: new_handle_def moves_refl)
qed

lemma k_obj_objects: "sems (snd (k_obj_alloc p ty k)) = sems k" "mutexes (snd (k_obj_alloc p ty k)) = mutexes k"
  "queues (snd (k_obj_alloc p ty k)) = queues k"
  by (auto simp: k_obj_alloc_def enter_critical_def exit_critical_def Let_def split: option.split)

lemma uart_write_moves:
  assumes "uart_write s k = Some k'" "settled W k" shows "moves U W k W k'"
proof -
  obtain out where "k' = k\<lparr>uart_out := out\<rparr>" using uart_write_frame [OF assms(1)] by blast
  then show ?thesis using assms(2) by (intro moves_heads) simp_all
qed

section \<open>Requests to the worker\<close>

lemma complete_moves:
  assumes "settled W k" "resting W k u"
  shows "moves {u} W k W (complete (Some u) r k)" "tstate (tcb_pool (complete (Some u) r k) u) = TASK_READY"
  unfolding complete_def using assms by (simp_all add: moves_wake)

text \<open>The caller of a request is READY afterwards, or WAITING; the others are as \<open>moves\<close> says.\<close>

definition request_moves :: "tcb_ptr \<Rightarrow> (wait_head \<Rightarrow> tcb_ptr list) \<Rightarrow> kernel \<Rightarrow> kernel \<Rightarrow> bool" where
  "request_moves u W k k' \<longleftrightarrow> (\<exists>W'. moves {u} W k W' k' \<and> tstate (tcb_pool k' u) \<noteq> TASK_RUNNING)"

lemma request_complete:
  assumes "moves {} W k W' k1" "resting W k u"
  shows "request_moves u W k (complete (Some u) r k1)"
proof -
  note c = complete_moves [OF movesD(1) [OF assms(1)] movesD(4) [OF assms(1) _ assms(2)], simplified]
  show ?thesis
    unfolding request_moves_def using moves_trans [OF moves_mono [OF assms(1)] c(1)] c(2) by fastforce
qed

lemma request_refused:
  assumes "settled W k" "resting W k u" shows "request_moves u W k (complete (Some u) r k)"
  by (rule request_complete [OF moves_refl [OF assms(1)] assms(2)])

lemma request_caller:
  assumes "caller_moves u W k finished k1" "resting W k u"
  shows "finished \<Longrightarrow> request_moves u W k (complete (Some u) r k1)" "\<not> finished \<Longrightarrow> request_moves u W k k1"
  using assms request_complete by (auto simp: caller_moves_def request_moves_def)

end
