(* ===== verification/Board.thy ===== *)
theory Board
  imports Context
begin

text \<open>
  The board, \<open>boards/stm32f446\<close>: the boot loader and the reset handlers (\<open>bootloader.c\<close>,
  \<open>boot_startup.c\<close>, \<open>startup.c\<close>), the tick interrupt and the handler of memory faults, and \<open>main\<close>
  of \<open>src/main.c\<close> up to the start of the first task.
\<close>

section \<open>Reset\<close>

text \<open>Symbols of the linker that delimit the sections.\<close>

record sections =
  sidata :: u32
  sdata :: u32
  edata :: u32
  sbss :: u32
  ebss :: u32

partial_function (option) copy_data :: "u32 \<Rightarrow> u32 \<Rightarrow> u32 \<Rightarrow> memory \<Rightarrow> memory option" where
  "copy_data src dst stop m =
     (if dst < stop then copy_data (src + 4) (dst + 4) stop (store32 m dst (load32 m src)) else Some m)"

partial_function (option) zero_bss :: "u32 \<Rightarrow> u32 \<Rightarrow> memory \<Rightarrow> memory option" where
  "zero_bss dst stop m = (if dst < stop then zero_bss (dst + 4) stop (store32 m dst 0) else Some m)"

record scb =
  SCB_CPACR :: u32
  SCB_SHCSR :: u32

text \<open>The state in which \<open>Reset_Handler\<close> calls \<open>main\<close>; the boot loader's calls \<open>__start\<close>.\<close>

definition Reset_Handler :: "sections \<Rightarrow> scb \<times> memory \<Rightarrow> (scb \<times> memory) option" where
  "Reset_Handler s x = (case x of (r, m) \<Rightarrow> do {
     m \<leftarrow> copy_data (sidata s) (sdata s) (edata s) m;
     m \<leftarrow> zero_bss (sbss s) (ebss s) m;
     let r = r\<lparr>SCB_CPACR := SCB_CPACR r OR push_bit 20 0xF\<rparr>;
     let r = r\<lparr>SCB_SHCSR := SCB_SHCSR r OR push_bit 16 1\<rparr>;
     Some (r, m)
   })"

definition boot_Reset_Handler :: "sections \<Rightarrow> memory \<Rightarrow> memory option" where
  "boot_Reset_Handler s m = do {
     m \<leftarrow> copy_data (sidata s) (sdata s) (edata s) m;
     zero_bss (sbss s) (ebss s) m
   }"

section \<open>The boot loader\<close>

definition KERNEL_START_ADDRESS :: u32 where "KERNEL_START_ADDRESS = 0x08004000"
definition RAM_START :: u32 where "RAM_START = 0x20000000"
definition RAM_END :: u32 where "RAM_END = 0x20020000"

record boot_state =
  bt_uart :: uart_regs
  bt_out :: "u8 list"
  bt_primask :: u32
  bt_vtor :: u32
  bt_msp :: u32

definition boot_puts :: "u8 list \<Rightarrow> boot_state \<Rightarrow> boot_state" where
  "boot_puts s b = b\<lparr>bt_out := bt_out b @ crlf s\<rparr>"

text \<open>\<open>__start\<close>: the address it jumps to, or \<open>None\<close> when it stops for want of a valid kernel.\<close>

definition boot_start :: "memory \<Rightarrow> boot_state \<Rightarrow> u32 option \<times> boot_state" where
  "boot_start m b =
     (let sp = load32 m KERNEL_START_ADDRESS;
          reset = load32 m (KERNEL_START_ADDRESS + 4);
          b = b\<lparr>bt_uart := uart_init (bt_uart b)\<rparr>;
          b = boot_puts (ascii ''[bootloader] started'' @ [10]) b
      in if sp < RAM_START \<or> RAM_END < sp \<or> reset = 0xFFFFFFFF \<or> reset = 0
         then (None, boot_puts (ascii ''[bootloader] kernel invalid or missing'' @ [10]) b)
         else let b = boot_puts (ascii ''[bootloader] jumping to kernel'' @ [10]) b;
                  b = b\<lparr>bt_primask := 1\<rparr>;
                  b = b\<lparr>bt_vtor := KERNEL_START_ADDRESS\<rparr>;
                  b = b\<lparr>bt_msp := sp\<rparr>
              in (Some reset, b))"

section \<open>Interrupts and faults\<close>

definition PREEMPT_TICK_INTERVAL :: u32 where [simp]: "PREEMPT_TICK_INTERVAL = 50"

definition SysTick_Handler :: "kernel \<Rightarrow> kernel option" where
  "SysTick_Handler k = do {
     k \<leftarrow> scheduler_tick k;
     Some (if scheduler_get_tick_count k mod PREEMPT_TICK_INTERVAL = 0 then port_trigger_pendsv k else k)
   }"

text \<open>
  The memory fault handler does not return: the value is the state in which it stops, with its output.
  \<open>psp\<close>, \<open>cfsr\<close> and \<open>mmfar\<close> are the process stack pointer and the fault registers.
\<close>

definition MemManage_Handler :: "u32 \<Rightarrow> u32 \<Rightarrow> u32 \<Rightarrow> kernel \<Rightarrow> kernel option" where
  "MemManage_Handler psp cfsr mmfar k =
     (let cur = scheduler_get_current k in
      case (case cur of None \<Rightarrow> None | Some c \<Rightarrow> if psp < stack_base (tcb_pool k c) then Some c else None) of
        Some c \<Rightarrow> stack_overflow_handler c (upd_tcb c (\<lambda>x. x\<lparr>stack_pointer := psp\<rparr>) k)
      | None \<Rightarrow> do {
          let k = uart_puts (CRLF @ ascii ''[CREST] *** MPU VIOLATION ***'' @ CRLF) k;
          k \<leftarrow> (case cur of None \<Rightarrow> Some k
             | Some c \<Rightarrow> do {
                 let k = uart_puts (ascii ''  task  : '') k;
                 k \<leftarrow> uart_write (tcb_name_addr k c) k;
                 Some (uart_puts CRLF k)
               });
          let k = (if cfsr AND push_bit 7 1 \<noteq> 0
             then let k = uart_puts (ascii ''  addr  : '') k;
                      k = uart_puts (hex_text mmfar) k
                  in uart_puts CRLF k
             else k);
          Some (uart_puts (ascii ''  -> MPU correctly blocked cross-task access.'' @ CRLF) k)
        })"

section \<open>The vector table\<close>

text \<open>The top of the stack and the addresses of the handlers.\<close>

record vectors =
  v_estack :: u32
  v_reset :: u32
  v_default :: u32
  v_memmanage :: u32
  v_svc :: u32
  v_pendsv :: u32
  v_systick :: u32

definition vector_table :: "vectors \<Rightarrow> u32 list" where
  "vector_table v =
     [v_estack v, v_reset v, v_default v, v_default v, v_memmanage v, v_default v, v_default v, 0, 0, 0, 0,
      v_svc v, v_default v, 0, v_pendsv v, v_systick v]"

section \<open>The main program\<close>

text \<open>
  The banner is in UTF-8; a letter of the strings below stands for a box-drawing character of three bytes,
  the others for themselves.
\<close>

definition glyph :: "char \<Rightarrow> u8 list" where
  "glyph c =
     (if c = CHR ''F'' then [0xE2, 0x96, 0x88]
      else if c = CHR ''7'' then [0xE2, 0x95, 0x97]
      else if c = CHR ''r'' then [0xE2, 0x95, 0x94]
      else if c = CHR ''J'' then [0xE2, 0x95, 0x9D]
      else if c = CHR ''L'' then [0xE2, 0x95, 0x9A]
      else if c = CHR ''='' then [0xE2, 0x95, 0x90]
      else if c = CHR ''I'' then [0xE2, 0x95, 0x91]
      else [of_char c])"

definition banner_line :: "string \<Rightarrow> kernel \<Rightarrow> kernel" where
  "banner_line s k = uart_puts (concat (map glyph s) @ CRLF) k"

definition crest_boot_banner :: "kernel \<Rightarrow> kernel" where
  "crest_boot_banner k =
     (let k = uart_puts (CRLF) k;
          k = banner_line ''  FFFFFF7FFFFFF7 FFFFFFF7FFFFFFF7FFFFFFFF7'' k;
          k = banner_line '' FFr====JFFr==FF7FFr====JFFr====JL==FFr==J'' k;
          k = banner_line '' FFI     FFFFFFrJFFFFF7  FFFFFFF7   FFI   '' k;
          k = banner_line '' FFI     FFr==FF7FFr==J  L====FFI   FFI   '' k;
          k = banner_line '' LFFFFFF7FFI  FFIFFFFFFF7FFFFFFFI   FFI   '' k;
          k = banner_line ''  L=====JL=J  L=JL======JL======J   L=J   '' k;
          k = uart_puts (CRLF) k;
          k = uart_puts (ascii ''  Compact Real-time Embedded SysTem'' @ CRLF) k;
          k = uart_puts (ascii ''  v0.1.0 | ARM Cortex-M4'' @ CRLF) k;
          k = uart_puts (CRLF) k
      in k)"

text \<open>Addresses the linker chooses: the functions of the tasks, and their names.\<close>

record program =
  fn_kernel_task :: u32
  fn_producer :: u32
  fn_consumer :: u32
  fn_mpu_probe :: u32
  fn_idle :: u32
  nm_kernel_task :: u32
  nm_producer :: u32
  nm_consumer :: u32
  nm_mpu_probe :: u32
  nm_idle :: u32

text \<open>\<open>main\<close> up to the call of \<open>port_start_first_task\<close>, and with it.\<close>

definition main_setup :: "program \<Rightarrow> uart_regs \<Rightarrow> kernel \<Rightarrow> (uart_regs \<times> kernel) option" where
  "main_setup p u k = do {
     let u = uart_init u;
     let k = crest_boot_banner k;
     let k = task_init k;
     let k = uart_puts (ascii ''Creating tasks...'' @ [10]) k;
     k \<leftarrow> task_create (fn_kernel_task p) (nm_kernel_task p) 0 512 0 k;
     k \<leftarrow> task_create (fn_producer p) (nm_producer p) 1 512 0 k;
     k \<leftarrow> task_create (fn_consumer p) (nm_consumer p) 2 512 0 k;
     k \<leftarrow> task_create (fn_mpu_probe p) (nm_mpu_probe p) 3 512 0 k;
     k \<leftarrow> task_create (fn_idle p) (nm_idle p) 7 512 0 k;
     let k = uart_puts (ascii ''Scheduler started'' @ [10]) k;
     Some (u, k)
   }"

definition main_start :: "program \<Rightarrow> uart_regs \<Rightarrow> systick \<Rightarrow> kernel \<Rightarrow> (systick \<times> cpu \<times> kernel) option" where
  "main_start p u st k = do {
     (u, k) \<leftarrow> main_setup p u k;
     port_start_first_task st k
   }"

section \<open>Initialisation of the sections\<close>

lemma store_words_Cons: "store_words (w # ws) a m = store_words ws (a + 4) (store32 m a w)"
proof -
  have "[0..<length (w # ws)] = 0 # map Suc [0..<length ws]" by (simp add: map_Suc_upt upt_conv_Cons del: upt_Suc)
  moreover have "(\<lambda>i m. store32 m (a + of_nat (4 * i)) ((w # ws) ! i)) (Suc i) =
      (\<lambda>i m. store32 m (a + 4 + of_nat (4 * i)) (ws ! i)) i" for i by (simp add: algebra_simps)
  ultimately show ?thesis unfolding store_words_def by (simp add: fold_map comp_def)
qed

lemma words_at_Cons: "words_at m a (Suc n) = load32 m a # words_at m (a + 4) n"
  using words_at_append [of m a 1 n] by (simp add: words_at_def)

lemma zero_bss_eq:
  "unat dst + 4 * n = unat stop \<Longrightarrow> zero_bss dst stop m = Some (store_words (replicate n 0) dst m)"
proof (induction n arbitrary: dst m)
  case 0
  then have "dst = stop" by (simp add: word_unat_eq_iff)
  then show ?case by (subst zero_bss.simps) (simp add: store_words_def)
next
  case (Suc n)
  have lt: "unat dst + 4 < 4294967296" using Suc.prems [unfolded mult_Suc_right] unat_u32_lt [of stop] by linarith
  then have "unat (dst + 4) = unat dst + 4" by (simp add: word_nat)
  then have "zero_bss (dst + 4) stop (store32 m dst 0) = Some (store_words (replicate n 0) (dst + 4) (store32 m dst 0))"
    using Suc.prems by (intro Suc.IH) simp
  moreover have "dst < stop" using Suc.prems by (simp add: word_less_nat_alt)
  ultimately show ?case by (subst zero_bss.simps) (simp add: store_words_Cons)
qed

lemma copy_data_eq:
  "unat dst + 4 * n = unat stop \<Longrightarrow> unat src + 4 * n \<le> unat dst \<Longrightarrow>
   copy_data src dst stop m = Some (store_words (words_at m src n) dst m)"
proof (induction n arbitrary: src dst m)
  case 0
  then have "dst = stop" by (simp add: word_unat_eq_iff)
  then show ?case by (subst copy_data.simps) (simp add: store_words_def words_at_def)
next
  case (Suc n)
  have lt: "unat dst + 4 < 4294967296" "unat src + 4 < 4294967296"
    using Suc.prems [unfolded mult_Suc_right] unat_u32_lt [of stop] by linarith+
  then have a: "unat (dst + 4) = unat dst + 4" "unat (src + 4) = unat src + 4" by (simp_all add: word_nat)
  let ?m = "store32 m dst (load32 m src)"
  have "region (of_nat (unat (src + 4)) :: u32) (4 * n) \<inter> region (of_nat (unat dst)) 4 = {}"
    using Suc.prems(2) a(2) lt by (intro region_disjoint) auto
  then have "region (src + 4) (4 * n) \<inter> region dst 4 = {}" by simp
  moreover have "4 * n \<le> 4294967296"
    using Suc.prems(1) [unfolded mult_Suc_right] unat_u32_lt [of stop] by linarith
  ultimately have w: "words_at ?m (src + 4) n = words_at m (src + 4) n"
    by (intro words_at_cong store32_other) auto
  have "copy_data (src + 4) (dst + 4) stop ?m = Some (store_words (words_at ?m (src + 4) n) (dst + 4) ?m)"
    using Suc.prems a by (intro Suc.IH) simp_all
  moreover have "dst < stop" using Suc.prems by (simp add: word_less_nat_alt)
  ultimately show ?case by (subst copy_data.simps) (simp add: store_words_Cons words_at_Cons w)
qed

text \<open>\<open>Reset_Handler\<close> initialises the sections and enables the floating point unit and the memory fault handler.\<close>

lemma Reset_Handler_run:
  assumes "unat (sdata s) + 4 * n = unat (edata s)" "unat (sbss s) + 4 * z = unat (ebss s)"
    and "unat (sidata s) + 4 * n \<le> unat (sdata s)" "edata s \<le> sbss s"
  shows "\<exists>r' m'. Reset_Handler s (r, m) = Some (r', m') \<and>
    words_at m' (sdata s) n = words_at m (sidata s) n \<and> words_at m' (sbss s) z = replicate z 0 \<and>
    (\<forall>b. b \<in> region (sdata s) (4 * n) \<or> b \<in> region (sbss s) (4 * z) \<or> m' b = m b) \<and>
    SCB_CPACR r' = SCB_CPACR r OR 0xF00000 \<and> SCB_SHCSR r' = SCB_SHCSR r OR 0x10000"
proof -
  let ?ws = "words_at m (sidata s) n"
  let ?m1 = "store_words ?ws (sdata s) m" and ?m2 = "store_words (replicate z 0) (sbss s) (store_words ?ws (sdata s) m)"
  have run: "Reset_Handler s (r, m) = Some (r\<lparr>SCB_CPACR := SCB_CPACR r OR 0xF00000, SCB_SHCSR := SCB_SHCSR r OR 0x10000\<rparr>, ?m2)"
    by (simp add: Reset_Handler_def copy_data_eq [OF assms(1,3)] zero_bss_eq [OF assms(2)])
  have len: "length ?ws = n" by (simp add: words_at_def)
  have fits: "4 * n \<le> 4294967296" "4 * z \<le> 4294967296"
    using assms(1,2) unat_u32_lt [of "edata s"] unat_u32_lt [of "ebss s"] by linarith+
  note s1 = store_words_spec [of ?ws, unfolded len, OF fits(1)]
  note s2 = store_words_spec [of "replicate z 0", unfolded length_replicate, OF fits(2)]
  have "region (of_nat (unat (sdata s)) :: u32) (4 * n) \<inter> region (of_nat (unat (sbss s))) (4 * z) = {}"
    using assms unat_u32_lt [of "ebss s"] by (intro region_disjoint) (auto simp: word_le_nat_alt)
  then have disj: "region (sdata s) (4 * n) \<inter> region (sbss s) (4 * z) = {}" by simp
  have "words_at ?m2 (sdata s) n = words_at ?m1 (sdata s) n"
    using disj fits(1) by (intro words_at_cong s2(2)) auto
  then have "words_at ?m2 (sdata s) n = ?ws" using s1(1) by simp
  moreover have "\<forall>b. b \<in> region (sdata s) (4 * n) \<or> b \<in> region (sbss s) (4 * z) \<or> ?m2 b = m b"
    using s1(2) s2(2) by metis
  ultimately show ?thesis using run s2(1) by auto
qed

text \<open>The boot loader takes the stack and the entry from the first two words of the table.\<close>

lemma boot_start_vectors:
  assumes "words_at m KERNEL_START_ADDRESS 16 = vector_table v" "RAM_START \<le> v_estack v" "v_estack v \<le> RAM_END"
    and "v_reset v \<noteq> 0" "v_reset v \<noteq> 0xFFFFFFFF"
  obtains b' where "boot_start m b = (Some (v_reset v), b')" "bt_msp b' = v_estack v" "bt_vtor b' = KERNEL_START_ADDRESS"
    "bt_primask b' = 1"
proof -
  have "load32 m (KERNEL_START_ADDRESS + of_nat (4 * i)) = vector_table v ! i" if "i < 16" for i
    using assms(1) that by (metis length_map length_upt minus_nat.diff_0 nth_map_upt plus_nat.add_0 words_at_def)
  from this [of 0] this [of 1] have "load32 m KERNEL_START_ADDRESS = v_estack v" "load32 m (KERNEL_START_ADDRESS + 4) = v_reset v"
    by (simp_all add: vector_table_def)
  then have "fst (boot_start m b) = Some (v_reset v) \<and> bt_msp (snd (boot_start m b)) = v_estack v \<and>
      bt_vtor (snd (boot_start m b)) = KERNEL_START_ADDRESS \<and> bt_primask (snd (boot_start m b)) = 1"
    using assms(2-5) by (simp add: boot_start_def Let_def boot_puts_def not_less [symmetric])
  then show thesis using that by (metis prod.collapse)
qed

text \<open>
  C39. From power on: a boot loader that finds the kernel's vector table, with a stack in RAM, jumps to its
  \<open>Reset_Handler\<close> with the stack of the table, its vectors in force and interrupts masked.  There both loops end; then
  \<open>.data\<close> holds the words of its image in flash, \<open>.bss\<close> is zero, memory outside the two is unchanged, and the
  floating point unit and the memory fault handler are on.
\<close>

theorem boot_chain_initialises:
  assumes "words_at m KERNEL_START_ADDRESS 16 = vector_table v" "RAM_START \<le> v_estack v" "v_estack v \<le> RAM_END"
    and "v_reset v \<noteq> 0" "v_reset v \<noteq> 0xFFFFFFFF"
    and "unat (sdata s) + 4 * n = unat (edata s)" "unat (sbss s) + 4 * z = unat (ebss s)"
    and "unat (sidata s) + 4 * n \<le> unat (sdata s)" "edata s \<le> sbss s"
  shows "(\<exists>b'. boot_start m b = (Some (v_reset v), b') \<and> bt_msp b' = v_estack v \<and> bt_vtor b' = KERNEL_START_ADDRESS \<and>
      bt_primask b' = 1) \<and>
    (\<exists>r' m'. Reset_Handler s (r, m) = Some (r', m') \<and>
      words_at m' (sdata s) n = words_at m (sidata s) n \<and> words_at m' (sbss s) z = replicate z 0 \<and>
      (\<forall>a. a \<in> region (sdata s) (4 * n) \<or> a \<in> region (sbss s) (4 * z) \<or> m' a = m a) \<and>
      SCB_CPACR r' = SCB_CPACR r OR 0xF00000 \<and> SCB_SHCSR r' = SCB_SHCSR r OR 0x10000)"
proof
  show "\<exists>b'. boot_start m b = (Some (v_reset v), b') \<and> bt_msp b' = v_estack v \<and> bt_vtor b' = KERNEL_START_ADDRESS \<and>
      bt_primask b' = 1"
    by (rule boot_start_vectors [OF assms(1-5), of b]) blast
qed (rule Reset_Handler_run [OF assms(6-9)])

text \<open>A table at the start of the kernel's flash.\<close>

definition demo_vectors :: vectors where
  "demo_vectors = \<lparr>v_estack = 0x20020000, v_reset = 0x08004101, v_default = 0x08004201, v_memmanage = 0x08004301,
     v_svc = 0x08004401, v_pendsv = 0x08004501, v_systick = 0x08004601\<rparr>"

theorem boot_chain_initialises_witness:
  "\<forall>b. \<exists>m b' r' m'. words_at m KERNEL_START_ADDRESS 16 = vector_table demo_vectors \<and> boot_start m b = (Some 0x08004101, b') \<and>
     bt_msp b' = 0x20020000 \<and>
     Reset_Handler \<lparr>sidata = 0x08005000, sdata = 0x20000000, edata = 0x20000008, sbss = 0x20000008, ebss = 0x20000C00\<rparr>
       (\<lparr>SCB_CPACR = 0, SCB_SHCSR = 0\<rparr>, m) = Some (r', m') \<and> words_at m' 0x20000008 766 = replicate 766 0"
proof
  fix b
  let ?s = "\<lparr>sidata = 0x08005000, sdata = 0x20000000, edata = 0x20000008, sbss = 0x20000008, ebss = 0x20000C00\<rparr> :: sections"
  let ?m = "store_words (vector_table demo_vectors) KERNEL_START_ADDRESS (\<lambda>_. 7)"
  have "length (vector_table demo_vectors) = 16" by (simp add: vector_table_def)
  then have t: "words_at ?m KERNEL_START_ADDRESS 16 = vector_table demo_vectors"
    using store_words_spec(1) [of "vector_table demo_vectors"] by simp
  show "\<exists>m b' r' m'. words_at m KERNEL_START_ADDRESS 16 = vector_table demo_vectors \<and> boot_start m b = (Some 0x08004101, b') \<and>
     bt_msp b' = 0x20020000 \<and> Reset_Handler ?s (\<lparr>SCB_CPACR = 0, SCB_SHCSR = 0\<rparr>, m) = Some (r', m') \<and>
     words_at m' 0x20000008 766 = replicate 766 0"
    using boot_chain_initialises [OF t, of ?s 2 766 b "\<lparr>SCB_CPACR = 0, SCB_SHCSR = 0\<rparr>"] t
    by (auto simp: demo_vectors_def RAM_START_def RAM_END_def)
qed

end
