(* ===== verification/Calls.thy ===== *)
theory Calls
  imports Wakeups Board
begin

text \<open>
  The operations behind the two ways into the kernel as moves: \<open>dispatch\<close>, which the worker runs for a
  trapped request, and the wrappers, which a privileged task runs itself.
\<close>

section \<open>Dispatch as a move\<close>

lemma delay_moves:
  assumes s: "settled W k" and u: "resting W k u"
  shows "moves {u} W k W (scheduler_sleep u n k)" "tstate (tcb_pool (scheduler_sleep u n k) u) = TASK_WAITING"
proof -
  let ?k = "upd_tcb u (\<lambda>c. c\<lparr>delay_ticks := n, tstate := TASK_WAITING\<rparr>) k"
  have m: "moves {u} W k W ?k" using restingD [OF u] by (intro moves_upd s u) simp_all
  have e: "scheduler_sleep u n k = ?k" by (simp add: scheduler_sleep_def state_defs)
  show "moves {u} W k W (scheduler_sleep u n k)" unfolding e by (rule m)
  show "tstate (tcb_pool (scheduler_sleep u n k) u) = TASK_WAITING" unfolding e by simp
qed

lemma dispatch_delay_moves:
  assumes run: "dispatch_delay w k = Some k'" and w: "wi_caller w = Some u" and s: "settled W k" and u: "resting W k u"
  shows "request_moves u W k k'"
proof -
  let ?k = "k\<lparr>mem := store32 (mem k) (saved_r0 (tcb_pool k u)) 0\<rparr>"
  let ?f = "\<lambda>c. c\<lparr>flags := flags c AND NOT TASK_FLAG_SVC_BLOCKED\<rparr>"
  have m1: "moves {u} W k W ?k" by (rule moves_heads [OF s]) simp_all
  have u1: "resting W ?k u" using u by (subst resting_cong [of _ k]) simp_all
  have m2: "moves {u} W ?k W (upd_tcb u ?f ?k)"
    using restingD [OF u1] by (intro moves_upd movesD(1) [OF m1] u1) simp_all
  have u2: "resting W (upd_tcb u ?f ?k) u" using restingD [OF u1] by (simp add: resting_def)
  note m3 = delay_moves [OF movesD(1) [OF m2] u2, of "wi_arg0 w"]
  have k': "k' = scheduler_sleep u (wi_arg0 w) (upd_tcb u ?f ?k)" using run w by (simp add: dispatch_delay_def Let_def)
  have "moves {u} W k W k'" unfolding k' by (rule moves_trans [OF m1 moves_trans [OF m2 m3(1)]])
  moreover have "tstate (tcb_pool k' u) \<noteq> TASK_RUNNING" unfolding k' using m3(2) by (simp only: task_state.distinct) simp
  ultimately show ?thesis unfolding request_moves_def by blast
qed

text \<open>The numbers of the requests that create an object.\<close>

definition creates :: "u32 \<Rightarrow> bool" where
  "creates i \<longleftrightarrow> i = SYSCALL_QUEUE_CREATE \<or> i = SYSCALL_SEM_CREATE \<or> i = SYSCALL_MUTEX_CREATE"

lemma complete_objects: "objects_kept k (complete t r k1) = objects_kept k k1"
  by (simp add: objects_kept_def complete_def split: option.split)

lemma objects_new_handle: "objects_kept k (snd (new_handle p ty k1)) = objects_kept k k1"
  by (simp add: objects_kept_def new_handle_def k_obj_objects)

lemma request_create:
  assumes "moves {} W k W k1" "resting W k u"
  shows "request_moves u W k (complete (Some u) h (snd (new_handle p ty k1)))"
  by (rule request_complete [OF moves_trans [OF assms(1) moves_new_handle(1) [OF movesD(1) [OF assms(1)]]] assms(2)])

lemma dispatch_create_moves:
  assumes w: "wi_caller w = Some u" and s: "settled W k" and u: "resting W k u" and kept: "objects_kept k k'"
  shows "dispatch_queue_create w k = Some k' \<Longrightarrow> request_moves u W k k'"
    "dispatch_sem_create w k = Some k' \<Longrightarrow> request_moves u W k k'"
    "dispatch_mutex_create w k = Some k' \<Longrightarrow> request_moves u W k k'"
proof -
  have fin: "request_moves u W k k'"
    if "k' = complete (Some u) (fst (new_handle p ty k1)) (snd (new_handle p ty k1))"
      "objects_kept k k1 \<Longrightarrow> moves {} W k W k1" for p ty k1
    using that kept request_create [OF _ u] by (simp add: complete_objects objects_new_handle)
  show "request_moves u W k k'" if run: "dispatch_queue_create w k = Some k'"
  proof -
    obtain p k1 where p: "z_impl_queue_create (wi_arg0 w) (wi_arg1 w) k = Some (p, k1)"
      "k' = complete (Some u) (fst (new_handle p KOBJ_QUEUE k1)) (snd (new_handle p KOBJ_QUEUE k1))"
      using run w by (auto simp: dispatch_queue_create_def bind_eq_Some_conv Let_def case_prod_beta)
    show ?thesis by (rule fin [OF p(2) queue_create_moves [OF p(1) s]])
  qed
  show "request_moves u W k k'" if run: "dispatch_sem_create w k = Some k'"
  proof -
    obtain p k1 where p: "z_impl_sem_create (wi_arg0 w) k = Some (p, k1)"
      "k' = complete (Some u) (fst (new_handle p KOBJ_SEM k1)) (snd (new_handle p KOBJ_SEM k1))"
      using run w by (auto simp: dispatch_sem_create_def bind_eq_Some_conv Let_def case_prod_beta)
    show ?thesis by (rule fin [OF p(2) sem_create_moves [OF p(1) s]])
  qed
  show "request_moves u W k k'" if run: "dispatch_mutex_create w k = Some k'"
  proof -
    obtain p k1 where p: "z_impl_mutex_create k = Some (p, k1)"
      "k' = complete (Some u) (fst (new_handle p KOBJ_MUTEX k1)) (snd (new_handle p KOBJ_MUTEX k1))"
      using run w by (auto simp: dispatch_mutex_create_def bind_eq_Some_conv Let_def case_prod_beta)
    show ?thesis by (rule fin [OF p(2) mutex_create_moves [OF p(1) s]])
  qed
qed

lemma obj_get_same: "\<exists>p. k_obj_get h ty k = (p, k)"
  unfolding k_obj_get_live by blast

lemma dispatch_queue_moves:
  assumes w: "wi_caller w = Some u" and s: "settled W k" and u: "resting W k u"
    and run: "dispatch_queue_send w k = Some k' \<or> dispatch_queue_recv w k = Some k'"
  shows "request_moves u W k k'"
proof -
  obtain q where q: "k_obj_get (wi_arg0 w) KOBJ_QUEUE k = (q, k)" using obj_get_same by blast
  show ?thesis
  proof (cases "q = 0")
    case True
    then have "k' = complete (Some u) (- 1) k"
      using run q w by (auto simp: dispatch_queue_send_def dispatch_queue_recv_def)
    then show ?thesis using request_refused [OF s u] by simp
  next
    case False
    have "\<exists>x k1. (z_impl_queue_push q (wi_arg1 w) 0 k = Some (Return x, k1) \<or> z_impl_queue_pop q (wi_arg1 w) 0 k = Some (Return x, k1)) \<and>
        k' = complete (Some u) x k1"
      using run
    proof
      assume "dispatch_queue_send w k = Some k'"
      then have "do { (r, k) \<leftarrow> z_impl_queue_push q (wi_arg1 w) 0 k;
          case r of Return r \<Rightarrow> Some (complete (wi_caller w) r k) | Suspend \<Rightarrow> None } = Some k'"
        using False q by (simp add: dispatch_queue_send_def)
      then obtain a b where "z_impl_queue_push q (wi_arg1 w) 0 k = Some (a, b)"
        "(case a of Return r \<Rightarrow> Some (complete (wi_caller w) r b) | Suspend \<Rightarrow> None) = Some k'"
        unfolding bind_eq_Some_conv by auto
      then show ?thesis by (cases a) (auto simp: w)
    next
      assume "dispatch_queue_recv w k = Some k'"
      then have "do { (r, k) \<leftarrow> z_impl_queue_pop q (wi_arg1 w) 0 k;
          case r of Return r \<Rightarrow> Some (complete (wi_caller w) r k) | Suspend \<Rightarrow> None } = Some k'"
        using False q by (simp add: dispatch_queue_recv_def)
      then obtain a b where "z_impl_queue_pop q (wi_arg1 w) 0 k = Some (a, b)"
        "(case a of Return r \<Rightarrow> Some (complete (wi_caller w) r b) | Suspend \<Rightarrow> None) = Some k'"
        unfolding bind_eq_Some_conv by auto
      then show ?thesis by (cases a) (auto simp: w)
    qed
    then obtain x k1 where r: "z_impl_queue_push q (wi_arg1 w) 0 k = Some (Return x, k1) \<or> z_impl_queue_pop q (wi_arg1 w) 0 k = Some (Return x, k1)"
      "k' = complete (Some u) x k1" by blast
    have "call_moves u W k (Return x) k1" using queue_moves [OF s _ r(1)] by simp
    then show ?thesis using r(2) request_complete [OF _ u] by (auto simp: call_moves_def)
  qed
qed

lemma dispatch_sem_moves:
  assumes w: "wi_caller w = Some u" and s: "settled W k" and u: "resting W k u" "tstate (tcb_pool k u) = TASK_WAITING"
  shows "dispatch_sem_post w k = Some k' \<Longrightarrow> request_moves u W k k'"
    "dispatch_sem_wait w k = Some k' \<Longrightarrow> request_moves u W k k'"
proof -
  obtain q where q: "k_obj_get (wi_arg0 w) KOBJ_SEM k = (q, k)" using obj_get_same by blast
  show "request_moves u W k k'" if run: "dispatch_sem_post w k = Some k'"
  proof (cases "q = 0")
    case True
    then have "k' = complete (Some u) (- 1) k" using run q w by (simp add: dispatch_sem_post_def)
    then show ?thesis using request_refused [OF s u(1)] by simp
  next
    case False
    then obtain k1 where k1: "z_impl_sem_give q k = Some k1" "k' = complete (Some u) 0 k1"
      using run q w by (auto simp: dispatch_sem_post_def bind_eq_Some_conv)
    then show ?thesis using sem_give_moves [OF k1(1) s] request_complete [OF _ u(1)] by auto
  qed
  show "request_moves u W k k'" if run: "dispatch_sem_wait w k = Some k'"
  proof (cases "q = 0")
    case True
    then have "k' = complete (Some u) (- 1) k" using run q w by (simp add: dispatch_sem_wait_def)
    then show ?thesis using request_refused [OF s u(1)] by simp
  next
    case False
    then obtain r k1 where r: "z_impl_sem_try_take_timeout q (Some u) (wi_arg1 w) k = Some (r, k1)"
      "k' = (if r = 0 then complete (Some u) 0 k1 else if wi_arg1 w = 0 then complete (Some u) (- 1) k1 else k1)"
      using run q w by (auto simp: dispatch_sem_wait_def bind_eq_Some_conv Let_def)
    note m = request_caller [OF sem_try_take_moves [OF r(1) s u] u(1)]
    show ?thesis using m(1) [of 0] m(1) [of "- 1"] m(2) r(2) by (auto split: if_splits)
  qed
qed

lemma dispatch_mutex_moves:
  assumes w: "wi_caller w = Some u" and s: "settled W k" and u: "resting W k u" "tstate (tcb_pool k u) = TASK_WAITING"
  shows "dispatch_mutex_unlock w k = Some k' \<Longrightarrow> request_moves u W k k'"
    "dispatch_mutex_lock w k = Some k' \<Longrightarrow> request_moves u W k k'"
proof -
  obtain q where q: "k_obj_get (wi_arg0 w) KOBJ_MUTEX k = (q, k)" using obj_get_same by blast
  show "request_moves u W k k'" if run: "dispatch_mutex_unlock w k = Some k'"
  proof (cases "q = 0")
    case True
    then have "k' = complete (Some u) (- 1) k" using run q w by (simp add: dispatch_mutex_unlock_def)
    then show ?thesis using request_refused [OF s u(1)] by simp
  next
    case False
    then obtain k1 where k1: "z_impl_mutex_unlock_for q (Some u) k = Some k1" "k' = complete (Some u) 0 k1"
      using run q w by (auto simp: dispatch_mutex_unlock_def bind_eq_Some_conv)
    then show ?thesis using mutex_unlock_moves [OF k1(1) s] request_complete [OF _ u(1)] by auto
  qed
  show "request_moves u W k k'" if run: "dispatch_mutex_lock w k = Some k'"
  proof (cases "q = 0")
    case True
    then have "k' = complete (Some u) (- 1) k" using run q w by (simp add: dispatch_mutex_lock_def)
    then show ?thesis using request_refused [OF s u(1)] by simp
  next
    case False
    then obtain r k1 where r: "z_impl_mutex_try_lock_timeout q (Some u) (wi_arg1 w) k = Some (r, k1)"
      "k' = (if 0 \<le> sint r then complete (Some u) 0 k1 else if wi_arg1 w = 0 then complete (Some u) (- 1) k1 else k1)"
      using run q w by (auto simp: dispatch_mutex_lock_def bind_eq_Some_conv Let_def)
    note m = request_caller [OF mutex_try_lock_moves [OF r(1) s u] u(1)]
    show ?thesis using m(1) [of 0] m(1) [of "- 1"] m(2) r(2) by (auto split: if_splits)
  qed
qed

text \<open>Whatever the request: its caller ends READY or WAITING, and no task at rest is touched.\<close>

lemma dispatch_moves:
  assumes run: "dispatch w k = Some k'" and w: "wi_caller w = Some u" and s: "settled W k"
    and u: "resting W k u" "tstate (tcb_pool k u) = TASK_WAITING" and kept: "creates (wi_id w) \<Longrightarrow> objects_kept k k'"
  shows "request_moves u W k k'"
proof -
  have uart: "request_moves u W k k'" if d: "dispatch_uart_write w k = Some k'"
  proof -
    obtain k1 where k1: "uart_write (wi_arg0 w) k = Some k1" "k' = complete (Some u) 0 k1"
      using d w by (auto simp: dispatch_uart_write_def bind_eq_Some_conv)
    show ?thesis unfolding k1(2) by (rule request_complete [OF uart_write_moves [OF k1(1) s] u(1)])
  qed
  have none: "request_moves u W k (complete (wi_caller w) (- 1) k)" using w request_refused [OF s u(1)] by simp
  note cases = dispatch_delay_moves [OF _ w s u(1)] dispatch_queue_moves [OF w s u(1)] dispatch_sem_moves [OF w s u]
    dispatch_mutex_moves [OF w s u] uart none dispatch_create_moves [OF w s u(1) kept]
  show ?thesis
    using run unfolding dispatch_def by (auto simp: creates_def split: if_splits intro: cases)
qed

section \<open>Calls of the running task\<close>

text \<open>The calls of the kernel's interface, and the wrapper of each.\<close>

datatype request =
    Uart_write u32 | Delay u32
  | Queue_create u32 u32 | Queue_push u32 u32 u32 | Queue_pop u32 u32 u32
  | Sem_create u32 | Sem_give u32 | Sem_take u32 u32
  | Mutex_create | Mutex_lock u32 u32 | Mutex_unlock u32

primrec invoke :: "request \<Rightarrow> kernel \<Rightarrow> api option" where
  "invoke (Uart_write s) k = k_uart_write s k"
| "invoke (Delay n) k = task_delay n k"
| "invoke (Queue_create isz n) k = queue_create isz n k"
| "invoke (Queue_push h p tm) k = queue_push h p tm k"
| "invoke (Queue_pop h p tm) k = queue_pop h p tm k"
| "invoke (Sem_create n) k = sem_create n k"
| "invoke (Sem_give h) k = sem_give h k"
| "invoke (Sem_take h tm) k = sem_take h tm k"
| "invoke Mutex_create k = mutex_create k"
| "invoke (Mutex_lock h tm) k = mutex_lock h tm k"
| "invoke (Mutex_unlock h) k = mutex_unlock h k"

text \<open>The calls that create an object.\<close>

fun creating :: "request \<Rightarrow> bool" where
  "creating (Queue_create isz n) = True"
| "creating (Sem_create n) = True"
| "creating Mutex_create = True"
| "creating rq = False"

text \<open>The running task \<open>c\<close> goes on, or waits and a switch is requested.\<close>

definition self_moves :: "tcb_ptr \<Rightarrow> (wait_head \<Rightarrow> tcb_ptr list) \<Rightarrow> kernel \<Rightarrow> kernel \<Rightarrow> bool" where
  "self_moves c W k k' \<longleftrightarrow> (\<exists>W'. moves {c} W k W' k' \<and>
     (tstate (tcb_pool k' c) = tstate (tcb_pool k c) \<or> tstate (tcb_pool k' c) = TASK_WAITING \<and> pendsv k'))"

lemma self_moves_none:
  assumes "moves {} W k W' k'" "resting W k c" shows "self_moves c W k k'"
  using moves_mono [OF assms(1), of "{c}"] movesD(3) [OF assms(1) _ assms(2)] by (auto simp: self_moves_def)

lemma self_moves_call: "call_moves c W k r k' \<Longrightarrow> resting W k c \<Longrightarrow> self_moves c W k k'"
  by (cases r) (auto simp: call_moves_def intro: self_moves_none, auto simp: self_moves_def)

lemma task_delay_moves:
  assumes "settled W k" "current_task k = Some c" "resting W k c"
  shows "self_moves c W k (z_impl_task_delay n k)"
proof (cases "n = 0")
  case True
  then show ?thesis using moves_refl [OF assms(1)] by (auto simp: z_impl_task_delay_def self_moves_def)
next
  case False
  then have e: "z_impl_task_delay n k = port_trigger_pendsv (scheduler_sleep c n k)"
    using assms(2) by (simp add: z_impl_task_delay_def scheduler_get_current_def)
  note d = delay_moves [OF assms(1,3), of n]
  have "moves {c} W k W (port_trigger_pendsv (scheduler_sleep c n k))"
    by (rule moves_then [OF d(1)]) (simp_all add: port_trigger_pendsv_def)
  then show ?thesis using d(2) unfolding e self_moves_def by (auto simp: port_trigger_pendsv_def)
qed

lemma create_call_moves:
  assumes c: "resting W k c" and kept: "objects_kept k k'" and k': "k' = k1 \<or> k' = snd (k_obj_alloc p ty k1)"
    and m: "objects_kept k k1 \<Longrightarrow> moves {} W k W k1"
  shows "self_moves c W k k'"
proof -
  have "objects_kept k k1" using kept k' by (auto simp: objects_kept_def k_obj_objects)
  then have m1: "moves {} W k W k1" by (rule m)
  then have "moves {} W k W k'" using k' moves_trans [OF m1 moves_new_handle(2) [OF movesD(1) [OF m1]]] by blast
  then show ?thesis by (rule self_moves_none [OF _ c])
qed

lemma invoke_creates:
  assumes s: "settled W k" and c: "resting W k c" and kept: "objects_kept k k'"
  shows "queue_create isz n k = Some (Called r k') \<Longrightarrow> self_moves c W k k'"
    "sem_create n k = Some (Called r k') \<Longrightarrow> self_moves c W k k'"
    "mutex_create k = Some (Called r k') \<Longrightarrow> self_moves c W k k'"
proof -
  show "self_moves c W k k'" if run: "queue_create isz n k = Some (Called r k')"
  proof -
    obtain p k1 where p: "z_impl_queue_create isz n k = Some (p, k1)" "k' = k1 \<or> k' = snd (k_obj_alloc p KOBJ_QUEUE k1)"
      using run by (auto simp: queue_create_def bind_eq_Some_conv Let_def case_prod_beta split: if_splits)
    show ?thesis by (rule create_call_moves [OF c kept p(2) queue_create_moves [OF p(1) s]])
  qed
  show "self_moves c W k k'" if run: "sem_create n k = Some (Called r k')"
  proof -
    obtain p k1 where p: "z_impl_sem_create n k = Some (p, k1)" "k' = k1 \<or> k' = snd (k_obj_alloc p KOBJ_SEM k1)"
      using run by (auto simp: sem_create_def bind_eq_Some_conv Let_def case_prod_beta split: if_splits)
    show ?thesis by (rule create_call_moves [OF c kept p(2) sem_create_moves [OF p(1) s]])
  qed
  show "self_moves c W k k'" if run: "mutex_create k = Some (Called r k')"
  proof -
    obtain p k1 where p: "z_impl_mutex_create k = Some (p, k1)" "k' = k1 \<or> k' = snd (k_obj_alloc p KOBJ_MUTEX k1)"
      using run by (auto simp: mutex_create_def bind_eq_Some_conv Let_def case_prod_beta split: if_splits)
    show ?thesis by (rule create_call_moves [OF c kept p(2) mutex_create_moves [OF p(1) s]])
  qed
qed

text \<open>A privileged call on an object: refused, or the primitive itself.\<close>

lemma invoke_object:
  assumes "f \<in> {queue_push h p tm, queue_pop h p tm, sem_take h tm, sem_give h, mutex_lock h tm, mutex_unlock h}"
    and "f k = Some (Called r k')"
  obtains "k' = k" | q where "z_impl_queue_push q p tm k = Some (r, k')" | q where "z_impl_queue_pop q p tm k = Some (r, k')"
    | q where "z_impl_sem_take_timeout q tm k = Some (r, k')" | q where "z_impl_sem_give q k = Some k'"
    | q where "z_impl_mutex_lock_timeout q tm k = Some (r, k')" | q where "z_impl_mutex_unlock_for q (current_task k) k = Some k'"
  using assms
  by (auto simp: queue_push_def queue_pop_def sem_take_def sem_give_def mutex_lock_def mutex_unlock_def z_impl_mutex_unlock_def
      scheduler_get_current_def k_obj_get_live bind_eq_Some_conv Let_def split: if_splits)

lemma invoke_moves:
  assumes run: "invoke rq k = Some (Called r k')" and s: "settled W k" and c: "current_task k = Some c" "resting W k c"
    and kept: "creating rq \<Longrightarrow> objects_kept k k'"
  shows "self_moves c W k k'"
proof -
  have object: "self_moves c W k k'"
    if f: "f \<in> {queue_push h p tm, queue_pop h p tm, sem_take h tm, sem_give h, mutex_lock h tm, mutex_unlock h}"
      "f k = Some (Called r k')" for f h p tm
  proof (rule invoke_object [OF f])
    show "self_moves c W k k'" if "k' = k" using that self_moves_none [OF moves_refl [OF s] c(2)] by simp
    show "self_moves c W k k'" if "z_impl_queue_push q p tm k = Some (r, k')" for q
      using queue_moves [OF s _ disjI1 [OF that]] c self_moves_call [OF _ c(2)] by blast
    show "self_moves c W k k'" if "z_impl_queue_pop q p tm k = Some (r, k')" for q
      using queue_moves [OF s _ disjI2 [OF that]] c self_moves_call [OF _ c(2)] by blast
    show "self_moves c W k k'" if "z_impl_sem_take_timeout q tm k = Some (r, k')" for q
      by (rule self_moves_call [OF sem_take_moves [OF that s c] c(2)])
    show "self_moves c W k k'" if "z_impl_mutex_lock_timeout q tm k = Some (r, k')" for q
      by (rule self_moves_call [OF mutex_lock_moves [OF that s c] c(2)])
    show "self_moves c W k k'" if "z_impl_sem_give q k = Some k'" for q
      using sem_give_moves [OF that s] self_moves_none [OF _ c(2)] by blast
    show "self_moves c W k k'" if "z_impl_mutex_unlock_for q (current_task k) k = Some k'" for q
      using mutex_unlock_moves [OF that s] self_moves_none [OF _ c(2)] by blast
  qed
  show ?thesis
  proof (cases rq)
    case (Uart_write a)
    then obtain k1 where "uart_write a k = Some k1" "k' = k1" using run by (auto simp: k_uart_write_def bind_eq_Some_conv split: if_splits)
    then show ?thesis using self_moves_none [OF uart_write_moves [OF _ s] c(2)] by blast
  next
    case (Delay n)
    then show ?thesis using run task_delay_moves [OF s c] by (auto simp: task_delay_def split: if_splits)
  qed (use run object invoke_creates [OF s c(2)] kept in auto)
qed

end
