(* ===== verification/System.thy ===== *)
theory System
  imports Calls
begin

text \<open>
  The kernel as a whole: tasks that compute, call and trap, the worker that serves the ring, the tick and
  the switch of context, as one step relation, with the invariant that ties them together.
\<close>

section \<open>The step relation\<close>

text \<open>
  The task \<open>c\<close> executes: it is current and no switch is pending.  With interrupts enabled, as every
  operation leaves them, a pending switch is taken before the next instruction of a task.
\<close>

definition executes :: "tcb_ptr \<Rightarrow> kernel \<Rightarrow> bool" where
  "executes c k \<longleftrightarrow> current_task k = Some c \<and> \<not> pendsv k"

text \<open>
  \<open>wk\<close> is the worker's task and \<open>idl\<close> the idle task, which calls nothing.  Tasks may write any byte of the byte
  memory: the invariant does not depend on its contents.  The TCBs, the ring, the handle table and the objects are not
  in byte memory, so a store of a task never changes them; a run of the program in which one does, through data the
  protection unit exposes or through the pointer of a queue request, is not a run of \<open>step\<close>.  A task may print directly, and trap with any number and any
  arguments in its registers, also those no wrapper issues.  A creation is taken not to reuse the memory of
  an object, as \<open>malloc\<close> guarantees while nobody writes to the heap's headers.
\<close>

inductive step :: "tcb_ptr \<Rightarrow> tcb_ptr \<Rightarrow> kernel \<Rightarrow> kernel \<Rightarrow> bool" for wk idl where
  compute: "executes c k \<Longrightarrow> step wk idl k (k\<lparr>mem := m\<rparr>)"
| print: "executes c k \<Longrightarrow> step wk idl k (k\<lparr>uart_out := out\<rparr>)"
| drop: "executes c k \<Longrightarrow> step wk idl k (port_set_unprivileged k)"
| call: "executes c k \<Longrightarrow> c \<notin> {wk, idl} \<Longrightarrow> invoke rq k = Some (Called r k') \<Longrightarrow>
    (creating rq \<Longrightarrow> objects_kept k k') \<Longrightarrow>
    step wk idl k k'"
| resume: "executes c k \<Longrightarrow> c \<notin> {wk, idl} \<Longrightarrow> timed_resume c k = (r, k') \<Longrightarrow> step wk idl k k'"
| resume_queue: "executes c k \<Longrightarrow> c \<notin> {wk, idl} \<Longrightarrow>
    queue_push_resume c p item k = Some (r, k') \<or> queue_pop_resume c p item k = Some (r, k') \<Longrightarrow>
    step wk idl k k'"
| trap: "executes c k \<Longrightarrow> c \<notin> {wk, idl} \<Longrightarrow> exception_entry regs psr (mem k) = (f, m) \<Longrightarrow>
    step wk idl k (SVC_Handler 0xFFFFFFFD msp f (k\<lparr>mem := m\<rparr>))"
| start: "executes wk k \<Longrightarrow> kernel_tcb k = None \<Longrightarrow> step wk idl k (kernel_task_start k)"
| serve: "executes wk k \<Longrightarrow> kernel_tcb k = Some wk \<Longrightarrow> kwork_take k = (Some w, k1) \<Longrightarrow>
    dispatch w k1 = Some k' \<Longrightarrow> (creates (wi_id w) \<Longrightarrow> objects_kept k1 k') \<Longrightarrow> step wk idl k k'"
| park: "executes wk k \<Longrightarrow> kernel_tcb k = Some wk \<Longrightarrow> kwork_take k = (None, k1) \<Longrightarrow>
    step wk idl k (port_trigger_pendsv (upd_tcb wk (\<lambda>c. c\<lparr>tstate := TASK_WAITING\<rparr>) k1))"
| tick: "SysTick_Handler k = Some k' \<Longrightarrow> step wk idl k k'"
| switch: "pendsv k \<Longrightarrow> PendSV_Handler regs k = Some (Resume regs' k') \<Longrightarrow>
    step wk idl k (k'\<lparr>pendsv := False\<rparr>)"

section \<open>The invariant\<close>

text \<open>
  The worker is the only task of priority 0; the idle task is another; the lists hold tasks of the pool.
\<close>

definition roster :: "tcb_ptr \<Rightarrow> tcb_ptr \<Rightarrow> (nat \<Rightarrow> tcb_ptr list) \<Rightarrow> bool" where
  "roster wk idl L \<longleftrightarrow> L 0 = [wk] \<and> idl \<in> set (all_tasks L) \<and> idl \<noteq> wk \<and> (\<forall>t \<in> set (all_tasks L). t < MAX_TASKS)"

text \<open>The callers of the requests in the ring: distinct tasks that wait for the worker and nothing else.\<close>

definition callers_ok :: "tcb_ptr set \<Rightarrow> (wait_head \<Rightarrow> tcb_ptr list) \<Rightarrow> kernel \<Rightarrow> bool" where
  "callers_ok T W k \<longleftrightarrow> (\<exists>ts. map wi_caller (kwork_items k) = map Some ts \<and> distinct ts \<and>
     (\<forall>t \<in> set ts. t \<in> T \<and> tstate (tcb_pool k t) = TASK_WAITING \<and> resting W k t))"

definition running_ok :: "tcb_ptr set \<Rightarrow> kernel \<Rightarrow> bool" where
  "running_ok T k \<longleftrightarrow> (\<exists>c \<in> T. current_task k = Some c \<and>
     (\<forall>t. tstate (tcb_pool k t) = TASK_RUNNING \<longrightarrow> t = c) \<and> (pendsv k \<or> tstate (tcb_pool k c) = TASK_RUNNING))"

text \<open>The worker sleeps only on an empty ring.\<close>

definition worker_ok :: "tcb_ptr \<Rightarrow> (wait_head \<Rightarrow> tcb_ptr list) \<Rightarrow> kernel \<Rightarrow> bool" where
  "worker_ok wk W k \<longleftrightarrow> resting W k wk \<and> tstate (tcb_pool k wk) \<noteq> TASK_SUSPENDED \<and> kernel_tcb k \<in> {None, Some wk} \<and>
     (tstate (tcb_pool k wk) = TASK_WAITING \<longrightarrow> kernel_tcb k = Some wk \<and> kwork_items k = [])"

definition kernel_inv :: "tcb_ptr \<Rightarrow> tcb_ptr \<Rightarrow> (nat \<Rightarrow> tcb_ptr list) \<Rightarrow> (wait_head \<Rightarrow> tcb_ptr list) \<Rightarrow> kernel \<Rightarrow> bool" where
  "kernel_inv wk idl L W k \<longleftrightarrow> sched_wf L k \<and> settled W k \<and> kwork_wf k \<and>
     callers_ok (set (all_tasks L) - {wk, idl}) W k \<and> running_ok (set (all_tasks L)) k \<and> worker_ok wk W k \<and>
     tstate (tcb_pool k idl) \<in> {TASK_READY, TASK_RUNNING}"

lemma kernel_invD:
  assumes "kernel_inv wk idl L W k"
  shows "sched_wf L k" "settled W k" "kwork_wf k" "callers_ok (set (all_tasks L) - {wk, idl}) W k"
    "running_ok (set (all_tasks L)) k" "worker_ok wk W k" "tstate (tcb_pool k idl) \<in> {TASK_READY, TASK_RUNNING}"
  using assms by (simp_all add: kernel_inv_def)

text \<open>A task that executes is RUNNING, waits for nothing, and has no request in the ring.\<close>

lemma executes_running:
  assumes inv: "kernel_inv wk idl L W k" and ex: "executes c k"
  shows "tstate (tcb_pool k c) = TASK_RUNNING" "resting W k c" "c \<in> set (all_tasks L)" "Some c \<notin> wi_caller ` set (kwork_items k)"
proof -
  show st: "tstate (tcb_pool k c) = TASK_RUNNING" and "c \<in> set (all_tasks L)"
    using kernel_invD(5) [OF inv] ex by (auto simp: running_ok_def executes_def)
  show "resting W k c" using settledD(2) [OF kernel_invD(2) [OF inv], of c] st by simp
  show "Some c \<notin> wi_caller ` set (kwork_items k)"
  proof
    assume "Some c \<in> wi_caller ` set (kwork_items k)"
    then have "Some c \<in> set (map wi_caller (kwork_items k))" by simp
    then show False using kernel_invD(4) [OF inv] st unfolding callers_ok_def by fastforce
  qed
qed

text \<open>A move on behalf of tasks without requests keeps the invariant, if they end as they should.\<close>

lemma kept_fields:
  assumes "kept k k'"
  shows "current_task k' = current_task k" "kernel_tcb k' = kernel_tcb k" "kwork_items k' = kwork_items k"
    "kwork_wf k' = kwork_wf k" "pendsv k \<Longrightarrow> pendsv k'" "sched_wf L k' = sched_wf L k"
proof -
  show "current_task k' = current_task k" "kernel_tcb k' = kernel_tcb k" "pendsv k \<Longrightarrow> pendsv k'"
    using assms by (simp_all add: kept_def tick_kept_def)
  show "kwork_items k' = kwork_items k" "kwork_wf k' = kwork_wf k"
    using kwork_items_cong [of k' k] assms by (simp_all add: kept_def tick_kept_def)
  show "sched_wf L k' = sched_wf L k" by (rule sched_wf_cong) (use assms in \<open>simp_all add: kept_def tick_kept_def\<close>)
qed

lemma inv_moves:
  assumes inv: "kernel_inv wk idl L W k" and m: "moves U W k W' k'"
    and U: "idl \<notin> U" "\<forall>t \<in> U. Some t \<notin> wi_caller ` set (kwork_items k)"
    and run: "\<forall>t \<in> U. tstate (tcb_pool k' t) = TASK_RUNNING \<longrightarrow> current_task k = Some t"
      "\<forall>t \<in> U. current_task k = Some t \<longrightarrow> pendsv k' \<or> tstate (tcb_pool k' t) = TASK_RUNNING"
    and wk: "wk \<in> U \<Longrightarrow> worker_ok wk W' k'"
  shows "kernel_inv wk idl L W' k'"
proof -
  note kf = kept_fields [OF movesD(2) [OF m]] and rest = movesD(3,4) [OF m]
  have out: "tstate (tcb_pool k' t) = tstate (tcb_pool k t)" "resting W' k' t"
    if "t \<notin> U" "tstate (tcb_pool k t) \<noteq> TASK_WAITING \<or> resting W k t" for t
    using that rest settledD(2) [OF kernel_invD(2) [OF inv], of t] by blast+
  obtain ts where ts: "map wi_caller (kwork_items k) = map Some ts" "distinct ts"
    "\<forall>t \<in> set ts. t \<in> set (all_tasks L) - {wk, idl} \<and> tstate (tcb_pool k t) = TASK_WAITING \<and> resting W k t"
    using kernel_invD(4) [OF inv] unfolding callers_ok_def by blast
  have "t \<notin> U" if "t \<in> set ts" for t
  proof -
    have "Some t \<in> set (map wi_caller (kwork_items k))" using that ts(1) by simp
    then show ?thesis using U(2) by auto
  qed
  then have "callers_ok (set (all_tasks L) - {wk, idl}) W' k'"
    unfolding callers_ok_def kf(3) using ts out by (intro exI [of _ ts]) auto
  moreover have "running_ok (set (all_tasks L)) k'"
  proof -
    obtain c where c: "c \<in> set (all_tasks L)" "current_task k = Some c"
      "\<forall>t. tstate (tcb_pool k t) = TASK_RUNNING \<longrightarrow> t = c" "pendsv k \<or> tstate (tcb_pool k c) = TASK_RUNNING"
      using kernel_invD(5) [OF inv] unfolding running_ok_def by blast
    have "t = c" if "tstate (tcb_pool k' t) = TASK_RUNNING" for t
    proof (cases "t \<in> U")
      case True
      then show ?thesis using run(1) that c(2) by simp
    next
      case False
      then have "resting W k t" using movesD(5) [OF m] that by blast
      then show ?thesis using out(1) [OF False] that c(3) by simp
    qed
    moreover have "pendsv k' \<or> tstate (tcb_pool k' c) = TASK_RUNNING"
      using c(2,4) run(2) kf(5) out(1) [of c] by (cases "c \<in> U") auto
    ultimately show ?thesis using c(1,2) kf(1) unfolding running_ok_def by auto
  qed
  moreover have "worker_ok wk W' k'"
  proof (cases "wk \<in> U")
    case False
    then show ?thesis using kernel_invD(6) [OF inv] out [of wk] kf(2,3) by (auto simp: worker_ok_def)
  qed (rule wk)
  moreover have "tstate (tcb_pool k' idl) \<in> {TASK_READY, TASK_RUNNING}" using out(1) [OF U(1)] kernel_invD(7) [OF inv] by auto
  ultimately show ?thesis
    using kf(4,6) kernel_invD(1,3) [OF inv] movesD(1) [OF m] by (simp add: kernel_inv_def)
qed

section \<open>Every step keeps the invariant\<close>

lemma inv_self:
  assumes inv: "kernel_inv wk idl L W k" and ex: "executes c k" and c: "c \<notin> {wk, idl}" and m: "self_moves c W k k'"
  shows "\<exists>W'. kernel_inv wk idl L W' k'"
proof -
  obtain W' where W': "moves {c} W k W' k'"
    "tstate (tcb_pool k' c) = tstate (tcb_pool k c) \<or> tstate (tcb_pool k' c) = TASK_WAITING \<and> pendsv k'"
    using m unfolding self_moves_def by blast
  note run = executes_running [OF inv ex]
  have "kernel_inv wk idl L W' k'"
    by (rule inv_moves [OF inv W'(1)]) (use c ex run W'(2) in \<open>auto simp: executes_def\<close>)
  then show ?thesis by blast
qed

lemma inv_none:
  assumes "kernel_inv wk idl L W k" "moves {} W k W' k'" shows "kernel_inv wk idl L W' k'"
  by (rule inv_moves [OF assms]) simp_all

text \<open>A change of flags of the running task, \<open>port_set_unprivileged\<close> and \<open>timed_resume\<close>.\<close>

lemma inv_flags:
  assumes inv: "kernel_inv wk idl L W k" and ex: "executes c k"
  shows "kernel_inv wk idl L W (upd_tcb c (\<lambda>x. x\<lparr>flags := f (flags x)\<rparr>) k)"
proof -
  note s = kernel_invD(2) [OF inv] and run = executes_running [OF inv ex]
  let ?k = "upd_tcb c (\<lambda>x. x\<lparr>flags := f (flags x)\<rparr>) k"
  have m: "moves {c} W k W ?k" using restingD [OF run(2)] by (intro moves_upd s run(2)) simp_all
  have "resting W ?k t = resting W k t" "tstate (tcb_pool ?k t) = tstate (tcb_pool k t)" for t by (simp_all add: resting_def)
  then have "moves {} W k W ?k" using movesD(1,2) [OF m] settledD(2) [OF s] by (auto simp: moves_def)
  then show ?thesis by (rule inv_none [OF inv])
qed

lemma inv_drop:
  assumes inv: "kernel_inv wk idl L W k" and ex: "executes c k"
  shows "kernel_inv wk idl L W (port_set_unprivileged k)"
proof -
  let ?k = "upd_tcb c (\<lambda>x. x\<lparr>flags := flags x OR TASK_FLAG_USER\<rparr>) k"
  have i: "kernel_inv wk idl L W ?k" by (rule inv_flags [OF inv ex])
  have e: "port_set_unprivileged k = ?k\<lparr>control := control ?k OR 1\<rparr>"
    using ex by (simp add: port_set_unprivileged_def scheduler_get_current_def executes_def)
  have "read_head h (j\<lparr>control := v\<rparr>) = read_head h j" for h j v by (cases h) (simp_all add: read_head_def)
  then have "moves {} W ?k W (?k\<lparr>control := control ?k OR 1\<rparr>)" by (intro moves_heads [OF kernel_invD(2) [OF i]]) simp_all
  then show ?thesis unfolding e by (rule inv_none [OF i])
qed

lemma inv_resume:
  assumes inv: "kernel_inv wk idl L W k" and ex: "executes c k"
  shows "kernel_inv wk idl L W (snd (timed_resume c k))"
  using inv inv_flags [OF inv ex, of "\<lambda>x. x AND NOT TASK_FLAG_TIMED_OUT"] by (simp add: timed_resume_def)

lemma inv_resume_queue:
  assumes inv: "kernel_inv wk idl L W k" and ex: "executes c k" and c: "c \<notin> {wk, idl}"
    and run: "queue_push_resume c p item k = Some (r, k') \<or> queue_pop_resume c p item k = Some (r, k')"
  shows "\<exists>W'. kernel_inv wk idl L W' k'"
proof (cases "k' = k")
  case True
  then show ?thesis using inv by blast
next
  case False
  then have "z_impl_queue_push p item 0 k = Some (r, k') \<or> z_impl_queue_pop p item 0 k = Some (r, k')"
    using run by (auto simp: queue_push_resume_def queue_pop_resume_def z_impl_queue_push_def z_impl_queue_pop_def split: if_splits)
  then have "call_moves c W k r k'" using queue_moves [OF kernel_invD(2) [OF inv]] by blast
  then show ?thesis by (rule inv_self [OF inv ex c self_moves_call [OF _ executes_running(2) [OF inv ex]]])
qed

lemma settled_cong:
  assumes "tcb_pool k' = tcb_pool k" "\<And>h. read_head h k' = read_head h k" shows "settled W k' = settled W k"
  using prim_inv_cong [of k' k W] resting_cong [of k' k W] assms by (simp add: settled_def)

text \<open>A request is put into the ring by a task that has just become WAITING.\<close>

lemma inv_push:
  assumes inv: "kernel_inv wk idl L W k" and w: "wi_caller w = Some c" and room: "length (kwork_items k) \<noteq> KWORK_QUEUE_SIZE - 1"
    and c: "c \<in> set (all_tasks L) - {wk, idl}" "tstate (tcb_pool k c) = TASK_WAITING" "resting W k c" "Some c \<notin> wi_caller ` set (kwork_items k)"
  shows "kernel_inv wk idl L W (kwork_pushed w k)"
proof -
  let ?f = "\<lambda>x. if tstate x = TASK_WAITING then x\<lparr>tstate := TASK_READY\<rparr> else x"
  let ?k = "case kernel_tcb k of None \<Rightarrow> k | Some t \<Rightarrow> upd_tcb t ?f k"
  note s = kernel_invD(2) [OF inv] and wok = kernel_invD(6) [OF inv]
  have tcb: "kernel_tcb k = None \<or> kernel_tcb k = Some wk" and rest: "resting W k wk" using wok by (auto simp: worker_ok_def)
  have m: "moves {wk} W k W ?k"
  proof (cases "kernel_tcb k")
    case None
    then show ?thesis using moves_refl [OF s] by simp
  next
    case (Some t)
    then have "t = wk" using tcb by simp
    moreover have "moves {wk} W k W (upd_tcb wk ?f k)" using restingD [OF rest] by (intro moves_upd s rest) auto
    ultimately show ?thesis using Some by simp
  qed
  note kf = kept_fields [OF movesD(2) [OF m]]
  have eq: "kwork_pushed w k = ?k\<lparr>kwork_buf := (kwork_buf k)(kwork_tail k := w), kwork_tail := (kwork_tail k + 1) mod KWORK_QUEUE_SIZE\<rparr>"
    by (simp add: kwork_pushed_def upd_tcb_def fun_eq_iff split: option.split)
  have pool: "tcb_pool (kwork_pushed w k) = tcb_pool ?k" unfolding eq by simp
  have st: "tstate (tcb_pool ?k t) = TASK_RUNNING \<longleftrightarrow> tstate (tcb_pool k t) = TASK_RUNNING" "t \<noteq> wk \<Longrightarrow> tcb_pool ?k t = tcb_pool k t"
    "resting W ?k t = resting W k t" "tstate (tcb_pool ?k wk) \<noteq> TASK_WAITING" "tstate (tcb_pool ?k wk) \<noteq> TASK_SUSPENDED"
    "tstate (tcb_pool k t) \<noteq> TASK_WAITING \<Longrightarrow> tstate (tcb_pool ?k t) = tstate (tcb_pool k t)" for t
    using wok by (auto simp: worker_ok_def resting_def split: option.splits)
  obtain ts where ts: "map wi_caller (kwork_items k) = map Some ts" "distinct ts"
    "\<forall>t \<in> set ts. t \<in> set (all_tasks L) - {wk, idl} \<and> tstate (tcb_pool k t) = TASK_WAITING \<and> resting W k t"
    using kernel_invD(4) [OF inv] unfolding callers_ok_def by blast
  have "c \<notin> set ts"
  proof
    assume "c \<in> set ts"
    then have "Some c \<in> set (map wi_caller (kwork_items k))" unfolding ts(1) by simp
    then show False using c(4) by auto
  qed
  have rw: "resting W (kwork_pushed w k) = resting W ?k" by (rule resting_cong [OF pool])
  note items = kwork_pushed_items [OF kernel_invD(3) [OF inv] room, of w]
  have "callers_ok (set (all_tasks L) - {wk, idl}) W (kwork_pushed w k)"
    unfolding callers_ok_def items(1)
    using ts c \<open>c \<notin> set ts\<close> w st(2,3) by (intro exI [of _ "ts @ [c]"]) (auto simp: rw pool)
  moreover have "running_ok (set (all_tasks L)) (kwork_pushed w k)"
    using kernel_invD(5) [OF inv] kf(1) st(1) by (simp add: running_ok_def pool) (simp add: kwork_pushed_def)
  moreover have "worker_ok wk W (kwork_pushed w k)"
    using wok st(3-5) by (simp add: worker_ok_def rw pool) (simp add: kwork_pushed_def)
  moreover have "tstate (tcb_pool (kwork_pushed w k) idl) \<in> {TASK_READY, TASK_RUNNING}"
    using st(6) [of idl] kernel_invD(7) [OF inv] by (auto simp: pool)
  moreover have "settled W (kwork_pushed w k)"
    unfolding eq by (subst settled_cong [of _ ?k]) (simp_all add: movesD(1) [OF m])
  moreover have "sched_wf L (kwork_pushed w k)"
    unfolding eq using kf(6) kernel_invD(1) [OF inv] by (subst sched_wf_cong [of _ ?k]) simp_all
  ultimately show ?thesis using items(2) by (simp add: kernel_inv_def)
qed

text \<open>Six tasks at most can have a request in the ring: there is always room.\<close>

lemma ring_room:
  assumes "roster wk idl L" "callers_ok (set (all_tasks L) - {wk, idl}) W k"
  shows "length (kwork_items k) \<le> 6"
proof -
  obtain ts where ts: "map wi_caller (kwork_items k) = map Some ts" "distinct ts" "set ts \<subseteq> set (all_tasks L) - {wk, idl}"
    using assms(2) unfolding callers_ok_def by blast
  have sub: "set (all_tasks L) \<subseteq> {..<8}" using assms(1) by (auto simp: roster_def)
  have "{wk, idl} \<subseteq> set (all_tasks L)"
    using assms(1) by (auto simp: roster_def all_tasks_def intro: bexI [of _ 0])
  then have "card ({..<8} - {wk, idl}) = card {..<8 :: nat} - card {wk, idl}" using sub by (intro card_Diff_subset) auto
  also have "\<dots> = 6" using assms(1) by (auto simp: roster_def)
  finally have "card ({..<8} - {wk, idl}) = 6" .
  moreover have "set ts \<subseteq> {..<8} - {wk, idl}" using ts(3) sub by blast
  ultimately have "card (set ts) \<le> 6" by (metis card_mono finite_Diff finite_lessThan)
  then show ?thesis using arg_cong [OF ts(1), of length] distinct_card [OF ts(2)] by simp
qed

lemma svc_blocked_lists [simp]: "wait_next (svc_blocked c) = wait_next c" "delay_ticks (svc_blocked c) = delay_ticks c"
  "blocking_wait_list (svc_blocked c) = blocking_wait_list c"
  by (simp_all add: svc_blocked_def)

text \<open>A trap is never refused: the request of its task is appended.\<close>

lemma trap_pushed:
  assumes ro: "roster wk idl L" and inv: "kernel_inv wk idl L W k" and ex: "executes c k"
  obtains w where "wi_caller w = Some c" "length (kwork_items k) \<le> 6"
    "svc_handler_c f (k\<lparr>mem := m\<rparr>) = kwork_pushed w ((upd_tcb c svc_blocked (k\<lparr>mem := m\<rparr>))\<lparr>pendsv := True\<rparr>)"
    "kwork_items (svc_handler_c f (k\<lparr>mem := m\<rparr>)) = kwork_items k @ [w]"
proof -
  let ?m = "k\<lparr>mem := m\<rparr>"
  let ?k = "(upd_tcb c svc_blocked ?m)\<lparr>pendsv := True\<rparr>"
  have items: "kwork_items ?k = kwork_items k" "kwork_items ?m = kwork_items k" "kwork_wf ?m" "kwork_wf ?k"
    using kwork_items_cong [of ?k k] kwork_items_cong [of ?m k] kernel_invD(3) [OF inv] by simp_all
  have room: "length (kwork_items k) \<le> 6" by (rule ring_room [OF ro kernel_invD(4) [OF inv]])
  have cur: "current_task ?m = Some c" using ex by (simp add: executes_def)
  define w where "w = \<lparr>wi_id = load32 m (f + 16), wi_arg0 = load32 m f, wi_arg1 = load32 m (f + 4), wi_arg2 = load32 m (f + 8),
     wi_arg3 = load32 m (f + 12), wi_caller = Some c\<rparr>"
  have "svc_handler_c f ?m = (kwork_pushed w (?m\<lparr>tcb_pool := (tcb_pool k)(c := svc_blocked (tcb_pool k c))\<rparr>))\<lparr>pendsv := True\<rparr>"
    using svc_handler_eq [OF cur items(3) refl refl refl refl refl, of f] room items(2) by (simp add: w_def)
  also have "\<dots> = kwork_pushed w ?k" by (simp add: kwork_pushed_def upd_tcb_def split: option.split)
  finally have run: "svc_handler_c f ?m = kwork_pushed w ?k" .
  have "kwork_items (kwork_pushed w ?k) = kwork_items k @ [w]"
    using kwork_pushed_items(1) [OF items(4), of w] room items(1) by simp
  then show thesis by (intro that [OF _ room run]) (simp_all add: w_def run)
qed

lemma inv_trap:
  assumes ro: "roster wk idl L" and inv: "kernel_inv wk idl L W k" and ex: "executes c k" and c: "c \<notin> {wk, idl}"
  shows "kernel_inv wk idl L W (svc_handler_c f (k\<lparr>mem := m\<rparr>))"
proof -
  let ?m = "k\<lparr>mem := m\<rparr>"
  let ?k = "(upd_tcb c svc_blocked ?m)\<lparr>pendsv := True\<rparr>"
  note run = executes_running [OF inv ex]
  have m0: "moves {c} W k W ?m" by (rule moves_heads [OF kernel_invD(2) [OF inv]]) simp_all
  have "resting W ?m c" using run(2) by (subst resting_cong [of _ k]) simp_all
  then have m1: "moves {c} W ?m W (upd_tcb c svc_blocked ?m)"
    using restingD [OF run(2)] by (intro moves_upd movesD(1) [OF m0]) simp_all
  have "moves {c} W k W ?k" by (rule moves_then [OF moves_trans [OF m0 m1]]) simp_all
  then have i: "kernel_inv wk idl L W ?k"
    by (rule inv_moves [OF inv]) (use c run(4) in auto)
  have items: "kwork_items ?k = kwork_items k" using kwork_items_cong [of ?k k] by simp
  obtain w where w: "wi_caller w = Some c" "length (kwork_items k) \<le> 6" "svc_handler_c f ?m = kwork_pushed w ?k"
    by (rule trap_pushed [OF ro inv ex, of f m], rule that; assumption)
  have "resting W ?k c" using restingD [OF run(2)] by (simp add: resting_def)
  then show ?thesis using inv_push [OF i w(1)] w(2,3) items run(3,4) c by simp
qed

lemma inv_start:
  assumes inv: "kernel_inv wk idl L W k" and ex: "executes wk k"
  shows "kernel_inv wk idl L W (kernel_task_start k)"
proof -
  let ?k = "k\<lparr>kernel_tcb := Some wk\<rparr>"
  have e: "kernel_task_start k = ?k" using ex by (simp add: kernel_task_start_def scheduler_get_current_def executes_def)
  note run = executes_running [OF inv ex]
  have items: "kwork_items ?k = kwork_items k" "kwork_wf ?k = kwork_wf k" using kwork_items_cong [of ?k k] by simp_all
  have r: "resting W ?k = resting W k" by (rule resting_cong) simp
  have "read_head h ?k = read_head h k" for h by (cases h) (simp_all add: read_head_def)
  then have "settled W ?k = settled W k" by (intro settled_cong) simp_all
  moreover have "sched_wf L ?k = sched_wf L k" by (rule sched_wf_cong) simp_all
  ultimately show ?thesis
    using inv run(1,2) unfolding e
    by (simp add: kernel_inv_def items callers_ok_def running_ok_def worker_ok_def r)
qed

lemma inv_park:
  assumes inv: "kernel_inv wk idl L W k" and ex: "executes wk k" and ro: "roster wk idl L"
    and tcb: "kernel_tcb k = Some wk" and take: "kwork_take k = (None, k1)"
  shows "kernel_inv wk idl L W (port_trigger_pendsv (upd_tcb wk (\<lambda>c. c\<lparr>tstate := TASK_WAITING\<rparr>) k1))"
proof -
  have k1: "k1 = k" "kwork_items k = []"
    using take kwork_pop_eq(1) [OF kernel_invD(3) [OF inv]] by (auto simp: kwork_take_eq split: list.splits)
  note run = executes_running [OF inv ex]
  let ?k = "upd_tcb wk (\<lambda>c. c\<lparr>tstate := TASK_WAITING\<rparr>) k"
  have m: "moves {wk} W k W ?k" using restingD [OF run(2)] by (intro moves_upd kernel_invD(2) [OF inv] run(2)) simp_all
  have m': "moves {wk} W k W (port_trigger_pendsv ?k)" by (rule moves_then [OF m]) (simp_all add: port_trigger_pendsv_def)
  have items: "kwork_items (port_trigger_pendsv ?k) = []" using kept_fields(3) [OF movesD(2) [OF m']] k1(2) by simp
  have "worker_ok wk W (port_trigger_pendsv ?k)"
    using tcb items restingD [OF run(2)] by (simp add: worker_ok_def resting_def port_trigger_pendsv_def)
  then show ?thesis
    unfolding k1(1) by (intro inv_moves [OF inv m']) (use ro run(4) in \<open>auto simp: roster_def port_trigger_pendsv_def\<close>)
qed

section \<open>The tick\<close>

lemma tick_tcb_rest:
  "delay_ticks c = 0 \<Longrightarrow> tick_tcb c = c" "tstate c \<noteq> TASK_WAITING \<Longrightarrow> tick_tcb c = c"
  "tstate (tick_tcb c) = TASK_RUNNING \<longleftrightarrow> tstate c = TASK_RUNNING"
  by (auto simp: tick_tcb_def split: option.splits)

text \<open>A waiting task that the tick leaves waiting keeps its list; one it wakes leaves it.\<close>

lemma tick_tcb_waiting:
  assumes "tstate (tick_tcb c) \<noteq> TASK_WAITING" "tstate c = TASK_WAITING"
  shows "delay_ticks (tick_tcb c) = 0" "blocking_wait_list (tick_tcb c) = None" "delay_ticks c = 1"
    "sync_expires c \<longleftrightarrow> blocking_wait_list c \<noteq> None"
  using assms by (auto simp: tick_tcb_def sync_expires_def split: option.splits if_splits)

lemma tick_tcb_stays:
  assumes "tstate c = TASK_WAITING" "\<not> sync_expires c" "blocking_wait_list c = (if 0 < delay_ticks c then Some h else None)"
  shows "tstate (tick_tcb c) = TASK_WAITING" "blocking_wait_list (tick_tcb c) = (if 0 < delay_ticks (tick_tcb c) then Some h else None)"
proof -
  have d: "delay_ticks c \<noteq> 1" using assms by (auto simp: sync_expires_def)
  then have "tick_tcb c = (if 0 < delay_ticks c then c\<lparr>delay_ticks := delay_ticks c - 1\<rparr> else c)"
    using assms(1) by (simp add: tick_tcb_def)
  moreover have "0 < delay_ticks c \<Longrightarrow> 0 < delay_ticks c - 1" using d by (simp add: word_neq_0_conv [symmetric])
  ultimately show "tstate (tick_tcb c) = TASK_WAITING" "blocking_wait_list (tick_tcb c) = (if 0 < delay_ticks (tick_tcb c) then Some h else None)"
    using assms(1,3) by auto
qed

lemma tick_moves:
  assumes wf: "sched_wf L k" and s: "settled W k"
  obtains W' k' where "scheduler_tick k = Some k'" "moves {} W k W' k'"
proof -
  define gone where "gone t \<longleftrightarrow> t \<in> set (all_tasks L) \<and> sync_expires (tcb_pool k t)" for t
  define aged where "aged t = (if t \<in> set (all_tasks L) then tick_tcb (tcb_pool k t) else tcb_pool k t)" for t
  let ?W = "\<lambda>h. [t\<leftarrow>W h. \<not> gone t]"
  note p = prim_invD [OF settledD(1) [OF s]]
  obtain k' where k': "scheduler_tick k = Some k'" "sched_wf L k'" "wait_wf ?W k'" "timeouts_ok ?W k'"
    "\<forall>t. (tcb_pool k' t)\<lparr>wait_next := None\<rparr> = (aged t)\<lparr>wait_next := None\<rparr>" "tick_kept k k'"
    using scheduler_tick_run [OF wf p(1,2)] unfolding gone_def aged_def by blast
  note f = strip_fields [OF k'(5) [rule_format]]
  have rest: "aged t = tcb_pool k t" if "resting W k t" for t
    using restingD(1) [OF that] by (simp add: aged_def tick_tcb_rest)
  have "tstate (aged t) = TASK_WAITING \<and> blocking_wait_list (aged t) = (if 0 < delay_ticks (aged t) then Some h else None)"
    if t: "t \<in> set (W h)" "\<not> gone t" for t h
    using p(3) t tick_tcb_stays [of "tcb_pool k t" h] unfolding waiting_ok_def aged_def gone_def by (simp split: if_splits)
  then have ok: "waiting_ok ?W k'" unfolding waiting_ok_def f set_filter by blast
  have woken: "resting ?W k' t" if t: "tstate (tcb_pool k' t) \<noteq> TASK_WAITING" for t
  proof (cases "tstate (tcb_pool k t) = TASK_WAITING")
    case False
    then show ?thesis using settledD(2) [OF s, of t] rest [of t] by (auto simp: resting_def f)
  next
    case True
    then have in_L: "t \<in> set (all_tasks L)" using t by (auto simp: f aged_def split: if_splits)
    note w = tick_tcb_waiting [of "tcb_pool k t", OF _ True]
    have st: "tstate (tick_tcb (tcb_pool k t)) \<noteq> TASK_WAITING" using t in_L by (simp add: f aged_def)
    have "t \<notin> set (?W h)" for h
    proof
      assume "t \<in> set (?W h)"
      then have "blocking_wait_list (tcb_pool k t) = Some h" "\<not> gone t"
        using p(3) w(3) [OF st] unfolding waiting_ok_def by auto
      then show False using w(4) [OF st] in_L by (simp add: gone_def)
    qed
    then show ?thesis using w(1,2) [OF st] in_L by (simp add: resting_def f aged_def)
  qed
  have "settled ?W k'" using k'(3,4) ok woken by (simp add: settled_def prim_inv_def)
  moreover have "kept k k'"
    using k'(6) by (simp add: kept_def f aged_def)
  moreover have "tstate (tcb_pool k' t) = tstate (tcb_pool k t) \<and> resting ?W k' t" if "resting W k t" for t
    using rest [OF that] that by (simp add: resting_def f)
  moreover have "tstate (tcb_pool k' t) \<noteq> TASK_RUNNING" if "\<not> resting W k t" for t
    using settledD(2) [OF s, of t] that by (auto simp: f aged_def tick_tcb_rest)
  ultimately have "moves {} W k ?W k'" by (simp add: moves_def)
  with k'(1) show thesis by (rule that)
qed

lemma inv_tick:
  assumes inv: "kernel_inv wk idl L W k" and run: "SysTick_Handler k = Some k'"
  shows "\<exists>W'. kernel_inv wk idl L W' k'"
proof -
  obtain W1 k1 where k1: "scheduler_tick k = Some k1" "moves {} W k W1 k1"
    by (rule tick_moves [OF kernel_invD(1,2) [OF inv]])
  have k': "k' = k1 \<or> k' = port_trigger_pendsv k1" using run k1(1) unfolding SysTick_Handler_def k1(1) Option.bind_lunit option.inject by presburger
  have "moves {} W k W1 (port_trigger_pendsv k1)" by (rule moves_then [OF k1(2)]) (simp_all add: port_trigger_pendsv_def)
  then have "moves {} W k W1 k'" using k' k1(2) by blast
  then show ?thesis using inv_none [OF inv] by blast
qed

section \<open>The worker serves a request\<close>

lemma inv_serve:
  assumes inv: "kernel_inv wk idl L W k" and ex: "executes wk k"
    and take: "kwork_take k = (Some w, k1)" and run: "dispatch w k1 = Some k'"
    and kept: "creates (wi_id w) \<Longrightarrow> objects_kept k1 k'"
  shows "\<exists>W'. kernel_inv wk idl L W' k'"
proof -
  note wf = kernel_invD(3) [OF inv]
  obtain ws where ws: "kwork_items k = w # ws" "k1 = k\<lparr>kwork_head := (kwork_head k + 1) mod KWORK_QUEUE_SIZE\<rparr>"
    using take by (auto simp: kwork_take_eq kwork_pop_eq(1) [OF wf] split: list.splits)
  have k1: "kwork_items k1 = ws" "kwork_wf k1" using kwork_pop_eq(2) [OF wf ws(1)] ws(2) by simp_all
  have pool: "tcb_pool k1 = tcb_pool k" "current_task k1 = current_task k" "kernel_tcb k1 = kernel_tcb k" "pendsv k1 = pendsv k"
    by (simp_all add: ws(2))
  have r: "resting W k1 = resting W k" by (rule resting_cong [OF pool(1)])
  have "read_head h k1 = read_head h k" for h by (cases h) (simp_all add: read_head_def ws(2))
  then have s: "settled W k1" using settled_cong [OF pool(1)] kernel_invD(2) [OF inv] by simp
  have sw: "sched_wf L k1" using kernel_invD(1) [OF inv] by (subst sched_wf_cong [of _ k]) (simp_all add: ws(2))
  obtain ts where ts: "map wi_caller (w # ws) = map Some ts" "distinct ts"
    "\<forall>t \<in> set ts. t \<in> set (all_tasks L) - {wk, idl} \<and> tstate (tcb_pool k t) = TASK_WAITING \<and> resting W k t"
    using kernel_invD(4) [OF inv] unfolding callers_ok_def ws(1) by blast
  then obtain u us where u: "ts = u # us" "wi_caller w = Some u" "map wi_caller ws = map Some us" by (cases ts) auto
  have "callers_ok (set (all_tasks L) - {wk, idl}) W k1"
    unfolding callers_ok_def k1(1) r pool(1) using ts(2,3) u by (intro exI [of _ us]) auto
  moreover have "worker_ok wk W k1"
    using kernel_invD(6) [OF inv] executes_running(1) [OF inv ex] by (simp add: worker_ok_def r pool)
  ultimately have inv1: "kernel_inv wk idl L W k1"
    using inv sw s k1(2) by (simp add: kernel_inv_def running_ok_def pool)
  have cu: "u \<notin> {wk, idl}" "tstate (tcb_pool k1 u) = TASK_WAITING" "resting W k1 u" "u \<notin> set us"
    using ts(2,3) u(1) by (simp_all add: r pool)
  obtain W' where W': "moves {u} W k1 W' k'" "tstate (tcb_pool k' u) \<noteq> TASK_RUNNING"
    using dispatch_moves [OF run u(2) s cu(3,2) kept] unfolding request_moves_def by blast
  have "Some u \<notin> wi_caller ` set ws"
  proof
    assume "Some u \<in> wi_caller ` set ws"
    then have "Some u \<in> set (map wi_caller ws)" by simp
    then show False unfolding u(3) using cu(4) by auto
  qed
  then have "kernel_inv wk idl L W' k'"
    by (intro inv_moves [OF inv1 W'(1)]) (use cu(1) W'(2) ex k1(1) pool(2) in \<open>auto simp: executes_def\<close>)
  then show ?thesis by blast
qed

section \<open>The switch of context\<close>

text \<open>Only whether a task is WAITING matters to the lists of waiters.\<close>

lemma settled_states:
  assumes "\<And>u. wait_next (tcb_pool k' u) = wait_next (tcb_pool k u)" "\<And>u. delay_ticks (tcb_pool k' u) = delay_ticks (tcb_pool k u)"
    "\<And>u. blocking_wait_list (tcb_pool k' u) = blocking_wait_list (tcb_pool k u)"
    "\<And>u. tstate (tcb_pool k' u) = TASK_WAITING \<longleftrightarrow> tstate (tcb_pool k u) = TASK_WAITING"
    "\<And>h. read_head h k' = read_head h k"
  shows "settled W k' = settled W k" "resting W k' = resting W k"
proof -
  show r: "resting W k' = resting W k" by (simp add: resting_def assms fun_eq_iff)
  have "wait_wf W k' = wait_wf W k" by (rule wait_wf_cong) (simp_all add: assms)
  then show "settled W k' = settled W k"
    by (simp add: settled_def r prim_inv_def timeouts_ok_def waiting_ok_def assms)
qed

lemma switch_next:
  assumes ro: "roster wk idl L" and inv: "kernel_inv wk idl L W k" and run: "PendSV_Handler regs k = Some (Resume regs' k')"
  defines "sp \<equiv> PSP regs - 32"
  obtains c t pr where "current_task k = Some c" "top_ready L (switched_out c sp k) pr" "t \<in> set (L pr)"
    "ready (switched_out c sp k) t" "sched_wf L k'" "current_task k' = Some t" "pendsv k' = pendsv k"
    "tcb_pool k' = (tcb_pool (switched_out c sp k))(t := (tcb_pool (switched_out c sp k) t)\<lparr>tstate := TASK_RUNNING\<rparr>)"
    "\<And>h. read_head h k' = read_head h k" "kernel_tcb k' = kernel_tcb k"
    "kwork_items k' = kwork_items k" "kwork_wf k' = kwork_wf k"
proof -
  let ?k = "k\<lparr>mem := store_words (R4_11 regs) sp (mem k)\<rparr>"
  obtain c where c: "current_task k = Some c" "\<forall>t. tstate (tcb_pool k t) = TASK_RUNNING \<longrightarrow> t = c"
    using kernel_invD(5) [OF inv] unfolding running_ok_def by blast
  have wf: "sched_wf L ?k" using kernel_invD(1) [OF inv] by (subst sched_wf_cong [of _ k]) simp_all
  have cur: "current_task ?k = Some c" using c(1) by simp
  obtain out where out: "port_switch_context sp ?k = Some out"
    using run by (cases "port_switch_context sp ?k") (simp_all add: PendSV_Handler_def Let_def sp_def)
  have sw: "\<exists>sp'. port_switch_context sp ?k = Some (Resume sp' k')"
    using run out by (cases out) (auto simp: PendSV_Handler_def Let_def sp_def)
  have ok: "stack_base (tcb_pool ?k c) \<le> sp"
  proof (rule ccontr)
    assume "\<not> stack_base (tcb_pool ?k c) \<le> sp"
    then show False using sw unfolding port_switch_out [OF cur] by (auto simp: bind_eq_Some_conv not_le)
  qed
  have pool: "tcb_pool (switched_out c sp ?k) = tcb_pool (switched_out c sp k)" by simp
  show thesis
  proof (cases rule: port_switch_cases [OF wf cur ok, case_names switch stay])
    case (switch t pr k'')
    have e: "k' = k''" using sw switch(5) by simp
    have f: "current_task k' = Some t" "tcb_pool k' = (tcb_pool (switched_out c sp k))(t := (tcb_pool (switched_out c sp k) t)\<lparr>tstate := TASK_RUNNING\<rparr>)"
      "pendsv k' = pendsv k" "kernel_tcb k' = kernel_tcb k" "kwork_buf k' = kwork_buf k" "kwork_head k' = kwork_head k" "kwork_tail k' = kwork_tail k"
      "sems k' = sems k" "mutexes k' = mutexes k" "queues k' = queues k"
      unfolding e by (subst switch(7), simp add: switched_out_def upd_tcb_def)+
    have heads: "read_head h k' = read_head h k" for h by (cases h) (simp_all add: read_head_def f)
    have items: "kwork_items k' = kwork_items k" "kwork_wf k' = kwork_wf k" using kwork_items_cong [of k' k] f(5-7) by simp_all
    have top: "top_ready L (switched_out c sp k) pr" using switch(1) unfolding top_ready_def pool .
    have rdy: "ready (switched_out c sp k) t" using switch(3) unfolding pool .
    have swf: "sched_wf L k'" using switch(6) unfolding e .
    show thesis by (rule that [OF c(1) top switch(2) rdy swf f(1,3,2) heads f(4) items])
  next
    case stay
    have "ready (switched_out c sp k) idl"
      using kernel_invD(7) [OF inv] c(2) by (cases "idl = c") (simp_all, blast+)
    moreover obtain pr where "idl \<in> set (L pr)" using ro by (auto simp: roster_def all_tasks_def)
    ultimately show thesis using stay(1) unfolding pool by blast
  qed
qed

lemma switch_returns:
  assumes wf: "sched_wf L k" and cur: "current_task k = Some c" and ok: "stack_base (tcb_pool k c) \<le> PSP regs - 32"
  shows "\<exists>regs' k'. PendSV_Handler regs k = Some (Resume regs' k')"
proof -
  let ?k = "k\<lparr>mem := store_words (R4_11 regs) (PSP regs - 32) (mem k)\<rparr>"
  have wf': "sched_wf L ?k" using wf by (subst sched_wf_cong [of _ k]) simp_all
  have cur': "current_task ?k = Some c" and ok': "stack_base (tcb_pool ?k c) \<le> PSP regs - 32" using cur ok by simp_all
  have "\<exists>sp' k'. port_switch_context (PSP regs - 32) ?k = Some (Resume sp' k')"
    by (rule port_switch_cases [OF wf' cur' ok']) blast+
  then obtain sp' k' where "port_switch_context (PSP regs - 32) ?k = Some (Resume sp' k')" by blast
  then show ?thesis by (simp add: PendSV_Handler_def Let_def)
qed

text \<open>A worker that does not wait is the next to run.\<close>

lemma switch_worker:
  assumes ro: "roster wk idl L" and inv: "kernel_inv wk idl L W k" and run: "PendSV_Handler regs k = Some (Resume regs' k')"
    and wk: "tstate (tcb_pool k wk) \<noteq> TASK_WAITING"
  shows "current_task k' = Some wk"
proof -
  obtain c t pr where r: "current_task k = Some c" "top_ready L (switched_out c (PSP regs - 32) k) pr" "t \<in> set (L pr)" "current_task k' = Some t"
    by (rule switch_next [OF ro inv run], rule that; assumption)
  have only: "tstate (tcb_pool k u) = TASK_RUNNING \<Longrightarrow> u = c" for u using kernel_invD(5) [OF inv] r(1) by (auto simp: running_ok_def)
  have "tstate (tcb_pool k wk) = TASK_READY \<or> tstate (tcb_pool k wk) = TASK_RUNNING"
    using kernel_invD(6) [OF inv] wk by (cases "tstate (tcb_pool k wk)") (simp_all add: worker_ok_def)
  then have "ready (switched_out c (PSP regs - 32) k) wk" using only [of wk] by (cases "wk = c") auto
  moreover have "L 0 = [wk]" using ro by (simp add: roster_def)
  ultimately have "pr = 0" using r(2) unfolding top_ready_def by (cases pr) auto
  then show ?thesis using r(3,4) \<open>L 0 = [wk]\<close> by simp
qed

lemma inv_switch:
  assumes ro: "roster wk idl L" and inv: "kernel_inv wk idl L W k" and run: "PendSV_Handler regs k = Some (Resume regs' k')"
  shows "kernel_inv wk idl L W (k'\<lparr>pendsv := False\<rparr>)"
proof -
  let ?k = "k'\<lparr>pendsv := False\<rparr>"
  obtain c t pr where r: "current_task k = Some c" "t \<in> set (L pr)" "ready (switched_out c (PSP regs - 32) k) t" "sched_wf L k'"
    "current_task k' = Some t"
    "tcb_pool k' = (tcb_pool (switched_out c (PSP regs - 32) k))(t := (tcb_pool (switched_out c (PSP regs - 32) k) t)\<lparr>tstate := TASK_RUNNING\<rparr>)"
    "\<And>h. read_head h k' = read_head h k" "kernel_tcb k' = kernel_tcb k" "kwork_items k' = kwork_items k" "kwork_wf k' = kwork_wf k"
    by (rule switch_next [OF ro inv run], rule that; assumption)
  have only: "\<forall>u. tstate (tcb_pool k u) = TASK_RUNNING \<longrightarrow> u = c" using kernel_invD(5) [OF inv] r(1) by (auto simp: running_ok_def)
  have rdy: "tstate (tcb_pool k t) \<in> {TASK_READY, TASK_RUNNING}" using r(3) by (auto split: if_splits)
  have st: "tstate (tcb_pool k' u) = (if u = t then TASK_RUNNING else if tstate (tcb_pool k u) = TASK_RUNNING then TASK_READY else tstate (tcb_pool k u))" for u
    using only by (auto simp: r(6))
  have same: "settled W ?k = settled W k" "resting W ?k = resting W k"
    by (rule settled_states; use rdy in \<open>auto simp: st r(6,7)\<close>)+
  have items: "kwork_items ?k = kwork_items k" "kwork_wf ?k = kwork_wf k" using kwork_items_cong [of ?k k'] r(9,10) by simp_all
  have T: "t \<in> set (all_tasks L)" using r(2) sched_wf_priority [OF r(4)] by (auto simp: all_tasks_def)
  have "sched_wf L ?k" using r(4) by (subst sched_wf_cong [of _ k']) simp_all
  moreover have "callers_ok (set (all_tasks L) - {wk, idl}) W ?k"
  proof -
    obtain ts where ts: "map wi_caller (kwork_items k) = map Some ts" "distinct ts"
      "\<forall>u \<in> set ts. u \<in> set (all_tasks L) - {wk, idl} \<and> tstate (tcb_pool k u) = TASK_WAITING \<and> resting W k u"
      using kernel_invD(4) [OF inv] unfolding callers_ok_def by blast
    have "t \<notin> set ts" using ts(3) rdy by auto
    then show ?thesis unfolding callers_ok_def items same using ts by (intro exI [of _ ts]) (auto simp: st)
  qed
  moreover have "running_ok (set (all_tasks L)) ?k" using T r(5) by (auto simp: running_ok_def st)
  moreover have "worker_ok wk W ?k"
    using kernel_invD(6) [OF inv] rdy r(8) by (auto simp: worker_ok_def items same st)
  moreover have "tstate (tcb_pool ?k idl) \<in> {TASK_READY, TASK_RUNNING}" using kernel_invD(7) [OF inv] by (auto simp: st)
  ultimately show ?thesis using kernel_invD(2,3) [OF inv] same items by (simp add: kernel_inv_def)
qed

section \<open>All steps\<close>

lemma step_inv:
  assumes st: "step wk idl k k'" and ro: "roster wk idl L" and inv: "kernel_inv wk idl L W k"
  shows "\<exists>W'. kernel_inv wk idl L W' k'"
  using st
proof cases
  case (compute c m)
  have "moves {} W k W k'" unfolding compute(1) by (rule moves_heads [OF kernel_invD(2) [OF inv]]) simp_all
  then show ?thesis using inv_none [OF inv] by blast
next
  case (print c out)
  have "read_head h (k\<lparr>uart_out := out\<rparr>) = read_head h k" for h by (cases h) (simp_all add: read_head_def)
  then have "moves {} W k W k'" unfolding print(1) by (intro moves_heads [OF kernel_invD(2) [OF inv]]) simp_all
  then show ?thesis using inv_none [OF inv] by blast
next
  case (drop c)
  then show ?thesis using inv_drop [OF inv] by blast
next
  case (call c rq r)
  note run = executes_running [OF inv call(1)]
  have "self_moves c W k k'"
    by (rule invoke_moves [OF call(3) kernel_invD(2) [OF inv] _ run(2) call(4)]) (use call(1) in \<open>simp add: executes_def\<close>)
  then show ?thesis by (rule inv_self [OF inv call(1,2)])
next
  case (resume c r)
  then show ?thesis using inv_resume [OF inv resume(1)] by auto
next
  case (resume_queue c p item r)
  then show ?thesis using inv_resume_queue [OF inv] by blast
next
  case (trap c regs psr f m msp)
  then show ?thesis using inv_trap [OF ro inv trap(2,3)] by (auto simp: SVC_Handler_def)
next
  case start
  then show ?thesis using inv_start [OF inv] by blast
next
  case (serve w k1)
  then show ?thesis using inv_serve [OF inv] by blast
next
  case (park k1)
  then show ?thesis using inv_park [OF inv _ ro] by blast
next
  case tick
  then show ?thesis using inv_tick [OF inv] by blast
next
  case (switch regs regs' k1)
  then show ?thesis using inv_switch [OF ro inv] by blast
qed

lemma steps_inv:
  assumes "(step wk idl)\<^sup>*\<^sup>* k k'" "roster wk idl L" "kernel_inv wk idl L W k"
  shows "\<exists>W'. kernel_inv wk idl L W' k'"
  using assms(1)
proof (induction rule: rtranclp_induct)
  case base
  then show ?case using assms(3) by blast
next
  case (step k1 k2)
  then show ?case using step_inv [OF _ assms(2)] by blast
qed

end
