(* ===== verification/Boot.thy ===== *)
theory Boot
  imports System
begin

text \<open>
  From reset to the first task: \<open>main\<close> of \<open>src/main.c\<close> creates its five tasks, and the state in which
  the first of them is entered satisfies the invariant of \<open>System\<close>.
\<close>

section \<open>Five creations\<close>

lemma alloc_blocks_last:
  assumes "\<forall>b \<in> set xs. snd b" "n + 16 \<le> s"
  shows "alloc_blocks n a (xs @ [(s, False)]) = Some (a + bytes xs, xs @ [(n, True), (s - n, False)])"
  using assms
proof (induction xs arbitrary: a)
  case (Cons b xs)
  then show ?case by (cases b) (simp add: add.assoc)
qed simp

text \<open>
  The stacks of the first \<open>n\<close> tasks: each a power of two of bytes aligned to its size, in allocated
  memory, and apart from the others.
\<close>

definition stack_region :: "tcb \<Rightarrow> u32 set" where
  "stack_region c = region (stack_base c) (unat (stack_size c))"

definition stack_ok :: "tcb \<Rightarrow> bool" where
  "stack_ok c \<longleftrightarrow> (\<exists>n. 5 \<le> n \<and> n < 32 \<and> stack_size c = 2 ^ n \<and> 2 ^ n dvd unat (stack_base c) \<and> stack_base c \<noteq> 0)"

definition stacks_laid :: "nat \<Rightarrow> blocks \<Rightarrow> kernel \<Rightarrow> bool" where
  "stacks_laid n bs k \<longleftrightarrow>
     (\<forall>t < n. stack_ok (tcb_pool k t) \<and> (\<forall>b \<in> stack_region (tcb_pool k t). in_allocated (kheap_base k) bs b)) \<and>
     (\<forall>t < n. \<forall>u < n. t \<noteq> u \<longrightarrow> stack_region (tcb_pool k t) \<inter> stack_region (tcb_pool k u) = {})"

lemma stack_placed_ok:
  assumes "stack_placed hb bs bs' sz m c" "32 \<le> unat sz"
  shows "stack_ok c" "b \<in> stack_region c \<Longrightarrow> in_allocated hb bs' b \<and> \<not> in_allocated hb bs b"
proof -
  let ?guarded = "region (stack_base c - 256) (256 + unat (stack_size c))"
  obtain n where n: "unat (stack_size c) = 2 ^ n" "unat sz \<le> 2 ^ n" "2 ^ n dvd unat (stack_base c)"
    and fresh: "\<forall>b \<in> ?guarded. in_payload hb bs' b \<and> \<not> in_allocated hb bs b"
    using assms(1) unfolding stack_placed_def by fastforce
  have sub: "b \<in> ?guarded" if "b \<in> stack_region c" for b
  proof -
    have "unat (b - (stack_base c - 256)) = unat ((b - stack_base c) + 256)" by (simp add: algebra_simps)
    also have "\<dots> \<le> unat (b - stack_base c) + 256" by (simp add: unat_word_ariths(1))
    finally show ?thesis using that by (simp add: region_def stack_region_def)
  qed
  then show "in_allocated hb bs' b \<and> \<not> in_allocated hb bs b" if "b \<in> stack_region c"
    using that fresh in_payload_allocated by blast
  have "(2 :: nat) ^ n < 2 ^ 32" using unat_u32_lt [of "stack_size c"] n(1) by simp
  then have "n < 32" by (rule power_less_imp_less_exp [rotated]) simp
  moreover have "(2 :: nat) ^ 5 \<le> 2 ^ n" using n(2) assms(2) by simp
  then have "5 \<le> n" by (rule power_le_imp_le_exp [rotated]) simp
  moreover have "stack_size c = 2 ^ n"
  proof -
    have "stack_size c = of_nat (unat (stack_size c))" by simp
    also have "\<dots> = 2 ^ n" by (simp only: n(1) of_nat_power of_nat_numeral)
    finally show ?thesis .
  qed
  moreover have "stack_base c \<noteq> 0"
  proof
    assume z: "stack_base c = 0"
    have "stack_base c \<in> stack_region c" using n(1) by (simp add: stack_region_def)
    then have "in_payload hb bs' 0" using sub fresh z by fastforce
    then show False by (auto simp: in_payload_def)
  qed
  ultimately show "stack_ok c" using n(3) unfolding stack_ok_def by blast
qed

lemma stacks_in_heap:
  assumes "stacks_laid n bs k" "kheap_wf bs k" "t < n" "b \<in> stack_region (tcb_pool k t)"
  shows "kheap_base k \<le> unat b" "unat b < unat (heap_end (ld k))"
proof -
  obtain p s where "(p, s) \<in> set (allocated (kheap_base k) bs)" "p \<le> unat b" "unat b < p + s"
    using assms(1,3,4) unfolding stacks_laid_def in_allocated_def by blast
  moreover from this have "kheap_base k \<le> p" "p + s \<le> kheap_base k + bytes bs" using allocated_bounds by blast+
  moreover have "kheap_base k + bytes bs = unat (heap_end (ld k))" using assms(2) by (simp add: kheap_wf_def heap_wf_def kheap_base_def)
  ultimately show "kheap_base k \<le> unat b" "unat b < unat (heap_end (ld k))" by simp_all
qed

lemma stacks_laid_Suc:
  assumes st: "stacks_laid n bs k" and new: "stack_placed (kheap_base k) bs bs' sz m (tcb_pool k' n)" "32 \<le> unat sz"
    and old: "\<And>t. t < n \<Longrightarrow> tcb_pool k' t = tcb_pool k t"
      "\<And>b. in_allocated (kheap_base k) bs b \<Longrightarrow> in_allocated (kheap_base k) bs' b" and base: "kheap_base k' = kheap_base k"
  shows "stacks_laid (Suc n) bs' k'"
proof -
  let ?r = "\<lambda>t. stack_region (tcb_pool k' t)" and ?in = "in_allocated (kheap_base k)"
  note laid = st [unfolded stacks_laid_def]
  have each: "stack_ok (tcb_pool k' t) \<and> (\<forall>b \<in> ?r t. ?in bs' b)" if "t < Suc n" for t
  proof (cases "t = n")
    case False
    then have "t < n" using that by simp
    then show ?thesis using laid old(2) unfolding old(1) [OF \<open>t < n\<close>] by blast
  qed (use stack_placed_ok [OF new] in blast)
  have fresh: "?r t \<inter> ?r n = {}" if "t < n" for t
    using that laid old(1) stack_placed_ok(2) [OF new] by fastforce
  have "?r t \<inter> ?r u = {}" if "t < Suc n" "u < Suc n" "t \<noteq> u" for t u
    using that laid old(1) fresh [of t] fresh [of u] by (cases "t = n"; cases "u = n") auto
  then show ?thesis unfolding stacks_laid_def base using each by blast
qed

text \<open>After \<open>n\<close> creations, \<open>s\<close> bytes of the heap being left in one block.\<close>

definition boot_stage :: "nat \<Rightarrow> nat \<Rightarrow> (nat \<Rightarrow> tcb_ptr list) \<Rightarrow> kernel \<Rightarrow> bool" where
  "boot_stage n s L k \<longleftrightarrow> task_inv L (\<lambda>_. []) k \<and>
     (\<exists>xs. (\<forall>b \<in> set xs. snd b) \<and> kheap_wf (xs @ [(s, False)]) k \<and> stacks_laid n (xs @ [(s, False)]) k) \<and>
     pool_apart k \<and> tcb_used k = (\<lambda>i. i < n) \<and>
     (\<forall>t. tstate (tcb_pool k t) = TASK_READY \<and> delay_ticks (tcb_pool k t) = 0 \<and> blocking_wait_list (tcb_pool k t) = None \<and>
        flags (tcb_pool k t) = 0) \<and>
     current_task k = None \<and> kernel_tcb k = None \<and> kwork_head k = 0 \<and> kwork_tail k = 0 \<and> (n \<noteq> 0 \<longrightarrow> pendsv k)"

lemma boot_stageD:
  assumes "boot_stage n s L k"
  shows "task_inv L (\<lambda>_. []) k" "pool_apart k" "tcb_used k = (\<lambda>i. i < n)" "tstate (tcb_pool k t) = TASK_READY"
    "delay_ticks (tcb_pool k t) = 0" "blocking_wait_list (tcb_pool k t) = None" "current_task k = None" "kernel_tcb k = None"
    "kwork_head k = 0" "kwork_tail k = 0" "n \<noteq> 0 \<Longrightarrow> pendsv k" "flags (tcb_pool k t) = 0" "\<exists>bs. stacks_laid n bs k \<and> kheap_wf bs k"
  using assms by (auto simp: boot_stage_def)

lemma stack_need_512: "unat (alloc_need (stack_alloc_size (next_power_of_two 512))) = 1288"
  by (rule demo_ram_need)

lemma boot_create:
  assumes st: "boot_stage n s L k" and n: "n < MAX_TASKS" and pr: "unat pr < MAX_TASK_PRIORITIES" and s: "1304 \<le> s"
  obtains k' where "task_create fn nm pr 512 arg k = Some k'" "boot_stage (Suc n) (s - 1288) (L(unat pr := n # L (unat pr))) k'"
proof -
  note d = boot_stageD [OF st]
  obtain xs where xs: "\<forall>b \<in> set xs. snd b" "kheap_wf (xs @ [(s, False)]) k" "stacks_laid n (xs @ [(s, False)]) k"
    using st unfolding boot_stage_def by blast
  have args: "(512 :: u32) \<noteq> 0" "(512 :: u32) \<le> MAX_TASK_STACK_SIZE" by simp_all
  have avail: "\<not> (\<forall>i < MAX_TASKS. tcb_used k i)" unfolding d(3) using n by blast
  have least: "(LEAST i. \<not> tcb_used k i) = n" unfolding d(3) by (rule Least_equality) simp_all
  note alloc = alloc_blocks_last [OF xs(1), of 1288 s]
  show thesis
  proof (cases rule: task_create_cases [OF d(1) xs(2) d(2) pr args avail, of fn nm arg, case_names refused created])
    case (refused k')
    then show thesis using s by (auto simp: stack_need_512)
  next
    case (created t a k' bs')
    note same = task_create_same [OF created(1)]
    have t: "t = n" using created(17) least by simp
    obtain p where "alloc_blocks 1288 (kheap_base k) (xs @ [(s, False)]) = Some (p, bs')"
      using created(18) unfolding stack_need_512 by blast
    then have bs': "bs' = (xs @ [(1288, True)]) @ [(s - 1288, False)]" using alloc s by simp
    obtain base ssize nx where pool: "tcb_pool k' = (tcb_pool k)(t := (new_tcb base ssize a pr fn arg)\<lparr>next_task := nx\<rparr>)"
      using created(9) by blast
    have "\<forall>b \<in> set (xs @ [(1288, True)]). snd b" using xs(1) by simp
    moreover have "stacks_laid (Suc n) bs' k'"
      by (rule stacks_laid_Suc [OF xs(3) created(8) [unfolded t]]) (use created(10,12) in \<open>auto simp: pool t\<close>)
    ultimately have "\<exists>ys. (\<forall>b \<in> set ys. snd b) \<and> kheap_wf (ys @ [(s - 1288, False)]) k' \<and> stacks_laid (Suc n) (ys @ [(s - 1288, False)]) k'"
      using created(3) unfolding bs' by blast
    moreover have "pool_apart k'" using d(2) created(12) same(11) by (simp add: pool_apart_def)
    moreover have "tcb_used k' = (\<lambda>i. i < Suc n)" unfolding created(6) d(3) t by (auto simp: fun_eq_iff)
    ultimately have "boot_stage (Suc n) (s - 1288) (L(unat pr := n # L (unat pr))) k'"
      using created(4,5) d same by (simp add: boot_stage_def t pool new_tcb_def zero_tcb_def)
    then show thesis using that created(1) by blast
  qed
qed

lemma boot_output:
  assumes st: "boot_stage n s L k" shows "boot_stage n s L (k\<lparr>uart_out := v\<rparr>)" "boot_stage n s L (k\<lparr>primask := pm\<rparr>)"
proof -
  have same: "boot_stage n s L k'"
    if f: "tcb_pool k' = tcb_pool k" "tcb_used k' = tcb_used k" "task_list k' = task_list k" "rr_current k' = rr_current k"
      "g_priority_mask k' = g_priority_mask k" "sems k' = sems k" "mutexes k' = mutexes k" "queues k' = queues k"
      "mem k' = mem k" "ld k' = ld k" "kheap k' = kheap k" "current_task k' = current_task k" "kernel_tcb k' = kernel_tcb k"
      "kwork_head k' = kwork_head k" "kwork_tail k' = kwork_tail k" "pendsv k' = pendsv k" for k'
  proof -
    have "read_head h k' = read_head h k" for h by (cases h) (simp_all add: read_head_def f)
    then have "prim_inv W k' = prim_inv W k" for W by (intro prim_inv_cong) (simp_all add: f)
    moreover have "sched_wf L k' = sched_wf L k" by (rule sched_wf_cong) (simp_all add: f)
    ultimately have "task_inv L (\<lambda>_. []) k' = task_inv L (\<lambda>_. []) k" by (simp only: task_inv_def f)
    then show ?thesis using st unfolding boot_stage_def kheap_wf_def pool_apart_def kheap_base_def stacks_laid_def f by simp
  qed
  show "boot_stage n s L (k\<lparr>uart_out := v\<rparr>)" "boot_stage n s L (k\<lparr>primask := pm\<rparr>)" by (rule same; simp)+
qed

lemma boot_puts_stage: "boot_stage n s L k \<Longrightarrow> boot_stage n s L (uart_puts cs k)"
  unfolding uart_puts_def by (rule boot_output(1))

lemma banner_output: "\<exists>v. crest_boot_banner k = k\<lparr>uart_out := v\<rparr>"
  unfolding crest_boot_banner_def banner_line_def uart_puts_def Let_def by (simp, rule exI, rule refl)

section \<open>The state at reset\<close>

text \<open>The boot loader jumps to the kernel with interrupts masked.\<close>

definition reset_state :: "linker \<Rightarrow> memory \<Rightarrow> kernel" where
  "reset_state l m = (boot_kernel l m)\<lparr>primask := 1\<rparr>"

lemma clear_all:
  assumes "tcb_pool k = (\<lambda>_. zero_tcb)"
  shows "\<exists>m. fold clear_tcb ts k = k\<lparr>mem := m\<rparr>"
  using assms
proof (induction ts arbitrary: k)
  case Nil
  have "k = k\<lparr>mem := mem k\<rparr>" by simp
  then show ?case unfolding fold.simps id_apply by blast
next
  case (Cons t ts)
  have "clear_tcb t k = k\<lparr>mem := memset (mem k) (tcb_name_addr k t) 0 TASK_NAME_MAX_LEN\<rparr>"
    using Cons.prems by (simp add: clear_tcb_def upd_tcb_def fun_upd_idem)
  moreover from this have "tcb_pool (clear_tcb t k) = (\<lambda>_. zero_tcb)" using Cons.prems by simp
  ultimately show ?case using Cons.IH [of "clear_tcb t k"] by auto
qed

lemma reset_stage:
  assumes heap: "kheap_wf [(s, False)] (boot_kernel l m)" and pool: "pool_apart (boot_kernel l m)"
  shows "boot_stage 0 s (\<lambda>_. []) (task_init (crest_boot_banner (reset_state l m)))"
proof -
  obtain v where v: "crest_boot_banner (reset_state l m) = (reset_state l m)\<lparr>uart_out := v\<rparr>" using banner_output by blast
  obtain m' where m': "fold clear_tcb [0..<MAX_TASKS] ((reset_state l m)\<lparr>uart_out := v\<rparr>) = (reset_state l m)\<lparr>uart_out := v, mem := m'\<rparr>"
    using clear_all [of "(reset_state l m)\<lparr>uart_out := v\<rparr>"] by (auto simp: reset_state_def boot_kernel_def)
  have e: "task_init (crest_boot_banner (reset_state l m)) = (boot_kernel l m')\<lparr>primask := 1, uart_out := v\<rparr>"
    unfolding v task_init_def m' by (simp add: scheduler_init_def reset_state_def boot_kernel_def)
  have heads: "read_head h (boot_kernel l m') = None" for h by (cases h) (simp_all add: read_head_def boot_kernel_def)
  have "sched_wf (\<lambda>_. []) (boot_kernel l m')" by (simp add: sched_wf_def boot_kernel_def)
  moreover have "wait_wf (\<lambda>_. []) (boot_kernel l m')" using heads by (simp add: wait_wf_def)
  then have "prim_inv (\<lambda>_. []) (boot_kernel l m')"
    by (simp add: prim_inv_def timeouts_ok_def waiting_ok_def boot_kernel_def zero_tcb_def)
  ultimately have inv: "task_inv (\<lambda>_. []) (\<lambda>_. []) (boot_kernel l m')" by (simp add: task_inv_def)
  have h: "kheap_wf ([] @ [(s, False)]) (boot_kernel l m')" using heap by (simp add: kheap_wf_def heap_wf_def boot_kernel_def)
  have "pool_apart (boot_kernel l m')" using pool by (simp add: pool_apart_def kheap_base_def boot_kernel_def)
  then have "boot_stage 0 s (\<lambda>_. []) (boot_kernel l m')"
    unfolding boot_stage_def using inv h by (intro conjI exI [of _ "[]"]) (simp_all add: stacks_laid_def boot_kernel_def zero_tcb_def)
  then show ?thesis unfolding e by (intro boot_output)
qed

section \<open>The start\<close>

text \<open>The worker in slot 0, the tasks of priorities 1 to 3, and the idle task in slot 4.\<close>

definition boot_lists :: "nat \<Rightarrow> tcb_ptr list" where
  "boot_lists = (\<lambda>_. [])(0 := [0], 1 := [1], 2 := [2], 3 := [3], 7 := [4])"

lemma boot_roster: "roster 0 4 boot_lists"
  by (simp add: roster_def all_tasks_def boot_lists_def upt_rec)

lemma boot_create_at:
  assumes st: "boot_stage n s L k" "s = r + 1288" and i: "unat pr = i" "i < MAX_TASK_PRIORITIES" "L i = []"
    and n: "n < MAX_TASKS" "n' = Suc n" "16 \<le> r" "L' = L(i := [n])"
  obtains k' where "task_create fn nm pr 512 arg k = Some k'" "boot_stage n' r L' k'"
  by (rule boot_create [OF st(1) n(1), of pr fn nm arg]) (use st(2) i n that in auto)

lemma main_setup_stage:
  assumes heap: "kheap_wf [(s, False)] (boot_kernel l m)" "pool_apart (boot_kernel l m)" and s: "s = r + 6440" "16 \<le> r"
  obtains u' k where "main_setup p u (reset_state l m) = Some (u', k)" "boot_stage 5 r boot_lists k"
proof -
  let ?k0 = "uart_puts (ascii ''Creating tasks...'' @ [10]) (task_init (crest_boot_banner (reset_state l m)))"
  have s0: "boot_stage 0 (r + 6440) (\<lambda>_. []) ?k0"
    using boot_puts_stage [OF reset_stage [OF heap]] unfolding s(1) .
  obtain k1 where k1: "task_create (fn_kernel_task p) (nm_kernel_task p) 0 512 0 ?k0 = Some k1"
    "boot_stage 1 (r + 5152) ((\<lambda>_. [])(0 := [0])) k1"
    by (rule boot_create_at [OF s0, of "r + 5152" 0 0 1 _ "fn_kernel_task p" "nm_kernel_task p" 0]) (use s(2) in simp_all)
  obtain k2 where k2: "task_create (fn_producer p) (nm_producer p) 1 512 0 k1 = Some k2"
    "boot_stage 2 (r + 3864) ((\<lambda>_. [])(0 := [0], 1 := [1])) k2"
    by (rule boot_create_at [OF k1(2), of "r + 3864" 1 1 2 _ "fn_producer p" "nm_producer p" 0]) (use s(2) in simp_all)
  obtain k3 where k3: "task_create (fn_consumer p) (nm_consumer p) 2 512 0 k2 = Some k3"
    "boot_stage 3 (r + 2576) ((\<lambda>_. [])(0 := [0], 1 := [1], 2 := [2])) k3"
    by (rule boot_create_at [OF k2(2), of "r + 2576" 2 2 3 _ "fn_consumer p" "nm_consumer p" 0]) (use s(2) in simp_all)
  obtain k4 where k4: "task_create (fn_mpu_probe p) (nm_mpu_probe p) 3 512 0 k3 = Some k4"
    "boot_stage 4 (r + 1288) ((\<lambda>_. [])(0 := [0], 1 := [1], 2 := [2], 3 := [3])) k4"
    by (rule boot_create_at [OF k3(2), of "r + 1288" 3 3 4 _ "fn_mpu_probe p" "nm_mpu_probe p" 0]) (use s(2) in simp_all)
  obtain k5 where k5: "task_create (fn_idle p) (nm_idle p) 7 512 0 k4 = Some k5" "boot_stage 5 r boot_lists k5"
    by (rule boot_create_at [OF k4(2), of r 7 7 5 boot_lists "fn_idle p" "nm_idle p" 0]) (use s(2) in \<open>simp_all add: boot_lists_def\<close>)
  have "main_setup p u (reset_state l m) = Some (uart_init u, uart_puts (ascii ''Scheduler started'' @ [10]) k5)"
    by (simp add: main_setup_def k1(1) k2(1) k3(1) k4(1) k5(1) Let_def del: ascii_def)
  then show thesis using boot_puts_stage [OF k5(2)] by (rule that)
qed

lemma boot_enter:
  assumes st: "boot_stage 5 r boot_lists k"
  obtains c k' where "port_start_first_task sy k = Some (\<lparr>SYST_CSR = 7, SYST_RVR = 15999, SYST_CVR = 0\<rparr>, c, k')"
    "kernel_inv 0 4 boot_lists (\<lambda>_. []) k'" "current_task k' = Some 0" "pendsv k'" "kernel_tcb k' = None" "kwork_items k' = []"
    "\<And>t. tstate (tcb_pool k' t) = (if t = 0 then TASK_RUNNING else TASK_READY)"
    "\<exists>bs. stacks_laid 5 bs k' \<and> kheap_wf bs k'" "\<And>t. flags (tcb_pool k' t) = 0"
proof -
  note d = boot_stageD [OF st]
  have wf: "sched_wf boot_lists k" and prim: "prim_inv (\<lambda>_. []) k" using d(1) by (simp_all add: task_inv_def)
  have L0: "boot_lists 0 = [0]" by (simp add: boot_lists_def)
  have top: "top_ready boot_lists k 0" using L0 d(4) [of 0] by (simp add: top_ready_def)
  have "rr_ring boot_lists k 0 \<noteq> []" unfolding rr_ring_nil L0 by simp
  then obtain u us where ring: "rr_ring boot_lists k 0 = u # us" unfolding neq_Nil_conv by blast
  then have "u = 0" using rr_ring_set [of boot_lists k 0] L0 by auto
  then have find: "find (ready k) (rr_ring boot_lists k 0) = Some 0" using ring d(4) by simp
  obtain k' m where run: "port_start_first_task sy k =
      Some (\<lparr>SYST_CSR = 7, SYST_RVR = 15999, SYST_CVR = 0\<rparr>, enter_first_task (stack_pointer (tcb_pool k 0)) (mem k), k')"
    and k': "k' = k\<lparr>rr_current := (rr_current k)(0 := rr_current k' 0), tcb_pool := (tcb_pool k)(0 := (tcb_pool k 0)\<lparr>tstate := TASK_RUNNING\<rparr>),
       mpu := m, current_task := Some 0, control := 2, primask := 0\<rparr>" and wf': "sched_wf boot_lists k'"
    by (rule port_start_run [OF wf d(7) top find])
  have f: "tcb_pool k' = (tcb_pool k)(0 := (tcb_pool k 0)\<lparr>tstate := TASK_RUNNING\<rparr>)" "current_task k' = Some 0" "pendsv k'"
    "kernel_tcb k' = None" "kwork_head k' = 0" "kwork_tail k' = 0" "sems k' = sems k" "mutexes k' = mutexes k" "queues k' = queues k"
    "ld k' = ld k" "mem k' = mem k" "kheap k' = kheap k"
    by (subst k', simp add: d(8-11))+
  have "read_head h k' = read_head h k" for h by (cases h) (simp_all add: read_head_def f)
  then have "wait_wf (\<lambda>_. []) k'" using prim_invD(1) [OF prim] by (subst wait_wf_cong [of _ k]) (simp_all add: f)
  then have "prim_inv (\<lambda>_. []) k'" using d(5) by (simp add: prim_inv_def timeouts_ok_def waiting_ok_def f)
  then have "settled (\<lambda>_. []) k'" using d(5,6) by (simp add: settled_def resting_def f)
  moreover have items: "kwork_items k' = []" "kwork_wf k'"
    by (simp_all add: kwork_items_def kwork_wf_def f ring_slots_def ring_count_def)
  moreover have "set (all_tasks boot_lists) = {0, 1, 2, 3, 4}" by (auto simp: all_tasks_def boot_lists_def upt_rec)
  ultimately have inv: "kernel_inv 0 4 boot_lists (\<lambda>_. []) k'"
    using wf' d(4-6) by (simp add: kernel_inv_def callers_ok_def running_ok_def worker_ok_def resting_def f)
  obtain bs where bs: "stacks_laid 5 bs k" "kheap_wf bs k" using d(13) by blast
  have "stack_region (tcb_pool k' t) = stack_region (tcb_pool k t)" "stack_ok (tcb_pool k' t) = stack_ok (tcb_pool k t)" for t
    by (simp_all add: f(1) stack_region_def stack_ok_def)
  then have "stacks_laid 5 bs k'" using bs(1) by (simp only: stacks_laid_def kheap_base_def f)
  moreover have "kheap_wf bs k'" using bs(2) by (subst kheap_wf_cong [of _ k]) (simp_all only: f)
  ultimately have "\<exists>bs. stacks_laid 5 bs k' \<and> kheap_wf bs k'" by blast
  with inv show thesis by (intro that [OF run]) (simp_all add: f items d(4,12))
qed

section \<open>The states the machine can be in\<close>

definition reachable :: "program \<Rightarrow> linker \<Rightarrow> memory \<Rightarrow> kernel \<Rightarrow> bool" where
  "reachable p l m k \<longleftrightarrow> (\<exists>u sy sy' c k0. main_start p u sy (reset_state l m) = Some (sy', c, k0) \<and> (step 0 4)\<^sup>*\<^sup>* k0 k)"

text \<open>The kernel heap has room for the five stacks, above the pool of control blocks.\<close>

definition boot_heap :: "linker \<Rightarrow> memory \<Rightarrow> bool" where
  "boot_heap l m \<longleftrightarrow> (\<exists>s \<ge> 6456. kheap_wf [(s, False)] (boot_kernel l m)) \<and> pool_apart (boot_kernel l m)"

lemma boot_start:
  assumes "boot_heap l m"
  obtains sy' c k where "main_start p u sy (reset_state l m) = Some (sy', c, k)" "kernel_inv 0 4 boot_lists (\<lambda>_. []) k"
    "current_task k = Some 0" "pendsv k" "kernel_tcb k = None" "kwork_items k = []"
    "\<And>t. tstate (tcb_pool k t) = (if t = 0 then TASK_RUNNING else TASK_READY)"
    "\<exists>bs. stacks_laid 5 bs k \<and> kheap_wf bs k" "\<And>t. flags (tcb_pool k t) = 0"
proof -
  obtain s where s: "6456 \<le> s" "kheap_wf [(s, False)] (boot_kernel l m)" "pool_apart (boot_kernel l m)"
    using assms unfolding boot_heap_def by blast
  obtain u' k1 where k1: "main_setup p u (reset_state l m) = Some (u', k1)" "boot_stage 5 (s - 6440) boot_lists k1"
    by (rule main_setup_stage [OF s(2,3), of "s - 6440"]) (use s(1) in auto)
  obtain c k where k: "port_start_first_task sy k1 = Some (\<lparr>SYST_CSR = 7, SYST_RVR = 15999, SYST_CVR = 0\<rparr>, c, k)"
    "kernel_inv 0 4 boot_lists (\<lambda>_. []) k" "current_task k = Some 0" "pendsv k" "kernel_tcb k = None" "kwork_items k = []"
    "\<And>t. tstate (tcb_pool k t) = (if t = 0 then TASK_RUNNING else TASK_READY)"
    "\<exists>bs. stacks_laid 5 bs k \<and> kheap_wf bs k" "\<And>t. flags (tcb_pool k t) = 0"
    by (rule boot_enter [OF k1(2), of sy], rule that; assumption)
  have "main_start p u sy (reset_state l m) = Some (\<lparr>SYST_CSR = 7, SYST_RVR = 15999, SYST_CVR = 0\<rparr>, c, k)"
    using k(1) by (simp add: main_start_def k1(1))
  then show thesis by (rule that [OF _ k(2-9)])
qed

lemma reachable_inv:
  assumes "boot_heap l m" "reachable p l m k"
  obtains W where "kernel_inv 0 4 boot_lists W k"
proof -
  obtain u sy sy' c k0 where k0: "main_start p u sy (reset_state l m) = Some (sy', c, k0)" "(step 0 4)\<^sup>*\<^sup>* k0 k"
    using assms(2) unfolding reachable_def by blast
  have "kernel_inv 0 4 boot_lists (\<lambda>_. []) k0" by (rule boot_start [OF assms(1), of p u sy]) (use k0(1) in auto)
  then show thesis using steps_inv [OF k0(2) boot_roster] that by blast
qed

lemma reachable_step: "reachable p l m k \<Longrightarrow> step 0 4 k k' \<Longrightarrow> reachable p l m k'"
  unfolding reachable_def by (meson rtranclp.rtrancl_into_rtrancl)

text \<open>A board with a kernel heap of 8 KB, and the states it passes until the producer runs.\<close>

definition demo_board :: linker where
  "demo_board = demo_linker\<lparr>heap_end := 0x2000A000\<rparr>"

definition demo_program :: program where
  "demo_program = \<lparr>fn_kernel_task = 0x08004101, fn_producer = 0x08004201, fn_consumer = 0x08004301, fn_mpu_probe = 0x08004401,
     fn_idle = 0x08004501, nm_kernel_task = 0, nm_producer = 0, nm_consumer = 0, nm_mpu_probe = 0, nm_idle = 0\<rparr>"

lemma demo_board_heap: "boot_heap demo_board (\<lambda>_. 0)"
proof -
  have "kheap_wf [(8192, False)] (boot_kernel demo_board (\<lambda>_. 0))"
    by (simp add: kheap_wf_def heap_wf_def heap_base_def boot_kernel_def demo_board_def demo_linker_def size_ok_def)
  moreover have "pool_apart (boot_kernel demo_board (\<lambda>_. 0))"
    by (simp add: pool_apart_def kheap_base_def heap_base_def boot_kernel_def demo_board_def demo_linker_def)
  ultimately show ?thesis unfolding boot_heap_def by (intro conjI exI [of _ 8192]) simp_all
qed

lemma demo_switch:
  assumes r: "reachable demo_program demo_board (\<lambda>_. 0) k" and pend: "pendsv k"
  obtains c t pr sp k' where "reachable demo_program demo_board (\<lambda>_. 0) k'" "executes t k'" "current_task k = Some c" "t \<in> set (boot_lists pr)"
    "top_ready boot_lists (switched_out c sp k) pr"
    "tcb_pool k' = (tcb_pool (switched_out c sp k))(t := (tcb_pool (switched_out c sp k) t)\<lparr>tstate := TASK_RUNNING\<rparr>)"
    "kernel_tcb k' = kernel_tcb k" "kwork_items k' = kwork_items k"
proof -
  obtain W where inv: "kernel_inv 0 4 boot_lists W k" by (rule reachable_inv [OF demo_board_heap r])
  obtain c where cur: "current_task k = Some c" using kernel_invD(5) [OF inv] by (auto simp: running_ok_def)
  let ?regs = "demo_cpu (stack_base (tcb_pool k c) + 32) 0"
  have "stack_base (tcb_pool k c) \<le> PSP ?regs - 32" by (simp add: demo_cpu_def)
  then obtain regs' k1 where k1: "PendSV_Handler ?regs k = Some (Resume regs' k1)"
    using switch_returns [OF kernel_invD(1) [OF inv] cur] by blast
  obtain c' t pr where n: "current_task k = Some c'" "top_ready boot_lists (switched_out c' (PSP ?regs - 32) k) pr" "t \<in> set (boot_lists pr)"
    "current_task k1 = Some t" "tcb_pool k1 = (tcb_pool (switched_out c' (PSP ?regs - 32) k))(t := (tcb_pool (switched_out c' (PSP ?regs - 32) k) t)\<lparr>tstate := TASK_RUNNING\<rparr>)"
    "kernel_tcb k1 = kernel_tcb k" "kwork_items k1 = kwork_items k"
    by (rule switch_next [OF boot_roster inv k1], rule that; assumption)
  let ?k = "k1\<lparr>pendsv := False\<rparr>"
  have reach: "reachable demo_program demo_board (\<lambda>_. 0) ?k" by (rule reachable_step [OF r switch [OF pend k1]])
  have exe: "executes t ?k" using n(4) by (simp add: executes_def)
  have f: "tcb_pool ?k = tcb_pool k1" "kernel_tcb ?k = kernel_tcb k1" "kwork_items ?k = kwork_items k1"
    using kwork_items_cong [of ?k k1] by simp_all
  show thesis by (rule that [OF reach exe n(1,3,2) f(1) [unfolded n(5)] f(2) [unfolded n(6)] f(3) [unfolded n(7)]])
qed

lemma demo_producer:
  obtains k where "reachable demo_program demo_board (\<lambda>_. 0) k" "executes 1 k"
proof -
  let ?R = "reachable demo_program demo_board (\<lambda>_. 0)"
  have lists: "boot_lists 0 = [0]" "boot_lists 1 = [1]" by (simp_all add: boot_lists_def)
  fix u sy
  obtain sy' c0 k0 where k0: "main_start demo_program u sy (reset_state demo_board (\<lambda>_. 0)) = Some (sy', c0, k0)"
    "kernel_inv 0 4 boot_lists (\<lambda>_. []) k0" "current_task k0 = Some 0" "pendsv k0" "kernel_tcb k0 = None" "kwork_items k0 = []"
    "\<And>t. tstate (tcb_pool k0 t) = (if t = 0 then TASK_RUNNING else TASK_READY)"
    by (rule boot_start [OF demo_board_heap], rule that; assumption)
  have r0: "?R k0" using k0(1) unfolding reachable_def by blast
  obtain c t pr k1 sp where k1: "?R k1" "executes t k1" "t \<in> set (boot_lists pr)" "current_task k0 = Some c"
    "top_ready boot_lists (switched_out c sp k0) pr"
    "tcb_pool k1 = (tcb_pool (switched_out c sp k0))(t := (tcb_pool (switched_out c sp k0) t)\<lparr>tstate := TASK_RUNNING\<rparr>)"
    "kernel_tcb k1 = kernel_tcb k0" "kwork_items k1 = kwork_items k0"
    by (rule demo_switch [OF r0 k0(4)], rule that; assumption)
  have "top_ready boot_lists (switched_out c sp k0) 0" using lists k0(3,7) k1(4) by (simp add: top_ready_def)
  then have "pr = 0" by (rule top_ready_unique [OF k1(5)])
  then have t: "t = 0" using k1(3) lists by simp
  let ?k2 = "kernel_task_start k1"
  have cur: "current_task k1 = Some 0" "\<not> pendsv k1" using k1(2) by (simp_all add: executes_def t)
  have k2: "?k2 = k1\<lparr>kernel_tcb := Some 0\<rparr>" using cur by (simp add: kernel_task_start_def scheduler_get_current_def)
  have r2: "?R ?k2" using reachable_step [OF k1(1) start] k1(2,7) k0(5) t by simp
  obtain W where inv: "kernel_inv 0 4 boot_lists W ?k2" by (rule reachable_inv [OF demo_board_heap r2])
  have "kwork_items ?k2 = []" using kwork_items_cong [of ?k2 k1] k1(8) k0(6) by (simp add: k2)
  then have take: "kwork_take ?k2 = (None, ?k2)" using kwork_pop_eq(1) [OF kernel_invD(3) [OF inv]] by (simp add: kwork_take_eq)
  let ?k3 = "port_trigger_pendsv (upd_tcb 0 (\<lambda>c. c\<lparr>tstate := TASK_WAITING\<rparr>) ?k2)"
  have "executes 0 ?k2" "kernel_tcb ?k2 = Some 0" using cur by (simp_all add: k2 executes_def)
  then have r3: "?R ?k3" by (intro reachable_step [OF r2 park [OF _ _ take]])
  have k3: "pendsv ?k3" "tstate (tcb_pool ?k3 u) = (if u = 0 then TASK_WAITING else TASK_READY)" for u
    using k0(3,7) k1(4) by (simp_all add: port_trigger_pendsv_def k2 k1(6) t)
  obtain c' t' pr' k4 sp' where k4: "?R k4" "executes t' k4" "t' \<in> set (boot_lists pr')"
    "top_ready boot_lists (switched_out c' sp' ?k3) pr'"
    by (rule demo_switch [OF r3 k3(1)], rule that; assumption)
  have st: "tstate (tcb_pool (switched_out c' sp' ?k3) u) = (if u = 0 then TASK_WAITING else TASK_READY)" for u
    by (simp add: k3(2))
  have "top_ready boot_lists (switched_out c' sp' ?k3) 1" unfolding top_ready_def st using lists by auto
  then have "pr' = 1" by (rule top_ready_unique [OF k4(4)])
  then have "t' = 1" using k4(3) lists by simp
  then show thesis using that k4(1,2) by simp
qed

section \<open>Properties of the running system\<close>

text \<open>
  C1. The kernel's invariant: from reset, through \<open>main\<close>, calls, traps, the worker, ticks and switches in any
  order, the lists of the scheduler and of the waiters are in order, the waiting requests belong to
  distinct tasks that wait for nothing else, the worker sleeps only on an empty ring, and no task but the
  current one is RUNNING.
\<close>

theorem system_invariant:
  assumes "boot_heap l m" "reachable p l m k"
  shows "(\<exists>W. kernel_inv 0 4 boot_lists W k) \<and>
    (\<exists>c. current_task k = Some c \<and> (\<forall>t. tstate (tcb_pool k t) = TASK_RUNNING \<longrightarrow> t = c))"
proof -
  obtain W where inv: "kernel_inv 0 4 boot_lists W k" by (rule reachable_inv [OF assms])
  then show ?thesis using kernel_invD(5) [OF inv] by (auto simp: running_ok_def)
qed

theorem system_invariant_witness:
  "\<exists>k W. reachable demo_program demo_board (\<lambda>_. 0) k \<and> executes 1 k \<and> kernel_inv 0 4 boot_lists W k"
proof -
  obtain k where "reachable demo_program demo_board (\<lambda>_. 0) k" "executes 1 k" by (rule demo_producer)
  then show ?thesis using system_invariant [OF demo_board_heap] by blast
qed

text \<open>
  C2. The comment of \<open>kwork.h\<close>, that one request per task bounds the ring: at most six requests wait, a task that
  traps has none among them, and its request is always appended, never refused, while the task waits.
\<close>

theorem trap_accepted:
  assumes "boot_heap l m" "reachable p l m k" "executes c k" "c \<noteq> 0" "c \<noteq> 4"
  shows "length (kwork_items k) \<le> 6 \<and> Some c \<notin> wi_caller ` set (kwork_items k) \<and>
    (\<exists>w. wi_caller w = Some c \<and> kwork_items (svc_handler_c f (k\<lparr>mem := mm\<rparr>)) = kwork_items k @ [w]) \<and>
    tstate (tcb_pool (svc_handler_c f (k\<lparr>mem := mm\<rparr>)) c) = TASK_WAITING"
proof -
  obtain W where inv: "kernel_inv 0 4 boot_lists W k" by (rule reachable_inv [OF assms(1,2)])
  obtain w where w: "wi_caller w = Some c" "length (kwork_items k) \<le> 6"
    "svc_handler_c f (k\<lparr>mem := mm\<rparr>) = kwork_pushed w ((upd_tcb c svc_blocked (k\<lparr>mem := mm\<rparr>))\<lparr>pendsv := True\<rparr>)"
    "kwork_items (svc_handler_c f (k\<lparr>mem := mm\<rparr>)) = kwork_items k @ [w]"
    by (rule trap_pushed [OF boot_roster inv assms(3)], rule that; assumption)
  have "kernel_tcb k \<noteq> Some c" using kernel_invD(6) [OF inv] assms(4) by (auto simp: worker_ok_def)
  then have "tstate (tcb_pool (svc_handler_c f (k\<lparr>mem := mm\<rparr>)) c) = TASK_WAITING"
    unfolding w(3) by (simp add: kwork_pushed_def svc_blocked_def split: option.split)
  then show ?thesis using w executes_running(4) [OF inv assms(3)] by blast
qed

theorem trap_accepted_witness:
  "\<exists>k w. reachable demo_program demo_board (\<lambda>_. 0) k \<and> executes 1 k \<and> wi_caller w = Some 1 \<and>
     kwork_items (svc_handler_c 0x20008100 (k\<lparr>mem := (\<lambda>_. 0)\<rparr>)) = kwork_items k @ [w]"
proof -
  obtain k where "reachable demo_program demo_board (\<lambda>_. 0) k" "executes 1 k" by (rule demo_producer)
  then show ?thesis using trap_accepted [OF demo_board_heap, of demo_program k 1 "0x20008100" "\<lambda>_. 0"] by auto
qed

text \<open>
  C3. No request is left behind: while the ring is not empty, or the worker is not waiting, the next switch of
  context, unless the stack of the current task has overflowed, returns and runs the worker.
\<close>

theorem worker_runs_next:
  assumes "boot_heap l m" "reachable p l m k" "current_task k = Some c" "stack_base (tcb_pool k c) \<le> PSP regs - 32"
    and "kwork_items k \<noteq> [] \<or> tstate (tcb_pool k 0) \<noteq> TASK_WAITING"
  shows "\<exists>regs' k'. PendSV_Handler regs k = Some (Resume regs' k') \<and> current_task k' = Some 0"
proof -
  obtain W where inv: "kernel_inv 0 4 boot_lists W k" by (rule reachable_inv [OF assms(1,2)])
  have awake: "tstate (tcb_pool k 0) \<noteq> TASK_WAITING" using assms(5) kernel_invD(6) [OF inv] by (auto simp: worker_ok_def)
  obtain regs' k' where run: "PendSV_Handler regs k = Some (Resume regs' k')"
    using switch_returns [OF kernel_invD(1) [OF inv] assms(3,4)] by blast
  then show ?thesis using switch_worker [OF boot_roster inv run awake] by blast
qed

theorem worker_runs_next_witness:
  "\<exists>k regs' k'. reachable demo_program demo_board (\<lambda>_. 0) k \<and> current_task k = Some 1 \<and> kwork_items k \<noteq> [] \<and>
     PendSV_Handler (demo_cpu (stack_base (tcb_pool k 1) + 32) 0) k = Some (Resume regs' k') \<and> current_task k' = Some 0"
proof -
  let ?R = "reachable demo_program demo_board (\<lambda>_. 0)"
  obtain k where k: "?R k" "executes 1 k" by (rule demo_producer)
  let ?k1 = "port_set_unprivileged k"
  have r1: "?R ?k1" by (rule reachable_step [OF k(1) drop [OF k(2)]])
  have ex: "executes 1 ?k1" using k(2) by (simp add: executes_def port_set_unprivileged_def scheduler_get_current_def)
  obtain f mm where e: "exception_entry (port_syscall_invoke SYSCALL_DELAY 5 0 0 0 (demo_cpu 0x20009020 0)) 0 (mem ?k1) = (f, mm)"
    by fastforce
  let ?k2 = "svc_handler_c f (?k1\<lparr>mem := mm\<rparr>)"
  have "step 0 4 ?k1 (SVC_Handler 0xFFFFFFFD 0 f (?k1\<lparr>mem := mm\<rparr>))" by (rule trap [OF ex _ e]) simp
  then have r2: "?R ?k2" using reachable_step [OF r1] by (simp add: SVC_Handler_def)
  obtain W where inv: "kernel_inv 0 4 boot_lists W ?k1" by (rule reachable_inv [OF demo_board_heap r1])
  obtain w where w: "?k2 = kwork_pushed w ((upd_tcb 1 svc_blocked (?k1\<lparr>mem := mm\<rparr>))\<lparr>pendsv := True\<rparr>)"
    "kwork_items ?k2 = kwork_items ?k1 @ [w]"
    by (rule trap_pushed [OF boot_roster inv ex], rule that; assumption)
  have c2: "current_task ?k2 = Some 1" using ex unfolding w(1) by (simp add: kwork_pushed_def executes_def)
  have ok: "stack_base (tcb_pool ?k2 1) \<le> PSP (demo_cpu (stack_base (tcb_pool ?k2 1) + 32) 0) - 32" by (simp add: demo_cpu_def)
  have items: "kwork_items ?k2 \<noteq> []" by (simp add: w(2))
  show ?thesis
    using worker_runs_next [OF demo_board_heap r2 c2 ok disjI1 [OF items]] r2 c2 items by blast
qed

end
