(* ===== verification/Views.thy ===== *)
theory Views
  imports Boot
begin

text \<open>
  Views of the state.  What a property says about tasks or objects is often a function of the state that most
  operations leave alone.  The locale \<open>kernel_view\<close> collects what such a function must ignore and proves once, for
  all of them, which steps can change it; \<open>object_view\<close> extends it to functions that look at objects only, which
  privilege and switches of context do not change either.
\<close>

section \<open>Mutex operations\<close>

definition locks :: "u32 \<Rightarrow> bool" where
  "locks i \<longleftrightarrow> i = SYSCALL_MUTEX_LOCK \<or> i = SYSCALL_MUTEX_UNLOCK"

fun locking :: "request \<Rightarrow> bool" where
  "locking (Mutex_lock h tm) = True"
| "locking (Mutex_unlock h) = True"
| "locking rq = False"

lemma call_returned: "(case r of Return x \<Rightarrow> Some (f x) | Suspend \<Rightarrow> None) = Some y \<longleftrightarrow> (\<exists>x. r = Return x \<and> y = f x)"
  by (cases r) auto

lemma pendsv_resumes:
  assumes "PendSV_Handler regs k = Some (Resume regs' k')"
  obtains sp where "port_switch_context (PSP regs - 32) (k\<lparr>mem := store_words (R4_11 regs) (PSP regs - 32) (mem k)\<rparr>) = Some (Resume sp k')"
proof -
  obtain out where out: "port_switch_context (PSP regs - 32) (k\<lparr>mem := store_words (R4_11 regs) (PSP regs - 32) (mem k)\<rparr>) = Some out"
    using assms by (auto simp: PendSV_Handler_def Let_def bind_eq_Some_conv)
  with assms show thesis by (cases out) (auto intro: that simp: PendSV_Handler_def Let_def)
qed

section \<open>The contract of a view\<close>

text \<open>What a kernel that moves a task between lists keeps of its control block: the stack and the privilege.\<close>

definition user_task :: "tcb \<Rightarrow> bool" where
  "user_task c \<longleftrightarrow> flags c AND TASK_FLAG_USER \<noteq> 0"

lemma user_task_odd: "user_task c = odd (flags c)"
  by (simp add: user_task_def and_one_eq odd_iff_mod_2_eq_one)

definition steady :: "tcb \<Rightarrow> tcb \<Rightarrow> bool" where
  "steady c c' \<longleftrightarrow> stack_base c' = stack_base c \<and> stack_size c' = stack_size c \<and> user_task c' = user_task c"

lemma steady_refl [simp]: "steady c c"
  by (simp add: steady_def)

lemma steady_upd [simp]:
  "steady c (x\<lparr>tstate := a\<rparr>) = steady c x" "steady c (x\<lparr>delay_ticks := n\<rparr>) = steady c x"
  "steady c (x\<lparr>wait_next := w\<rparr>) = steady c x" "steady c (x\<lparr>blocking_wait_list := h\<rparr>) = steady c x"
  "steady c (x\<lparr>stack_pointer := n\<rparr>) = steady c x"
  "odd f = odd (flags x) \<Longrightarrow> steady c (x\<lparr>flags := f\<rparr>) = steady c x"
  by (auto simp: steady_def user_task_odd)

lemma user_flag [simp]:
  "even (f AND - 3) = even f" "even (f AND - 5) = even f" "even (f OR 2) = even f" "even (f OR 4) = even f" for f :: u32
  by (simp_all add: even_and_iff even_or_iff)

locale kernel_view =
  fixes v :: "kernel \<Rightarrow> 'v"
  assumes fields: "v (k\<lparr>primask := a\<rparr>) = v k" "v (k\<lparr>pendsv := b\<rparr>) = v k" "v (k\<lparr>mem := m\<rparr>) = v k"
      "v (k\<lparr>uart_out := out\<rparr>) = v k" "v (k\<lparr>tick_count := a\<rparr>) = v k" "v (k\<lparr>rr_current := c\<rparr>) = v k"
      "v (k\<lparr>kernel_tcb := t\<rparr>) = v k" "v (k\<lparr>kwork_buf := w\<rparr>) = v k" "v (k\<lparr>kwork_head := n\<rparr>) = v k" "v (k\<lparr>kwork_tail := n\<rparr>) = v k"
    and tcbs: "(\<And>t. steady (tcb_pool k t) (p t)) \<Longrightarrow> v (k\<lparr>tcb_pool := p\<rparr>) = v k"
    and set_sem: "sems k q \<noteq> None \<Longrightarrow> v (set_sem q s k) = v k"
    and set_mutex: "mutexes k q = Some x \<Longrightarrow> mtx_owner x' = mtx_owner x \<Longrightarrow> v (set_mutex q x' k) = v k"
    and set_queue: "queues k q = Some y \<Longrightarrow> q_slots y' = q_slots y \<Longrightarrow> v (set_queue q y' k) = v k"
begin

declare fields [simp]

lemma view_upd [simp]: "steady (tcb_pool k u) (f (tcb_pool k u)) \<Longrightarrow> v (upd_tcb u f k) = v k"
  unfolding upd_tcb_def by (rule tcbs) (auto simp: steady_def)

lemma view_helpers [simp]:
  "v (exit_critical a k) = v k" "v (port_trigger_pendsv k) = v k"
  "v (scheduler_wake_task u a k) = v k" "v (set_waiting u k) = v k" "v (set_timeout h u a k) = v k"
  by (simp_all add: exit_critical_def port_trigger_pendsv_def scheduler_wake_task_eq set_waiting_def set_timeout_def Let_def)

lemma view_objects [simp]:
  "sems k q \<noteq> None \<Longrightarrow> v (set_sem q s k) = v k"
  "mutexes k q = Some x \<Longrightarrow> mtx_owner x' = mtx_owner x \<Longrightarrow> v (set_mutex q x' k) = v k"
  "queues k q = Some y \<Longrightarrow> q_slots y' = q_slots y \<Longrightarrow> v (set_queue q y' k) = v k"
  by (fact set_sem set_mutex set_queue)+

lemma view_write_head [simp]: "v (write_head h x k) = v k"
  by (auto simp: write_head_def split: wait_head.split option.split)

lemma view_lists [simp]:
  "v (wait_pop h t k) = v k" "v (wake_first h w pm k) = v k" "v (complete t' r k) = v k"
  by (simp_all add: wait_pop_def wake_first_def complete_def split: option.split)

lemma view_enqueue:
  "wait_push h t k = Some k' \<Longrightarrow> v k' = v k" "wait_append h t k = Some k' \<Longrightarrow> v k' = v k"
  by (auto simp: wait_push_def wait_append_def bind_eq_Some_conv Let_def split: option.splits)

lemma view_sems:
  "z_impl_sem_take_timeout p tm k = Some (r, k') \<Longrightarrow> v k' = v k"
  "z_impl_sem_try_take_timeout p c tm k = Some (x, k') \<Longrightarrow> v k' = v k"
  "z_impl_sem_give p k = Some k' \<Longrightarrow> v k' = v k"
  by (auto simp: z_impl_sem_take_timeout_def z_impl_sem_try_take_timeout_def z_impl_sem_give_def enter_critical_def
      bind_eq_Some_conv dest: view_enqueue split: if_splits option.splits)

lemma view_queues:
  "z_impl_queue_push p item tm k = Some (r, k') \<Longrightarrow> v k' = v k"
  "z_impl_queue_pop p item tm k = Some (r, k') \<Longrightarrow> v k' = v k"
  by (auto simp: z_impl_queue_push_def z_impl_queue_pop_def queue_push_body_def queue_pop_body_def queue_block_def enter_critical_def
      bind_eq_Some_conv Let_def dest: view_enqueue split: if_splits)

lemma view_uart: "uart_write s k = Some k' \<Longrightarrow> v k' = v k"
  by (metis uart_write_frame fields(4))

section \<open>Requests, calls and interrupts\<close>

lemma view_dispatch:
  assumes "dispatch w k = Some k'" "\<not> creates (wi_id w)" "\<not> locks (wi_id w)" shows "v k' = v k"
proof -
  have delay: "dispatch_delay w k = Some k' \<Longrightarrow> v k' = v k"
    by (auto simp: dispatch_delay_def scheduler_sleep_def enter_critical_def Let_def split: option.splits)
  have queue: "dispatch_queue_send w k = Some k' \<Longrightarrow> v k' = v k" "dispatch_queue_recv w k = Some k' \<Longrightarrow> v k' = v k"
    by (auto simp: dispatch_queue_send_def dispatch_queue_recv_def k_obj_get_live bind_eq_Some_conv call_returned
        dest: view_queues split: if_split_asm)
  obtain q where q: "k_obj_get (wi_arg0 w) KOBJ_SEM k = (q, k)" using obj_get_same by blast
  have sem: "dispatch_sem_post w k = Some k' \<Longrightarrow> v k' = v k" "dispatch_sem_wait w k = Some k' \<Longrightarrow> v k' = v k"
    using q by (auto simp: dispatch_sem_post_def dispatch_sem_wait_def bind_eq_Some_conv Let_def dest: view_sems split: if_split_asm)
  have uart: "dispatch_uart_write w k = Some k' \<Longrightarrow> v k' = v k"
    by (auto simp: dispatch_uart_write_def bind_eq_Some_conv dest: view_uart)
  have none: "v (complete (wi_caller w) (- 1) k) = v k" by simp
  show ?thesis
    using assms unfolding dispatch_def
    by (auto simp: creates_def locks_def split: if_splits intro: delay queue sem uart none)
qed

lemma view_invoke:
  assumes "invoke rq k = Some (Called r k')" "\<not> creating rq" "\<not> locking rq" shows "v k' = v k"
proof -
  have object: "v k' = v k"
    if "f \<in> {queue_push h p tm, queue_pop h p tm, sem_take h tm, sem_give h}" "f k = Some (Called r k')" for f h p tm
    using that
    by (auto simp: queue_push_def queue_pop_def sem_take_def sem_give_def k_obj_get_live bind_eq_Some_conv
        dest: view_queues view_sems split: if_split_asm)
  have delay: "v (z_impl_task_delay n k) = v k" for n
    by (simp add: z_impl_task_delay_def scheduler_sleep_def enter_critical_def Let_def split: option.split)
  show ?thesis
    using assms object delay
    by (cases rq) (auto simp: k_uart_write_def task_delay_def bind_eq_Some_conv dest: view_uart split: if_splits)
qed

lemma view_resume:
  "timed_resume c k = (x, k') \<Longrightarrow> v k' = v k"
  "queue_push_resume c p item k = Some (r, k') \<Longrightarrow> v k' = v k"
  "queue_pop_resume c p item k = Some (r, k') \<Longrightarrow> v k' = v k"
  using view_queues [of p item 0 k r k']
  by (auto simp: timed_resume_def queue_push_resume_def queue_pop_resume_def z_impl_queue_push_def z_impl_queue_pop_def
      split: if_splits)

lemma view_kwork: "v (snd (kwork_push w k)) = v k" "kwork_take k = (x, k') \<Longrightarrow> v k' = v k"
  by (auto simp: kwork_push_def kwork_take_def kwork_pop_locked_def enter_critical_def Let_def split: option.split if_splits)

lemma view_trap: "v (SVC_Handler lr msp f k) = v k"
proof -
  have "v (svc_handler_c f k) = v k" for f
    using view_kwork(1)
    by (auto simp: svc_handler_c_def enter_critical_def Let_def case_prod_beta split: option.split)
  then show ?thesis by (simp add: SVC_Handler_def)
qed

lemma view_for_tasks:
  "for_tasks body t k = Some k' \<Longrightarrow> (\<forall>t k k'. body t k = Some k' \<longrightarrow> v k' = v k) \<Longrightarrow> v k' = v k"
proof (induction rule: for_tasks.raw_induct [rotated 1, consumes 1])
  case (1 g body t k k')
  then show ?case by (auto simp: bind_eq_Some_conv split: if_splits)
qed

lemma view_splice: "wait_splice h t k = Some k' \<Longrightarrow> v k' = v k"
  by (auto simp: wait_splice_def bind_eq_Some_conv split: if_splits option.splits)

lemma view_tick: "SysTick_Handler k = Some k' \<Longrightarrow> v k' = v k"
proof -
  have sync: "sync_tick_task t k = Some k' \<Longrightarrow> v k' = v k" for t k k'
    by (auto simp: sync_tick_task_def enter_critical_def bind_eq_Some_conv Let_def dest!: view_splice split: if_splits option.splits)
  have sleep: "sleep_tick_task t k = Some k' \<Longrightarrow> v k' = v k" for t k k'
    by (auto simp: sleep_tick_task_def Let_def split: if_splits)
  have all: "for_priorities body prs k = Some k' \<Longrightarrow> v k' = v k"
    if "\<And>t k k'. body t k = Some k' \<Longrightarrow> v k' = v k" for body prs k k'
  proof (induction prs arbitrary: k)
    case (Cons pr prs)
    then obtain k1 where "for_tasks body (task_list k pr) k = Some k1" "for_priorities body prs k1 = Some k'"
      by (auto simp: bind_eq_Some_conv)
    then show ?case using Cons.IH view_for_tasks that by metis
  qed simp
  assume "SysTick_Handler k = Some k'"
  then obtain k2 where k2: "scheduler_tick k = Some k2" "k' = k2 \<or> k' = port_trigger_pendsv k2"
    by (auto simp: SysTick_Handler_def bind_eq_Some_conv split: if_splits)
  then obtain k1 where t: "for_priorities sleep_tick_task [0..<MAX_TASK_PRIORITIES] (k\<lparr>tick_count := tick_count k + 1\<rparr>) = Some k1"
    "for_priorities sync_tick_task [0..<MAX_TASK_PRIORITIES] k1 = Some k2"
    unfolding scheduler_tick_def sync_tick_all_def Let_def bind_eq_Some_conv by blast
  show ?thesis using all [OF sleep t(1)] all [OF sync t(2)] k2(2) by auto
qed

lemma view_scan: "scan_priorities prs k = Some (r, k') \<Longrightarrow> v k' = v k"
  by (induction prs arbitrary: k) (auto simp: bind_eq_Some_conv Let_def split: option.splits)

lemma view_get_next: "scheduler_get_next k = Some (r, k') \<Longrightarrow> v k' = v k"
  using view_scan by (auto simp: scheduler_get_next_def enter_critical_def bind_eq_Some_conv Let_def simp del: MAX_TASK_PRIORITIES_def)

text \<open>A step that changes the view creates an object, locks or unlocks a mutex, gives up privileges or switches.\<close>

lemma step_kept:
  assumes "step wk idl k k'"
  obtains (same) "v k' = v k"
  | (call) c rq r where "executes c k" "invoke rq k = Some (Called r k')" "creating rq \<or> locking rq" "creating rq \<Longrightarrow> objects_kept k k'"
  | (serve) w k1 where "executes wk k" "kwork_take k = (Some w, k1)" "v k1 = v k" "dispatch w k1 = Some k'"
      "creates (wi_id w) \<or> locks (wi_id w)" "creates (wi_id w) \<Longrightarrow> objects_kept k1 k'"
  | (drop) c where "executes c k" "k' = port_set_unprivileged k"
  | (switch) regs regs' k1 where "PendSV_Handler regs k = Some (Resume regs' k1)" "k' = k1\<lparr>pendsv := False\<rparr>"
  using assms
proof cases
  case (call c rq r)
  then show thesis using view_invoke [OF call(3)] that(1,2) by blast
next
  case (serve w k1)
  have k1: "v k1 = v k" by (rule view_kwork(2) [OF serve(3)])
  show thesis
  proof (cases "creates (wi_id w) \<or> locks (wi_id w)")
    case True
    show thesis by (rule that(3) [OF serve(1,3) k1 serve(4) True serve(5)])
  next
    case False
    then show thesis using view_dispatch [OF serve(4)] k1 that(1) by simp
  qed
next
  case (trap c regs psr f m msp)
  then show thesis using view_trap that(1) by simp
next
  case (switch regs regs' k1)
  then show thesis using that(5) by blast
next
  case tick
  then show thesis using view_tick that(1) by blast
next
  case (park k1)
  then show thesis using view_kwork(2) [OF park(4)] that(1) by simp
next
  case (resume_queue c p item r)
  then show thesis using view_resume that(1) by blast
next
  case (drop c)
  then show thesis using that(4) by blast
next
  case (resume c r)
  then show thesis using view_resume(1) that(1) by blast
next
  case (compute c m)
  then show thesis using that(1) by simp
next
  case (print c out)
  then show thesis using that(1) by simp
next
  case start
  then show thesis using that(1) by (simp add: kernel_task_start_def)
qed

end

section \<open>Views of the objects\<close>

text \<open>A view that looks at no task and no register of the processor either.\<close>

locale object_view = kernel_view +
  assumes registers: "v (k\<lparr>control := a\<rparr>) = v k" "v (k\<lparr>mpu := r\<rparr>) = v k" "v (k\<lparr>current_task := t\<rparr>) = v k"
    and pool: "v (k\<lparr>tcb_pool := p\<rparr>) = v k"
begin

declare registers [simp]

lemma view_pool [simp]: "v (upd_tcb u f k) = v k"
  unfolding upd_tcb_def by (rule pool)

lemma view_mpu [simp]: "v (port_mpu_configure_for_task t k) = v k" "v (scheduler_set_current t k) = v k"
proof -
  have "v (mpu_program n a b k) = v k" "v (set_mpu_ctrl a k) = v k" for n a b k
    by (simp_all add: mpu_program_def set_mpu_ctrl_def Let_def)
  then show "v (port_mpu_configure_for_task t k) = v k" "v (scheduler_set_current t k) = v k"
    by (simp_all add: port_mpu_configure_for_task_def enter_critical_def Let_def scheduler_set_current_def split: option.split)
qed

lemma view_to_next: "switch_to_next sp k = Some (Resume sp' k') \<Longrightarrow> v k' = v k"
  by (auto simp: switch_to_next_def bind_eq_Some_conv Let_def dest!: view_get_next split: option.splits)

lemma view_switch_context: "port_switch_context sp k = Some (Resume sp' k') \<Longrightarrow> v k' = v k"
  by (auto simp: port_switch_context_def bind_eq_Some_conv Let_def dest!: view_to_next split: option.splits if_splits)

lemma view_switch: "PendSV_Handler regs k = Some (Resume regs' k') \<Longrightarrow> v k' = v k"
  using pendsv_resumes view_switch_context by (metis fields(3))

text \<open>A step that changes the view creates an object or locks or unlocks a mutex.\<close>

lemma step_view:
  assumes "step wk idl k k'"
  obtains (same) "v k' = v k"
  | (call) c rq r where "executes c k" "invoke rq k = Some (Called r k')" "creating rq \<or> locking rq" "creating rq \<Longrightarrow> objects_kept k k'"
  | (serve) w k1 where "executes wk k" "kwork_take k = (Some w, k1)" "v k1 = v k" "dispatch w k1 = Some k'"
      "creates (wi_id w) \<or> locks (wi_id w)" "creates (wi_id w) \<Longrightarrow> objects_kept k1 k'"
  using assms
proof (cases rule: step_kept)
  case (drop c)
  then show thesis using that(1) by (simp add: port_set_unprivileged_def Let_def split: option.split_asm)
next
  case (switch regs regs' k1)
  then show thesis using view_switch [OF switch(1)] that(1) by simp
qed (rule that; assumption)+

end

end
