(* ===== verification/Typing.thy ===== *)
theory Typing
  imports Views
begin

text \<open>
  Type soundness of the kernel: a handle of a given type stands for an object of that type in every
  reachable state, and therefore no request, no call, no tick and no switch follows a null or stale
  pointer, divides by zero or runs round a list for ever.
\<close>

section \<open>The typing of objects\<close>

text \<open>The pointers the code follows: to a semaphore, to a mutex, or to a queue with slots.\<close>

definition has_type :: "kernel \<Rightarrow> u32 \<Rightarrow> kobj_type \<Rightarrow> bool" where
  "has_type k p ty = (case ty of
     KOBJ_SEM \<Rightarrow> sems k p \<noteq> None
   | KOBJ_MUTEX \<Rightarrow> mutexes k p \<noteq> None
   | KOBJ_QUEUE \<Rightarrow> (case queues k p of None \<Rightarrow> False | Some q \<Rightarrow> q_slots q \<noteq> 0))"

definition handles_typed :: "kernel \<Rightarrow> bool" where
  "handles_typed k \<longleftrightarrow> (\<forall>i < KOBJ_MAX. in_use (table k i) \<longrightarrow> has_type k (obj_ptr (table k i)) (obj_type (table k i)))"

lemma k_obj_get_typed:
  assumes "handles_typed k" "k_obj_get h ty k = (p, k')" "p \<noteq> 0"
  shows "has_type k p ty"
proof -
  let ?i = "unat (handle_index h)"
  have "?i < KOBJ_MAX \<and> in_use (table k ?i) \<and> obj_ptr (table k ?i) = p \<and> obj_type (table k ?i) = ty"
    using assms(2,3) by (auto simp: k_obj_get_live kobj_live_def Let_def split: if_splits)
  then show ?thesis using assms(1) unfolding handles_typed_def by blast
qed

text \<open>What the typing depends on.\<close>

definition objs :: "kernel \<Rightarrow> u32 set \<times> u32 set \<times> (u32 \<Rightarrow> u32 option) \<times> (nat \<Rightarrow> kobj_entry)" where
  "objs k = (dom (sems k), dom (mutexes k), (\<lambda>p. map_option q_slots (queues k p)), table k)"

lemma objs_typed:
  assumes "objs k' = objs k" shows "has_type k' p ty = has_type k p ty" "handles_typed k' = handles_typed k"
proof -
  have d: "dom (sems k') = dom (sems k)" "dom (mutexes k') = dom (mutexes k)" "table k' = table k"
    and q: "map_option q_slots (queues k' p) = map_option q_slots (queues k p)" for p
    using assms by (simp_all add: objs_def fun_eq_iff)
  have t: "has_type k' p ty = has_type k p ty" for p ty
    using d q [of p] by (cases "queues k p"; cases "queues k' p"; cases ty) (auto simp: has_type_def)
  then show "has_type k' p ty = has_type k p ty" "handles_typed k' = handles_typed k"
    by (simp_all add: handles_typed_def d(3))
qed

section \<open>Operations that create nothing\<close>

lemma objs_simps [simp]:
  "objs (k\<lparr>primask := a\<rparr>) = objs k" "objs (k\<lparr>pendsv := b\<rparr>) = objs k" "objs (k\<lparr>mem := m\<rparr>) = objs k"
  "objs (k\<lparr>uart_out := v\<rparr>) = objs k" "objs (k\<lparr>control := a\<rparr>) = objs k" "objs (k\<lparr>mpu := r\<rparr>) = objs k"
  "objs (k\<lparr>kheap := h\<rparr>) = objs k" "objs (k\<lparr>tick_count := a\<rparr>) = objs k" "objs (k\<lparr>rr_current := c\<rparr>) = objs k"
  "objs (k\<lparr>current_task := t\<rparr>) = objs k" "objs (k\<lparr>kernel_tcb := t\<rparr>) = objs k" "objs (k\<lparr>tcb_pool := p\<rparr>) = objs k"
  "objs (k\<lparr>kwork_buf := w\<rparr>) = objs k" "objs (k\<lparr>kwork_head := n\<rparr>) = objs k" "objs (k\<lparr>kwork_tail := n\<rparr>) = objs k"
  "objs (exit_critical a k) = objs k" "objs (port_trigger_pendsv k) = objs k" "objs (upd_tcb u f k) = objs k"
  "objs (scheduler_wake_task u a k) = objs k" "objs (set_waiting u k) = objs k" "objs (set_timeout wh u a k) = objs k"
  by (simp_all add: objs_def state_defs scheduler_wake_task_eq set_waiting_def set_timeout_def Let_def)

lemma objs_set [simp]:
  "sems k p \<noteq> None \<Longrightarrow> objs (set_sem p s k) = objs k"
  "mutexes k p \<noteq> None \<Longrightarrow> objs (set_mutex p m k) = objs k"
  "map_option q_slots (queues k p) = Some (q_slots q) \<Longrightarrow> objs (set_queue p q k) = objs k"
  by (auto simp: objs_def state_defs fun_eq_iff)

interpretation typed: object_view objs
  by unfold_locales (simp_all add: objs_set)

lemma objs_mutexes:
  "z_impl_mutex_lock_timeout p tm k = Some (r, k') \<Longrightarrow> objs k' = objs k"
  "z_impl_mutex_try_lock_timeout p c tm k = Some (x, k') \<Longrightarrow> objs k' = objs k"
  "z_impl_mutex_unlock_for p c k = Some k' \<Longrightarrow> objs k' = objs k"
  by (auto simp: z_impl_mutex_lock_timeout_def z_impl_mutex_try_lock_timeout_def z_impl_mutex_unlock_for_def enter_critical_def
      bind_eq_Some_conv Let_def dest: typed.view_enqueue split: if_splits option.splits)

lemma objs_dispatch:
  assumes "dispatch w k = Some k'" "\<not> creates (wi_id w)" shows "objs k' = objs k"
proof (cases "locks (wi_id w)")
  case True
  obtain m where m: "k_obj_get (wi_arg0 w) KOBJ_MUTEX k = (m, k)" using obj_get_same by blast
  have "dispatch_mutex_lock w k = Some k' \<Longrightarrow> objs k' = objs k" "dispatch_mutex_unlock w k = Some k' \<Longrightarrow> objs k' = objs k"
    using m by (auto simp: dispatch_mutex_lock_def dispatch_mutex_unlock_def bind_eq_Some_conv Let_def dest: objs_mutexes split: if_split_asm)
  then show ?thesis using assms True unfolding dispatch_def by (auto simp: locks_def)
qed (use typed.view_dispatch [OF assms] in simp)

lemma objs_invoke:
  assumes "invoke rq k = Some (Called r k')" "\<not> creating rq" shows "objs k' = objs k"
proof (cases "locking rq")
  case True
  have "objs k' = objs k" if "f \<in> {mutex_lock h tm, mutex_unlock h}" "f k = Some (Called r k')" for f h tm
    by (rule invoke_object [of f h tm]) (use that in \<open>auto dest: typed.view_sems typed.view_queues objs_mutexes\<close>)
  then show ?thesis using assms True by (cases rq) auto
qed (use typed.view_invoke [OF assms] in simp)

section \<open>Creation\<close>

lemma typed_kept:
  assumes "objects_kept k k'" "has_type k p ty" shows "has_type k' p ty"
proof -
  have m: "f p = Some x \<Longrightarrow> f' p = Some x" if "f \<subseteq>\<^sub>m f'" for f f' :: "u32 \<rightharpoonup> 'a" and x
    using that by (metis domI map_le_def)
  note kept = assms(1) [unfolded objects_kept_def]
  show ?thesis
  proof (cases ty)
    case KOBJ_QUEUE
    then show ?thesis using assms(2) m [of "queues k" "queues k'"] kept by (auto simp: has_type_def split: option.splits)
  next
    case KOBJ_SEM
    then show ?thesis using assms(2) m [of "sems k" "sems k'"] kept by (auto simp: has_type_def)
  next
    case KOBJ_MUTEX
    then show ?thesis using assms(2) m [of "mutexes k" "mutexes k'"] kept by (auto simp: has_type_def)
  qed
qed

lemma typed_table:
  assumes "handles_typed k" "objects_kept k k'" "table k' = table k" shows "handles_typed k'"
  using assms typed_kept unfolding handles_typed_def by metis

lemma k_obj_alloc_typed:
  assumes "handles_typed k" "p \<noteq> 0 \<Longrightarrow> has_type k p ty" shows "handles_typed (snd (k_obj_alloc p ty k))"
proof -
  have t: "has_type (snd (k_obj_alloc p ty k)) q ty' = has_type k q ty'" for q ty'
    by (cases ty') (simp_all add: has_type_def k_obj_objects)
  have "table (snd (k_obj_alloc p ty k)) i = table k i \<or> p \<noteq> 0 \<and> obj_ptr (table (snd (k_obj_alloc p ty k)) i) = p \<and>
      obj_type (table (snd (k_obj_alloc p ty k)) i) = ty" for i
    by (auto simp: k_obj_alloc_def enter_critical_def exit_critical_def Let_def split: option.split)
  then show ?thesis using assms unfolding handles_typed_def t by metis
qed

text \<open>The objects the three creations leave behind.\<close>

lemma created:
  "z_impl_sem_create n k = Some (p, k') \<Longrightarrow> table k' = table k \<and> (p \<noteq> 0 \<longrightarrow> has_type k' p KOBJ_SEM)"
  "z_impl_mutex_create k = Some (p, k') \<Longrightarrow> table k' = table k \<and> (p \<noteq> 0 \<longrightarrow> has_type k' p KOBJ_MUTEX)"
  by (auto simp: z_impl_sem_create_def z_impl_mutex_create_def bind_eq_Some_conv has_type_def set_sem_def set_mutex_def
      elim!: malloc_frame split: if_splits)

lemma queue_init_typed:
  assumes "queue_init p isz sz k = Some (r, k')" shows "table k' = table k" "r = 0 \<Longrightarrow> has_type k' p KOBJ_QUEUE"
proof -
  show "table k' = table k"
    using assms by (auto simp: queue_init_def Let_def bind_eq_Some_conv set_queue_def elim!: malloc_frame split: if_splits)
  show "has_type k' p KOBJ_QUEUE" if r: "r = 0"
  proof -
    have "sz + 1 \<noteq> 0"
    proof
      assume "sz + 1 = 0"
      then show False using assms r by (auto simp: queue_init_def Let_def malloc_def bind_eq_Some_conv split: if_splits)
    qed
    then show ?thesis
      using assms r by (auto simp: queue_init_def Let_def bind_eq_Some_conv set_queue_def has_type_def split: if_splits)
  qed
qed

lemma queue_created:
  assumes "z_impl_queue_create isz sz k = Some (p, k')" shows "table k' = table k \<and> (p \<noteq> 0 \<longrightarrow> has_type k' p KOBJ_QUEUE)"
proof (cases "isz = 0 \<or> sz = 0")
  case False
  then obtain q k1 where q: "malloc QUEUE_SIZEOF k = Some (q, k1)" "q = 0 \<longrightarrow> p = 0 \<and> k' = k1"
    using assms by (auto simp: z_impl_queue_create_def bind_eq_Some_conv simp del: QUEUE_SIZEOF_def split: if_splits)
  obtain m h where k1: "k1 = k\<lparr>mem := m, kheap := h\<rparr>" by (rule malloc_frame [OF q(1)])
  show ?thesis
  proof (cases "q = 0")
    case nz: False
    then obtain r k2 where r: "queue_init q isz sz k1 = Some (r, k2)"
      "r = 0 \<and> p = q \<and> k' = k2 \<or> r \<noteq> 0 \<and> p = 0 \<and> queue_release q k2 = Some k'"
      using assms False q(1) by (auto simp: z_impl_queue_create_def bind_eq_Some_conv simp del: QUEUE_SIZEOF_def split: if_splits)
    then show ?thesis
      using queue_init_typed [OF r(1)] k1 by (auto simp: queue_release_def elim!: free_frame)
  qed (use q k1 in simp)
qed (use assms in \<open>auto simp: z_impl_queue_create_def\<close>)

lemma new_handle_typed:
  assumes k: "handles_typed k" "table k1 = table k \<and> (p \<noteq> 0 \<longrightarrow> has_type k1 p ty)" and kept: "objects_kept k k1"
  shows "handles_typed k1" "handles_typed (snd (k_obj_alloc p ty k1))" "handles_typed (snd (new_handle p ty k1))"
proof -
  show k1: "handles_typed k1" using typed_table [OF k(1) kept] k(2) by simp
  then show a: "handles_typed (snd (k_obj_alloc p ty k1))" using k_obj_alloc_typed k(2) by blast
  then show "handles_typed (snd (new_handle p ty k1))" using k1 by (simp add: new_handle_def)
qed

lemma dispatch_created:
  assumes run: "dispatch w k = Some k'" and c: "creates (wi_id w)"
  obtains p ty k1 h t where "table k1 = table k \<and> (p \<noteq> 0 \<longrightarrow> has_type k1 p ty)" "k' = complete t h (snd (new_handle p ty k1))"
proof -
  consider "dispatch_queue_create w k = Some k'" | "dispatch_sem_create w k = Some k'" | "dispatch_mutex_create w k = Some k'"
    using run c by (auto simp: dispatch_def creates_def)
  then show thesis
  proof cases
    case 1
    then obtain p k1 where p: "z_impl_queue_create (wi_arg0 w) (wi_arg1 w) k = Some (p, k1)"
      "k' = complete (wi_caller w) (fst (new_handle p KOBJ_QUEUE k1)) (snd (new_handle p KOBJ_QUEUE k1))"
      by (auto simp: dispatch_queue_create_def bind_eq_Some_conv Let_def case_prod_beta)
    show thesis by (rule that [OF queue_created [OF p(1)] p(2)])
  next
    case 2
    then obtain p k1 where p: "z_impl_sem_create (wi_arg0 w) k = Some (p, k1)"
      "k' = complete (wi_caller w) (fst (new_handle p KOBJ_SEM k1)) (snd (new_handle p KOBJ_SEM k1))"
      by (auto simp: dispatch_sem_create_def bind_eq_Some_conv Let_def case_prod_beta)
    show thesis by (rule that [OF created(1) [OF p(1)] p(2)])
  next
    case 3
    then obtain p k1 where p: "z_impl_mutex_create k = Some (p, k1)"
      "k' = complete (wi_caller w) (fst (new_handle p KOBJ_MUTEX k1)) (snd (new_handle p KOBJ_MUTEX k1))"
      by (auto simp: dispatch_mutex_create_def bind_eq_Some_conv Let_def case_prod_beta)
    show thesis by (rule that [OF created(2) [OF p(1)] p(2)])
  qed
qed

lemma invoke_created:
  assumes run: "invoke rq k = Some (Called r k')" and c: "creating rq"
  obtains p ty k1 where "table k1 = table k \<and> (p \<noteq> 0 \<longrightarrow> has_type k1 p ty)" "k' = k1 \<or> k' = snd (k_obj_alloc p ty k1)"
proof (cases rq)
  case (Queue_create isz n)
  then obtain p k1 where p: "z_impl_queue_create isz n k = Some (p, k1)" "k' = k1 \<or> k' = snd (k_obj_alloc p KOBJ_QUEUE k1)"
    using run by (auto simp: queue_create_def bind_eq_Some_conv Let_def case_prod_beta split: if_splits)
  show ?thesis by (rule that [OF queue_created [OF p(1)] p(2)])
next
  case (Sem_create n)
  then obtain p k1 where p: "z_impl_sem_create n k = Some (p, k1)" "k' = k1 \<or> k' = snd (k_obj_alloc p KOBJ_SEM k1)"
    using run by (auto simp: sem_create_def bind_eq_Some_conv Let_def case_prod_beta split: if_splits)
  show ?thesis by (rule that [OF created(1) [OF p(1)] p(2)])
next
  case Mutex_create
  then obtain p k1 where p: "z_impl_mutex_create k = Some (p, k1)" "k' = k1 \<or> k' = snd (k_obj_alloc p KOBJ_MUTEX k1)"
    using run by (auto simp: mutex_create_def bind_eq_Some_conv Let_def case_prod_beta split: if_splits)
  show ?thesis by (rule that [OF created(2) [OF p(1)] p(2)])
qed (use c in simp_all)

section \<open>Preservation\<close>

lemma step_typed:
  assumes st: "step wk idl k k'" and k: "handles_typed k" shows "handles_typed k'"
  using st
proof (cases rule: typed.step_view)
  case same
  then show ?thesis using k objs_typed(2) by blast
next
  case (call c rq r)
  show ?thesis
  proof (cases "creating rq")
    case True
    obtain p ty k1 where p: "table k1 = table k \<and> (p \<noteq> 0 \<longrightarrow> has_type k1 p ty)" "k' = k1 \<or> k' = snd (k_obj_alloc p ty k1)"
      by (rule invoke_created [OF call(2) True])
    have "objects_kept k k1" using call(4) [OF True] p(2) by (auto simp: objects_kept_def k_obj_objects)
    then show ?thesis using new_handle_typed [OF k p(1)] p(2) by blast
  qed (use k objs_typed(2) [OF objs_invoke [OF call(2)]] in simp)
next
  case (serve w k1)
  have k1: "handles_typed k1" using k objs_typed(2) [OF serve(3)] by simp
  show ?thesis
  proof (cases "creates (wi_id w)")
    case True
    obtain p ty k2 h t where p: "table k2 = table k1 \<and> (p \<noteq> 0 \<longrightarrow> has_type k2 p ty)" "k' = complete t h (snd (new_handle p ty k2))"
      by (rule dispatch_created [OF serve(4) True])
    have "objects_kept k1 k2" using serve(6) [OF True] unfolding p(2) by (simp add: complete_objects objects_new_handle)
    then have "handles_typed (snd (new_handle p ty k2))" by (rule new_handle_typed(3) [OF k1 p(1)])
    then show ?thesis unfolding p(2) by (subst objs_typed(2) [OF typed.view_lists(3)])
  qed (use k1 objs_typed(2) [OF objs_dispatch [OF serve(4)]] in simp)
qed

section \<open>Progress\<close>

text \<open>On a typed pointer the primitives have a value: the run ends and follows no bad pointer.\<close>

lemma has_typeD:
  "has_type k p KOBJ_SEM \<Longrightarrow> \<exists>s. sems k p = Some s" "has_type k p KOBJ_MUTEX \<Longrightarrow> \<exists>m. mutexes k p = Some m"
  "has_type k p KOBJ_QUEUE \<Longrightarrow> \<exists>q. queues k p = Some q \<and> q_slots q \<noteq> 0"
  by (auto simp: has_type_def split: option.splits)

lemma wait_push_returns: "read_head h k \<noteq> None \<Longrightarrow> \<exists>k'. wait_push h t k = Some k'"
  by (auto simp: wait_push_def)

lemma sem_returns:
  assumes "has_type k p KOBJ_SEM"
  shows "\<exists>k'. z_impl_sem_give p k = Some k'" "\<exists>x. z_impl_sem_try_take_timeout p (Some t) tm k = Some x"
    "current_task k = Some c \<Longrightarrow> \<exists>x. z_impl_sem_take_timeout p tm k = Some x"
proof -
  obtain s where s: "sems k p = Some s" using has_typeD(1) [OF assms] by blast
  show "\<exists>k'. z_impl_sem_give p k = Some k'"
    using s by (cases "sem_wait_list s") (simp_all add: z_impl_sem_give_def enter_critical_def)
  have "read_head (SemWait p) (k\<lparr>primask := 1\<rparr>) \<noteq> None" using s by simp
  then show "\<exists>x. z_impl_sem_try_take_timeout p (Some t) tm k = Some x"
    using s wait_push_returns [of "SemWait p" "k\<lparr>primask := 1\<rparr>" t] by (auto simp: z_impl_sem_try_take_timeout_def enter_critical_def)
  have "read_head (SemWait p) (set_waiting c (k\<lparr>primask := 1\<rparr>)) \<noteq> None" using s by (simp add: read_head_def set_waiting_def upd_tcb_def)
  then show "\<exists>x. z_impl_sem_take_timeout p tm k = Some x" if "current_task k = Some c"
    using s that wait_push_returns [of "SemWait p" "set_waiting c (k\<lparr>primask := 1\<rparr>)" c]
    by (auto simp: z_impl_sem_take_timeout_def enter_critical_def scheduler_get_current_def)
qed

lemma mutex_returns:
  assumes "has_type k p KOBJ_MUTEX"
  shows "\<exists>k'. z_impl_mutex_unlock_for p o' k = Some k'" "\<exists>x. z_impl_mutex_try_lock_timeout p (Some t) tm k = Some x"
    "current_task k = Some c \<Longrightarrow> \<exists>x. z_impl_mutex_lock_timeout p tm k = Some x"
proof -
  obtain m where m: "mutexes k p = Some m" using has_typeD(2) [OF assms] by blast
  have "\<exists>m'. mutexes (wait_pop (MutexWait p) u (k\<lparr>primask := 1\<rparr>)) p = Some m'" for u
    using m by (simp add: wait_pop_def write_head_def upd_tcb_def set_mutex_def)
  then have "\<exists>k'. (do { m \<leftarrow> mutexes (wait_pop (MutexWait p) u (k\<lparr>primask := 1\<rparr>)) p; Some (f m) }) = Some k'" for u and f :: "mutex \<Rightarrow> kernel"
    by (metis Option.bind_lunit)
  then show "\<exists>k'. z_impl_mutex_unlock_for p o' k = Some k'"
    using m by (cases "mtx_wait_list m") (auto simp: z_impl_mutex_unlock_for_def enter_critical_def Let_def)
  have "read_head (MutexWait p) (k\<lparr>primask := 1\<rparr>) \<noteq> None" using m by (simp add: read_head_def)
  then show "\<exists>x. z_impl_mutex_try_lock_timeout p (Some t) tm k = Some x"
    using m wait_push_returns [of "MutexWait p" "k\<lparr>primask := 1\<rparr>" t] by (auto simp: z_impl_mutex_try_lock_timeout_def enter_critical_def)
  have "read_head (MutexWait p) (set_waiting c (k\<lparr>primask := 1\<rparr>)) \<noteq> None" using m by (simp add: read_head_def set_waiting_def upd_tcb_def)
  then show "\<exists>x. z_impl_mutex_lock_timeout p tm k = Some x" if "current_task k = Some c"
    using m that wait_push_returns [of "MutexWait p" "set_waiting c (k\<lparr>primask := 1\<rparr>)" c]
    by (auto simp: z_impl_mutex_lock_timeout_def enter_critical_def scheduler_get_current_def)
qed

lemma queue_block_returns:
  assumes s: "settled W k" and c: "current_task k = Some c" "resting W k c" and h: "read_head h k \<noteq> None"
  shows "\<exists>k'. queue_block h pm tm k = Some (Suspend, k')"
proof -
  note w = moves_set_waiting [OF s singletonI c(2)]
  have "wait_wf W (set_waiting c k)" by (rule prim_invD(1) [OF settledD(1) [OF movesD(1) [OF w(1)]]])
  moreover have "read_head h (set_waiting c k) \<noteq> None" using h by (cases h) (simp_all add: read_head_def set_waiting_def upd_tcb_def)
  ultimately obtain k1 where "wait_append h c (set_waiting c k) = Some k1"
    using fifo.enq_wf [of W "set_waiting c k" h c] restingD(3) [OF w(2)] by blast
  then show ?thesis using c(1) by (simp add: queue_block_def scheduler_get_current_def)
qed

lemma queue_returns:
  assumes "has_type k p KOBJ_QUEUE" and b: "tm = 0 \<or> settled W k \<and> current_task k = Some c \<and> resting W k c"
  shows "\<exists>r k'. z_impl_queue_push p item tm k = Some (r, k') \<and> (tm = 0 \<longrightarrow> r \<noteq> Suspend)"
    "\<exists>r k'. z_impl_queue_pop p item tm k = Some (r, k') \<and> (tm = 0 \<longrightarrow> r \<noteq> Suspend)"
proof -
  let ?k = "k\<lparr>primask := 1\<rparr>"
  obtain q where q: "queues k p = Some q" "q_slots q \<noteq> 0" using has_typeD(3) [OF assms(1)] by blast
  have block: "\<exists>r k'. queue_block h (primask k) tm ?k = Some (r, k')" if "tm \<noteq> 0" "h \<in> {QueueSendWait p, QueueRecvWait p}" for h
  proof -
    have "settled W ?k" "current_task ?k = Some c" "resting W ?k c" using b that(1) by simp_all
    moreover have "read_head h ?k \<noteq> None" using that(2) q by (auto simp: read_head_def)
    ultimately show ?thesis using queue_block_returns by blast
  qed
  show "\<exists>r k'. z_impl_queue_push p item tm k = Some (r, k') \<and> (tm = 0 \<longrightarrow> r \<noteq> Suspend)"
    using q block [of "QueueSendWait p"] by (auto simp: z_impl_queue_push_def queue_push_body_def enter_critical_def Let_def)
  show "\<exists>r k'. z_impl_queue_pop p item tm k = Some (r, k') \<and> (tm = 0 \<longrightarrow> r \<noteq> Suspend)"
    using q block [of "QueueRecvWait p"] by (auto simp: z_impl_queue_pop_def queue_pop_body_def enter_critical_def Let_def)
qed

lemma creations_return:
  assumes wf: "kheap_wf bs k"
  shows "\<exists>x. z_impl_sem_create n k = Some x" "\<exists>x. z_impl_mutex_create k = Some x" "\<exists>x. z_impl_queue_create isz sz k = Some x"
proof -
  obtain q k1 where q: "malloc 8 k = Some (q, k1)" by (rule kernel_heap.alloc_returns [OF wf, of 8]) simp_all
  then show "\<exists>x. z_impl_sem_create n k = Some x" "\<exists>x. z_impl_mutex_create k = Some x"
    by (simp_all add: z_impl_sem_create_def z_impl_mutex_create_def)
  show "\<exists>x. z_impl_queue_create isz sz k = Some x"
  proof (cases "isz = 0 \<or> sz = 0")
    case False
    obtain p k2 where p: "malloc QUEUE_SIZEOF k = Some (p, k2)"
      by (rule kernel_heap.alloc_returns [OF wf, of QUEUE_SIZEOF]) simp_all
    show ?thesis
    proof (cases "p = 0")
      case nz: False
      obtain bs' where bs': "kheap_wf bs' k2" "\<And>k3. queue_init p isz sz k2 = Some (- 1, k3) \<Longrightarrow> kheap_wf bs' k3 \<Longrightarrow>
          kheap_base k3 = kheap_base k2 \<Longrightarrow> \<exists>k4. z_impl_queue_create isz sz k = Some (0, k4) \<and> kheap_wf bs k4 \<and> primask k4 = primask k3"
        by (rule queue_create_undo [OF wf p nz, of isz sz]) (use False in blast)+
      show ?thesis
      proof (cases rule: queue_init_cases [OF bs'(1) nz, of isz sz, case_names isz sz overflow full ok])
        case (overflow k3)
        then show ?thesis using bs'(2) by blast
      next
        case (full k3)
        then show ?thesis using bs'(2) by blast
      next
        case (ok b k3 k4)
        then show ?thesis using p nz False by (simp add: z_impl_queue_create_def)
      qed (use False in simp_all)
    qed (use p False in \<open>simp add: z_impl_queue_create_def\<close>)
  qed (simp add: z_impl_queue_create_def)
qed

text \<open>
  What a request needs from memory, which tasks may write: a creation walks the heap, and a string is
  printed up to its terminator.
\<close>

definition heap_sound :: "kernel \<Rightarrow> bool" where
  "heap_sound k \<longleftrightarrow> (\<exists>bs. kheap_wf bs k)"

definition terminated :: "kernel \<Rightarrow> u32 \<Rightarrow> bool" where
  "terminated k s \<longleftrightarrow> (\<exists>cs. string_at (mem k) s cs)"

fun memory_ok :: "request \<Rightarrow> kernel \<Rightarrow> bool" where
  "memory_ok (Uart_write s) k = terminated k s"
| "memory_ok rq k = (creating rq \<longrightarrow> heap_sound k)"

lemma dispatch_returns:
  assumes k: "handles_typed k" and w: "wi_caller w = Some u"
    and m: "creates (wi_id w) \<Longrightarrow> heap_sound k" "wi_id w = SYSCALL_UART_WRITE \<Longrightarrow> terminated k (wi_arg0 w)"
  shows "\<exists>k'. dispatch w k = Some k'"
proof -
  have get: "\<exists>p. k_obj_get (wi_arg0 w) ty k = (p, k) \<and> (p \<noteq> 0 \<longrightarrow> has_type k p ty)" for ty
    using obj_get_same k_obj_get_typed [OF k] by metis
  obtain q where q: "k_obj_get (wi_arg0 w) KOBJ_QUEUE k = (q, k)" "q \<noteq> 0 \<longrightarrow> has_type k q KOBJ_QUEUE" using get by blast
  have queue: "\<exists>k'. dispatch_queue_send w k = Some k'" "\<exists>k'. dispatch_queue_recv w k = Some k'"
    using q queue_returns [of k q 0 "\<lambda>_. []" 0 "wi_arg1 w"] unfolding dispatch_queue_send_def dispatch_queue_recv_def
    by (cases "q = 0"; fastforce split: call.split)+
  obtain s where s: "k_obj_get (wi_arg0 w) KOBJ_SEM k = (s, k)" "s \<noteq> 0 \<longrightarrow> has_type k s KOBJ_SEM" using get by blast
  have sem: "\<exists>k'. dispatch_sem_post w k = Some k'" "\<exists>k'. dispatch_sem_wait w k = Some k'"
  proof (atomize (full), cases "s = 0")
    case False
    then have r: "has_type k s KOBJ_SEM" using s(2) by simp
    obtain k1 x k2 where "z_impl_sem_give s k = Some k1" "z_impl_sem_try_take_timeout s (Some u) (wi_arg1 w) k = Some (x, k2)"
      using sem_returns(1) [OF r] sem_returns(2) [OF r, of u "wi_arg1 w"] by auto
    then show "(\<exists>k'. dispatch_sem_post w k = Some k') \<and> (\<exists>k'. dispatch_sem_wait w k = Some k')"
      using s(1) w False by (simp add: dispatch_sem_post_def dispatch_sem_wait_def Let_def)
  qed (use s(1) in \<open>simp add: dispatch_sem_post_def dispatch_sem_wait_def\<close>)
  obtain x where x: "k_obj_get (wi_arg0 w) KOBJ_MUTEX k = (x, k)" "x \<noteq> 0 \<longrightarrow> has_type k x KOBJ_MUTEX" using get by blast
  have mutex: "\<exists>k'. dispatch_mutex_lock w k = Some k'" "\<exists>k'. dispatch_mutex_unlock w k = Some k'"
  proof (atomize (full), cases "x = 0")
    case False
    then have r: "has_type k x KOBJ_MUTEX" using x(2) by simp
    obtain k1 y k2 where "z_impl_mutex_unlock_for x (Some u) k = Some k1" "z_impl_mutex_try_lock_timeout x (Some u) (wi_arg1 w) k = Some (y, k2)"
      using mutex_returns(1) [OF r, of "Some u"] mutex_returns(2) [OF r, of u "wi_arg1 w"] by auto
    then show "(\<exists>k'. dispatch_mutex_lock w k = Some k') \<and> (\<exists>k'. dispatch_mutex_unlock w k = Some k')"
      using x(1) w False by (simp add: dispatch_mutex_lock_def dispatch_mutex_unlock_def Let_def)
  qed (use x(1) in \<open>simp add: dispatch_mutex_lock_def dispatch_mutex_unlock_def\<close>)
  have uart: "\<exists>k'. dispatch_uart_write w k = Some k'" if "wi_id w = SYSCALL_UART_WRITE"
    using m(2) [OF that] uart_write_puts [of k "wi_arg0 w"] by (auto simp: terminated_def dispatch_uart_write_def)
  have create: "\<exists>k'. dispatch_queue_create w k = Some k'" "\<exists>k'. dispatch_sem_create w k = Some k'" "\<exists>k'. dispatch_mutex_create w k = Some k'"
    if c: "creates (wi_id w)"
  proof -
    obtain bs where bs: "kheap_wf bs k" using m(1) [OF c] by (auto simp: heap_sound_def)
    show "\<exists>k'. dispatch_queue_create w k = Some k'" "\<exists>k'. dispatch_sem_create w k = Some k'" "\<exists>k'. dispatch_mutex_create w k = Some k'"
      using creations_return(3) [OF bs, of "wi_arg0 w" "wi_arg1 w"] creations_return(1) [OF bs, of "wi_arg0 w"] creations_return(2) [OF bs]
      by (auto simp: dispatch_queue_create_def dispatch_sem_create_def dispatch_mutex_create_def case_prod_beta)
  qed
  have delay: "\<exists>k'. dispatch_delay w k = Some k'" using w by (simp add: dispatch_delay_def Let_def)
  show ?thesis
    using queue sem mutex uart create delay unfolding dispatch_def creates_def by simp
qed

lemma invoke_returns:
  assumes k: "handles_typed k" and s: "settled W k" and c: "current_task k = Some c" "resting W k c" and m: "memory_ok rq k"
  shows "\<exists>a. invoke rq k = Some a"
proof -
  have get: "\<exists>p. k_obj_get h ty k = (p, k) \<and> (p \<noteq> 0 \<longrightarrow> has_type k p ty)" for h ty
    using obj_get_same k_obj_get_typed [OF k] by metis
  have create: "\<exists>a. queue_create isz n k = Some a" "\<exists>a. sem_create n k = Some a" "\<exists>a. mutex_create k = Some a"
    if h: "heap_sound k" for isz n
  proof -
    obtain bs where bs: "kheap_wf bs k" using h by (auto simp: heap_sound_def)
    obtain x y z where "z_impl_queue_create isz n k = Some x" "z_impl_sem_create n k = Some y" "z_impl_mutex_create k = Some z"
      using creations_return [OF bs] by metis
    then show "\<exists>a. queue_create isz n k = Some a" "\<exists>a. sem_create n k = Some a" "\<exists>a. mutex_create k = Some a"
      by (simp_all add: queue_create_def sem_create_def mutex_create_def case_prod_beta)
  qed
  have queue: "\<exists>a. queue_push h p tm k = Some a" "\<exists>a. queue_pop h p tm k = Some a" for h p tm
  proof (atomize (full), goal_cases)
    case 1
    obtain q where q: "k_obj_get h KOBJ_QUEUE k = (q, k)" "q \<noteq> 0 \<longrightarrow> has_type k q KOBJ_QUEUE" using get by blast
    then show ?case
      using queue_returns [of k q tm W c p] s c by (cases "q = 0") (auto simp: queue_push_def queue_pop_def)
  qed
  have sem: "\<exists>a. sem_give h k = Some a" "\<exists>a. sem_take h tm k = Some a" for h tm
  proof (atomize (full), goal_cases)
    case 1
    obtain p where p: "k_obj_get h KOBJ_SEM k = (p, k)" "p \<noteq> 0 \<longrightarrow> has_type k p KOBJ_SEM" using get by blast
    then show ?case
      using sem_returns(1) [of k p] sem_returns(3) [of k p c tm] c(1) by (cases "p = 0") (auto simp: sem_give_def sem_take_def)
  qed
  have mutex: "\<exists>a. mutex_unlock h k = Some a" "\<exists>a. mutex_lock h tm k = Some a" for h tm
  proof (atomize (full), goal_cases)
    case 1
    obtain p where p: "k_obj_get h KOBJ_MUTEX k = (p, k)" "p \<noteq> 0 \<longrightarrow> has_type k p KOBJ_MUTEX" using get by blast
    then show ?case
      using mutex_returns(1) [of k p "current_task k"] mutex_returns(3) [of k p c tm] c(1)
      by (cases "p = 0") (auto simp: mutex_unlock_def mutex_lock_def z_impl_mutex_unlock_def scheduler_get_current_def)
  qed
  have uart: "\<exists>a. k_uart_write s k = Some a" if "terminated k s" for s
    using that uart_write_puts [of k s] by (auto simp: terminated_def k_uart_write_def)
  have delay: "\<exists>a. task_delay n k = Some a" for n by (simp add: task_delay_def)
  show ?thesis using m create queue sem mutex uart delay by (cases rq) simp_all
qed

section \<open>From reset on\<close>

lemma objs_create: "task_create fn nm pr sz arg k = Some k' \<Longrightarrow> objs k' = objs k"
  using task_create_same by (simp add: objs_def)

lemma objs_main: "main_start p u sy k = Some (sy', c, k') \<Longrightarrow> objs k' = objs k"
proof -
  assume run: "main_start p u sy k = Some (sy', c, k')"
  obtain v where v: "crest_boot_banner k = k\<lparr>uart_out := v\<rparr>" using banner_output by blast
  have clear: "objs (fold clear_tcb ts j) = objs j" for ts j
    by (induction ts arbitrary: j) (simp_all add: clear_tcb_def)
  have init: "objs (task_init j) = objs j" for j
    using clear [of "[0..<MAX_TASKS]" j] by (simp add: task_init_def scheduler_init_def objs_def)
  have puts: "objs (uart_puts cs j) = objs j" for cs j by (simp add: uart_puts_def)
  obtain u1 k1 where k1: "main_setup p u k = Some (u1, k1)" "port_start_first_task sy k1 = Some (sy', c, k')"
    using run by (auto simp: main_start_def bind_eq_Some_conv)
  have "objs k1 = objs k"
    using k1(1) by (auto simp: main_setup_def bind_eq_Some_conv v puts init Let_def dest!: objs_create)
  moreover have "objs k' = objs k1"
    using k1(2) by (auto simp: port_start_first_task_def bind_eq_Some_conv Let_def dest!: typed.view_get_next split: option.splits)
  ultimately show ?thesis by simp
qed

lemma reachable_typed: "reachable p l m k \<Longrightarrow> handles_typed k"
proof -
  assume "reachable p l m k"
  then obtain u sy sy' c k0 where k0: "main_start p u sy (reset_state l m) = Some (sy', c, k0)" "(step 0 4)\<^sup>*\<^sup>* k0 k"
    unfolding reachable_def by blast
  have "handles_typed (reset_state l m)" by (simp add: handles_typed_def reset_state_def boot_kernel_def)
  then have "handles_typed k0" using objs_typed(2) [OF objs_main [OF k0(1)]] by simp
  with k0(2) show "handles_typed k"
    by (induction rule: rtranclp_induct) (simp_all add: step_typed)
qed

text \<open>A write to the UART ends only at a terminator.\<close>

lemma string_at_Cons: "mem k s \<noteq> 0 \<Longrightarrow> string_at (mem k) (s + 1) cs \<Longrightarrow> string_at (mem k) s (mem k s # cs)"
  by (auto simp: string_at_def nth_Cons add.assoc [symmetric] split: nat.split)

lemma uart_loop_terminated: "uart_loop s k = Some k' \<Longrightarrow> terminated k s"
proof (induction rule: uart_loop.raw_induct [rotated 1, consumes 1])
  case (1 f s k k')
  note IH = 1(1)
  show ?case
  proof (cases "mem k s = 0")
    case True
    then have "string_at (mem k) s []" by (simp add: string_at_def)
    then show ?thesis unfolding terminated_def by blast
  next
    case False
    let ?k = "uart_putc (mem k s) (if mem k s = 10 then uart_putc 13 k else k)"
    have "f (s + 1) ?k = Some k'" using 1(2) False by (auto simp: uart_putc_def Let_def split: if_splits)
    from IH [OF this] obtain cs where "string_at (mem k) (s + 1) cs" by (auto simp: terminated_def uart_putc_def split: if_splits)
    from string_at_Cons [OF False this] show ?thesis unfolding terminated_def by blast
  qed
qed

lemma uart_write_ends: "(\<exists>k'. uart_write s k = Some k') \<longleftrightarrow> terminated k s"
proof
  assume "\<exists>k'. uart_write s k = Some k'"
  then obtain k1 where "uart_loop s (k\<lparr>primask := 1\<rparr>) = Some k1" by (auto simp: uart_write_def enter_critical_def bind_eq_Some_conv)
  from uart_loop_terminated [OF this] show "terminated k s" by (simp add: terminated_def)
next
  assume "terminated k s"
  then show "\<exists>k'. uart_write s k = Some k'" using uart_write_puts [of k s] by (auto simp: terminated_def)
qed

lemma unprivileged_traps: "\<not> port_is_privileged k \<Longrightarrow> \<exists>a. invoke rq k = Some a"
  by (cases rq) (simp_all add: k_uart_write_def task_delay_def queue_create_def queue_push_def queue_pop_def sem_create_def sem_give_def
      sem_take_def mutex_create_def mutex_lock_def mutex_unlock_def)

text \<open>
  C4. Type soundness.  In every reachable state a live handle stands for an object of its type, so that no request
  and no call reaches a semaphore, mutex or queue that is not there.  The worker serves every request it takes that
  creates nothing, whatever its number and arguments, except that a write to the UART returns exactly when its
  string is terminated; it serves one that creates an object when the headers of the heap are sound.  A call of a
  running task has a value, under the same conditions when the task is privileged and under none when it is not.
  The tick returns.  The conditions are on memory that tasks may write.  The theorem is about the pointers to
  objects and tasks, not about the item pointers of queue operations: the kernel does not check them, and in the
  model every byte of memory can be read and written.
\<close>

theorem kernel_type_sound:
  assumes "boot_heap l m" "reachable p l m k"
  shows "handles_typed k \<and>
    (\<forall>w k1. executes 0 k \<and> kwork_take k = (Some w, k1) \<longrightarrow>
       (\<not> creates (wi_id w) \<longrightarrow>
          ((\<exists>k'. dispatch w k1 = Some k') \<longleftrightarrow> (wi_id w = SYSCALL_UART_WRITE \<longrightarrow> terminated k1 (wi_arg0 w)))) \<and>
       (creates (wi_id w) \<and> heap_sound k1 \<longrightarrow> (\<exists>k'. dispatch w k1 = Some k'))) \<and>
    (\<forall>c s. executes c k \<longrightarrow> ((\<exists>a. invoke (Uart_write s) k = Some a) \<longleftrightarrow> (port_is_privileged k \<longrightarrow> terminated k s))) \<and>
    (\<forall>c rq. executes c k \<and> (\<forall>s. rq \<noteq> Uart_write s) \<and> (creating rq \<and> port_is_privileged k \<longrightarrow> heap_sound k) \<longrightarrow>
       (\<exists>a. invoke rq k = Some a)) \<and>
    (\<exists>k'. SysTick_Handler k = Some k')"
proof (intro conjI allI impI)
  obtain W where inv: "kernel_inv 0 4 boot_lists W k" by (rule reachable_inv [OF assms])
  show k: "handles_typed k" by (rule reachable_typed [OF assms(2)])
  have serves: "\<exists>k'. dispatch w k1 = Some k'"
    if a: "executes 0 k \<and> kwork_take k = (Some w, k1)" and m: "creates (wi_id w) \<longrightarrow> heap_sound k1"
      "wi_id w = SYSCALL_UART_WRITE \<longrightarrow> terminated k1 (wi_arg0 w)" for w k1
  proof -
    have "handles_typed k1" using k a objs_typed(2) [OF typed.view_kwork(2)] by blast
    moreover obtain u where "wi_caller w = Some u"
    proof -
      obtain ws where "kwork_items k = w # ws"
        using a kwork_pop_eq(1) [OF kernel_invD(3) [OF inv]] by (auto simp: kwork_take_eq split: list.splits)
      then show thesis using kernel_invD(4) [OF inv] that by (auto simp: callers_ok_def Cons_eq_map_conv)
    qed
    ultimately show ?thesis using dispatch_returns m by blast
  qed
  show "(\<exists>k'. dispatch w k1 = Some k') \<longleftrightarrow> (wi_id w = SYSCALL_UART_WRITE \<longrightarrow> terminated k1 (wi_arg0 w))"
    if a: "executes 0 k \<and> kwork_take k = (Some w, k1)" and c: "\<not> creates (wi_id w)" for w k1
  proof
    show "wi_id w = SYSCALL_UART_WRITE \<longrightarrow> terminated k1 (wi_arg0 w)" if "\<exists>k'. dispatch w k1 = Some k'"
      using that uart_write_ends [of "wi_arg0 w" k1] by (auto simp: dispatch_def dispatch_uart_write_def bind_eq_Some_conv)
  qed (use serves [OF a] c in blast)
  show "\<exists>k'. dispatch w k1 = Some k'"
    if "executes 0 k \<and> kwork_take k = (Some w, k1)" "creates (wi_id w) \<and> heap_sound k1" for w k1
    using serves [OF that(1)] that(2) by (auto simp: creates_def)
  show "(\<exists>a. invoke (Uart_write s) k = Some a) \<longleftrightarrow> (port_is_privileged k \<longrightarrow> terminated k s)" for s
    using uart_write_ends [of s k] unprivileged_traps [of k "Uart_write s"] by (auto simp: k_uart_write_def)
  show "\<exists>a. invoke rq k = Some a"
    if a: "executes c k \<and> (\<forall>s. rq \<noteq> Uart_write s) \<and> (creating rq \<and> port_is_privileged k \<longrightarrow> heap_sound k)" for c rq
  proof (cases "port_is_privileged k")
    case True
    then have "memory_ok rq k" using a by (cases rq) simp_all
    then show ?thesis using invoke_returns [OF k kernel_invD(2) [OF inv] _ executes_running(2) [OF inv]] a by (auto simp: executes_def)
  qed (rule unprivileged_traps)
  obtain W' k' where "scheduler_tick k = Some k'" by (rule tick_moves [OF kernel_invD(1,2) [OF inv]])
  then show "\<exists>k'. SysTick_Handler k = Some k'" by (simp add: SysTick_Handler_def)
qed

theorem kernel_type_sound_witness:
  "\<exists>k a b. reachable demo_program demo_board (\<lambda>_. 0) k \<and> executes 1 k \<and> invoke (Sem_take 0x00010000 100) k = Some a \<and>
     invoke (Queue_push 7 0x20008000 0) k = Some b \<and> (\<exists>k'. SysTick_Handler k = Some k')"
proof -
  obtain k where k: "reachable demo_program demo_board (\<lambda>_. 0) k" "executes 1 k" by (rule demo_producer)
  note sound = kernel_type_sound [OF demo_board_heap k(1), THEN conjunct2, THEN conjunct2, THEN conjunct2]
  note calls = sound [THEN conjunct1, rule_format, of 1]
  obtain a where a: "invoke (Sem_take 0x00010000 100) k = Some a" using calls [of "Sem_take 0x00010000 100"] k(2) by auto
  obtain b where b: "invoke (Queue_push 7 0x20008000 0) k = Some b" using calls [of "Queue_push 7 0x20008000 0"] k(2) by auto
  show ?thesis using k a b sound [THEN conjunct2] by blast
qed

end
