(* ===== verification/Ownership.thy ===== *)
theory Ownership
  imports Views
begin

text \<open>
  Mutual exclusion at the level of the whole system: whatever tasks, worker, tick and switches do, a mutex stays
  with its owner until the owner itself unlocks it.
\<close>

section \<open>Operations that leave the owners alone\<close>

definition owners :: "kernel \<Rightarrow> u32 \<Rightarrow> tcb_ptr option option" where
  "owners k p = map_option mtx_owner (mutexes k p)"

lemma owners_simps [simp]:
  "owners (k\<lparr>primask := a\<rparr>) = owners k" "owners (k\<lparr>pendsv := b\<rparr>) = owners k" "owners (k\<lparr>mem := m\<rparr>) = owners k"
  "owners (k\<lparr>uart_out := v\<rparr>) = owners k" "owners (k\<lparr>control := a\<rparr>) = owners k" "owners (k\<lparr>mpu := r\<rparr>) = owners k"
  "owners (k\<lparr>kheap := h\<rparr>) = owners k" "owners (k\<lparr>tick_count := a\<rparr>) = owners k" "owners (k\<lparr>rr_current := c\<rparr>) = owners k"
  "owners (k\<lparr>current_task := t\<rparr>) = owners k" "owners (k\<lparr>kernel_tcb := t\<rparr>) = owners k" "owners (k\<lparr>tcb_pool := p\<rparr>) = owners k"
  "owners (k\<lparr>kwork_buf := w\<rparr>) = owners k" "owners (k\<lparr>kwork_head := n\<rparr>) = owners k" "owners (k\<lparr>kwork_tail := n\<rparr>) = owners k"
  "owners (exit_critical a k) = owners k" "owners (port_trigger_pendsv k) = owners k" "owners (upd_tcb u f k) = owners k"
  "owners (scheduler_wake_task u a k) = owners k" "owners (set_waiting u k) = owners k" "owners (set_timeout wh u a k) = owners k"
  "owners (set_sem q s k) = owners k" "owners (set_queue q x k) = owners k"
  "owners (set_mutex q y k) = (owners k)(q := Some (mtx_owner y))"
  by (simp_all add: owners_def fun_eq_iff state_defs scheduler_wake_task_eq set_waiting_def set_timeout_def Let_def)

interpretation held: object_view owners
proof unfold_locales
  show "owners (set_mutex q x' k) = owners k" if "mutexes k q = Some x" "mtx_owner x' = mtx_owner x" for k q x x'
    using that by (simp add: owners_def fun_eq_iff)
qed simp_all

section \<open>Locking and unlocking\<close>

text \<open>A lock does not take a mutex from its owner; an unlock takes it from the caller only.\<close>

definition held_on :: "kernel \<Rightarrow> kernel \<Rightarrow> bool" where
  "held_on k k' \<longleftrightarrow> (\<forall>p t. owners k p = Some (Some t) \<longrightarrow> owners k' p = Some (Some t))"

lemma held_on_same: "owners k' = owners k \<Longrightarrow> held_on k k'"
  by (simp add: held_on_def)

lemma held_on_kept: "objects_kept k k' \<Longrightarrow> held_on k k'"
  by (force simp: held_on_def owners_def objects_kept_def map_le_def)

lemma lock_held:
  "z_impl_mutex_lock_timeout p tm k = Some (r, k') \<Longrightarrow> held_on k k'"
  "z_impl_mutex_try_lock_timeout p c tm k = Some (x, k') \<Longrightarrow> held_on k k'"
proof -
  have free: "held_on k (set_mutex p (m\<lparr>mtx_owner := o'\<rparr>) (k\<lparr>primask := 1\<rparr>))" if "mutexes k p = Some m" "mtx_owner m = None" for m o'
    using that by (simp add: held_on_def) (simp add: owners_def)
  show "z_impl_mutex_lock_timeout p tm k = Some (r, k') \<Longrightarrow> held_on k k'"
    "z_impl_mutex_try_lock_timeout p c tm k = Some (x, k') \<Longrightarrow> held_on k k'"
    using free
    by (auto simp: z_impl_mutex_lock_timeout_def z_impl_mutex_try_lock_timeout_def enter_critical_def bind_eq_Some_conv held_on_def
        dest!: held.view_enqueue split: if_splits)
qed

lemma unlock_held:
  assumes "z_impl_mutex_unlock_for p c k = Some k'" "owners k q = Some (Some t)" "q \<noteq> p \<or> c \<noteq> Some t"
  shows "owners k' q = Some (Some t)"
proof -
  obtain m where m: "mutexes k p = Some m" using assms(1) by (auto simp: z_impl_mutex_unlock_for_def enter_critical_def bind_eq_Some_conv)
  show ?thesis
  proof (cases "q = p")
    case True
    then have "mtx_owner m = Some t" using assms(2) m by (simp add: owners_def)
    then have "k' = exit_critical (primask k) (k\<lparr>primask := 1\<rparr>)"
      using assms(1,3) True m by (simp add: z_impl_mutex_unlock_for_def enter_critical_def)
    then show ?thesis using assms(2) by simp
  next
    case False
    then show ?thesis
      using assms(1,2) m by (auto simp: z_impl_mutex_unlock_for_def enter_critical_def bind_eq_Some_conv Let_def split: if_splits option.splits)
  qed
qed

text \<open>What a step that takes the mutex \<open>p\<close> from its owner \<open>t\<close> must be.\<close>

definition unlocked_by :: "nat \<Rightarrow> nat \<Rightarrow> u32 \<Rightarrow> kernel \<Rightarrow> kernel \<Rightarrow> bool" where
  "unlocked_by wk t p k k' \<longleftrightarrow>
     (\<exists>h r. executes t k \<and> invoke (Mutex_unlock h) k = Some (Called r k') \<and> k_obj_get h KOBJ_MUTEX k = (p, k)) \<or>
     (\<exists>w k1. executes wk k \<and> kwork_take k = (Some w, k1) \<and> wi_id w = SYSCALL_MUTEX_UNLOCK \<and> wi_caller w = Some t \<and>
        k_obj_get (wi_arg0 w) KOBJ_MUTEX k1 = (p, k1) \<and> dispatch w k1 = Some k')"

lemma call_held:
  assumes run: "invoke rq k = Some (Called r k')" "locking rq" and c: "executes c k"
    and own: "owners k p = Some (Some t)" "owners k' p \<noteq> Some (Some t)"
  shows "unlocked_by wk t p k k'"
proof (cases rq)
  case (Mutex_unlock h)
  obtain q where q: "k_obj_get h KOBJ_MUTEX k = (q, k)" using obj_get_same by blast
  have cur: "current_task k = Some c" using c by (simp add: executes_def)
  have u: "z_impl_mutex_unlock_for q (Some c) k = Some k'"
    using run own Mutex_unlock q cur
    by (auto simp: mutex_unlock_def z_impl_mutex_unlock_def scheduler_get_current_def bind_eq_Some_conv split: if_splits)
  have "p = q \<and> c = t" using unlock_held [OF u own(1)] own(2) by auto
  then show ?thesis using c q run(1) Mutex_unlock unfolding unlocked_by_def by blast
next
  case (Mutex_lock h tm)
  then have "held_on k k'"
    using run lock_held(1) held_on_same by (auto simp: mutex_lock_def k_obj_get_live bind_eq_Some_conv split: if_splits)
  then show ?thesis using own by (simp add: held_on_def)
qed (use run(2) in simp_all)

lemma serve_held:
  assumes run: "dispatch w k1 = Some k'" "locks (wi_id w)" and own: "owners k1 p = Some (Some t)" "owners k' p \<noteq> Some (Some t)"
  shows "wi_id w = SYSCALL_MUTEX_UNLOCK \<and> wi_caller w = Some t \<and> k_obj_get (wi_arg0 w) KOBJ_MUTEX k1 = (p, k1)"
proof -
  obtain q where q: "k_obj_get (wi_arg0 w) KOBJ_MUTEX k1 = (q, k1)" using obj_get_same by blast
  show ?thesis
  proof (cases "wi_id w = SYSCALL_MUTEX_UNLOCK")
    case True
    then have "dispatch_mutex_unlock w k1 = Some k'" using run(1) by (simp add: dispatch_def)
    then obtain k2 where k2: "z_impl_mutex_unlock_for q (wi_caller w) k1 = Some k2"
      using q own by (auto simp: dispatch_mutex_unlock_def bind_eq_Some_conv split: if_splits)
    have k': "owners k' = owners k2"
      using \<open>dispatch_mutex_unlock w k1 = Some k'\<close> q k2 own by (auto simp: dispatch_mutex_unlock_def split: if_splits)
    then have "p = q \<and> wi_caller w = Some t" using unlock_held [OF k2 own(1)] own(2) by auto
    then show ?thesis using True q by simp
  next
    case False
    then have "dispatch_mutex_lock w k1 = Some k'" using run by (simp add: dispatch_def locks_def)
    then have "held_on k1 k'"
      using q lock_held(2) held_on_same
      by (fastforce simp: dispatch_mutex_lock_def bind_eq_Some_conv Let_def held_on_def split: if_splits)
    then show ?thesis using own by (simp add: held_on_def)
  qed
qed

text \<open>
  C6. Mutual exclusion of the whole system.  In any state and for any step, a mutex that has an owner keeps it,
  whatever the other tasks, the worker, the tick and the context switch do, unless the owner itself unlocks it:
  by a direct call while it is privileged, or by the request it sent to the worker.
\<close>

theorem mutex_owned_until_unlock:
  assumes "step wk idl k k'" "owners k p = Some (Some t)" "owners k' p \<noteq> Some (Some t)"
  shows "unlocked_by wk t p k k'"
  using assms(1)
proof (cases rule: held.step_view)
  case same
  then show ?thesis using assms by simp
next
  case (call c rq r)
  have "locking rq"
    using call(3,4) assms(2,3) held_on_kept [of k k'] by (auto simp: held_on_def)
  then show ?thesis by (rule call_held [OF call(2) _ call(1) assms(2,3)])
next
  case (serve w k1)
  have k1: "owners k1 p = Some (Some t)" using serve(3) assms(2) by simp
  then have "locks (wi_id w)"
    using serve(5,6) assms(3) held_on_kept [of k1 k'] by (auto simp: held_on_def)
  then show ?thesis
    using serve_held [OF serve(4) _ k1 assms(3)] serve(1,2,4) unfolding unlocked_by_def by blast
qed

text \<open>Task 1 runs and owns the mutex at \<open>0x20008008\<close>, whose handle is \<open>0x00010000\<close>.\<close>

definition demo_owned :: kernel where
  "demo_owned = demo_boot\<lparr>current_task := Some 1, mutexes := [0x20008008 \<mapsto> \<lparr>mtx_owner = Some 1, mtx_wait_list = None\<rparr>],
     table := (\<lambda>_. \<lparr>obj_ptr = 0x20008008, obj_type = KOBJ_MUTEX, in_use = True, gen = 1\<rparr>)\<rparr>"

theorem mutex_owned_until_unlock_witness:
  "\<exists>k'. step 0 4 demo_owned k' \<and> owners k' 0x20008008 = Some None \<and> unlocked_by 0 1 0x20008008 demo_owned k'"
proof -
  have ex: "executes 1 demo_owned" by (simp add: executes_def demo_owned_def demo_boot_def boot_kernel_def)
  obtain k' where k': "invoke (Mutex_unlock 0x00010000) demo_owned = Some (Called (Return 0) k')" "owners k' 0x20008008 = Some None"
    by (simp add: mutex_unlock_def k_obj_get_live kobj_live_def handle_index_def handle_gen_def z_impl_mutex_unlock_def
        z_impl_mutex_unlock_for_def enter_critical_def exit_critical_def port_trigger_pendsv_def scheduler_get_current_def port_is_privileged_def
        demo_owned_def demo_boot_def boot_kernel_def owners_def set_mutex_def Let_def)
  have st: "step 0 4 demo_owned k'" by (rule call [OF ex _ k'(1)]) simp_all
  have own: "owners demo_owned 0x20008008 = Some (Some 1)" by (simp add: owners_def demo_owned_def)
  show ?thesis using mutex_owned_until_unlock [OF st own] st k'(2) by auto
qed

end
