(* ===== verification/Isolation.thy ===== *)
theory Isolation
  imports Views Mpu
begin

text \<open>
  Memory isolation at the level of the whole system: in every reachable state the memory protection unit is
  set up for the current task and the processor's privilege is the one recorded for that task, so that, on a
  layout with an aligned user heap, unprivileged code can reach neither the stack of another task nor the
  kernel's static data.
\<close>

section \<open>What the steps leave alone\<close>

definition protection :: "kernel \<Rightarrow> mpu_regs \<times> u32 \<times> tcb_ptr option \<times> linker \<times> (tcb_ptr \<Rightarrow> u32 \<times> u32 \<times> bool)" where
  "protection k = (mpu k, control k, current_task k, ld k,
     \<lambda>t. (stack_base (tcb_pool k t), stack_size (tcb_pool k t), user_task (tcb_pool k t)))"

lemma protection_simps [simp]:
  "protection (set_sem q s k) = protection k" "protection (set_mutex q x k) = protection k" "protection (set_queue q y k) = protection k"
  "protection (k\<lparr>kheap := h\<rparr>) = protection k" "protection (k\<lparr>table := e\<rparr>) = protection k"
  "protection (k\<lparr>queues := z\<rparr>) = protection k"
  by (simp_all add: protection_def state_defs)

interpretation guard: kernel_view protection
proof unfold_locales
  show "protection (k\<lparr>tcb_pool := p\<rparr>) = protection k" if "\<And>t. steady (tcb_pool k t) (p t)" for k p
    using that by (simp add: protection_def steady_def)
qed (simp_all add: protection_def state_defs)

lemma protection_mutexes:
  "z_impl_mutex_lock_timeout p tm k = Some (r, k') \<Longrightarrow> protection k' = protection k"
  "z_impl_mutex_try_lock_timeout p c tm k = Some (x, k') \<Longrightarrow> protection k' = protection k"
  "z_impl_mutex_unlock_for p c k = Some k' \<Longrightarrow> protection k' = protection k"
  by (auto simp: z_impl_mutex_lock_timeout_def z_impl_mutex_try_lock_timeout_def z_impl_mutex_unlock_for_def enter_critical_def
      bind_eq_Some_conv Let_def dest: guard.view_enqueue split: if_splits option.splits)

lemma protection_alloc: "malloc sz k = Some (q, k') \<Longrightarrow> protection k' = protection k" "free q k = Some k' \<Longrightarrow> protection k' = protection k"
  by (auto elim!: malloc_frame free_frame)

lemma protection_handle [simp]:
  "protection (snd (k_obj_alloc p ty k)) = protection k" "protection (snd (new_handle p ty k)) = protection k"
  by (simp_all add: k_obj_alloc_def new_handle_def enter_critical_def Let_def split: option.split)

lemma protection_creations:
  "z_impl_sem_create n k = Some (p, k') \<Longrightarrow> protection k' = protection k"
  "z_impl_mutex_create k = Some (p, k') \<Longrightarrow> protection k' = protection k"
  "z_impl_queue_create isz sz k = Some (p, k') \<Longrightarrow> protection k' = protection k"
proof -
  show "z_impl_sem_create n k = Some (p, k') \<Longrightarrow> protection k' = protection k"
    "z_impl_mutex_create k = Some (p, k') \<Longrightarrow> protection k' = protection k"
    by (auto simp: z_impl_sem_create_def z_impl_mutex_create_def bind_eq_Some_conv dest!: protection_alloc split: if_splits)
  have init: "queue_init q isz sz k = Some (r, k') \<Longrightarrow> protection k' = protection k" for q r k k'
    by (auto simp: queue_init_def Let_def bind_eq_Some_conv dest!: protection_alloc split: if_splits)
  have release: "queue_release q k = Some k' \<Longrightarrow> protection k' = protection k" for q k k'
    by (auto simp: queue_release_def bind_eq_Some_conv dest!: protection_alloc split: if_splits)
  show "z_impl_queue_create isz sz k = Some (p, k') \<Longrightarrow> protection k' = protection k"
    by (auto simp: z_impl_queue_create_def bind_eq_Some_conv dest!: protection_alloc init release split: if_splits)
qed

lemma protection_dispatch: "dispatch w k = Some k' \<Longrightarrow> protection k' = protection k"
proof -
  assume run: "dispatch w k = Some k'"
  obtain m where m: "k_obj_get (wi_arg0 w) KOBJ_MUTEX k = (m, k)" using obj_get_same by blast
  have mutex: "dispatch_mutex_lock w k = Some k' \<Longrightarrow> protection k' = protection k" "dispatch_mutex_unlock w k = Some k' \<Longrightarrow> protection k' = protection k"
    using m by (auto simp: dispatch_mutex_lock_def dispatch_mutex_unlock_def bind_eq_Some_conv Let_def dest: protection_mutexes split: if_split_asm)
  have create: "dispatch_queue_create w k = Some k' \<Longrightarrow> protection k' = protection k"
    "dispatch_sem_create w k = Some k' \<Longrightarrow> protection k' = protection k" "dispatch_mutex_create w k = Some k' \<Longrightarrow> protection k' = protection k"
    by (auto simp: dispatch_queue_create_def dispatch_sem_create_def dispatch_mutex_create_def bind_eq_Some_conv Let_def case_prod_beta
        dest!: protection_creations)
  show ?thesis
  proof (cases "creates (wi_id w) \<or> locks (wi_id w)")
    case True
    then show ?thesis using run unfolding dispatch_def by (auto simp: creates_def locks_def intro: mutex create)
  qed (use guard.view_dispatch [OF run] in simp)
qed

lemma protection_invoke: "invoke rq k = Some (Called r k') \<Longrightarrow> protection k' = protection k"
proof -
  assume run: "invoke rq k = Some (Called r k')"
  have mutex: "protection k' = protection k" if "f \<in> {mutex_lock h tm, mutex_unlock h}" "f k = Some (Called r k')" for f h tm
    by (rule invoke_object [of f h tm]) (use that in \<open>auto dest: guard.view_sems guard.view_queues protection_mutexes\<close>)
  have create: "queue_create n i k = Some (Called r k') \<Longrightarrow> protection k' = protection k"
    "sem_create n k = Some (Called r k') \<Longrightarrow> protection k' = protection k" "mutex_create k = Some (Called r k') \<Longrightarrow> protection k' = protection k" for n i
    by (auto simp: queue_create_def sem_create_def mutex_create_def bind_eq_Some_conv Let_def case_prod_beta
        dest!: protection_creations split: if_splits)
  show ?thesis
  proof (cases "creating rq \<or> locking rq")
    case True
    then show ?thesis
      using run create mutex [of "mutex_lock h tm" h tm for h tm] mutex [of "mutex_unlock h" h for h] by (cases rq) simp_all
  qed (use guard.view_invoke [OF run] in simp)
qed

lemma step_protection:
  assumes "step wk idl k k'"
  obtains (same) "protection k' = protection k"
  | (drop) c where "executes c k" "k' = port_set_unprivileged k"
  | (switch) regs regs' k1 where "PendSV_Handler regs k = Some (Resume regs' k1)" "k' = k1\<lparr>pendsv := False\<rparr>"
  using assms
proof (cases rule: guard.step_kept)
  case (call c rq r)
  then show thesis using protection_invoke that(1) by blast
next
  case (serve w k1)
  then show thesis using protection_dispatch that(1) by metis
qed (rule that; assumption)+

section \<open>The protection of the current task\<close>

text \<open>
  The unit is as \<open>port_mpu_configure_for_task\<close> leaves it for the stack of \<open>t\<close>, the regions it does not use being off.
\<close>

definition unused_regions :: "mpu_regs \<Rightarrow> bool" where
  "unused_regions m \<longleftrightarrow> (\<forall>r \<in> {4, 5, 6}. \<not> bit (mpu_rasr m r) 0)"

definition guards :: "tcb_ptr \<Rightarrow> kernel \<Rightarrow> bool" where
  "guards t k \<longleftrightarrow> (\<exists>k0. mpu k = mpu (port_mpu_configure_for_task (Some t) k0) \<and> unused_regions (mpu k0) \<and> ld k0 = ld k \<and>
     stack_base (tcb_pool k0 t) = stack_base (tcb_pool k t) \<and> stack_size (tcb_pool k0 t) = stack_size (tcb_pool k t))"

definition protected :: "kernel \<Rightarrow> bool" where
  "protected k \<longleftrightarrow> unused_regions (mpu k) \<and>
     (\<forall>c. current_task k = Some c \<longrightarrow> guards c k \<and> (port_is_privileged k \<longleftrightarrow> \<not> user_task (tcb_pool k c)))"

lemma protection_eqD:
  assumes "protection k' = protection k"
  shows "mpu k' = mpu k" "control k' = control k" "current_task k' = current_task k" "ld k' = ld k"
    "stack_base (tcb_pool k' t) = stack_base (tcb_pool k t)" "stack_size (tcb_pool k' t) = stack_size (tcb_pool k t)"
    "user_task (tcb_pool k' t) = user_task (tcb_pool k t)"
  using assms by (auto simp: protection_def fun_eq_iff)

lemma protected_cong:
  assumes "protection k' = protection k" shows "protected k' = protected k"
  by (simp add: protected_def guards_def port_is_privileged_def protection_eqD [OF assms])

lemma unused_cong:
  assumes "\<And>r. r \<in> {4, 5, 6} \<Longrightarrow> mpu_rasr m' r = mpu_rasr m r" shows "unused_regions m' = unused_regions m"
proof -
  have "mpu_rasr m' 4 = mpu_rasr m 4" "mpu_rasr m' 5 = mpu_rasr m 5" "mpu_rasr m' 6 = mpu_rasr m 6" by (rule assms, simp)+
  then show ?thesis by (simp add: unused_regions_def)
qed

lemma configure_rasr: "r \<in> {4, 5, 6} \<Longrightarrow> mpu_rasr (mpu (port_mpu_configure_for_task t k)) r = mpu_rasr (mpu k) r"
  by (auto simp: port_mpu_configure_for_task_def Let_def enter_critical_def exit_critical_def split: option.split)

lemmas configure_unused = unused_cong [OF configure_rasr]

lemma privileged_control [simp]:
  "port_is_privileged (k\<lparr>control := 2\<rparr>)" "\<not> port_is_privileged (k\<lparr>control := 3\<rparr>)" "\<not> port_is_privileged (k\<lparr>control := a OR 1\<rparr>)"
  by (simp_all add: port_is_privileged_def and_one_eq even_or_iff odd_iff_mod_2_eq_one [symmetric])

text \<open>Entering a task sets the unit and the privilege for it.\<close>

lemma entered_protected:
  assumes u: "unused_regions (mpu k)" and e: "protection k' = protection
    ((scheduler_set_current (Some n) (port_mpu_configure_for_task (Some n) k))\<lparr>control := (if user_task (tcb_pool k n) then 3 else 2)\<rparr>)"
  shows "protected k'"
proof -
  obtain m where m: "port_mpu_configure_for_task (Some n) k = k\<lparr>mpu := m\<rparr>" using configure_frame by blast
  let ?k = "k\<lparr>mpu := m, current_task := Some n, control := (if user_task (tcb_pool k n) then 3 else 2)\<rparr>"
  have um: "unused_regions m" using configure_unused [of "Some n" k] u by (simp add: m)
  have "m = mpu (port_mpu_configure_for_task (Some n) k)" by (simp add: m)
  then have "guards n ?k" unfolding guards_def using u by (intro exI [of _ k]) simp
  then have "protected ?k" using um by (simp add: protected_def)
  then show ?thesis unfolding protected_cong [OF e] by (simp add: m scheduler_set_current_def)
qed

lemma switch_protected:
  assumes run: "switch_to_next sp k = Some (Resume sp' k')" and p: "protected k" shows "protected k'"
proof -
  obtain nx k1 where n: "scheduler_get_next k = Some (nx, k1)" using run by (auto simp: switch_to_next_def bind_eq_Some_conv)
  have k1: "protection k1 = protection k" by (rule guard.view_get_next [OF n])
  show ?thesis
  proof (cases nx)
    case None
    then have "protection k' = protection k1" using run n by (auto simp: switch_to_next_def Let_def split: option.splits)
    then show ?thesis using p k1 protected_cong by metis
  next
    case (Some t)
    let ?k = "upd_tcb t (\<lambda>x. x\<lparr>tstate := TASK_RUNNING\<rparr>) k1"
    have kp: "protection ?k = protection k" using k1 by simp
    have u: "unused_regions (mpu ?k)" using p protection_eqD(1) [OF kp] by (simp add: protected_def)
    obtain m where m: "port_mpu_configure_for_task (Some t) ?k = ?k\<lparr>mpu := m\<rparr>" using configure_frame by blast
    have k': "k' = (scheduler_set_current (Some t) (port_mpu_configure_for_task (Some t) ?k))\<lparr>control := (if user_task (tcb_pool ?k t) then 3 else 2)\<rparr>"
      using run n Some by (simp add: switch_to_next_def Let_def scheduler_set_current_def m user_task_def)
    show ?thesis by (rule entered_protected [OF u arg_cong [where f = protection, OF k']])
  qed
qed

lemma switch_saves:
  assumes "port_switch_context sp k = Some (Resume sp' k')"
  obtains k0 where "protection k0 = protection k" "switch_to_next sp k0 = Some (Resume sp' k')"
proof (cases "scheduler_get_current k")
  case None
  show thesis by (rule that [OF refl]) (use assms None in \<open>simp add: port_switch_context_def\<close>)
next
  case (Some t)
  let ?k = "upd_tcb t (\<lambda>c. if tstate c = TASK_RUNNING then c\<lparr>tstate := TASK_READY\<rparr> else c) (upd_tcb t (\<lambda>c. c\<lparr>stack_pointer := sp\<rparr>) k)"
  show thesis
    by (rule that [of ?k]) (use assms Some in \<open>auto simp: port_switch_context_def Let_def bind_eq_Some_conv split: if_split_asm\<close>)
qed

lemma step_protected:
  assumes st: "step wk idl k k'" and p: "protected k" shows "protected k'"
  using st
proof (cases rule: step_protection)
  case same
  then show ?thesis using p protected_cong by blast
next
  case (drop c)
  then have "current_task k = Some c" by (simp add: executes_def)
  then have k': "k' = (upd_tcb c (\<lambda>x. x\<lparr>flags := flags x OR 1\<rparr>) k)\<lparr>control := control k OR 1\<rparr>"
    using drop(2) by (simp add: port_set_unprivileged_def scheduler_get_current_def upd_tcb_def)
  show ?thesis
    using p \<open>current_task k = Some c\<close> unfolding k'
    by (auto simp: protected_def guards_def upd_tcb_def user_task_odd even_or_iff)
next
  case (switch regs regs' k1)
  let ?k = "k\<lparr>mem := store_words (R4_11 regs) (PSP regs - 32) (mem k)\<rparr>"
  obtain sp where sp: "port_switch_context (PSP regs - 32) ?k = Some (Resume sp k1)"
    by (rule pendsv_resumes [OF switch(1)])
  obtain k0 where k0: "protection k0 = protection ?k" "switch_to_next (PSP regs - 32) k0 = Some (Resume sp k1)"
    by (rule switch_saves [OF sp])
  have "protected k0" using p protected_cong [OF k0(1)] protected_cong [of ?k k] by simp
  then have "protected k1" by (rule switch_protected [OF k0(2)])
  then show ?thesis unfolding switch(2) using protected_cong [of "k1\<lparr>pendsv := False\<rparr>" k1] by simp
qed

section \<open>The layout\<close>

definition layout :: "kernel \<Rightarrow> linker \<times> (tcb_ptr \<Rightarrow> u32 \<times> u32)" where
  "layout k = (ld k, \<lambda>t. (stack_base (tcb_pool k t), stack_size (tcb_pool k t)))"

lemma layout_protection: "protection k' = protection k \<Longrightarrow> layout k' = layout k"
  by (simp add: protection_def layout_def fun_eq_iff)

lemma layout_eqD:
  assumes "layout k' = layout k"
  shows "ld k' = ld k" "stack_region (tcb_pool k' t) = stack_region (tcb_pool k t)" "stack_ok (tcb_pool k' t) = stack_ok (tcb_pool k t)"
  using assms by (simp_all add: layout_def fun_eq_iff stack_region_def stack_ok_def)

text \<open>No operation of the kernel clears the flag of a task that gave up its privilege.\<close>

lemma switch_layout:
  assumes run: "switch_to_next sp k = Some (Resume sp' k')"
  shows "layout k' = layout k" "user_task (tcb_pool k' t) = user_task (tcb_pool k t)"
proof -
  obtain nx k1 where n: "scheduler_get_next k = Some (nx, k1)" using run by (auto simp: switch_to_next_def bind_eq_Some_conv)
  have k1: "protection k1 = protection k" by (rule guard.view_get_next [OF n])
  have mpu: "\<exists>m. port_mpu_configure_for_task (Some n) k = k\<lparr>mpu := m\<rparr>" for n k by (rule configure_frame)
  have "layout k' = layout k1 \<and> user_task (tcb_pool k' t) = user_task (tcb_pool k1 t)"
  proof (cases nx)
    case (Some n)
    obtain m where "port_mpu_configure_for_task (Some n) (upd_tcb n (\<lambda>x. x\<lparr>tstate := TASK_RUNNING\<rparr>) k1) = (upd_tcb n (\<lambda>x. x\<lparr>tstate := TASK_RUNNING\<rparr>) k1)\<lparr>mpu := m\<rparr>"
      using mpu by blast
    then show ?thesis
      using run n Some by (auto simp: switch_to_next_def Let_def scheduler_set_current_def layout_def upd_tcb_def fun_eq_iff user_task_def
          split: if_split_asm)
  qed (use run n in \<open>auto simp: switch_to_next_def Let_def layout_def upd_tcb_def user_task_def split: option.splits if_split_asm\<close>)
  then show "layout k' = layout k" "user_task (tcb_pool k' t) = user_task (tcb_pool k t)"
    using layout_protection [OF k1] protection_eqD(7) [OF k1] by simp_all
qed

lemma step_layout:
  assumes "step wk idl k k'"
  shows "layout k' = layout k" "user_task (tcb_pool k t) \<Longrightarrow> user_task (tcb_pool k' t)"
proof -
  have "layout k' = layout k \<and> (user_task (tcb_pool k t) \<longrightarrow> user_task (tcb_pool k' t))"
    using assms
  proof (cases rule: step_protection)
    case same
    then show ?thesis using layout_protection protection_eqD(7) by metis
  next
    case (drop c)
    then show ?thesis
      by (auto simp: port_set_unprivileged_def scheduler_get_current_def executes_def layout_def upd_tcb_def fun_eq_iff user_task_odd even_or_iff)
  next
    case (switch regs regs' k1)
    let ?k = "k\<lparr>mem := store_words (R4_11 regs) (PSP regs - 32) (mem k)\<rparr>"
    obtain sp where sp: "port_switch_context (PSP regs - 32) ?k = Some (Resume sp k1)"
      by (rule pendsv_resumes [OF switch(1)])
    obtain k0 where k0: "protection k0 = protection ?k" "switch_to_next (PSP regs - 32) k0 = Some (Resume sp k1)"
      by (rule switch_saves [OF sp])
    have p: "protection k0 = protection k" using k0(1) by simp
    have "layout k1 = layout k" using switch_layout(1) [OF k0(2)] layout_protection [OF p] by simp
    moreover have "user_task (tcb_pool k1 t) = user_task (tcb_pool k t)" using switch_layout(2) [OF k0(2)] protection_eqD(7) [OF p] by simp
    ultimately show ?thesis by (simp add: switch(2) layout_def)
  qed
  then show "layout k' = layout k" "user_task (tcb_pool k t) \<Longrightarrow> user_task (tcb_pool k' t)" by blast+
qed

section \<open>From reset on\<close>

lemma main_protected:
  assumes heap: "boot_heap l m" and run: "main_start p u sy (reset_state l m) = Some (sy', c, k)"
  shows "protected k" "ld k = l" "\<exists>bs. stacks_laid 5 bs k \<and> kheap_wf bs k"
proof -
  have boot: "(\<exists>bs. stacks_laid 5 bs k \<and> kheap_wf bs k) \<and> (\<forall>t. flags (tcb_pool k t) = 0)"
    by (rule boot_start [OF heap, of p u sy]) (use run in auto)
  then show "\<exists>bs. stacks_laid 5 bs k \<and> kheap_wf bs k" by blast
  let ?f = "\<lambda>k. (mpu k, ld k)"
  have banner: "?f (crest_boot_banner j) = ?f j" for j
  proof -
    obtain v where "crest_boot_banner j = j\<lparr>uart_out := v\<rparr>" using banner_output by blast
    then show ?thesis by simp
  qed
  have "?f (fold clear_tcb ts j) = ?f j" "current_task (fold clear_tcb ts j) = current_task j" for ts j
    by (induction ts arbitrary: j) (simp_all add: clear_tcb_def upd_tcb_def)
  then have init: "?f (task_init j) = ?f j" "current_task (task_init j) = None" for j
    by (simp_all add: task_init_def scheduler_init_def)
  have create: "?f k2 = ?f k1 \<and> current_task k2 = current_task k1" if "task_create fn nm pr sz arg k1 = Some k2" for fn nm pr sz arg k1 k2
    using task_create_same [OF that] by simp
  have puts: "?f (uart_puts cs j) = ?f j" "current_task (uart_puts cs j) = current_task j" for cs j by (simp_all add: uart_puts_def)
  obtain u1 k1 where k1: "main_setup p u (reset_state l m) = Some (u1, k1)" "port_start_first_task sy k1 = Some (sy', c, k)"
    using run by (auto simp: main_start_def bind_eq_Some_conv)
  have "?f k1 = ?f (reset_state l m) \<and> current_task k1 = None"
    using k1(1) puts init banner by (auto simp: main_setup_def bind_eq_Some_conv Let_def dest!: create)
  then have f: "unused_regions (mpu k1)" "ld k1 = l" "current_task k1 = None"
    by (simp_all add: unused_regions_def reset_state_def boot_kernel_def)
  obtain t k2 where t: "scheduler_get_next k1 = Some (Some t, k2)"
    using k1(2) f(3) by (auto simp: port_start_first_task_def scheduler_get_current_def bind_eq_Some_conv)
  have k2: "protection k2 = protection k1" by (rule guard.view_get_next [OF t])
  obtain mp where mp: "port_mpu_configure_for_task (Some t) k2 = k2\<lparr>mpu := mp\<rparr>" using configure_frame by blast
  let ?k = "scheduler_set_current (Some t) (port_mpu_configure_for_task (Some t) k2)"
  have k: "k = (upd_tcb t (\<lambda>c. c\<lparr>tstate := TASK_RUNNING\<rparr>) ?k)\<lparr>control := 2, primask := 0\<rparr>"
    using k1(2) f(3) t by (auto simp: port_start_first_task_def scheduler_get_current_def bind_eq_Some_conv Let_def)
  have "flags (tcb_pool k2 t) = 0"
    using spec [OF conjunct2 [OF boot], of t] unfolding k mp by (simp add: scheduler_set_current_def upd_tcb_def)
  then have "protection k = protection (?k\<lparr>control := (if user_task (tcb_pool k2 t) then 3 else 2)\<rparr>)"
    unfolding k mp by (simp add: protection_def scheduler_set_current_def upd_tcb_def fun_eq_iff user_task_def)
  then show "protected k" by (intro entered_protected [of k2]) (use f(1) protection_eqD(1) [OF k2] in simp_all)
  show "ld k = l" unfolding k mp using f(2) protection_eqD(4) [OF k2] by (simp add: scheduler_set_current_def upd_tcb_def)
qed

lemma reachable_protected:
  assumes heap: "boot_heap l m" and r: "reachable p l m k"
  shows "protected k" "ld k = l" "\<And>t. t < 5 \<Longrightarrow> stack_ok (tcb_pool k t)"
    "\<And>t u. t < 5 \<Longrightarrow> u < 5 \<Longrightarrow> t \<noteq> u \<Longrightarrow> stack_region (tcb_pool k t) \<inter> stack_region (tcb_pool k u) = {}"
    "\<And>t b. t < 5 \<Longrightarrow> b \<in> stack_region (tcb_pool k t) \<Longrightarrow> heap_base (heap_start l) \<le> unat b \<and> unat b < unat (heap_end l)"
proof -
  obtain u sy sy' c k0 where k0: "main_start p u sy (reset_state l m) = Some (sy', c, k0)" "(step 0 4)\<^sup>*\<^sup>* k0 k"
    using r unfolding reachable_def by blast
  note boot = main_protected [OF heap k0(1)]
  have k: "protected k \<and> layout k = layout k0"
    using k0(2)
  proof (induction rule: rtranclp_induct)
    case (step k1 k2)
    then show ?case using step_protected step_layout(1) [OF step(2)] by simp
  qed (use boot in simp)
  note same = layout_eqD [OF conjunct2 [OF k]]
  show "protected k" "ld k = l" using k same(1) boot(2) by simp_all
  show "stack_ok (tcb_pool k t)" if "t < 5" for t using boot(3) that unfolding same stacks_laid_def by blast
  show "stack_region (tcb_pool k t) \<inter> stack_region (tcb_pool k u) = {}" if "t < 5" "u < 5" "t \<noteq> u" for t u
    using boot(3) that unfolding same stacks_laid_def by blast
  show "heap_base (heap_start l) \<le> unat b \<and> unat b < unat (heap_end l)" if "t < 5" "b \<in> stack_region (tcb_pool k t)" for t b
    using boot(2,3) that stacks_in_heap unfolding same kheap_base_def by blast
qed

text \<open>An aligned block is the region of its bytes.\<close>

lemma unat_power32: "n < 32 \<Longrightarrow> unat (2 ^ n :: u32) = 2 ^ n"
  using unat_of_nat32 [of "2 ^ n"] power_strict_increasing [of n 32 "2 :: nat"] by simp

lemma block_region:
  assumes "2 ^ n dvd unat a" "n < 32" shows "same_block n a b \<longleftrightarrow> b \<in> region a (2 ^ n)"
proof -
  obtain q where q: "unat a = 2 ^ n * q" using assms(1) by (elim dvdE)
  have p: "(4294967296 :: nat) = 2 ^ n * 2 ^ (32 - n)" using assms(2) by (simp flip: power_add)
  have "unat a < 4294967296" by simp
  then have "q < 2 ^ (32 - n)" unfolding q p by simp
  then have "2 ^ n * q + 2 ^ n \<le> 2 ^ n * 2 ^ (32 - n)" by (metis Suc_leI mult_Suc_right add.commute mult_le_mono2)
  then have top: "unat a + 2 ^ n \<le> 4294967296" unfolding q p .
  show ?thesis
  proof (cases "unat a \<le> unat b")
    case True
    then have "unat (b - a) = unat b - unat a" by (simp only: unat_sub_if' if_True)
    then show ?thesis using True by (simp add: same_block_aligned [OF assms(1)] region_def less_diff_conv2 add.commute)
  next
    case False
    then have "unat (b - a) = unat b + 4294967296 - unat a" by (simp add: unat_sub_if')
    then show ?thesis using False top by (simp add: same_block_aligned [OF assms(1)] region_def)
  qed
qed

lemma executing_task:
  assumes "boot_heap l m" "reachable p l m k" "executes c k" shows "c < 5"
proof -
  obtain W where inv: "kernel_inv 0 4 boot_lists W k" by (rule reachable_inv [OF assms(1,2)])
  have "set (all_tasks boot_lists) = {0, 1, 2, 3, 4}" by (auto simp: all_tasks_def boot_lists_def upt_rec)
  moreover have "c \<in> set (all_tasks boot_lists)"
    using kernel_invD(5) [OF inv] assms(3) unfolding running_ok_def executes_def by auto
  ultimately show ?thesis by auto
qed

lemma isolation:
  assumes "boot_heap l m" "reachable p l m k" "executes c k"
    and "user_heap_end l - user_heap_start l = 2 ^ u" "5 \<le> u" "u < 32" "user_heap_start l < user_heap_end l"
    and "0x20000000 \<le> unat b" "unat b < 0x20020000"
  shows "(port_is_privileged k \<longleftrightarrow> \<not> user_task (tcb_pool k c)) \<and>
    (user_may_write (mpu k) b \<longleftrightarrow> \<not> same_block 8 (guard_start (stack_base (tcb_pool k c))) b \<and>
       (same_block u (user_heap_start l) b \<or> b \<in> stack_region (tcb_pool k c))) \<and>
    (\<forall>t < 5. t \<noteq> c \<and> b \<in> stack_region (tcb_pool k t) \<and> \<not> same_block u (user_heap_start l) b \<longrightarrow> \<not> user_may_write (mpu k) b)"
proof -
  note r = reachable_protected [OF assms(1,2)]
  have cur: "current_task k = Some c" using assms(3) by (simp add: executes_def)
  have c: "c < 5" by (rule executing_task [OF assms(1-3)])
  obtain n where n: "5 \<le> n" "n < 32" "stack_size (tcb_pool k c) = 2 ^ n" "2 ^ n dvd unat (stack_base (tcb_pool k c))" "stack_base (tcb_pool k c) \<noteq> 0"
    using r(3) [OF c] unfolding stack_ok_def by blast
  obtain k0 where k0: "mpu k = mpu (port_mpu_configure_for_task (Some c) k0)" "unused_regions (mpu k0)" "ld k0 = l"
    "stack_base (tcb_pool k0 c) = stack_base (tcb_pool k c)" "stack_size (tcb_pool k0 c) = stack_size (tcb_pool k c)"
  proof -
    have "guards c k" using r(1) cur unfolding protected_def by blast
    then show thesis using that unfolding guards_def r(2) by blast
  qed
  have d: "mpu_describable (tcb_pool k0 c) n" using n by (simp add: mpu_describable_def k0)
  have ram: "same_block 17 0x20000000 b" using assms(8,9) by (subst same_block_aligned) simp_all
  have off: "r \<in> {4, 5, 6} \<Longrightarrow> \<not> bit (mpu_rasr (mpu k0) r) 0" for r using k0(2) unfolding unused_regions_def by blast
  have own: "same_block n (stack_base (tcb_pool k c)) b \<longleftrightarrow> b \<in> stack_region (tcb_pool k c)"
    using block_region [OF n(4,2)] n(2) by (simp add: stack_region_def n(3) unat_power32)
  note perm = mpu_ram_permission [OF d _ assms(5,6) _ off ram, unfolded k0(3,4), OF assms(4,7), folded k0(1), unfolded own]
  have may: "user_may_write (mpu k) b \<longleftrightarrow> \<not> same_block 8 (guard_start (stack_base (tcb_pool k c))) b \<and>
       (same_block u (user_heap_start l) b \<or> b \<in> stack_region (tcb_pool k c))"
    using perm by (simp add: user_may_write_def)
  moreover have "port_is_privileged k \<longleftrightarrow> \<not> user_task (tcb_pool k c)" using r(1) cur by (simp add: protected_def)
  ultimately show ?thesis using r(4) [OF _ c] by blast
qed

text \<open>
  A layout in the order of \<open>kernel.ld\<close>: the static data of the kernel, with the pool of the control blocks, the
  user heap, the kernel heap with the stacks.  Unlike \<open>kernel.ld\<close>'s, the user heap is aligned to its size, so
  that its region of the protection unit is the user heap and no more.
\<close>

definition aligned_layout :: "linker \<Rightarrow> nat \<Rightarrow> bool" where
  "aligned_layout l u \<longleftrightarrow> user_heap_end l - user_heap_start l = 2 ^ u \<and> 5 \<le> u \<and> u < 32 \<and> 2 ^ u dvd unat (user_heap_start l) \<and>
     0x20000000 \<le> unat (tcb_pool_addr l) \<and> unat (tcb_pool_addr l) + 68 * MAX_TASKS \<le> unat (user_heap_start l) \<and>
     unat (user_heap_start l) + 2 ^ u \<le> heap_base (heap_start l) \<and> unat (heap_end l) \<le> 0x20020000"

lemma aligned_layoutD:
  assumes "aligned_layout l u"
  shows "user_heap_end l - user_heap_start l = 2 ^ u" "5 \<le> u" "u < 32" "user_heap_start l < user_heap_end l"
    "same_block u (user_heap_start l) b \<longleftrightarrow> b \<in> region (user_heap_start l) (2 ^ u)"
    "b \<in> region (user_heap_start l) (2 ^ u) \<Longrightarrow> unat (user_heap_start l) \<le> unat b \<and> unat b < heap_base (heap_start l)"
    "0x20000000 \<le> heap_base (heap_start l)"
proof -
  note a = assms [unfolded aligned_layout_def]
  show size: "user_heap_end l - user_heap_start l = 2 ^ u" and u: "5 \<le> u" "u < 32" using a by blast+
  show "0x20000000 \<le> heap_base (heap_start l)" using a by linarith
  have top: "unat (user_heap_start l) + 2 ^ u < 4294967296" using a unat_u32_lt [of "(heap_start l + ALIGN_MASK) AND NOT ALIGN_MASK"] unfolding heap_base_def by linarith
  have "user_heap_end l = user_heap_start l + 2 ^ u" using size by (metis add.commute diff_add_cancel)
  moreover have "unat (user_heap_start l + 2 ^ u) = unat (user_heap_start l) + 2 ^ u"
    using top unat_power32 [OF u(2)] by (subst unat_add_lem [THEN iffD1]) simp_all
  ultimately show "user_heap_start l < user_heap_end l" by (simp add: word_less_nat_alt)
  show block: "same_block u (user_heap_start l) b \<longleftrightarrow> b \<in> region (user_heap_start l) (2 ^ u)"
    by (rule block_region) (use a in blast)+
  have "2 ^ u dvd unat (user_heap_start l)" using a by blast
  show "unat (user_heap_start l) \<le> unat b \<and> unat b < heap_base (heap_start l)" if "b \<in> region (user_heap_start l) (2 ^ u)"
    using that a same_block_aligned [OF \<open>2 ^ u dvd unat (user_heap_start l)\<close>, of b] unfolding block [symmetric] by linarith
qed

lemma aligned_isolation:
  assumes "boot_heap l m" "reachable p l m k" "executes c k" "aligned_layout l u"
  shows "(port_is_privileged k \<longleftrightarrow> \<not> user_task (tcb_pool k c)) \<and>
    (\<forall>b. 0x20000000 \<le> unat b \<and> unat b < 0x20020000 \<longrightarrow>
       (user_may_write (mpu k) b \<longleftrightarrow> \<not> same_block 8 (guard_start (stack_base (tcb_pool k c))) b \<and>
          (b \<in> region (user_heap_start l) (2 ^ u) \<or> b \<in> stack_region (tcb_pool k c)))) \<and>
    (\<forall>t < 5. t \<noteq> c \<longrightarrow> (\<forall>b \<in> stack_region (tcb_pool k t). \<not> user_may_write (mpu k) b)) \<and>
    (\<forall>b. 0x20000000 \<le> unat b \<and> unat b < unat (user_heap_start l) \<longrightarrow> \<not> user_may_write (mpu k) b)"
proof -
  note lay = aligned_layoutD [OF assms(4)]
  note r = reachable_protected [OF assms(1,2)]
  have iso: "(port_is_privileged k \<longleftrightarrow> \<not> user_task (tcb_pool k c))"
    "user_may_write (mpu k) b \<longleftrightarrow> \<not> same_block 8 (guard_start (stack_base (tcb_pool k c))) b \<and>
       (b \<in> region (user_heap_start l) (2 ^ u) \<or> b \<in> stack_region (tcb_pool k c))"
    if "0x20000000 \<le> unat b" "unat b < 0x20020000" for b
    using isolation [OF assms(1-3) lay(1-4) that] unfolding lay(5) by blast+
  have c: "c < 5" by (rule executing_task [OF assms(1-3)])
  have ram: "0x20000000 \<le> unat b \<and> unat b < 0x20020000 \<and> b \<notin> region (user_heap_start l) (2 ^ u)"
    if "t < 5" "b \<in> stack_region (tcb_pool k t)" for t b
    using r(5) [OF that] lay(6) [of b] lay(7) assms(4) unfolding aligned_layout_def by force
  have priv: "port_is_privileged k \<longleftrightarrow> \<not> user_task (tcb_pool k c)" by (rule iso(1) [of "0x20000000"]) simp_all
  have stacks: "\<not> user_may_write (mpu k) b" if "t < 5" "t \<noteq> c" "b \<in> stack_region (tcb_pool k t)" for t b
    using iso(2) [of b] ram [OF that(1,3)] r(4) [OF that(1) c that(2)] that(3) by blast
  have data: "\<not> user_may_write (mpu k) b" if "0x20000000 \<le> unat b" "unat b < unat (user_heap_start l)" for b
  proof -
    have low: "unat b < heap_base (heap_start l)" "unat b < 0x20020000"
    proof -
      have "stack_base (tcb_pool k c) \<in> stack_region (tcb_pool k c)"
        using r(3) [OF c] by (auto simp: stack_ok_def stack_region_def unat_power32)
      then have "heap_base (heap_start l) < unat (heap_end l)" using r(5) [OF c] by fastforce
      then show "unat b < heap_base (heap_start l)" "unat b < 0x20020000" using that(2) assms(4) unfolding aligned_layout_def by linarith+
    qed
    then show ?thesis using iso(2) [OF that(1) low(2)] lay(6) [of b] r(5) [OF c, of b] that(2) by force
  qed
  show ?thesis using priv iso(2) stacks data by blast
qed

text \<open>
  C5. Isolation of the running task, on an aligned layout.  In every state the kernel reaches while a task
  executes, the processor is unprivileged exactly if the kernel has recorded for that task that it gave up its
  privilege; an unprivileged access may write a byte of RAM exactly when it is in the user heap or the task's
  own stack and not in the guard below the stack; so it can write neither the stack of another task, as
  \<open>task_mpu_probe\<close> tries, nor the kernel's static data below the user heap, the control blocks among it.  The
  layout of \<open>kernel.ld\<close> is not aligned, and there the static data is exposed (\<open>mpu_exposes_kernel_data\<close>).
  The control blocks are tables of the model, which only the kernel's operations change: what the kernel itself
  stores through an unchecked pointer of a request (\<open>kwork.c:115\<close>) is outside this claim.
\<close>

theorem running_isolated:
  assumes "boot_heap l m" "reachable p l m k" "executes c k" "aligned_layout l u"
  shows "(port_is_privileged k \<longleftrightarrow> \<not> user_task (tcb_pool k c)) \<and>
    (\<forall>b. 0x20000000 \<le> unat b \<and> unat b < 0x20020000 \<longrightarrow>
       (user_may_write (mpu k) b \<longleftrightarrow> \<not> same_block 8 (guard_start (stack_base (tcb_pool k c))) b \<and>
          (b \<in> region (user_heap_start l) (2 ^ u) \<or> b \<in> stack_region (tcb_pool k c)))) \<and>
    (\<forall>t < 5. t \<noteq> c \<longrightarrow> (\<forall>b \<in> stack_region (tcb_pool k t). \<not> user_may_write (mpu k) b)) \<and>
    (\<forall>b. 0x20000000 \<le> unat b \<and> unat b < unat (user_heap_start l) \<longrightarrow> \<not> user_may_write (mpu k) b)"
  by (rule aligned_isolation [OF assms])

lemma demo_board_aligned: "aligned_layout demo_board 6"
  by (simp add: aligned_layout_def demo_board_def demo_linker_def heap_base_def)

theorem running_isolated_witness:
  "\<exists>k. reachable demo_program demo_board (\<lambda>_. 0) k \<and> executes 1 k \<and> (port_is_privileged k \<longleftrightarrow> \<not> user_task (tcb_pool k 1)) \<and>
     \<not> user_may_write (mpu k) 0x20000054"
proof -
  obtain k where k: "reachable demo_program demo_board (\<lambda>_. 0) k" "executes 1 k" by (rule demo_producer)
  note iso = running_isolated [OF demo_board_heap k demo_board_aligned]
  have "\<not> user_may_write (mpu k) 0x20000054"
    by (rule iso [THEN conjunct2, THEN conjunct2, THEN conjunct2, rule_format]) (simp add: demo_board_def demo_linker_def)
  then show ?thesis using iso k by blast
qed

end
