(* ===== verification/Demo.thy ===== *)
theory Demo
  imports Isolation Snprintf
begin

text \<open>
  The demonstration of \<open>src/main.c\<close>: the bodies of its tasks as programs that run on the kernel of \<open>System\<close>,
  one action at a time, and the protocol they follow.
\<close>

section \<open>The programs\<close>

text \<open>The shared handles, and the pointer the consumer publishes.\<close>

record globals =
  g_qh :: u32
  g_semh :: u32
  g_mh :: u32
  g_consumer_stack_probe :: u32

definition init_globals :: globals where
  "init_globals = \<lparr>g_qh = KOBJ_INVALID, g_semh = KOBJ_INVALID, g_mh = KOBJ_INVALID, g_consumer_stack_probe = 0\<rparr>"

datatype variable = V_qh | V_semh | V_mh | V_probe

text \<open>
  The addresses of the literals, of these variables, and of the local variables \<open>msg\<close>, \<open>buf\<close> and \<open>stack_canary\<close>.
\<close>

record places =
  lit :: "string \<Rightarrow> u32"
  var :: "variable \<Rightarrow> u32"
  msg :: u32
  buf :: u32
  stack_canary :: u32

text \<open>
  What a task does next: print a literal directly, call the kernel, give up its privilege, call
  \<open>snprintf\<close>, store a word, assign to a shared variable, or compute.
\<close>

datatype action = Put string | Api request | Drop | Format u32 u32 u32 "u32 list" | Store u32 u32 | Assign variable | Local

definition line :: "string \<Rightarrow> string" where
  "line s = s @ [CHR 0x0D, CHR 0x0A]"

definition say :: "places \<Rightarrow> string \<Rightarrow> action" where
  "say y s = Api (Uart_write (lit y s))"

text \<open>\<open>task_producer\<close>: where it stands, with the values of \<open>i\<close> and \<open>r\<close> where they are live.\<close>

datatype producer = P_init | P_dropping | P_drop | P_queue_create | P_set_qh u32 | P_test_qh
  | P_sem_create | P_set_semh u32 | P_test_semh | P_mutex_create | P_set_mh u32 | P_test_mh | P_failed string | P_halt
  | P_created | P_lock u32 | P_format u32 | P_push u32 | P_unlock u32 u32 | P_pushed u32 | P_text u32 | P_end u32
  | P_full u32 | P_give u32 | P_delay u32

fun producer_action :: "places \<Rightarrow> globals \<Rightarrow> producer \<Rightarrow> action" where
  "producer_action y g P_init = Put (line ''[producer] init (privileged)'')"
| "producer_action y g P_dropping = Put (line ''[producer] dropping to unprivileged'')"
| "producer_action y g P_drop = Drop"
| "producer_action y g P_queue_create = Api (Queue_create 8 32)"
| "producer_action y g (P_set_qh r) = Assign V_qh"
| "producer_action y g P_test_qh = Local"
| "producer_action y g P_sem_create = Api (Sem_create 0)"
| "producer_action y g (P_set_semh r) = Assign V_semh"
| "producer_action y g P_test_semh = Local"
| "producer_action y g P_mutex_create = Api Mutex_create"
| "producer_action y g (P_set_mh r) = Assign V_mh"
| "producer_action y g P_test_mh = Local"
| "producer_action y g (P_failed s) = say y (line s)"
| "producer_action y g P_halt = Api (Delay 1000)"
| "producer_action y g P_created = say y (line ''[producer] primitives created from user mode'')"
| "producer_action y g (P_lock i) = Api (Mutex_lock (g_mh g) CREST_WAIT_FOREVER)"
| "producer_action y g (P_format i) = Format (msg y) 32 (lit y ''item-%d'') [i]"
| "producer_action y g (P_push i) = Api (Queue_push (g_qh g) (msg y) 0)"
| "producer_action y g (P_unlock i r) = Api (Mutex_unlock (g_mh g))"
| "producer_action y g (P_pushed i) = say y ''[producer] pushed: ''"
| "producer_action y g (P_text i) = Api (Uart_write (msg y))"
| "producer_action y g (P_end i) = say y (line '''')"
| "producer_action y g (P_full i) = say y (line ''[producer] queue full, dropping'')"
| "producer_action y g (P_give i) = Api (Sem_give (g_semh g))"
| "producer_action y g (P_delay i) = Api (Delay 500)"

text \<open>What follows the action, given its result, with the variables it assigns.  A handle is stored, and read again to be tested.\<close>

fun producer_next :: "u32 \<Rightarrow> globals \<Rightarrow> producer \<Rightarrow> globals \<times> producer" where
  "producer_next r g P_init = (g, P_dropping)"
| "producer_next r g P_dropping = (g, P_drop)"
| "producer_next r g P_drop = (g, P_queue_create)"
| "producer_next r g P_queue_create = (g, P_set_qh r)"
| "producer_next r g (P_set_qh h) = (g\<lparr>g_qh := h\<rparr>, P_test_qh)"
| "producer_next r g P_test_qh = (g, if g_qh g = KOBJ_INVALID then P_failed ''[producer] queue_create FAILED'' else P_sem_create)"
| "producer_next r g P_sem_create = (g, P_set_semh r)"
| "producer_next r g (P_set_semh h) = (g\<lparr>g_semh := h\<rparr>, P_test_semh)"
| "producer_next r g P_test_semh = (g, if g_semh g = KOBJ_INVALID then P_failed ''[producer] sem_create FAILED'' else P_mutex_create)"
| "producer_next r g P_mutex_create = (g, P_set_mh r)"
| "producer_next r g (P_set_mh h) = (g\<lparr>g_mh := h\<rparr>, P_test_mh)"
| "producer_next r g P_test_mh = (g, if g_mh g = KOBJ_INVALID then P_failed ''[producer] mutex_create FAILED'' else P_created)"
| "producer_next r g (P_failed s) = (g, P_halt)"
| "producer_next r g P_halt = (g, P_halt)"
| "producer_next r g P_created = (g, P_lock 0)"
| "producer_next r g (P_lock i) = (g, P_format i)"
| "producer_next r g (P_format i) = (g, P_push i)"
| "producer_next r g (P_push i) = (g, P_unlock i r)"
| "producer_next r g (P_unlock i q) = (g, if q = 0 then P_pushed i else P_full i)"
| "producer_next r g (P_pushed i) = (g, P_text i)"
| "producer_next r g (P_text i) = (g, P_end i)"
| "producer_next r g (P_end i) = (g, P_give i)"
| "producer_next r g (P_full i) = (g, P_give i)"
| "producer_next r g (P_give i) = (g, P_delay i)"
| "producer_next r g (P_delay i) = (g, P_lock (i + 1))"

text \<open>\<open>task_consumer\<close>.  The condition of its first loop reads the three handles one after the other.\<close>

datatype consumer = C_init | C_read_qh | C_read_semh | C_read_mh | C_spin | C_dropping | C_canary | C_publish | C_drop
  | C_take | C_lock | C_pop | C_unlock u32 | C_received | C_text | C_end | C_empty

fun consumer_action :: "places \<Rightarrow> globals \<Rightarrow> consumer \<Rightarrow> action" where
  "consumer_action y g C_init = Put (line ''[consumer] waiting for handles'')"
| "consumer_action y g C_read_qh = Local"
| "consumer_action y g C_read_semh = Local"
| "consumer_action y g C_read_mh = Local"
| "consumer_action y g C_spin = Api (Delay 10)"
| "consumer_action y g C_dropping = Put (line ''[consumer] dropping to unprivileged'')"
| "consumer_action y g C_canary = Store (stack_canary y) 0xCAFEBABE"
| "consumer_action y g C_publish = Assign V_probe"
| "consumer_action y g C_drop = Drop"
| "consumer_action y g C_take = Api (Sem_take (g_semh g) CREST_WAIT_FOREVER)"
| "consumer_action y g C_lock = Api (Mutex_lock (g_mh g) CREST_WAIT_FOREVER)"
| "consumer_action y g C_pop = Api (Queue_pop (g_qh g) (buf y) 0)"
| "consumer_action y g (C_unlock r) = Api (Mutex_unlock (g_mh g))"
| "consumer_action y g C_received = say y ''[consumer] received: ''"
| "consumer_action y g C_text = Api (Uart_write (buf y))"
| "consumer_action y g C_end = say y (line '''')"
| "consumer_action y g C_empty = say y (line ''[consumer] queue empty after signal'')"

fun consumer_next :: "places \<Rightarrow> u32 \<Rightarrow> globals \<Rightarrow> consumer \<Rightarrow> globals \<times> consumer" where
  "consumer_next y r g C_init = (g, C_read_qh)"
| "consumer_next y r g C_read_qh = (g, if g_qh g = KOBJ_INVALID then C_spin else C_read_semh)"
| "consumer_next y r g C_read_semh = (g, if g_semh g = KOBJ_INVALID then C_spin else C_read_mh)"
| "consumer_next y r g C_read_mh = (g, if g_mh g = KOBJ_INVALID then C_spin else C_dropping)"
| "consumer_next y r g C_spin = (g, C_read_qh)"
| "consumer_next y r g C_dropping = (g, C_canary)"
| "consumer_next y r g C_canary = (g, C_publish)"
| "consumer_next y r g C_publish = (g\<lparr>g_consumer_stack_probe := stack_canary y\<rparr>, C_drop)"
| "consumer_next y r g C_drop = (g, C_take)"
| "consumer_next y r g C_take = (g, C_lock)"
| "consumer_next y r g C_lock = (g, C_pop)"
| "consumer_next y r g C_pop = (g, C_unlock r)"
| "consumer_next y r g (C_unlock q) = (g, if q = 0 then C_received else C_empty)"
| "consumer_next y r g C_received = (g, C_text)"
| "consumer_next y r g C_text = (g, C_end)"
| "consumer_next y r g C_end = (g, C_take)"
| "consumer_next y r g C_empty = (g, C_take)"

text \<open>\<open>task_mpu_probe\<close>.\<close>

datatype probe = M_init | M_read | M_spin | M_dropping | M_drop | M_attempt | M_store | M_error | M_halt

fun probe_action :: "places \<Rightarrow> globals \<Rightarrow> probe \<Rightarrow> action" where
  "probe_action y g M_init = Put (line ''[mpu_probe] waiting for consumer stack address...'')"
| "probe_action y g M_read = Local"
| "probe_action y g M_spin = Api (Delay 50)"
| "probe_action y g M_dropping = Put (line ''[mpu_probe] got consumer stack addr, dropping to unprivileged'')"
| "probe_action y g M_drop = Drop"
| "probe_action y g M_attempt = say y (line ''[mpu_probe] attempting illegal write to consumer stack...'')"
| "probe_action y g M_store = Store (g_consumer_stack_probe g) 0xDEADBEEF"
| "probe_action y g M_error = say y (line ''[mpu_probe] ERROR: write was NOT caught by MPU!'')"
| "probe_action y g M_halt = Api (Delay 1000)"

fun probe_next :: "globals \<Rightarrow> probe \<Rightarrow> probe" where
  "probe_next g M_init = M_read"
| "probe_next g M_read = (if g_consumer_stack_probe g = 0 then M_spin else M_dropping)"
| "probe_next g M_spin = M_read"
| "probe_next g M_dropping = M_drop"
| "probe_next g M_drop = M_attempt"
| "probe_next g M_attempt = M_store"
| "probe_next g M_store = M_error"
| "probe_next g M_error = M_halt"
| "probe_next g M_halt = M_halt"

text \<open>\<open>idle_task\<close> sleeps until the next interrupt, for ever.\<close>

datatype point = Producer producer | Consumer consumer | Probe probe | Idle_task

fun act :: "places \<Rightarrow> globals \<Rightarrow> point \<Rightarrow> action" where
  "act y g (Producer p) = producer_action y g p"
| "act y g (Consumer p) = consumer_action y g p"
| "act y g (Probe p) = probe_action y g p"
| "act y g Idle_task = Local"

fun after :: "places \<Rightarrow> u32 \<Rightarrow> globals \<Rightarrow> point \<Rightarrow> globals \<times> point" where
  "after y r g (Producer p) = map_prod id Producer (producer_next r g p)"
| "after y r g (Consumer p) = map_prod id Consumer (consumer_next y r g p)"
| "after y r g (Probe p) = (g, Probe (probe_next g p))"
| "after y r g Idle_task = (g, Idle_task)"

text \<open>The shared variables that are read for the action.\<close>

fun reads :: "point \<Rightarrow> variable list" where
  "reads (Producer p) = (case p of P_test_qh \<Rightarrow> [V_qh] | P_test_semh \<Rightarrow> [V_semh] | P_test_mh \<Rightarrow> [V_mh]
     | P_lock i \<Rightarrow> [V_mh] | P_push i \<Rightarrow> [V_qh] | P_unlock i r \<Rightarrow> [V_mh] | P_give i \<Rightarrow> [V_semh] | _ \<Rightarrow> [])"
| "reads (Consumer p) = (case p of C_read_qh \<Rightarrow> [V_qh] | C_read_semh \<Rightarrow> [V_semh] | C_read_mh \<Rightarrow> [V_mh]
     | C_take \<Rightarrow> [V_semh] | C_lock \<Rightarrow> [V_mh] | C_pop \<Rightarrow> [V_qh] | C_unlock r \<Rightarrow> [V_mh] | _ \<Rightarrow> [])"
| "reads (Probe p) = (if p \<in> {M_read, M_store} then [V_probe] else [])"
| "reads Idle_task = []"

section \<open>Running the programs\<close>

text \<open>
  A task stands before an action, is inside a trap whose frame is at an address, or inside a call that blocked.
\<close>

datatype thread = At point | In_trap u32 point | In_call point

fun point_of :: "thread \<Rightarrow> point" where
  "point_of (At p) = p"
| "point_of (In_trap f p) = p"
| "point_of (In_call p) = p"

record demo =
  kern :: kernel
  shared :: globals
  threads :: "tcb_ptr \<Rightarrow> thread"
  halted :: bool

text \<open>\<open>main\<close> creates the worker, the producer, the consumer, the probe and the idle task, in this order.\<close>

definition demo_start :: "kernel \<Rightarrow> demo" where
  "demo_start k = \<lparr>kern = k, shared = init_globals,
     threads = (\<lambda>_. At Idle_task)(1 := At (Producer P_init), 2 := At (Consumer C_init), 3 := At (Probe M_init)), halted = False\<rparr>"

definition advance :: "places \<Rightarrow> tcb_ptr \<Rightarrow> point \<Rightarrow> u32 \<Rightarrow> kernel \<Rightarrow> demo \<Rightarrow> demo" where
  "advance y c p r k d = (let (g, q) = after y r (shared d) p in d\<lparr>kern := k, shared := g, threads := (threads d)(c := At q)\<rparr>)"

definition running :: "demo \<Rightarrow> tcb_ptr \<Rightarrow> thread \<Rightarrow> bool" where
  "running d c t \<longleftrightarrow> \<not> halted d \<and> executes c (kern d) \<and> c \<in> {1, 2, 3, 4} \<and> threads d c = t"

text \<open>The steps that are not a task's.\<close>

inductive os_step :: "kernel \<Rightarrow> kernel \<Rightarrow> bool" where
  os_start: "executes 0 k \<Longrightarrow> kernel_tcb k = None \<Longrightarrow> os_step k (kernel_task_start k)"
| os_serve: "executes 0 k \<Longrightarrow> kernel_tcb k = Some 0 \<Longrightarrow> kwork_take k = (Some w, k1) \<Longrightarrow>
    dispatch w k1 = Some k' \<Longrightarrow> (creates (wi_id w) \<Longrightarrow> objects_kept k1 k') \<Longrightarrow> os_step k k'"
| os_park: "executes 0 k \<Longrightarrow> kernel_tcb k = Some 0 \<Longrightarrow> kwork_take k = (None, k1) \<Longrightarrow>
    os_step k (port_trigger_pendsv (upd_tcb 0 (\<lambda>c. c\<lparr>tstate := TASK_WAITING\<rparr>) k1))"
| os_tick: "SysTick_Handler k = Some k' \<Longrightarrow> os_step k k'"
| os_switch: "pendsv k \<Longrightarrow> PendSV_Handler regs k = Some (Resume regs' k') \<Longrightarrow> os_step k (k'\<lparr>pendsv := False\<rparr>)"

text \<open>
  The accesses to memory of an action: the shared variables it reads, then what it stores.  The accesses of a
  privileged task are made; those of an unprivileged one if the protection unit allows each of them, and
  otherwise the fault handler prints its message and stops the machine.
\<close>

datatype access = Read u32 nat | Write u32 nat

fun access_addr :: "access \<Rightarrow> u32" where
  "access_addr (Read a n) = a"
| "access_addr (Write a n) = a"

fun faults :: "kernel \<Rightarrow> access \<Rightarrow> bool" where
  "faults k (Read a n) \<longleftrightarrow> \<not> port_is_privileged k \<and> (\<exists>b \<in> region a n. \<not> user_may_read (mpu k) b)"
| "faults k (Write a n) \<longleftrightarrow> \<not> port_is_privileged k \<and> (\<exists>b \<in> region a n. \<not> user_may_write (mpu k) b)"

definition accesses :: "places \<Rightarrow> globals \<Rightarrow> point \<Rightarrow> access list" where
  "accesses y g p = map (\<lambda>v. Read (var y v) 4) (reads p) @ (case act y g p of
     Store a v \<Rightarrow> [Write a 4] | Assign v \<Rightarrow> [Write (var y v) 4]
   | Format a n fmt args \<Rightarrow> map (\<lambda>i. Write (a + of_nat i) 1) [0..<unat n] | _ \<Rightarrow> [])"

definition ready :: "places \<Rightarrow> demo \<Rightarrow> tcb_ptr \<Rightarrow> point \<Rightarrow> bool" where
  "ready y d c p \<longleftrightarrow> running d c (At p) \<and> (\<forall>x \<in> set (accesses y (shared d) p). \<not> faults (kern d) x)"

definition may_store :: "kernel \<Rightarrow> u32 \<Rightarrow> bool" where
  "may_store k a \<longleftrightarrow> port_is_privileged k \<or> (\<forall>b \<in> region a 4. user_may_write (mpu k) b)"

text \<open>A call that blocks is one with a timeout, which the demonstration makes of semaphores and mutexes only.\<close>

inductive demo_step :: "places \<Rightarrow> demo \<Rightarrow> demo \<Rightarrow> bool" for y where
  system: "\<not> halted d \<Longrightarrow> os_step (kern d) k \<Longrightarrow> demo_step y d (d\<lparr>kern := k\<rparr>)"
| put: "ready y d c p \<Longrightarrow> act y (shared d) p = Put s \<Longrightarrow> demo_step y d (advance y c p 0 (uart_puts (ascii s) (kern d)) d)"
| local: "ready y d c p \<Longrightarrow> act y (shared d) p = Local \<Longrightarrow> demo_step y d (advance y c p 0 (kern d) d)"
| assign: "ready y d c p \<Longrightarrow> act y (shared d) p = Assign v \<Longrightarrow> demo_step y d (advance y c p 0 (kern d) d)"
| unprivilege: "ready y d c p \<Longrightarrow> act y (shared d) p = Drop \<Longrightarrow>
    demo_step y d (advance y c p 0 (port_set_unprivileged (kern d)) d)"
| format: "ready y d c p \<Longrightarrow> act y (shared d) p = Format a n fmt args \<Longrightarrow>
    snprintf a n fmt args (mem (kern d)) = Some (r, m) \<Longrightarrow> demo_step y d (advance y c p r ((kern d)\<lparr>mem := m\<rparr>) d)"
| store: "ready y d c p \<Longrightarrow> act y (shared d) p = Store a v \<Longrightarrow>
    demo_step y d (advance y c p 0 ((kern d)\<lparr>mem := store32 (mem (kern d)) a v\<rparr>) d)"
| fault: "running d c (At p) \<Longrightarrow> x \<in> set (accesses y (shared d) p) \<Longrightarrow> faults (kern d) x \<Longrightarrow>
    MemManage_Handler psp cfsr (access_addr x) (kern d) = Some k \<Longrightarrow> demo_step y d (d\<lparr>kern := k, halted := True\<rparr>)"
| called: "ready y d c p \<Longrightarrow> act y (shared d) p = Api rq \<Longrightarrow> invoke rq (kern d) = Some (Called (Return r) k) \<Longrightarrow>
    (creating rq \<Longrightarrow> objects_kept (kern d) k) \<Longrightarrow> demo_step y d (advance y c p r k d)"
| blocks: "ready y d c p \<Longrightarrow> act y (shared d) p = Api rq \<Longrightarrow> invoke rq (kern d) = Some (Called Suspend k) \<Longrightarrow>
    (creating rq \<Longrightarrow> objects_kept (kern d) k) \<Longrightarrow> demo_step y d (d\<lparr>kern := k, threads := (threads d)(c := In_call p)\<rparr>)"
| resumes: "running d c (In_call p) \<Longrightarrow> timed_resume c (kern d) = (r, k) \<Longrightarrow> demo_step y d (advance y c p r k d)"
| traps: "ready y d c p \<Longrightarrow> act y (shared d) p = Api rq \<Longrightarrow> invoke rq (kern d) = Some (Trapped i a0 a1 a2 a3) \<Longrightarrow>
    exception_entry (port_syscall_invoke i a0 a1 a2 a3 regs) psr (mem (kern d)) = (f, m) \<Longrightarrow>
    demo_step y d (d\<lparr>kern := SVC_Handler 0xFFFFFFFD msp f ((kern d)\<lparr>mem := m\<rparr>), threads := (threads d)(c := In_trap f p)\<rparr>)"
| returns: "running d c (In_trap f p) \<Longrightarrow> demo_step y d (advance y c p (load32 (mem (kern d)) f) (kern d) d)"

section \<open>The demonstration runs on the system\<close>

lemma os_step_step: "os_step k k' \<Longrightarrow> step 0 4 k k'"
  by (cases rule: os_step.cases) (auto intro: step.intros)

lemma advance_simps [simp]:
  "kern (advance y c p r k d) = k" "halted (advance y c p r k d) = halted d"
  "shared (advance y c p r k d) = fst (after y r (shared d) p)"
  "threads (advance y c p r k d) = (threads d)(c := At (snd (after y r (shared d) p)))"
  by (simp_all add: advance_def case_prod_beta)

lemma ready_running: "ready y d c p \<Longrightarrow> running d c (At p)"
  by (simp add: ready_def)

lemma ready_store: "ready y d c p \<Longrightarrow> act y (shared d) p = Store a v \<Longrightarrow> may_store (kern d) a"
  by (auto simp: ready_def accesses_def may_store_def)

lemma demo_step_halted: "demo_step y d d' \<Longrightarrow> \<not> halted d"
  by (induction rule: demo_step.induct) (auto simp: ready_def running_def)

text \<open>Until a fault stops the machine, each step of the demonstration is a step of the system or leaves the kernel as it is.\<close>

lemma demo_step_step:
  assumes st: "demo_step y d d'" and idle: "threads d 4 = At Idle_task" and h: "\<not> halted d'"
  shows "kern d' = kern d \<or> step 0 4 (kern d) (kern d')"
proof -
  have user: "executes c (kern d) \<and> c \<notin> {0, 4}" if "running d c t" "act y (shared d) (point_of t) = Api rq" for c t rq
    using that idle by (auto simp: running_def)
  show ?thesis
    using st
  proof cases
    case (system k)
    then show ?thesis using os_step_step by simp
  next
    case (put c p s)
    then show ?thesis using step.print [of c "kern d"] by (auto simp: ready_def running_def uart_puts_def)
  next
    case (local c p)
    then show ?thesis by simp
  next
    case (assign c p v)
    then show ?thesis by simp
  next
    case (unprivilege c p)
    then show ?thesis using step.drop [of c "kern d"] by (auto simp: ready_def running_def)
  next
    case (format c p a n fmt args r m)
    then show ?thesis using step.compute [of c "kern d"] by (auto simp: ready_def running_def)
  next
    case (store c p a v)
    then show ?thesis using step.compute [of c "kern d"] by (auto simp: ready_def running_def)
  next
    case (fault c p x psp cfsr k)
    then show ?thesis using h by simp
  next
    case (called c p rq r k)
    then show ?thesis using step.call [of c "kern d" 0 4 rq "Return r" k] user [OF ready_running [OF called(2)]] by auto
  next
    case (blocks c p rq k)
    then show ?thesis using step.call [of c "kern d" 0 4 rq Suspend k] user [OF ready_running [OF blocks(2)]] by auto
  next
    case (resumes c p r k)
    then show ?thesis using step.resume [of c "kern d" 0 4 r k] idle by (auto simp: running_def)
  next
    case (traps c p rq i a0 a1 a2 a3 regs psr f m msp)
    then show ?thesis
      using step.trap [of c "kern d" 0 4 "port_syscall_invoke i a0 a1 a2 a3 regs" psr f m msp] user [OF ready_running [OF traps(2)]] by auto
  next
    case (returns c f p)
    then show ?thesis by simp
  qed
qed

section \<open>The protocol\<close>

definition published :: "globals \<Rightarrow> bool" where
  "published g \<longleftrightarrow> g_qh g \<noteq> KOBJ_INVALID \<and> g_semh g \<noteq> KOBJ_INVALID \<and> g_mh g \<noteq> KOBJ_INVALID"

fun producer_ok :: "globals \<Rightarrow> producer \<Rightarrow> bool" where
  "producer_ok g (P_set_qh h) = (g_qh g = KOBJ_INVALID \<and> g_semh g = KOBJ_INVALID \<and> g_mh g = KOBJ_INVALID)"
| "producer_ok g P_test_qh = (g_semh g = KOBJ_INVALID \<and> g_mh g = KOBJ_INVALID)"
| "producer_ok g (P_set_semh h) = (g_qh g \<noteq> KOBJ_INVALID \<and> g_semh g = KOBJ_INVALID \<and> g_mh g = KOBJ_INVALID)"
| "producer_ok g P_test_semh = (g_qh g \<noteq> KOBJ_INVALID \<and> g_mh g = KOBJ_INVALID)"
| "producer_ok g (P_set_mh h) = (g_qh g \<noteq> KOBJ_INVALID \<and> g_semh g \<noteq> KOBJ_INVALID \<and> g_mh g = KOBJ_INVALID)"
| "producer_ok g P_test_mh = (g_qh g \<noteq> KOBJ_INVALID \<and> g_semh g \<noteq> KOBJ_INVALID)"
| "producer_ok g P_sem_create = (g_qh g \<noteq> KOBJ_INVALID \<and> g_semh g = KOBJ_INVALID \<and> g_mh g = KOBJ_INVALID)"
| "producer_ok g P_mutex_create = (g_qh g \<noteq> KOBJ_INVALID \<and> g_semh g \<noteq> KOBJ_INVALID \<and> g_mh g = KOBJ_INVALID)"
| "producer_ok g (P_failed s) = True"
| "producer_ok g P_halt = True"
| "producer_ok g p = (if p \<in> {P_init, P_dropping, P_drop, P_queue_create}
     then g_qh g = KOBJ_INVALID \<and> g_semh g = KOBJ_INVALID \<and> g_mh g = KOBJ_INVALID else published g)"

fun consumer_ok :: "places \<Rightarrow> globals \<Rightarrow> consumer \<Rightarrow> bool" where
  "consumer_ok y g C_read_semh = (g_qh g \<noteq> KOBJ_INVALID \<and> g_consumer_stack_probe g = 0)"
| "consumer_ok y g C_read_mh = (g_qh g \<noteq> KOBJ_INVALID \<and> g_semh g \<noteq> KOBJ_INVALID \<and> g_consumer_stack_probe g = 0)"
| "consumer_ok y g p = (if p \<in> {C_init, C_read_qh, C_spin} then g_consumer_stack_probe g = 0
     else published g \<and> g_consumer_stack_probe g = (if p \<in> {C_dropping, C_canary, C_publish} then 0 else stack_canary y))"

definition probe_ok :: "globals \<Rightarrow> probe \<Rightarrow> bool" where
  "probe_ok g p \<longleftrightarrow> p \<in> {M_init, M_read, M_spin} \<or> g_consumer_stack_probe g \<noteq> 0"

definition demo_ok :: "places \<Rightarrow> demo \<Rightarrow> bool" where
  "demo_ok y d \<longleftrightarrow> (\<exists>p. point_of (threads d 1) = Producer p \<and> producer_ok (shared d) p) \<and>
     (\<exists>p. point_of (threads d 2) = Consumer p \<and> consumer_ok y (shared d) p) \<and>
     (\<exists>p. point_of (threads d 3) = Probe p \<and> probe_ok (shared d) p) \<and> threads d 4 = At Idle_task"

lemma demo_ok_start: "demo_ok y (demo_start k)"
  by (simp add: demo_ok_def demo_start_def init_globals_def probe_ok_def)

text \<open>A step of one task keeps what the others rely on.\<close>

lemma producer_step:
  assumes "producer_ok g p" "producer_next r g p = (g', p')"
  shows "producer_ok g' p'" "consumer_ok y g q \<Longrightarrow> consumer_ok y g' q" "g_consumer_stack_probe g' = g_consumer_stack_probe g"
    "published g \<Longrightarrow> g' = g"
proof -
  show "producer_ok g' p'" "g_consumer_stack_probe g' = g_consumer_stack_probe g" "published g \<Longrightarrow> g' = g"
    using assms by (cases p; auto simp: published_def split: if_splits)+
  show "consumer_ok y g q \<Longrightarrow> consumer_ok y g' q"
    using assms by (cases p; cases q; auto simp: published_def split: if_splits)
qed

lemma consumer_step:
  assumes "consumer_ok y g p" "consumer_next y r g p = (g', p')" "stack_canary y \<noteq> 0"
  shows "consumer_ok y g' p'" "producer_ok g q \<Longrightarrow> producer_ok g' q" "probe_ok g s \<Longrightarrow> probe_ok g' s"
    "g_qh g' = g_qh g" "g_semh g' = g_semh g" "g_mh g' = g_mh g"
proof -
  show "consumer_ok y g' p'" using assms by (cases p) (auto simp: published_def split: if_splits)
  have g: "g' = g \<or> g' = g\<lparr>g_consumer_stack_probe := stack_canary y\<rparr>" using assms(2) by (cases p) auto
  then show "g_qh g' = g_qh g" "g_semh g' = g_semh g" "g_mh g' = g_mh g" by auto
  show "producer_ok g q \<Longrightarrow> producer_ok g' q" using g by (cases q) (auto simp: published_def)
  show "probe_ok g s \<Longrightarrow> probe_ok g' s" using g assms(3) by (auto simp: probe_ok_def)
qed

text \<open>What a task at \<open>c\<close> has to do next stays a point of its own program.\<close>

lemma advance_ok:
  assumes ok: "demo_ok y d" and p: "point_of (threads d c) = p" "c \<in> {1, 2, 3, 4}" and y: "stack_canary y \<noteq> 0"
  shows "demo_ok y (advance y c p r k d)"
    "published (shared d) \<Longrightarrow> g_qh (shared (advance y c p r k d)) = g_qh (shared d) \<and>
       g_semh (shared (advance y c p r k d)) = g_semh (shared d) \<and> g_mh (shared (advance y c p r k d)) = g_mh (shared d)"
proof -
  obtain p1 p2 p3 where t: "point_of (threads d 1) = Producer p1" "point_of (threads d 2) = Consumer p2" "point_of (threads d 3) = Probe p3"
    "threads d 4 = At Idle_task" and i: "producer_ok (shared d) p1" "consumer_ok y (shared d) p2" "probe_ok (shared d) p3"
    using ok unfolding demo_ok_def by blast
  obtain g1 q1 where n1: "producer_next r (shared d) p1 = (g1, q1)" by fastforce
  obtain g2 q2 where n2: "consumer_next y r (shared d) p2 = (g2, q2)" by fastforce
  note s1 = producer_step [OF i(1) n1] and s2 = consumer_step [OF i(2) n2 y]
  have "probe_ok (shared d) (probe_next (shared d) p3)" using i(3) by (cases p3) (auto simp: probe_ok_def)
  moreover have "probe_ok g1 p3" using i(3) s1(3) by (simp add: probe_ok_def)
  ultimately show "demo_ok y (advance y c p r k d)"
    using p t i n1 n2 s1(1) s1(2) [OF i(2)] s2(1) s2(2) [OF i(1)] s2(3) [OF i(3)] by (auto simp: demo_ok_def)
  show "published (shared d) \<Longrightarrow> g_qh (shared (advance y c p r k d)) = g_qh (shared d) \<and>
       g_semh (shared (advance y c p r k d)) = g_semh (shared d) \<and> g_mh (shared (advance y c p r k d)) = g_mh (shared d)"
    using p t n1 n2 s1(4) s2(4-6) by auto
qed

lemma advances:
  assumes "demo_step y d d'"
  obtains (stays) "shared d' = shared d" "\<And>c. point_of (threads d' c) = point_of (threads d c)" "threads d' 4 = threads d 4 \<or> threads d 4 \<noteq> At Idle_task"
  | (advance) c p r k where "d' = advance y c p r k d" "point_of (threads d c) = p" "c \<in> {1, 2, 3, 4}" "\<not> halted d" "executes c (kern d)"
  using assms
proof cases
  case (blocks c p rq k)
  then have p: "p \<noteq> Idle_task" by auto
  show thesis by (rule that(1)) (use blocks(1,2) p in \<open>auto simp: ready_def running_def split: if_splits\<close>)
next
  case (traps c p rq i a0 a1 a2 a3 regs psr f m msp)
  then have p: "p \<noteq> Idle_task" by auto
  show thesis by (rule that(1)) (use traps(1,2) p in \<open>auto simp: ready_def running_def split: if_splits\<close>)
qed (use that in \<open>force simp: ready_def running_def\<close>)+

lemma demo_step_ok:
  assumes "demo_step y d d'" "demo_ok y d" "stack_canary y \<noteq> 0"
  shows "demo_ok y d'" "published (shared d) \<Longrightarrow> g_qh (shared d') = g_qh (shared d) \<and>
       g_semh (shared d') = g_semh (shared d) \<and> g_mh (shared d') = g_mh (shared d)"
proof -
  have "demo_ok y d' \<and> (published (shared d) \<longrightarrow> g_qh (shared d') = g_qh (shared d) \<and>
       g_semh (shared d') = g_semh (shared d) \<and> g_mh (shared d') = g_mh (shared d))"
    using assms(1)
  proof (cases rule: advances)
    case stays
    then show ?thesis using assms(2) unfolding demo_ok_def by metis
  next
    case (advance c p r k)
    then show ?thesis using advance_ok [OF assms(2) advance(2,3) assms(3)] by simp
  qed
  then show "demo_ok y d'" "published (shared d) \<Longrightarrow> g_qh (shared d') = g_qh (shared d) \<and>
       g_semh (shared d') = g_semh (shared d) \<and> g_mh (shared d') = g_mh (shared d)" by blast+
qed

text \<open>The handle a request names.\<close>

fun handle_of :: "request \<Rightarrow> u32 option" where
  "handle_of (Queue_push h p tm) = Some h"
| "handle_of (Queue_pop h p tm) = Some h"
| "handle_of (Sem_give h) = Some h"
| "handle_of (Sem_take h tm) = Some h"
| "handle_of (Mutex_lock h tm) = Some h"
| "handle_of (Mutex_unlock h) = Some h"
| "handle_of rq = None"

lemma handles_valid:
  assumes "demo_ok y d" "c \<in> {1, 2, 3, 4}" "act y (shared d) (point_of (threads d c)) = Api rq" "handle_of rq = Some h"
  shows "published (shared d) \<and> h \<in> {g_qh (shared d), g_semh (shared d), g_mh (shared d)}"
proof -
  have "published g \<and> h \<in> {g_qh g, g_semh g, g_mh g}" if "producer_ok g p" "producer_action y g p = Api rq" for g p
    using that assms(4) by (cases p) (auto simp: say_def)
  moreover have "published g \<and> h \<in> {g_qh g, g_semh g, g_mh g}" if "consumer_ok y g p" "consumer_action y g p = Api rq" for g p
    using that assms(4) by (cases p) (auto simp: say_def)
  moreover have "False" if "probe_action y g p = Api rq" for g p
    using that assms(4) by (cases p) (auto simp: say_def)
  ultimately show ?thesis using assms(1-3) unfolding demo_ok_def by fastforce
qed

section \<open>Runs\<close>

text \<open>
  What holds along a run of the demonstration that starts in the state \<open>k0\<close> in which \<open>main\<close> enters the first
  task: the protocol, and until a fault stops the machine, the kernel is in a state the system reaches.
\<close>

lemma demo_run:
  assumes "(demo_step y)\<^sup>*\<^sup>* (demo_start k0) d" "stack_canary y \<noteq> 0"
  shows "demo_ok y d" "\<not> halted d \<Longrightarrow> (step 0 4)\<^sup>*\<^sup>* k0 (kern d)"
proof -
  have "demo_ok y d \<and> (\<not> halted d \<longrightarrow> (step 0 4)\<^sup>*\<^sup>* k0 (kern d))"
    using assms(1)
  proof (induction rule: rtranclp_induct)
    case base
    then show ?case using demo_ok_start by (simp add: demo_start_def)
  next
    case (step d1 d2)
    have ok: "demo_ok y d1" using step.IH by blast
    have "threads d1 4 = At Idle_task" using ok by (simp add: demo_ok_def)
    then have "kern d2 = kern d1 \<or> System.step 0 4 (kern d1) (kern d2)" if "\<not> halted d2"
      using demo_step_step [OF step(2) _ that] by blast
    moreover have "(System.step 0 4)\<^sup>*\<^sup>* k0 (kern d1)" using step.IH demo_step_halted [OF step(2)] by blast
    ultimately have "\<not> halted d2 \<longrightarrow> (System.step 0 4)\<^sup>*\<^sup>* k0 (kern d2)" by (metis rtranclp.rtrancl_into_rtrancl)
    then show ?case using demo_step_ok(1) [OF step(2) ok assms(2)] by blast
  qed
  then show "demo_ok y d" "\<not> halted d \<Longrightarrow> (step 0 4)\<^sup>*\<^sup>* k0 (kern d)" by blast+
qed

text \<open>
  C8. The protocol of the demonstration.  In every run from \<open>main\<close> on, whatever the results of the calls and
  the interleaving of the tasks, the kernel is in a state the system reaches until a fault stops it; a task
  names a handle in a call only when all three have been published, and then one of these; and a published
  handle is never changed.
\<close>

theorem demo_protocol:
  assumes "main_start p u sy (reset_state l m) = Some (sy', c0, k0)" "(demo_step y)\<^sup>*\<^sup>* (demo_start k0) d" "stack_canary y \<noteq> 0"
  shows "(\<not> halted d \<longrightarrow> reachable p l m (kern d)) \<and>
    (\<forall>c rq h. c \<in> {1, 2, 3} \<and> act y (shared d) (point_of (threads d c)) = Api rq \<and> handle_of rq = Some h \<longrightarrow>
       published (shared d) \<and> h \<in> {g_qh (shared d), g_semh (shared d), g_mh (shared d)}) \<and>
    (\<forall>d'. demo_step y d d' \<and> published (shared d) \<longrightarrow> g_qh (shared d') = g_qh (shared d) \<and>
       g_semh (shared d') = g_semh (shared d) \<and> g_mh (shared d') = g_mh (shared d))"
proof (intro conjI allI impI)
  note run = demo_run [OF assms(2,3)]
  show "reachable p l m (kern d)" if "\<not> halted d" using run(2) [OF that] assms(1) unfolding reachable_def by blast
  show "published (shared d)" "h \<in> {g_qh (shared d), g_semh (shared d), g_mh (shared d)}"
    if "c \<in> {1, 2, 3} \<and> act y (shared d) (point_of (threads d c)) = Api rq \<and> handle_of rq = Some h" for c rq h
    using handles_valid [OF run(1)] that by auto
  show "g_qh (shared d') = g_qh (shared d)" "g_semh (shared d') = g_semh (shared d)" "g_mh (shared d') = g_mh (shared d)"
    if "demo_step y d d' \<and> published (shared d)" for d'
    using demo_step_ok(2) [OF _ run(1) assms(3)] that by blast+
qed

text \<open>A layout of the locals, and a run of the demonstration on the board of \<open>Boot\<close>.\<close>

definition demo_places :: "u32 \<Rightarrow> places" where
  "demo_places a = \<lparr>lit = (\<lambda>_. 0x08005000), var = case_variable 0x20001000 0x20001004 0x20001008 0x2000100C, msg = 0x20008500, buf = 0x20008A00, stack_canary = a\<rparr>"

theorem demo_protocol_witness:
  "\<exists>k. reachable demo_program demo_board (\<lambda>_. 0) (kern (demo_start k)) \<and> \<not> published (shared (demo_start k)) \<and>
     (\<exists>s. act (demo_places 1) (shared (demo_start k)) (point_of (threads (demo_start k) 1)) = Put s)"
proof -
  fix u sy
  obtain sy' c k where k: "main_start demo_program u sy (reset_state demo_board (\<lambda>_. 0)) = Some (sy', c, k)"
    by (rule boot_start [OF demo_board_heap], rule that; assumption)
  have "stack_canary (demo_places 1) \<noteq> 0" by (simp add: demo_places_def)
  note p = demo_protocol [OF k rtranclp.rtrancl_refl this]
  have "\<not> halted (demo_start k)" "\<not> published (shared (demo_start k))" "point_of (threads (demo_start k) 1) = Producer P_init"
    by (simp_all add: demo_start_def init_globals_def published_def)
  then show ?thesis using p by auto
qed

section \<open>The probe\<close>

text \<open>Only a task that called the kernel is inside a trap or a call.\<close>

definition calls :: "point \<Rightarrow> bool" where
  "calls p \<longleftrightarrow> (\<exists>y g rq. act y g p = Api rq)"

definition waits_ok :: "demo \<Rightarrow> bool" where
  "waits_ok d \<longleftrightarrow> (\<forall>c. case threads d c of At p \<Rightarrow> True | In_trap f p \<Rightarrow> calls p | In_call p \<Rightarrow> calls p)"

lemma demo_step_waits: "demo_step y d d' \<Longrightarrow> waits_ok d \<Longrightarrow> waits_ok d'"
  by (induction rule: demo_step.induct) (auto simp: waits_ok_def calls_def)

definition probe_waits :: "demo \<Rightarrow> bool" where
  "probe_waits d \<longleftrightarrow> waits_ok d \<and> (\<exists>p. point_of (threads d 3) = Probe p \<and> p \<notin> {M_error, M_halt} \<and>
     (p \<in> {M_attempt, M_store} \<and> \<not> halted d \<longrightarrow> user_task (tcb_pool (kern d) 3)))"

lemma drop_user: "executes c k \<Longrightarrow> user_task (tcb_pool (port_set_unprivileged k) c)"
  by (simp add: port_set_unprivileged_def scheduler_get_current_def executes_def upd_tcb_def user_task_odd even_or_iff)

lemma running_unique: "running d a t \<Longrightarrow> executes c (kern d) \<Longrightarrow> a = c \<and> threads d c = t"
  by (auto simp: running_def executes_def)

text \<open>A task leaves the point it is at only by the action of that point, with its accesses made.\<close>

lemma leaves_ready:
  assumes "demo_step y d d'" "threads d c = At p" "executes c (kern d)" "point_of (threads d' c) \<noteq> p"
  shows "ready y d c p" "act y (shared d) p = Drop \<Longrightarrow> kern d' = port_set_unprivileged (kern d)"
proof -
  have here: "ready y d c p \<and> act y (shared d) p = act y (shared d) p'" if "ready y d c' p'" for c' p'
    using running_unique [OF ready_running [OF that] assms(3)] assms(2) that by simp
  have "ready y d c p \<and> (act y (shared d) p = Drop \<longrightarrow> kern d' = port_set_unprivileged (kern d))"
    using assms(1)
  proof cases
    case (system k)
    then show ?thesis using assms(2,4) by simp
  next
    case (fault c' p' x psp cfsr k)
    then show ?thesis using assms(2,4) by simp
  next
    case (resumes c' p' r k)
    then show ?thesis using running_unique [OF resumes(2) assms(3)] assms(2) by simp
  next
    case (returns c' f p')
    then show ?thesis using running_unique [OF returns(2) assms(3)] assms(2) by simp
  next
    case (put c' p' s)
    then show ?thesis using here [OF put(2)] by simp
  next
    case (local c' p')
    then show ?thesis using here [OF local(2)] by simp
  next
    case (assign c' p' v)
    then show ?thesis using here [OF assign(2)] by simp
  next
    case (unprivilege c' p')
    then show ?thesis using here [OF unprivilege(2)] by simp
  next
    case (format c' p' a n fmt args r m)
    then show ?thesis using here [OF format(2)] by simp
  next
    case (store c' p' a v)
    then show ?thesis using here [OF store(2)] by simp
  next
    case (called c' p' rq r k)
    then show ?thesis using here [OF called(2)] by simp
  next
    case (blocks c' p' rq k)
    then show ?thesis using here [OF blocks(2)] by simp
  next
    case (traps c' p' rq i a0 a1 a2 a3 regs psr f m msp)
    then show ?thesis using here [OF traps(2)] by simp
  qed
  then show "ready y d c p" "act y (shared d) p = Drop \<Longrightarrow> kern d' = port_set_unprivileged (kern d)" by blast+
qed

lemma probe_leaves:
  assumes "demo_step y d d'" "threads d 3 = At (Probe p)" "executes 3 (kern d)" "point_of (threads d' 3) \<noteq> Probe p"
  shows "p = M_drop \<Longrightarrow> kern d' = port_set_unprivileged (kern d)"
    "p = M_store \<Longrightarrow> may_store (kern d) (g_consumer_stack_probe (shared d))"
  using leaves_ready [OF assms] ready_store by simp_all

text \<open>Until a fault stops the machine, a task that gave up its privilege stays without it.\<close>

lemma demo_step_user:
  assumes "demo_step y d d'" "demo_ok y d" "\<not> halted d'" "user_task (tcb_pool (kern d) t)"
  shows "user_task (tcb_pool (kern d') t)"
proof -
  have "threads d 4 = At Idle_task" using assms(2) by (simp add: demo_ok_def)
  then have "kern d' = kern d \<or> System.step 0 4 (kern d) (kern d')" using demo_step_step [OF assms(1) _ assms(3)] by blast
  then show ?thesis using assms(4) step_layout(2) by metis
qed

lemma demo_step_probe:
  assumes st: "demo_step y d d'" and w: "probe_waits d" and ok: "demo_ok y d"
    and store: "user_task (tcb_pool (kern d) 3) \<Longrightarrow> executes 3 (kern d) \<Longrightarrow> g_consumer_stack_probe (shared d) \<noteq> 0 \<Longrightarrow>
      \<not> may_store (kern d) (g_consumer_stack_probe (shared d))"
  shows "probe_waits d'"
proof -
  have user: "user_task (tcb_pool (kern d') 3)" if "user_task (tcb_pool (kern d) 3)" "\<not> halted d'"
    by (rule demo_step_user [OF st ok that(2,1)])
  obtain p where p: "point_of (threads d 3) = Probe p" "p \<notin> {M_error, M_halt}" "p \<in> {M_attempt, M_store} \<longrightarrow> user_task (tcb_pool (kern d) 3)"
    and w0: "waits_ok d" and g: "probe_ok (shared d) p"
    using w ok demo_step_halted [OF st] unfolding probe_waits_def demo_ok_def by auto
  have w': "waits_ok d'" by (rule demo_step_waits [OF st w0])
  have at: "threads d 3 = At (Probe p)" if "\<not> calls (Probe p)"
    using w0 [unfolded waits_ok_def, rule_format, of 3] p(1) that by (cases "threads d 3") auto
  show ?thesis
  proof (cases "point_of (threads d' 3) = Probe p")
    case True
    then show ?thesis using w' p user unfolding probe_waits_def by auto
  next
    case False
    obtain r k where adv: "d' = advance y 3 (Probe p) r k d" and ex: "executes 3 (kern d)"
      using st False p(1) by (cases rule: advances) (auto split: if_splits)
    then have nxt: "point_of (threads d' 3) = Probe (probe_next (shared d) p)" "halted d' = halted d" by simp_all
    have "user_task (tcb_pool (kern d') 3)" if "p = M_drop"
      using probe_leaves(1) [OF st at ex False] that drop_user [OF ex] by (simp add: calls_def)
    moreover have "p \<noteq> M_store"
    proof
      assume m: "p = M_store"
      then have "\<not> may_store (kern d) (g_consumer_stack_probe (shared d))" using store p(3) ex g by (simp add: probe_ok_def)
      moreover have "may_store (kern d) (g_consumer_stack_probe (shared d))"
        using probe_leaves(2) [OF st at ex False] m by (simp add: calls_def)
      ultimately show False by blast
    qed
    ultimately show ?thesis using w' p user nxt unfolding probe_waits_def by (cases p) auto
  qed
qed

text \<open>Above the block of the user heap lies the kernel heap, with the stacks.\<close>

definition heap_placed :: "linker \<Rightarrow> nat \<Rightarrow> bool" where
  "heap_placed l u \<longleftrightarrow> user_heap_end l - user_heap_start l = 2 ^ u \<and> 5 \<le> u \<and> u < 32 \<and> user_heap_start l < user_heap_end l \<and>
     unat (user_heap_start l) div 2 ^ u < heap_base (heap_start l) div 2 ^ u \<and>
     0x20000000 \<le> heap_base (heap_start l) \<and> unat (heap_end l) \<le> 0x20020000"

lemma probe_refused:
  assumes heap: "boot_heap l m" "heap_placed l u" and r: "reachable p l m k" and ex: "executes 3 k"
    and b: "b \<in> stack_region (tcb_pool k 2)" and user: "user_task (tcb_pool k 3)"
  shows "\<not> may_store k b"
proof -
  note h = heap(2) [unfolded heap_placed_def]
  have "heap_base (heap_start l) \<le> unat b \<and> unat b < unat (heap_end l)"
    by (rule reachable_protected(5) [OF heap(1) r _ b]) simp
  then have b': "0x20000000 \<le> unat b" "unat b < 0x20020000" "heap_base (heap_start l) div 2 ^ u \<le> unat b div 2 ^ u"
    using h by (auto intro: div_le_mono)
  have apart: "\<not> same_block u (user_heap_start l) b" using h b'(3) by (simp add: same_block_nat)
  have u: "user_heap_end l - user_heap_start l = 2 ^ u" "5 \<le> u" "u < 32" "user_heap_start l < user_heap_end l" using h by simp_all
  note iso = isolation [OF heap(1) r ex u b'(1,2)]
  have "\<not> port_is_privileged k" using iso user by blast
  moreover have "\<not> user_may_write (mpu k) b"
    using iso [THEN conjunct2, THEN conjunct2, rule_format, of 2] b apart by simp
  ultimately have "\<not> user_may_write (mpu k) b" "\<not> port_is_privileged k" by blast+
  then show ?thesis unfolding may_store_def by (auto intro!: bexI [of _ b])
qed

text \<open>
  C7. The store of the probe is caught.  In every run from \<open>main\<close> on in which the canary lies in the consumer's
  stack, the probe never gets past its store: what it tries to overwrite is the canary, and the protection
  unit, set up for the probe, refuses it.
\<close>

theorem demo_probe_caught:
  assumes "boot_heap l m" "heap_placed l u" "main_start p v sy (reset_state l m) = Some (sy', c0, k0)"
    and "(demo_step y)\<^sup>*\<^sup>* (demo_start k0) d" "stack_canary y \<in> stack_region (tcb_pool k0 2)" "stack_canary y \<noteq> 0"
  shows "point_of (threads d 3) \<notin> {Probe M_error, Probe M_halt} \<and>
    (\<forall>d'. demo_step y d d' \<and> running d 3 (At (Probe M_store)) \<longrightarrow> point_of (threads d' 3) = Probe M_store) \<and>
    (running d 3 (At (Probe M_store)) \<longrightarrow> act y (shared d) (Probe M_store) = Store (stack_canary y) 0xDEADBEEF \<and>
       \<not> may_store (kern d) (stack_canary y))"
proof -
  note run = demo_run [OF _ assms(6)]
  have reach: "(System.step 0 4)\<^sup>*\<^sup>* k0 k \<Longrightarrow> reachable p l m k" for k using assms(3) unfolding reachable_def by blast
  have stacks: "stack_region (tcb_pool k 2) = stack_region (tcb_pool k0 2)" if "(System.step 0 4)\<^sup>*\<^sup>* k0 k" for k
    using that by (induction rule: rtranclp_induct) (use layout_eqD(2) step_layout(1) in \<open>blast intro: trans\<close>)+
  have refused: "\<not> may_store (kern e) (stack_canary y)"
    if "(demo_step y)\<^sup>*\<^sup>* (demo_start k0) e" "\<not> halted e" "executes 3 (kern e)" "user_task (tcb_pool (kern e) 3)" for e
    using probe_refused [OF assms(1,2) reach [OF run(2) [OF that(1,2)]] that(3) _ that(4)] stacks [OF run(2) [OF that(1,2)]] assms(5) by simp
  have canary: "g_consumer_stack_probe (shared e) = stack_canary y" if "demo_ok y e" "g_consumer_stack_probe (shared e) \<noteq> 0" for e
  proof -
    have ok: "demo_ok y e" by (rule that(1))
    obtain q where "consumer_ok y (shared e) q" using ok unfolding demo_ok_def by blast
    then show ?thesis using that(2) by (cases q) (auto split: if_splits)
  qed
  have w: "probe_waits d"
    using assms(4)
  proof (induction rule: rtranclp_induct)
    case (step d1 d2)
    show ?case
      by (rule demo_step_probe [OF step(2,3) run(1) [OF step(1)]])
        (use refused [OF step(1) demo_step_halted [OF step(2)]] canary [OF run(1) [OF step(1)]] in simp)
  qed (simp add: probe_waits_def waits_ok_def demo_start_def)
  have no: "g_consumer_stack_probe (shared d) = stack_canary y" "\<not> may_store (kern d) (stack_canary y)"
    if "running d 3 (At (Probe M_store))"
  proof -
    have "probe_ok (shared d) M_store" using run(1) [OF assms(4)] that by (auto simp: demo_ok_def running_def)
    then show "g_consumer_stack_probe (shared d) = stack_canary y" using canary [OF run(1) [OF assms(4)]] by (simp add: probe_ok_def)
    show "\<not> may_store (kern d) (stack_canary y)"
      by (rule refused [OF assms(4)]) (use that w in \<open>auto simp: running_def probe_waits_def\<close>)
  qed
  have "point_of (threads d' 3) = Probe M_store" if "demo_step y d d'" "running d 3 (At (Probe M_store))" for d'
    using probe_leaves(2) [OF that(1), of M_store] that(2) no by (auto simp: running_def)
  then show ?thesis using w no by (auto simp: probe_waits_def)
qed

theorem demo_probe_caught_witness:
  "\<exists>k y. reachable demo_program demo_board (\<lambda>_. 0) k \<and> stack_canary y \<in> stack_region (tcb_pool k 2) \<and>
     (\<forall>d. (demo_step y)\<^sup>*\<^sup>* (demo_start k) d \<longrightarrow> point_of (threads d 3) \<notin> {Probe M_error, Probe M_halt})"
proof -
  fix u sy
  obtain sy' c k where k: "main_start demo_program u sy (reset_state demo_board (\<lambda>_. 0)) = Some (sy', c, k)"
    by (rule boot_start [OF demo_board_heap], rule that; assumption)
  have r: "reachable demo_program demo_board (\<lambda>_. 0) k" using k unfolding reachable_def by blast
  let ?y = "demo_places (stack_base (tcb_pool k 2))"
  have "stack_ok (tcb_pool k 2)" by (rule reachable_protected(3) [OF demo_board_heap r]) simp
  then have y: "stack_canary ?y \<in> stack_region (tcb_pool k 2)" "stack_canary ?y \<noteq> 0"
    by (auto simp: stack_ok_def stack_region_def demo_places_def unat_power32)
  have "heap_placed demo_board 6" by (simp add: heap_placed_def demo_board_def demo_linker_def heap_base_def)
  note caught = demo_probe_caught [OF demo_board_heap this k _ y]
  have "point_of (threads d 3) \<notin> {Probe M_error, Probe M_halt}" if "(demo_step ?y)\<^sup>*\<^sup>* (demo_start k) d" for d
    using caught [OF that] by blast
  then show ?thesis using r y(1) by blast
qed

section \<open>What the demonstration depends on\<close>

text \<open>The producer is on the way to its first store, which is not made.\<close>

definition stuck :: "demo \<Rightarrow> bool" where
  "stuck d \<longleftrightarrow> waits_ok d \<and> shared d = init_globals \<and> (\<exists>p. point_of (threads d 1) = Producer p \<and>
     (p \<in> {P_init, P_dropping, P_drop} \<or>
      (p = P_queue_create \<or> (\<exists>h. p = P_set_qh h)) \<and> (\<not> halted d \<longrightarrow> user_task (tcb_pool (kern d) 1))))"

lemma others_wait:
  assumes "demo_ok y d" "shared d = init_globals" "point_of (threads d c) = q" "c \<in> {2, 3, 4}"
  shows "fst (after y r (shared d) q) = init_globals"
proof -
  have "fst (consumer_next y r init_globals p) = init_globals" if "consumer_ok y init_globals p" for p
    using that by (cases p) (simp_all add: init_globals_def published_def)
  then show ?thesis using assms unfolding demo_ok_def by auto
qed

lemma demo_step_stuck:
  assumes st: "demo_step y d d'" and s: "stuck d" and ok: "demo_ok y d"
    and store: "\<And>h. executes 1 (kern d) \<Longrightarrow> user_task (tcb_pool (kern d) 1) \<Longrightarrow> \<not> ready y d 1 (Producer (P_set_qh h))"
  shows "stuck d'"
proof -
  note user = demo_step_user [OF st ok, of 1]
  obtain p where p: "point_of (threads d 1) = Producer p"
    "p \<in> {P_init, P_dropping, P_drop} \<or> (p = P_queue_create \<or> (\<exists>h. p = P_set_qh h)) \<and> user_task (tcb_pool (kern d) 1)"
    and w0: "waits_ok d" and g: "shared d = init_globals"
    using s demo_step_halted [OF st] unfolding stuck_def by blast
  have w: "waits_ok d'" by (rule demo_step_waits [OF st w0])
  show ?thesis
    using st
  proof (cases rule: advances)
    case stays
    then show ?thesis using p g w user unfolding stuck_def by auto
  next
    case (advance c q r k)
    show ?thesis
    proof (cases "c = 1")
      case False
      then have "shared d' = init_globals" "threads d' 1 = threads d 1"
        using others_wait [OF ok g advance(2)] advance(1,3) by auto
      then show ?thesis using p w user unfolding stuck_def by auto
    next
      case True
      then have q: "q = Producer p" and ex: "executes 1 (kern d)" using advance p(1) by simp_all
      have at: "threads d 1 = At (Producer p)" if "\<not> calls (Producer p)"
        using w0 [unfolded waits_ok_def, rule_format, of 1] p(1) that by (cases "threads d 1") auto
      have leaves: "point_of (threads d' 1) = Producer (snd (producer_next r (shared d) p))" "shared d' = fst (producer_next r (shared d) p)"
        using advance(1) True q by (simp_all add: case_prod_beta)
      have "p \<noteq> P_set_qh h" for h
      proof
        assume h: "p = P_set_qh h"
        then have "ready y d 1 (Producer p)" using leaves_ready(1) [OF st at ex] leaves(1) by (simp add: calls_def)
        then show False using store [OF ex] p(2) h by simp
      qed
      moreover have "user_task (tcb_pool (kern d') 1)" if "p = P_drop"
        using leaves_ready(2) [OF st at ex] leaves(1) that drop_user [OF ex] by (simp add: calls_def)
      moreover have "shared d' = init_globals" if "\<nexists>h. p = P_set_qh h" using leaves(2) p(2) g that by auto
      ultimately show ?thesis using p(2) w user leaves(1) unfolding stuck_def by auto
    qed
  qed
qed

text \<open>
  C40. The demonstration works only where the kernel's data is exposed.  On a layout that isolates it, with the
  user heap aligned to its size, and with \<open>g_qh\<close> in the static data below the user heap, no run from \<open>main\<close> on
  ever changes a shared variable: the producer gives up its privilege before it stores the handle of the queue, so
  that its store is refused; whatever step is taken while it stands before the store is one of the
  kernel, or the fault that stops the machine.
\<close>

theorem demo_needs_exposed_data:
  assumes "boot_heap l m" "aligned_layout l u" "main_start p v sy (reset_state l m) = Some (sy', c0, k0)"
    and "(demo_step y)\<^sup>*\<^sup>* (demo_start k0) d" "stack_canary y \<noteq> 0"
    and "\<And>b. b \<in> region (var y V_qh) 4 \<Longrightarrow> 0x20000000 \<le> unat b \<and> unat b < unat (user_heap_start l)"
  shows "shared d = init_globals \<and>
    (\<forall>h d'. running d 1 (At (Producer (P_set_qh h))) \<and> demo_step y d d' \<longrightarrow> halted d' \<or> os_step (kern d) (kern d'))"
proof -
  note run = demo_run [OF _ assms(5)]
  have refused: "\<not> ready y e 1 (Producer (P_set_qh h))"
    if "(demo_step y)\<^sup>*\<^sup>* (demo_start k0) e" "\<not> halted e" "executes 1 (kern e)" "user_task (tcb_pool (kern e) 1)" for e h
  proof -
    have "reachable p l m (kern e)" using run(2) [OF that(1,2)] assms(3) unfolding reachable_def by blast
    note iso = aligned_isolation [OF assms(1) this that(3) assms(2)]
    have "\<not> user_may_write (mpu (kern e)) (var y V_qh)" using iso assms(6) [of "var y V_qh"] by simp
    moreover have "\<not> port_is_privileged (kern e)" using iso that(4) by blast
    ultimately have "faults (kern e) (Write (var y V_qh) 4)" by (auto intro!: bexI [of _ "var y V_qh"])
    then show ?thesis by (simp add: ready_def accesses_def)
  qed
  have s: "stuck d"
    using assms(4)
  proof (induction rule: rtranclp_induct)
    case (step d1 d2)
    show ?case
      by (rule demo_step_stuck [OF step(2,3) run(1) [OF step(1)]]) (use refused [OF step(1) demo_step_halted [OF step(2)]] in simp)
  qed (simp add: stuck_def waits_ok_def demo_start_def)
  have "halted d' \<or> os_step (kern d) (kern d')"
    if a: "running d 1 (At (Producer (P_set_qh h)))" "demo_step y d d'" for h d'
  proof -
    have h: "\<not> halted d" "executes 1 (kern d)" "threads d 1 = At (Producer (P_set_qh h))" using a(1) by (auto simp: running_def)
    then have "user_task (tcb_pool (kern d) 1)" using s unfolding stuck_def by auto
    then have no: "\<not> ready y d 1 (Producer (P_set_qh h))" by (rule refused [OF assms(4) h(1,2)])
    show ?thesis using a(2) by cases (use h no running_unique ready_running in fastforce)+
  qed
  then show ?thesis using s unfolding stuck_def by blast
qed

theorem demo_needs_exposed_data_witness:
  "\<exists>k. reachable demo_program demo_board (\<lambda>_. 0) k \<and> (\<forall>d. (demo_step (demo_places 1))\<^sup>*\<^sup>* (demo_start k) d \<longrightarrow> shared d = init_globals)"
proof -
  fix u sy
  obtain sy' c k where k: "main_start demo_program u sy (reset_state demo_board (\<lambda>_. 0)) = Some (sy', c, k)"
    by (rule boot_start [OF demo_board_heap], rule that; assumption)
  have y: "stack_canary (demo_places 1) \<noteq> 0" by (simp add: demo_places_def)
  have qh: "0x20000000 \<le> unat b \<and> unat b < unat (user_heap_start demo_board)" if "b \<in> region (var (demo_places 1) V_qh) 4" for b
    using that by (auto simp: demo_places_def demo_board_def demo_linker_def region_4)
  note stays = demo_needs_exposed_data [OF demo_board_heap demo_board_aligned k _ y qh]
  have "reachable demo_program demo_board (\<lambda>_. 0) k" using k unfolding reachable_def by blast
  then show ?thesis using stays by blast
qed

end
