(* ===== verification/Faults.thy ===== *)
theory Faults
  imports Board Snprintf
begin

text \<open>
  The handler of the faults that have none of their own, \<open>Default_Handler\<close> of \<open>boards/stm32f446/startup.c\<close>:
  it formats the eight words at the stack pointer it picked, the fault status registers and the current task, line by
  line, into a buffer on its stack and prints them.
\<close>

section \<open>The code\<close>

text \<open>The fault status registers.\<close>

record fault_status =
  SCB_CFSR :: u32
  SCB_HFSR :: u32
  SCB_MMFAR :: u32
  SCB_BFAR :: u32

text \<open>The addresses of \<open>buf\<close> and of the literals that are formats, which the compiler chooses.\<close>

record dump_layout =
  dump_buf :: u32
  fmt_exc :: u32
  fmt_frame :: u32
  fmt_low :: u32
  fmt_high :: u32
  fmt_status :: u32
  fmt_task :: u32

text \<open>\<open>snprintf(buf, sizeof(buf), format, ...); uart_write(buf);\<close>\<close>

definition dump_line :: "u32 \<Rightarrow> u32 \<Rightarrow> u32 list \<Rightarrow> kernel \<Rightarrow> kernel option" where
  "dump_line buf format args k = do {
     (n, m) \<leftarrow> snprintf buf 128 format args (mem k);
     uart_write buf (k\<lparr>mem := m\<rparr>)
   }"

text \<open>
  The handler does not return: the value is the state in which it stops.  \<open>lr\<close>, \<open>msp\<close> and \<open>psp\<close> are what the
  registers hold when the handler reads them, after its own prologue and its first call, not what they held at the
  fault.
\<close>

definition Default_Handler :: "dump_layout \<Rightarrow> u32 \<Rightarrow> u32 \<Rightarrow> u32 \<Rightarrow> fault_status \<Rightarrow> kernel \<Rightarrow> kernel option" where
  "Default_Handler d lr msp psp f k = do {
     let k = uart_puts (ascii ''HARD FAULT!'' @ [10]) k;
     let stacked = (if lr AND 4 = 0 then msp else psp);
     k \<leftarrow> dump_line (dump_buf d) (fmt_exc d) [lr] k;
     k \<leftarrow> (if stacked \<noteq> 0 then do {
          k \<leftarrow> dump_line (dump_buf d) (fmt_frame d) [stacked] k;
          k \<leftarrow> dump_line (dump_buf d) (fmt_low d)
            [load32 (mem k) stacked, load32 (mem k) (stacked + 4), load32 (mem k) (stacked + 8), load32 (mem k) (stacked + 12)] k;
          dump_line (dump_buf d) (fmt_high d)
            [load32 (mem k) (stacked + 16), load32 (mem k) (stacked + 20), load32 (mem k) (stacked + 24), load32 (mem k) (stacked + 28)] k
        }
        else Some k);
     k \<leftarrow> dump_line (dump_buf d) (fmt_status d) [SCB_CFSR f, SCB_HFSR f, SCB_MMFAR f, SCB_BFAR f] k;
     case scheduler_get_current k of
       Some t \<Rightarrow> dump_line (dump_buf d) (fmt_task d) [tcb_name_addr k t, stack_pointer (tcb_pool k t)] k
     | None \<Rightarrow> Some (uart_puts (ascii ''No current task'' @ [10]) k)
   }"

section \<open>Lines\<close>

text \<open>A line is printed: the console has it, and memory changes in the buffer at most.\<close>

definition printed :: "u32 \<Rightarrow> kernel \<Rightarrow> u8 list \<Rightarrow> kernel \<Rightarrow> bool" where
  "printed buf k cs k' \<longleftrightarrow> (\<exists>m. (\<forall>b. b \<notin> region buf 128 \<longrightarrow> m b = mem k b) \<and>
     k' = k\<lparr>mem := m, uart_out := uart_out k @ crlf cs\<rparr>)"

lemma crlf_append: "crlf (a @ b) = crlf a @ crlf b"
  by (simp add: crlf_def)

lemma printed_trans: "printed buf k a k1 \<Longrightarrow> printed buf k1 b k2 \<Longrightarrow> printed buf k (a @ b) k2"
  by (auto simp: printed_def crlf_append) blast

lemma printed_puts: "printed buf k cs (uart_puts cs k)"
  unfolding printed_def uart_puts_def by (intro exI [of _ "mem k"]) simp

lemma printed_mem: "printed buf k cs k' \<Longrightarrow> b \<notin> region buf 128 \<Longrightarrow> mem k' b = mem k b"
  by (auto simp: printed_def)

lemma printed_same:
  "printed buf k cs k' \<Longrightarrow> tcb_pool k' = tcb_pool k" "printed buf k cs k' \<Longrightarrow> current_task k' = current_task k"
  "printed buf k cs k' \<Longrightarrow> tcb_name_addr k' t = tcb_name_addr k t"
  by (auto simp: printed_def tcb_name_addr_def)

text \<open>Strings outside the buffer stay in place.\<close>

lemma string_apart_cong:
  assumes "string_apart a n m s cs" "\<And>b. b \<notin> region a n \<Longrightarrow> m' b = m b" shows "string_apart a n m' s cs"
proof -
  have "m' (s + of_nat i) = m (s + of_nat i)" if "i \<le> length cs" for i
  proof -
    have "s + of_nat i \<in> region s (length cs + 1)" using assms(1) that by (intro in_region_offset) (simp_all add: string_apart_def)
    then show ?thesis using assms by (auto simp: string_apart_def)
  qed
  then show ?thesis using assms(1) by (simp add: string_apart_def string_at_def)
qed

lemma put_bytes_string:
  assumes "0 \<notin> set cs" "length cs < 4294967295" shows "string_at (put_bytes a (cs @ [0]) m) a cs"
proof -
  have at: "put_bytes a (cs @ [0]) m (a + of_nat i) = (cs @ [0]) ! i" if "i \<le> length cs" for i
    using that assms(2) unat_of_nat32 [of i] by (simp add: put_bytes_def)
  have "cs ! i \<noteq> 0" if "i < length cs" for i using assms(1) nth_mem [OF that] by metis
  then show ?thesis using at by (simp add: string_at_def nth_append)
qed

lemma dump_line_printed:
  assumes "string_apart buf 128 (mem k) format fs" "render strs fs ap = Some res"
    and "\<And>p cs. strs p = Some cs \<Longrightarrow> string_apart buf 128 (mem k) p cs" and res: "0 \<notin> set res" "length res < 128"
  obtains k' where "dump_line buf format ap k = Some k'" "printed buf k res k'"
proof -
  let ?m = "put_bytes buf (res @ [0]) (mem k)"
  have "vsnprintf buf 128 format ap (mem k) = Some (of_nat (length res), put_bytes buf (take (unat (128 :: u32) - 1) res @ [0]) (mem k))"
    by (rule vsnprintf_render [where strs = strs]) (use assms in simp_all)
  then have "vsnprintf buf 128 format ap (mem k) = Some (of_nat (length res), ?m)" using res(2) by simp
  moreover have "string_at (mem (k\<lparr>mem := ?m\<rparr>)) buf res" using put_bytes_string res by simp
  ultimately have "dump_line buf format ap k = Some (uart_puts res (k\<lparr>mem := ?m\<rparr>))"
    by (simp add: dump_line_def snprintf_def uart_write_puts)
  moreover have "?m b = mem k b" if "b \<notin> region buf 128" for b
    using that res(2) by (simp add: put_bytes_def region_def)
  then have "printed buf k res (uart_puts res (k\<lparr>mem := ?m\<rparr>))"
    unfolding printed_def uart_puts_def by (intro exI [of _ ?m]) simp
  ultimately show thesis by (rule that)
qed

section \<open>Hexadecimal numbers\<close>

abbreviation hex :: "u32 \<Rightarrow> u8 list" where
  "hex v \<equiv> printed_number 16 lower_digits v"

lemma number_length: "n < b ^ Suc d \<Longrightarrow> 2 \<le> b \<Longrightarrow> length (number b ds n) \<le> Suc d"
proof (induction d arbitrary: n)
  case 0
  then show ?case by (simp add: number.simps)
next
  case (Suc d)
  show ?case
  proof (cases "n < b")
    case False
    have "n div b < b ^ Suc d" using Suc.prems by (simp add: less_mult_imp_div_less mult.commute)
    then have "length (number b ds (n div b)) \<le> Suc d" using Suc by blast
    then show ?thesis using False Suc.prems(2) by (subst number.simps) simp
  qed (simp add: number.simps)
qed

lemma number_digits: "2 \<le> b \<Longrightarrow> b \<le> length ds \<Longrightarrow> set (number b ds n) \<subseteq> set ds"
proof (induction n rule: less_induct)
  case (less n)
  have "n mod b < b" using less.prems by simp
  then have "n mod b < length ds" using less.prems(2) by (rule less_le_trans)
  then show ?case using less
    by (cases "n < b") (auto simp: number.simps [of b ds n] dest!: less.IH [of "n div b", THEN subsetD])
qed

lemma hex_line: "length (hex v) \<le> 8" "0 \<notin> set (hex v)"
proof -
  have "unat v < 16 ^ Suc 7" using unat_u32_lt [of v] by simp
  then show "length (hex v) \<le> 8" using number_length [of "unat v" 16 7 lower_digits] by (simp add: printed_number_def)
  have "set (hex v) \<subseteq> set lower_digits"
    unfolding printed_number_def by (rule number_digits) (simp_all add: lower_digits_def ascii_def)
  moreover have "0 \<notin> set lower_digits" by (simp add: lower_digits_def ascii_def)
  ultimately show "0 \<notin> set (hex v)" by blast
qed

section \<open>The dump\<close>

text \<open>What the handler prints: \<open>ws\<close> are the eight stacked words, \<open>cur\<close> the name and stack pointer of the current task.\<close>

definition dump_exc :: "u32 \<Rightarrow> u8 list" where
  "dump_exc lr = ascii ''EXC_RETURN=0x'' @ hex lr @ [10]"

definition dump_frame :: "u32 \<Rightarrow> u8 list" where
  "dump_frame sp = ascii ''Stack frame @ 0x'' @ hex sp @ [10]"

definition dump_low :: "u32 list \<Rightarrow> u8 list" where
  "dump_low ws = ascii ''R0='' @ hex (ws ! 0) @ ascii '' R1='' @ hex (ws ! 1) @ ascii '' R2='' @ hex (ws ! 2) @ ascii '' R3='' @ hex (ws ! 3) @ [10]"

definition dump_high :: "u32 list \<Rightarrow> u8 list" where
  "dump_high ws = ascii ''R12='' @ hex (ws ! 4) @ ascii '' LR='' @ hex (ws ! 5) @ ascii '' PC='' @ hex (ws ! 6) @ ascii '' xPSR='' @ hex (ws ! 7) @ [10]"

definition dump_status :: "fault_status \<Rightarrow> u8 list" where
  "dump_status f = ascii ''CFSR=0x'' @ hex (SCB_CFSR f) @ ascii '' HFSR=0x'' @ hex (SCB_HFSR f) @
     ascii '' MMFAR=0x'' @ hex (SCB_MMFAR f) @ ascii '' BFAR=0x'' @ hex (SCB_BFAR f) @ [10]"

definition dump_task :: "u8 list \<Rightarrow> u32 \<Rightarrow> u8 list" where
  "dump_task name sp = ascii ''Current task: '' @ name @ [10] @ ascii '' SP(0x'' @ hex sp @ ascii '')'' @ [10]"

definition dump_text :: "u32 \<Rightarrow> u32 \<Rightarrow> u32 list \<Rightarrow> fault_status \<Rightarrow> (u8 list \<times> u32) option \<Rightarrow> u8 list" where
  "dump_text lr stacked ws f cur = ascii ''HARD FAULT!'' @ [10] @ dump_exc lr @
     (if stacked = 0 then [] else dump_frame stacked @ dump_low ws @ dump_high ws) @ dump_status f @
     (case cur of None \<Rightarrow> ascii ''No current task'' @ [10] | Some (name, sp) \<Rightarrow> dump_task name sp)"

text \<open>The literals of the handler, where the compiler put them.\<close>

definition dump_formats :: "dump_layout \<Rightarrow> memory \<Rightarrow> bool" where
  "dump_formats d m \<longleftrightarrow>
     string_apart (dump_buf d) 128 m (fmt_exc d) (ascii ''EXC_RETURN=0x%lx'' @ [10]) \<and>
     string_apart (dump_buf d) 128 m (fmt_frame d) (ascii ''Stack frame @ %p'' @ [10]) \<and>
     string_apart (dump_buf d) 128 m (fmt_low d) (ascii ''R0=%lx R1=%lx R2=%lx R3=%lx'' @ [10]) \<and>
     string_apart (dump_buf d) 128 m (fmt_high d) (ascii ''R12=%lx LR=%lx PC=%lx xPSR=%lx'' @ [10]) \<and>
     string_apart (dump_buf d) 128 m (fmt_status d) (ascii ''CFSR=0x%lx HFSR=0x%lx MMFAR=0x%lx BFAR=0x%lx'' @ [10]) \<and>
     string_apart (dump_buf d) 128 m (fmt_task d) (ascii ''Current task: %s'' @ [10] @ ascii '' SP(%p)'' @ [10])"

lemma dump_renders:
  "render Map.empty (ascii ''EXC_RETURN=0x%lx'' @ [10]) [lr] = Some (dump_exc lr)"
  "render Map.empty (ascii ''Stack frame @ %p'' @ [10]) [sp] = Some (dump_frame sp)"
  "render Map.empty (ascii ''R0=%lx R1=%lx R2=%lx R3=%lx'' @ [10]) (take 4 [w0, w1, w2, w3, w4, w5, w6, w7]) = Some (dump_low [w0, w1, w2, w3, w4, w5, w6, w7])"
  "render Map.empty (ascii ''R12=%lx LR=%lx PC=%lx xPSR=%lx'' @ [10]) (drop 4 [w0, w1, w2, w3, w4, w5, w6, w7]) = Some (dump_high [w0, w1, w2, w3, w4, w5, w6, w7])"
  "render Map.empty (ascii ''CFSR=0x%lx HFSR=0x%lx MMFAR=0x%lx BFAR=0x%lx'' @ [10]) [SCB_CFSR f, SCB_HFSR f, SCB_MMFAR f, SCB_BFAR f] = Some (dump_status f)"
  "p \<noteq> 0 \<Longrightarrow> strs p = Some name \<Longrightarrow> render strs (ascii ''Current task: %s'' @ [10] @ ascii '' SP(%p)'' @ [10]) [p, sp] = Some (dump_task name sp)"
  by (simp_all add: ascii_def conversion_def dump_exc_def dump_frame_def dump_low_def dump_high_def dump_status_def dump_task_def)

lemma dump_lines:
  "0 \<notin> set (dump_exc lr)" "length (dump_exc lr) < 128" "0 \<notin> set (dump_frame sp)" "length (dump_frame sp) < 128"
  "0 \<notin> set (dump_low ws)" "length (dump_low ws) < 128" "0 \<notin> set (dump_high ws)" "length (dump_high ws) < 128"
  "0 \<notin> set (dump_status f)" "length (dump_status f) < 128"
  "0 \<notin> set name \<Longrightarrow> 0 \<notin> set (dump_task name sp)" "length name \<le> 15 \<Longrightarrow> length (dump_task name sp) < 128"
  using hex_line(1) [of lr] hex_line(1) [of sp] hex_line(1) [of "ws ! 0"] hex_line(1) [of "ws ! 1"] hex_line(1) [of "ws ! 2"]
    hex_line(1) [of "ws ! 3"] hex_line(1) [of "ws ! 4"] hex_line(1) [of "ws ! 5"] hex_line(1) [of "ws ! 6"] hex_line(1) [of "ws ! 7"]
    hex_line(1) [of "SCB_CFSR f"] hex_line(1) [of "SCB_HFSR f"] hex_line(1) [of "SCB_MMFAR f"] hex_line(1) [of "SCB_BFAR f"]
  by (simp_all add: ascii_def hex_line(2) dump_exc_def dump_frame_def dump_low_def dump_high_def dump_status_def dump_task_def)

lemma string_no_zero: "string_apart a n m s cs \<Longrightarrow> 0 \<notin> set cs"
  using string_apart_nz by (metis in_set_conv_nth)

lemma printed_apart: "printed buf k cs k' \<Longrightarrow> string_apart buf 128 (mem k) s xs \<Longrightarrow> string_apart buf 128 (mem k') s xs"
  using string_apart_cong printed_mem by metis

lemma dump_formatsD:
  assumes "dump_formats d (mem k)" "printed (dump_buf d) k cs k'"
  shows "dump_formats d (mem k')"
  using assms printed_apart [OF assms(2)] by (simp add: dump_formats_def)

text \<open>A line without strings, between two states of the dump.\<close>

lemma dump_next:
  assumes "printed buf k0 cs k" "string_apart buf 128 (mem k) format fs" "render Map.empty fs ap = Some res" "0 \<notin> set res" "length res < 128"
  obtains k' where "dump_line buf format ap k = Some k'" "printed buf k0 (cs @ res) k'"
  using dump_line_printed [OF assms(2,3) _ assms(4,5)] printed_trans [OF assms(1)] by (metis option.distinct(1))

text \<open>The stacked words are outside the buffer.\<close>

lemma printed_words:
  assumes "printed buf k cs k'" "region a 32 \<inter> region buf 128 = {}" shows "words_at (mem k') a 8 = words_at (mem k) a 8"
  using assms(2) by (intro words_at_cong printed_mem [OF assms(1)]) auto

lemma stacked_words:
  "words_at m a 8 = [load32 m a, load32 m (a + 4), load32 m (a + 8), load32 m (a + 12), load32 m (a + 16),
     load32 m (a + 20), load32 m (a + 24), load32 m (a + 28)]"
  by (simp add: words_at_def upt_rec)

lemma dump_stack:
  assumes p: "printed buf k0 cs k" and f: "dump_formats d (mem k0)" "buf = dump_buf d" and fr: "region sp 32 \<inter> region buf 128 = {}"
  obtains k' where "(do {
      k \<leftarrow> dump_line buf (fmt_frame d) [sp] k;
      k \<leftarrow> dump_line buf (fmt_low d) [load32 (mem k) sp, load32 (mem k) (sp + 4), load32 (mem k) (sp + 8), load32 (mem k) (sp + 12)] k;
      dump_line buf (fmt_high d) [load32 (mem k) (sp + 16), load32 (mem k) (sp + 20), load32 (mem k) (sp + 24), load32 (mem k) (sp + 28)] k
    }) = Some k'"
    "printed buf k0 (cs @ dump_frame sp @ dump_low (words_at (mem k0) sp 8) @ dump_high (words_at (mem k0) sp 8)) k'"
proof -
  note fmt = f(1) [unfolded dump_formats_def, folded f(2)]
  let ?ws = "words_at (mem k0) sp 8"
  obtain k1 where k1: "dump_line buf (fmt_frame d) [sp] k = Some k1" "printed buf k0 (cs @ dump_frame sp) k1"
    by (rule dump_next [OF p printed_apart [OF p] dump_renders(2) dump_lines(3,4)]) (use fmt in blast)
  have w1: "words_at (mem k1) sp 8 = ?ws" by (rule printed_words [OF k1(2) fr])
  obtain k2 where k2: "dump_line buf (fmt_low d) (take 4 ?ws) k1 = Some k2" "printed buf k0 ((cs @ dump_frame sp) @ dump_low ?ws) k2"
    unfolding stacked_words
    by (rule dump_next [OF k1(2) printed_apart [OF k1(2)] dump_renders(3) dump_lines(5,6)]) (use fmt in blast)
  have w2: "words_at (mem k2) sp 8 = ?ws" by (rule printed_words [OF k2(2) fr])
  obtain k3 where k3: "dump_line buf (fmt_high d) (drop 4 ?ws) k2 = Some k3"
    "printed buf k0 (((cs @ dump_frame sp) @ dump_low ?ws) @ dump_high ?ws) k3"
    unfolding stacked_words
    by (rule dump_next [OF k2(2) [unfolded stacked_words] printed_apart [OF k2(2)] dump_renders(4) dump_lines(7,8)]) (use fmt in blast)
  show thesis
    using k1(1) k2(1) [folded w1] k3(1) [folded w2] k3(2) by (intro that [of k3]) (simp_all add: stacked_words)
qed

lemma dump_current:
  assumes p: "printed buf k0 cs k" and f: "dump_formats d (mem k0)" "buf = dump_buf d"
    and n: "string_apart buf 128 (mem k0) a name" "length name \<le> 15" "a \<noteq> 0"
  obtains k' where "dump_line buf (fmt_task d) [a, sp] k = Some k'" "printed buf k0 (cs @ dump_task name sp) k'"
proof -
  have z: "0 \<notin> set name" by (rule string_no_zero [OF n(1)])
  obtain k' where "dump_line buf (fmt_task d) [a, sp] k = Some k'" "printed buf k (dump_task name sp) k'"
  proof (rule dump_line_printed)
    show "string_apart buf 128 (mem k) (fmt_task d) (ascii ''Current task: %s'' @ [10] @ ascii '' SP(%p)'' @ [10])"
      using f printed_apart [OF p] by (simp only: dump_formats_def)
    show "render [a \<mapsto> name] (ascii ''Current task: %s'' @ [10] @ ascii '' SP(%p)'' @ [10]) [a, sp] = Some (dump_task name sp)"
      by (rule dump_renders(6)) (use n in simp_all)
    show "string_apart buf 128 (mem k) q xs" if "[a \<mapsto> name] q = Some xs" for q xs
      using that printed_apart [OF p n(1)] by (simp split: if_splits)
  qed (use dump_lines(11,12) n z in blast)+
  then show thesis using that printed_trans [OF p] by blast
qed

text \<open>
  The handler returns from every line.  If the eight words at \<open>stacked\<close> do not overlap the buffer, the handler
  prints every line of the dump in full, the longest of them fits the 128 bytes of the buffer, and it changes
  no other memory and no other state.  This says what is printed, not that it is the frame of the fault: LR is
  read after the call of \<open>uart_write\<close> has left a return address in it, and MSP after the prologue has moved it, so
  that \<open>stacked\<close> need not be where the processor pushed the registers.
\<close>

theorem fault_dump_complete:
  assumes f: "dump_formats d (mem k)" and fr: "region stacked 32 \<inter> region (dump_buf d) 128 = {}"
    and st: "stacked = (if lr AND 4 = 0 then msp else psp)"
    and nm: "\<And>t. current_task k = Some t \<Longrightarrow> string_apart (dump_buf d) 128 (mem k) (tcb_name_addr k t) (name t) \<and>
      length (name t) \<le> 15 \<and> tcb_name_addr k t \<noteq> 0"
  shows "\<exists>k'. Default_Handler d lr msp psp s k = Some k' \<and>
    uart_out k' = uart_out k @ crlf (dump_text lr stacked (words_at (mem k) stacked 8) s
      (map_option (\<lambda>t. (name t, stack_pointer (tcb_pool k t))) (current_task k))) \<and>
    (\<forall>b. b \<notin> region (dump_buf d) 128 \<longrightarrow> mem k' b = mem k b) \<and> k'\<lparr>mem := mem k, uart_out := uart_out k\<rparr> = k"
proof -
  let ?b = "dump_buf d" and ?ws = "words_at (mem k) stacked 8" and ?k0 = "uart_puts (ascii ''HARD FAULT!'' @ [10]) k"
  note fmt = f [unfolded dump_formats_def]
  have p0: "printed ?b k (ascii ''HARD FAULT!'' @ [10]) ?k0" by (rule printed_puts)
  obtain k1 where k1: "dump_line ?b (fmt_exc d) [lr] ?k0 = Some k1" "printed ?b k ((ascii ''HARD FAULT!'' @ [10]) @ dump_exc lr) k1"
    by (rule dump_next [OF p0 printed_apart [OF p0] dump_renders(1) dump_lines(1,2)]) (use fmt in blast)
  let ?frame = "if stacked = 0 then [] else dump_frame stacked @ dump_low ?ws @ dump_high ?ws"
  obtain k2 where k2: "(if stacked \<noteq> 0 then do {
      k \<leftarrow> dump_line ?b (fmt_frame d) [stacked] k1;
      k \<leftarrow> dump_line ?b (fmt_low d) [load32 (mem k) stacked, load32 (mem k) (stacked + 4), load32 (mem k) (stacked + 8), load32 (mem k) (stacked + 12)] k;
      dump_line ?b (fmt_high d) [load32 (mem k) (stacked + 16), load32 (mem k) (stacked + 20), load32 (mem k) (stacked + 24), load32 (mem k) (stacked + 28)] k
    } else Some k1) = Some k2" "printed ?b k (((ascii ''HARD FAULT!'' @ [10]) @ dump_exc lr) @ ?frame) k2"
    by (cases "stacked = 0") (use k1(2) dump_stack [OF k1(2) f refl fr] in auto)
  obtain k3 where k3: "dump_line ?b (fmt_status d) [SCB_CFSR s, SCB_HFSR s, SCB_MMFAR s, SCB_BFAR s] k2 = Some k3"
    "printed ?b k ((((ascii ''HARD FAULT!'' @ [10]) @ dump_exc lr) @ ?frame) @ dump_status s) k3"
    by (rule dump_next [OF k2(2) printed_apart [OF k2(2)] dump_renders(5) dump_lines(9,10)]) (use fmt in blast)
  note same = printed_same [OF k3(2)]
  let ?text = "dump_text lr stacked ?ws s (map_option (\<lambda>t. (name t, stack_pointer (tcb_pool k t))) (current_task k))"
  have "\<exists>k'. Default_Handler d lr msp psp s k = Some k' \<and> printed ?b k ?text k'"
  proof (cases "current_task k")
    case None
    have "printed ?b k ?text (uart_puts (ascii ''No current task'' @ [10]) k3)"
      using printed_trans [OF k3(2) printed_puts] None by (simp add: dump_text_def del: ascii_def)
    then show ?thesis using k1(1) k2(1) k3(1) same(2) None
      by (simp add: Default_Handler_def scheduler_get_current_def Let_def st [symmetric])
  next
    case (Some t)
    obtain k4 where k4: "dump_line ?b (fmt_task d) [tcb_name_addr k t, stack_pointer (tcb_pool k t)] k3 = Some k4"
      "printed ?b k (((((ascii ''HARD FAULT!'' @ [10]) @ dump_exc lr) @ ?frame) @ dump_status s) @
        dump_task (name t) (stack_pointer (tcb_pool k t))) k4"
      by (rule dump_current [OF k3(2) f refl]) (use nm [OF Some] in auto)
    then have "printed ?b k ?text k4" using Some by (simp add: dump_text_def del: ascii_def)
    then show ?thesis using k1(1) k2(1) k3(1) k4(1) same Some
      by (simp add: Default_Handler_def scheduler_get_current_def Let_def st [symmetric])
  qed
  then show ?thesis by (auto simp: printed_def)
qed

text \<open>A fault of the task \<open>Idle\<close>: LR holds a return address, whose bit 2 happens to be clear.\<close>

definition demo_layout :: dump_layout where
  "demo_layout = \<lparr>dump_buf = 0x2001FF00, fmt_exc = 0x08000000, fmt_frame = 0x08000100, fmt_low = 0x08000200,
     fmt_high = 0x08000300, fmt_status = 0x08000400, fmt_task = 0x08000500\<rparr>"

definition demo_literals :: memory where
  "demo_literals =
     put_bytes 0x08000000 (ascii ''EXC_RETURN=0x%lx'' @ [10, 0]) (put_bytes 0x08000100 (ascii ''Stack frame @ %p'' @ [10, 0])
     (put_bytes 0x08000200 (ascii ''R0=%lx R1=%lx R2=%lx R3=%lx'' @ [10, 0])
     (put_bytes 0x08000300 (ascii ''R12=%lx LR=%lx PC=%lx xPSR=%lx'' @ [10, 0])
     (put_bytes 0x08000400 (ascii ''CFSR=0x%lx HFSR=0x%lx MMFAR=0x%lx BFAR=0x%lx'' @ [10, 0])
     (put_bytes 0x08000500 (ascii ''Current task: %s'' @ [10] @ ascii '' SP(%p)'' @ [10, 0])
     (put_bytes 0x20000010 (ascii ''Idle'') (\<lambda>_. 0)))))))"

definition demo_fault :: kernel where
  "demo_fault = demo_boot\<lparr>mem := demo_literals, current_task := Some 0\<rparr>"

lemma region_apart:
  "unat a + n \<le> unat b \<or> unat b + l \<le> unat a \<Longrightarrow> unat a + n \<le> 4294967296 \<Longrightarrow> unat b + l \<le> 4294967296 \<Longrightarrow>
   region (a :: u32) n \<inter> region b l = {}"
  using region_disjoint [of "unat a" n "unat b" l] region_disjoint [of "unat b" l "unat a" n] unat_u32_lt [of a] unat_u32_lt [of b]
  by (auto simp: Int_commute)

lemma demo_fault_texts:
  "dump_formats demo_layout (mem demo_fault)" "string_apart 0x2001FF00 128 (mem demo_fault) 0x20000010 (ascii ''Idle'')"
  unfolding dump_formats_def string_apart_def
  by (intro conjI region_apart; simp add: ascii_def demo_layout_def demo_fault_def demo_literals_def put_bytes_def)+

theorem fault_dump_complete_witness:
  "\<exists>k'. Default_Handler demo_layout 0x08004129 0x2001FE00 0x20009000 \<lparr>SCB_CFSR = 0x8200, SCB_HFSR = 0, SCB_MMFAR = 0, SCB_BFAR = 0x40\<rparr> demo_fault = Some k' \<and>
     uart_out k' = crlf (dump_text 0x08004129 0x2001FE00 (replicate 8 0) \<lparr>SCB_CFSR = 0x8200, SCB_HFSR = 0, SCB_MMFAR = 0, SCB_BFAR = 0x40\<rparr>
       (Some (ascii ''Idle'', 0)))"
proof -
  have w: "words_at (mem demo_fault) 0x2001FE00 8 = replicate 8 0"
  proof -
    have "replicate 8 (0 :: u32) = [0, 0, 0, 0, 0, 0, 0, 0]" by (simp add: numeral_eq_Suc)
    then show ?thesis by (simp add: stacked_words demo_fault_def demo_literals_def put_bytes_def load32_def ascii_def)
  qed
  have k: "uart_out demo_fault = []" "current_task demo_fault = Some 0" "tcb_name_addr demo_fault 0 = 0x20000010"
    "stack_pointer (tcb_pool demo_fault 0) = 0" "dump_buf demo_layout = 0x2001FF00"
    by (simp_all add: demo_fault_def demo_boot_def boot_kernel_def tcb_name_addr_def demo_linker_def zero_tcb_def demo_layout_def)
  have fr: "region 0x2001FE00 32 \<inter> region (dump_buf demo_layout) 128 = {}" unfolding k by (rule region_apart) simp_all
  have n: "string_apart (dump_buf demo_layout) 128 (mem demo_fault) (tcb_name_addr demo_fault t) (ascii ''Idle'') \<and>
      length (ascii ''Idle'') \<le> 15 \<and> tcb_name_addr demo_fault t \<noteq> 0" if "current_task demo_fault = Some t" for t
    using that demo_fault_texts(2) k by (simp del: ascii_def) (simp add: ascii_def)
  show ?thesis
    using fault_dump_complete [OF demo_fault_texts(1) fr _ n, of "0x08004129" "0x2001FE00" "0x20009000"] by (auto simp: w k simp del: ascii_def)
qed

end
