(* ===== verification/Stubs.thy ===== *)
theory Stubs
  imports Calls
begin

text \<open>
  \<open>kernel/syscall_stubs.c\<close>, an earlier set of wrappers that the build does not use.  \<open>z_impl_sem_take\<close> and
  \<open>z_impl_mutex_lock\<close>, which it declares, exist nowhere in the repository: they are parameters.
\<close>

section \<open>The wrappers\<close>

definition stub_k_uart_write :: "u32 \<Rightarrow> kernel \<Rightarrow> api option" where
  "stub_k_uart_write s k =
     (if port_is_privileged k then do { k \<leftarrow> uart_write s k; Some (Called (Return 0) k) }
      else Some (Trapped SYSCALL_UART_WRITE s 0 0 0))"

definition stub_task_delay :: "u32 \<Rightarrow> kernel \<Rightarrow> api option" where
  "stub_task_delay n k =
     (if port_is_privileged k then Some (Called (Return 0) (z_impl_task_delay n k))
      else Some (Trapped SYSCALL_DELAY n 0 0 0))"

definition stub_queue_create :: "u32 \<Rightarrow> u32 \<Rightarrow> kernel \<Rightarrow> api option" where
  "stub_queue_create item_size num_items k =
     (if port_is_privileged k then do {
        (q, k) \<leftarrow> z_impl_queue_create item_size num_items k;
        if q = 0 then Some (Called (Return KOBJ_INVALID) k)
        else let (h, k) = k_obj_alloc q KOBJ_QUEUE k in Some (Called (Return h) k)
      }
      else Some (Trapped SYSCALL_QUEUE_CREATE item_size num_items 0 0))"

definition stub_queue_push :: "u32 \<Rightarrow> u32 \<Rightarrow> u32 \<Rightarrow> kernel \<Rightarrow> api option" where
  "stub_queue_push handle item timeout_ms k =
     (if port_is_privileged k then
        let (q, k) = k_obj_get handle KOBJ_QUEUE k in
        if q = 0 then Some (Called (Return (- 1)) k)
        else do { (r, k) \<leftarrow> z_impl_queue_push q item timeout_ms k; Some (Called r k) }
      else Some (Trapped SYSCALL_QUEUE_SEND handle item timeout_ms 0))"

definition stub_queue_pop :: "u32 \<Rightarrow> u32 \<Rightarrow> u32 \<Rightarrow> kernel \<Rightarrow> api option" where
  "stub_queue_pop handle item timeout_ms k =
     (if port_is_privileged k then
        let (q, k) = k_obj_get handle KOBJ_QUEUE k in
        if q = 0 then Some (Called (Return (- 1)) k)
        else do { (r, k) \<leftarrow> z_impl_queue_pop q item timeout_ms k; Some (Called r k) }
      else Some (Trapped SYSCALL_QUEUE_RECV handle item timeout_ms 0))"

definition stub_sem_create :: "u32 \<Rightarrow> kernel \<Rightarrow> api option" where
  "stub_sem_create initial_count k =
     (if port_is_privileged k then do {
        (s, k) \<leftarrow> z_impl_sem_create initial_count k;
        if s = 0 then Some (Called (Return KOBJ_INVALID) k)
        else let (h, k) = k_obj_alloc s KOBJ_SEM k in Some (Called (Return h) k)
      }
      else Some (Trapped SYSCALL_SEM_CREATE initial_count 0 0 0))"

definition stub_sem_give :: "u32 \<Rightarrow> kernel \<Rightarrow> api option" where
  "stub_sem_give handle k =
     (if port_is_privileged k then
        let (s, k) = k_obj_get handle KOBJ_SEM k in
        if s \<noteq> 0 then do { k \<leftarrow> z_impl_sem_give s k; Some (Called (Return 0) k) }
        else Some (Called (Return 0) k)
      else Some (Trapped SYSCALL_SEM_POST handle 0 0 0))"

definition stub_sem_take :: "(u32 \<Rightarrow> kernel \<Rightarrow> (call \<times> kernel) option) \<Rightarrow> u32 \<Rightarrow> kernel \<Rightarrow> api option" where
  "stub_sem_take z_impl_sem_take handle k =
     (if port_is_privileged k then
        let (s, k) = k_obj_get handle KOBJ_SEM k in
        if s \<noteq> 0 then do { (r, k) \<leftarrow> z_impl_sem_take s k; Some (Called r k) }
        else Some (Called (Return 0) k)
      else Some (Trapped SYSCALL_SEM_WAIT handle 0 0 0))"

definition stub_mutex_create :: "kernel \<Rightarrow> api option" where
  "stub_mutex_create k =
     (if port_is_privileged k then do {
        (m, k) \<leftarrow> z_impl_mutex_create k;
        if m = 0 then Some (Called (Return KOBJ_INVALID) k)
        else let (h, k) = k_obj_alloc m KOBJ_MUTEX k in Some (Called (Return h) k)
      }
      else Some (Trapped SYSCALL_MUTEX_CREATE 0 0 0 0))"

definition stub_mutex_lock :: "(u32 \<Rightarrow> kernel \<Rightarrow> (call \<times> kernel) option) \<Rightarrow> u32 \<Rightarrow> kernel \<Rightarrow> api option" where
  "stub_mutex_lock z_impl_mutex_lock handle k =
     (if port_is_privileged k then
        let (m, k) = k_obj_get handle KOBJ_MUTEX k in
        if m \<noteq> 0 then do { (r, k) \<leftarrow> z_impl_mutex_lock m k; Some (Called r k) }
        else Some (Called (Return 0) k)
      else Some (Trapped SYSCALL_MUTEX_LOCK handle 0 0 0))"

definition stub_mutex_unlock :: "u32 \<Rightarrow> kernel \<Rightarrow> api option" where
  "stub_mutex_unlock handle k =
     (if port_is_privileged k then
        let (m, k) = k_obj_get handle KOBJ_MUTEX k in
        if m \<noteq> 0 then do { k \<leftarrow> z_impl_mutex_unlock m k; Some (Called (Return 0) k) }
        else Some (Called (Return 0) k)
      else Some (Trapped SYSCALL_MUTEX_UNLOCK handle 0 0 0))"

section \<open>Against the wrappers in use\<close>

text \<open>Nine of the eleven are the wrappers of \<open>syscall_api.c\<close> again.\<close>

lemma stubs_agree:
  "stub_k_uart_write = k_uart_write" "stub_task_delay = task_delay" "stub_queue_create = queue_create"
  "stub_queue_push = queue_push" "stub_queue_pop = queue_pop" "stub_sem_create = sem_create" "stub_sem_give = sem_give"
  "stub_mutex_create = mutex_create" "stub_mutex_unlock = mutex_unlock"
  by (intro ext, simp add: stub_k_uart_write_def k_uart_write_def stub_task_delay_def task_delay_def stub_queue_create_def queue_create_def
      stub_queue_push_def queue_push_def stub_queue_pop_def queue_pop_def stub_sem_create_def sem_create_def stub_sem_give_def sem_give_def
      stub_mutex_create_def mutex_create_def stub_mutex_unlock_def mutex_unlock_def)+

text \<open>
  The other two are meant to block and trap without a timeout, which the worker reads as a poll: on an
  empty semaphore, or a mutex of another task, the caller is answered at once with \<open>-1\<close>, which the void
  functions drop, and goes on without it.
\<close>

lemma stubs_poll:
  assumes user: "\<not> port_is_privileged k" and w: "wi_id w = i" "wi_arg0 w = a0" "wi_arg1 w = a1" "wi_caller w = Some t" and p: "p \<noteq> 0"
  shows "stub_sem_take f h k = Some (Trapped i a0 a1 a2 a3) \<Longrightarrow> k_obj_get h KOBJ_SEM k1 = (p, k1) \<Longrightarrow>
      sems k1 p = Some s \<Longrightarrow> sint (sem_count s) \<le> 0 \<Longrightarrow> dispatch w k1 = Some (complete (Some t) (- 1) k1)"
    "stub_mutex_lock g h k = Some (Trapped i a0 a1 a2 a3) \<Longrightarrow> k_obj_get h KOBJ_MUTEX k1 = (p, k1) \<Longrightarrow>
      mutexes k1 p = Some m \<Longrightarrow> mtx_owner m \<notin> {None, Some t} \<Longrightarrow> dispatch w k1 = Some (complete (Some t) (- 1) k1)"
  using user w p
  by (auto simp: stub_sem_take_def stub_mutex_lock_def dispatch_def dispatch_sem_wait_def dispatch_mutex_lock_def
      z_impl_sem_try_take_timeout_def z_impl_mutex_try_lock_timeout_def enter_critical_def exit_critical_def not_less)

end
