(* ===== verification/Spec2Isabelle.thy ===== *)
theory Spec2Isabelle
  imports Alloc_Contract Kobject Sched_Props Queue_Fifo Queue_Create Task_Delete Task_Delay Mpu Syscall Snprintf Boot
    Typing Ownership Isolation Demo Faults Stubs
begin

text \<open>
  \<^bold>\<open>Verification of the CREST kernel\<close>

  CREST is a preemptive kernel for a 32-bit Cortex-M4 (board STM32F446).  Tasks of eight priorities share
  the processor; they use semaphores, mutexes and data queues, either by calling the kernel directly while
  they are privileged, or by a trap once they have dropped to unprivileged mode.  A trap puts a request
  into a ring; a worker task of priority 0 takes requests from the ring and runs the same primitives.
  The kernel heap, a table of handles, the scheduler's lists, the tick, the memory protection unit and the
  switch of context are shared by all of it.  The development models that code operation by operation and
  proves each component correct, then composes the components into one step relation and proves its
  invariant from reset on.

  \<^bold>\<open>The state.\<close>  The record \<open>kernel\<close> of \<open>Kernel_State\<close> holds every static variable of the kernel, the
  registers the code touches (PRIMASK, CONTROL, the pending bit of PendSV, the MPU), byte memory and the
  output of the console.  Structs that are reached only through typed pointers are tables: TCBs by their
  index in \<open>tcb_pool\<close>, semaphores, mutexes and queues by their address.  What the code reads or writes
  through untyped pointers is in byte memory: heap headers, stacks and their frames, the names of tasks,
  queue buffers and strings.  A store through an untyped pointer therefore reaches byte memory and nothing else:
  that it could overwrite a TCB, the ring, the handle table or an object, which are tables, is outside the
  model (see below).  Words are \<open>32 word\<close> with the wrap-around of the machine.  The
  addresses the linker chooses are fields of \<open>linker\<close>, so that every property holds for each layout
  its hypotheses name.

  \<^bold>\<open>The theories\<close>, in the order of the code, each with the properties of its component:

  \<^item> \<open>Prelude\<close>, \<open>Libc\<close>, \<open>Snprintf\<close>: words and byte memory; \<open>memset\<close>, \<open>memcpy\<close>, \<open>strncpy\<close> and
    \<open>vsnprintf\<close> of \<open>kernel/libc_stubs.c\<close>.  \<open>vsnprintf\<close> is proved to stay inside its buffer and to
    produce the text a reference renderer gives, cut off at the buffer's end.
  \<^item> \<open>Alloc\<close>, \<open>Alloc_Refine\<close>, \<open>Alloc_Contract\<close>, \<open>Alloc_Frame\<close>: \<open>kernel/alloc.c\<close> and \<open>kernel/user_alloc.c\<close>.
    The free list in byte memory refines an abstract list of blocks with first fit and merging; the
    contract of an allocator is the locale \<open>allocator\<close>, and both heaps are interpretations of it.
  \<^item> \<open>Kobject\<close>: \<open>kernel/kobject.c\<close>, handles with a generation, as the locale \<open>handle_table\<close>; how long
    a stale handle stays invalid.
  \<^item> \<open>Wait_List\<close>, \<open>Sched\<close>, \<open>Sched_Lists\<close>, \<open>Sched_Ops\<close>, \<open>Sched_Tick\<close>, \<open>Sched_Props\<close>: \<open>kernel/sched.c\<close>.
    The lists in the TCBs are related to lists of tasks, \<open>sched_wf\<close> and \<open>wait_wf\<close>; the choice of the next
    task, its fairness, insertion and removal, and what one tick does to every task and wait list.
  \<^item> \<open>Blocking\<close>, \<open>Semaphore\<close>, \<open>Mutex\<close>: \<open>kernel/semaphore.c\<close> and \<open>kernel/mutex.c\<close>.  The two
    disciplines of queueing (semaphores and mutexes push to the front, data queues append) are
    interpretations of the locale \<open>wait_discipline\<close>.
  \<^item> \<open>Ring\<close>, \<open>Queue\<close>, \<open>Queue_Fifo\<close>, \<open>Queue_Create\<close>: \<open>kernel/queue.c\<close>.  A ring buffer with its items in
    memory is an interpretation of the locale \<open>bounded_fifo\<close>, as is the ring of the worker.
  \<^item> \<open>Task\<close>, \<open>Task_Props\<close>, \<open>Task_Create\<close>, \<open>Task_Delete\<close>, \<open>Task_Delay\<close>: \<open>kernel/task.c\<close>.
  \<^item> \<open>Kwork\<close>, \<open>Kwork_Props\<close>: \<open>kernel/kwork.c\<close>, the ring, the dispatch of every request and the worker's loop.
  \<^item> \<open>Syscall\<close>: the wrappers of \<open>kernel/syscall_api.c\<close>, the trap of \<open>arch/arm/cortex-m4/port.c\<close> and
    the SVC handler of \<open>arch/arm/cortex-m4/syscall.c\<close>; both ways into the kernel agree.
  \<^item> \<open>Stubs\<close>: \<open>kernel/syscall_stubs.c\<close>, which the build leaves out, against the wrappers in use.
  \<^item> \<open>Uart\<close>, \<open>Port\<close>, \<open>Mpu\<close>, \<open>Context\<close>: the console, the protection unit, the privilege
    level, PendSV and the first task (\<open>port.c\<close>, \<open>context_switch.c\<close>, \<open>boards/stm32f446/uart.c\<close>).  \<open>Mpu\<close> reads
    the programmed registers as the architecture defines them and says what a task may access.
  \<^item> \<open>Board\<close>, \<open>Faults\<close>: the boot loader, the vector table, the reset handlers and the tick of
    \<open>boards/stm32f446\<close>, \<open>main\<close> of \<open>src/main.c\<close>, the handler of memory faults and the dump of the others.
  \<^item> \<open>Wakeups\<close>, \<open>Calls\<close>, \<open>System\<close>, \<open>Boot\<close>: the composition and its invariant from reset on.
  \<^item> \<open>Views\<close>, \<open>Typing\<close>, \<open>Ownership\<close>, \<open>Isolation\<close>: three properties of the composition.  The locale
    \<open>kernel_view\<close> is the contract of a function of the state that scheduling leaves alone, and \<open>object_view\<close>
    extends it to functions of the objects only; their lemmas follow every step of the system once, and are
    interpreted for the types of objects, the owners of mutexes and the protection of the current task.
  \<^item> \<open>Demo\<close>: the demonstration tasks of \<open>src/main.c\<close>, \<open>task_producer\<close>, \<open>task_consumer\<close>,
    \<open>task_mpu_probe\<close> and \<open>idle_task\<close>, as programs that run on the system.

  \<^bold>\<open>Control flow.\<close>  An operation is a function from a state to a result and a state.  A call that blocks
  is cut at \<open>port_trigger_pendsv()\<close>: the part before it ends in \<open>Suspend\<close>, the part that runs when
  the task is resumed is a function of its own (\<open>timed_resume\<close>, \<open>queue_push_resume\<close>, \<open>queue_pop_resume\<close>).
  A run that dereferences a null pointer, divides by zero or does not end has the value \<open>None\<close>; loops that are
  not structural are \<open>partial_function (option)\<close>, so that a property that gives a value proves the end of the
  loop, and no bound on the number of rounds is chosen.  (The one bound is in \<open>emit_unsigned\<close>, 32
  digits: no 32-bit number has more, in any base from 2 on.)

  \<^bold>\<open>The whole system.\<close>  \<open>System.step\<close> takes one step of the machine: the running task computes, that is
  changes byte memory in any way, prints, drops its privilege, calls, or traps with anything in its registers; the
  worker starts, serves a request or waits; the tick interrupts; a pending switch is taken.  Each operation of
  the kernel is one step: the code runs them with interrupts masked but for short windows between critical
  sections, and interrupts in these windows are not modelled.  \<open>Wakeups\<close> shows once what every operation may do
  to other tasks (\<open>moves\<close>), so that the invariant \<open>kernel_inv\<close> needs one argument for each kind of step.
  The steps do not include creation and deletion of tasks after \<open>main\<close>, and take from \<open>malloc\<close> that a new
  object does not lie on a living one, although the headers of the heap are in byte memory and a step may
  change them.  \<open>Boot\<close> follows \<open>main\<close> from reset and shows that the
  state in which the first task is entered satisfies the invariant, and that the five stacks are aligned and
  apart, so that every reachable state has both.  On the reachable states: \<open>kernel_type_sound\<close>, a handle
  stands for an object of its type, and which requests and calls have a value, under which conditions on
  the heap's headers and on strings; \<open>running_isolated\<close>, the privilege is the one recorded for the current
  task, and what the protection unit lets it write on a layout with an aligned user heap; and for any step,
  \<open>mutex_owned_until_unlock\<close>.  A run of \<open>Demo\<close> is a run of the system, so that \<open>demo_probe_caught\<close> follows from
  isolation, and so does \<open>demo_needs_exposed_data\<close>: isolated, the demonstration cannot publish its handles.

  \<^bold>\<open>Stores into the kernel's data.\<close>  The tables change by the kernel's operations only.  In the program two ways
  lead around that.  With \<open>kernel.ld\<close> the region of the user heap covers the kernel's static data
  (\<open>port.c:147\<close>, \<open>mpu_exposes_kernel_data\<close>), so that an unprivileged task can overwrite a TCB; and the worker follows
  the item pointer of a queue request unchecked and with privilege (\<open>kwork.c:115\<close>), as privileged tasks may
  follow any pointer.  Runs in which such a store hits a table are not runs of the model: what is proved of the
  system holds of the program as long as no store of a task, and no item copied for it, goes to the kernel's
  own data.  On an aligned layout \<open>running_isolated\<close> excludes the first way.

  \<^bold>\<open>Not modelled.\<close>  Linker scripts and build files, and \<open>isr.h\<close>, which only includes \<open>critical.h\<close>.  Barriers have
  no effect in a model of one processor that executes in order; waiting for the transmitter of the
  console is taken to end.  Time is counted in ticks.  The registers \<open>Default_Handler\<close> reads are parameters, since
  its prologue, which the compiler chooses, has changed them.  The local variables of the demonstration
  tasks other than their buffers are in the control point, and their shared variables in a record, not in byte
  memory; reading and assigning them is checked against the protection unit like any other access, while what a task
  keeps in registers and on its own stack is not, except for the buffer of \<open>snprintf\<close>.
\<close>

end
